(* ===== verification/GoPrelude.thy ===== *)
theory GoPrelude
  imports Main "HOL-Library.Word" "HOL-Library.Monad_Syntax"
begin

text \<open>
  What the component theories share: a run-time panic as the value \<open>None\<close> of an option,
  the predicate \<open>ensures\<close> ("does not panic, and the result satisfies Q") with its rules, Go's
  bounds-checked indexing, and the counting loops of the source as folds over integer ranges,
  with the closed forms of the two loops every row operation is made of (copy cells or rows in
  place, fill a range).
\<close>

named_theorems panic_free \<open>rules that an operation does not panic and keeps the invariant\<close>
named_theorems frame_simps \<open>fields an operation leaves unchanged\<close>

section \<open>Panics\<close>

definition ensures :: "'a option \<Rightarrow> ('a \<Rightarrow> bool) \<Rightarrow> bool" where
  "ensures m Q \<longleftrightarrow> (case m of None \<Rightarrow> False | Some x \<Rightarrow> Q x)"

lemma ensures_Some [simp]: "ensures (Some x) Q = Q x"
  by (simp add: ensures_def)

lemma ensures_None [simp]: "\<not> ensures None Q"
  by (simp add: ensures_def)

lemma ensures_bind [simp]: "ensures (m \<bind> f) Q = ensures m (\<lambda>x. ensures (f x) Q)"
  by (cases m) simp_all

lemma ensures_if [simp]:
  "ensures (if b then m else m') Q = ((b \<longrightarrow> ensures m Q) \<and> (\<not> b \<longrightarrow> ensures m' Q))"
  by simp

lemma ensures_Let [simp]: "ensures (Let x f) Q = ensures (f x) Q"
  by simp

lemma ensures_mono: "ensures m P \<Longrightarrow> (\<And>x. P x \<Longrightarrow> Q x) \<Longrightarrow> ensures m Q"
  by (cases m) simp_all

lemma ensures_conj: "ensures m P \<Longrightarrow> ensures m Q \<Longrightarrow> ensures m (\<lambda>x. P x \<and> Q x)"
  by (cases m) simp_all

lemma ensuresD: "ensures m Q \<Longrightarrow> \<exists>x. m = Some x \<and> Q x"
  by (cases m) simp_all

lemma ensuresI: "m = Some x \<Longrightarrow> Q x \<Longrightarrow> ensures m Q"
  by simp

lemma ensures_iff: "ensures m Q \<longleftrightarrow> (\<exists>x. m = Some x \<and> Q x)"
  by (cases m) simp_all

lemma ensures_result: "ensures m Q \<Longrightarrow> m = Some x \<Longrightarrow> Q x"
  by simp

section \<open>Indexing\<close>

text \<open>\<open>xs[i]\<close>, \<open>xs[i] = v\<close> and \<open>xs[a:b]\<close>; an index outside the slice panics.\<close>

definition get_at :: "'a list \<Rightarrow> int \<Rightarrow> 'a option" where
  "get_at xs i = (if 0 \<le> i \<and> i < int (length xs) then Some (xs ! nat i) else None)"

definition set_at :: "'a list \<Rightarrow> int \<Rightarrow> 'a \<Rightarrow> 'a list option" where
  "set_at xs i v = (if 0 \<le> i \<and> i < int (length xs) then Some (xs[nat i := v]) else None)"

definition slice :: "'a list \<Rightarrow> int \<Rightarrow> int \<Rightarrow> 'a list option" where
  "slice xs a b = (if 0 \<le> a \<and> a \<le> b \<and> b \<le> int (length xs)
     then Some (take (nat (b - a)) (drop (nat a) xs)) else None)"

text \<open>\<open>copy(dst[a:b], src)\<close>: as many elements as fit are copied.\<close>

definition go_copy :: "'a list \<Rightarrow> 'a list \<Rightarrow> 'a list" where
  "go_copy dst src = take (length dst) src @ drop (length src) dst"

lemma ensures_get_at [simp]:
  "ensures (get_at xs i) Q \<longleftrightarrow> 0 \<le> i \<and> i < int (length xs) \<and> Q (xs ! nat i)"
  by (auto simp: get_at_def)

lemma ensures_set_at [simp]:
  "ensures (set_at xs i v) Q \<longleftrightarrow> 0 \<le> i \<and> i < int (length xs) \<and> Q (xs[nat i := v])"
  by (auto simp: set_at_def)

lemma ensures_slice [simp]:
  "ensures (slice xs a b) Q \<longleftrightarrow> 0 \<le> a \<and> a \<le> b \<and> b \<le> int (length xs)
     \<and> Q (take (nat (b - a)) (drop (nat a) xs))"
  by (auto simp: slice_def)

lemma get_at_Some: "0 \<le> i \<Longrightarrow> i < int (length xs) \<Longrightarrow> get_at xs i = Some (xs ! nat i)"
  by (simp add: get_at_def)

lemma set_at_Some: "0 \<le> i \<Longrightarrow> i < int (length xs) \<Longrightarrow> set_at xs i v = Some (xs[nat i := v])"
  by (simp add: set_at_def)

lemma length_go_copy [simp]: "length (go_copy dst src) = length dst"
  by (simp add: go_copy_def)

lemma nth_go_copy:
  "i < length dst \<Longrightarrow> go_copy dst src ! i = (if i < length src then src ! i else dst ! i)"
  by (auto simp: go_copy_def nth_append min_def)

lemma set_go_copy: "set (go_copy dst src) \<subseteq> set dst \<union> set src"
  by (auto simp: go_copy_def dest: in_set_takeD in_set_dropD)

section \<open>Loops\<close>

text \<open>
  \<open>for x := lo; x <= hi; x++\<close> runs the body over \<open>[lo..hi]\<close>, the downward loop over its
  reverse, and \<open>for range n\<close> over \<open>[0..n - 1]\<close>, which is empty when \<open>n\<close> is not positive.
\<close>

fun foldM :: "('a \<Rightarrow> 's \<Rightarrow> 's option) \<Rightarrow> 'a list \<Rightarrow> 's \<Rightarrow> 's option" where
  "foldM f [] s = Some s"
| "foldM f (x # xs) s = f x s \<bind> foldM f xs"

definition for_range :: "int \<Rightarrow> ('s \<Rightarrow> 's option) \<Rightarrow> 's \<Rightarrow> 's option" where
  "for_range n f s = foldM (\<lambda>_. f) [0..n - 1] s"

lemma foldM_append: "foldM f (xs @ ys) s = foldM f xs s \<bind> foldM f ys"
proof (induction xs arbitrary: s)
  case Nil
  then show ?case by simp
next
  case (Cons x xs)
  then show ?case by (cases "f x s") simp_all
qed

lemma ensures_foldM:
  assumes "I s" and "\<And>x s. x \<in> set xs \<Longrightarrow> I s \<Longrightarrow> ensures (f x s) I"
  shows "ensures (foldM f xs s) I"
  using assms
proof (induction xs arbitrary: s)
  case Nil
  then show ?case by simp
next
  case (Cons x xs)
  from Cons.prems have "ensures (f x s) I" by simp
  then have "ensures (f x s) (\<lambda>s'. ensures (foldM f xs s') I)"
    by (rule ensures_mono) (use Cons in simp)
  then show ?case by simp
qed

lemma ensures_for_range:
  "I s \<Longrightarrow> (\<And>s. I s \<Longrightarrow> ensures (f s) I) \<Longrightarrow> ensures (for_range n f s) I"
  unfolding for_range_def by (rule ensures_foldM)

text \<open>A loop that stops early when the body says so: the body returns a state and whether to go on.\<close>

fun loopM :: "('s \<Rightarrow> ('s \<times> bool) option) \<Rightarrow> nat \<Rightarrow> 's \<Rightarrow> 's option" where
  "loopM f 0 s = Some s"
| "loopM f (Suc n) s = f s \<bind> (\<lambda>(s', go). if go then loopM f n s' else Some s')"

lemma ensures_loopM:
  assumes "I s" and "\<And>s. I s \<Longrightarrow> ensures (f s) (\<lambda>(s', _). I s')"
  shows "ensures (loopM f n s) I"
  using assms(1)
proof (induction n arbitrary: s)
  case 0
  then show ?case by simp
next
  case (Suc n)
  from assms(2) [OF Suc.prems]
  have "ensures (f s) (\<lambda>x. ensures (case x of (s', go) \<Rightarrow> if go then loopM f n s' else Some s') I)"
    by (rule ensures_mono) (auto simp: Suc.IH)
  then show ?case by simp
qed

section \<open>In-place loops on a slice\<close>

text \<open>
  \<open>copy_loop g xs r\<close> is \<open>for x in xs { r[x] = r[g(x)] }\<close>, \<open>fill_loop xs v r\<close> is
  \<open>for x in xs { r[x] = v }\<close>.
\<close>

definition copy_loop :: "(int \<Rightarrow> int) \<Rightarrow> int list \<Rightarrow> 'a list \<Rightarrow> 'a list option" where
  "copy_loop g xs r = foldM (\<lambda>x r. get_at r (g x) \<bind> set_at r x) xs r"

definition fill_loop :: "int list \<Rightarrow> 'a \<Rightarrow> 'a list \<Rightarrow> 'a list option" where
  "fill_loop xs v r = foldM (\<lambda>x r. set_at r x v) xs r"

definition in_range :: "'a list \<Rightarrow> int \<Rightarrow> bool" where
  "in_range r i \<longleftrightarrow> 0 \<le> i \<and> i < int (length r)"

lemma in_range_update [simp]: "in_range (r[i := v]) = in_range r"
  by (rule ext) (simp add: in_range_def)

lemma fill_loop_eq:
  "\<forall>x \<in> set xs. in_range r x \<Longrightarrow>
   fill_loop xs v r = Some (map (\<lambda>i. if int i \<in> set xs then v else r ! i) [0..<length r])"
proof (induction xs arbitrary: r)
  case Nil
  then show ?case by (simp add: fill_loop_def map_nth)
next
  case (Cons x xs)
  let ?r = "r[nat x := v]"
  have x: "0 \<le> x" "x < int (length r)" using Cons.prems by (auto simp: in_range_def)
  have "fill_loop (x # xs) v r = fill_loop xs v ?r"
    using x by (simp add: fill_loop_def set_at_Some)
  also have "\<dots> = Some (map (\<lambda>i. if int i \<in> set xs then v else ?r ! i) [0..<length ?r])"
    by (rule Cons.IH) (use Cons.prems in simp)
  also have "\<dots> = Some (map (\<lambda>i. if int i \<in> set (x # xs) then v else r ! i) [0..<length r])"
    using x by (auto simp: nth_list_update)
  finally show ?case .
qed

text \<open>
  The copying loop equals the simultaneous copy when no position is read after it was written:
  this is what makes the direction of the loop right.
\<close>

lemma copy_loop_eq:
  assumes "\<forall>x \<in> set xs. in_range r x \<and> in_range r (g x)"
    and "distinct xs"
    and "\<forall>i < length xs. \<forall>j < i. g (xs ! i) \<noteq> xs ! j"
  shows "copy_loop g xs r
    = Some (map (\<lambda>i. if int i \<in> set xs then r ! nat (g (int i)) else r ! i) [0..<length r])"
  using assms
proof (induction xs arbitrary: r)
  case Nil
  then show ?case by (simp add: copy_loop_def map_nth)
next
  case (Cons x xs)
  let ?r = "r[nat x := r ! nat (g x)]"
  have rng: "0 \<le> x" "x < int (length r)" "0 \<le> g x" "g x < int (length r)"
    using Cons.prems(1) by (auto simp: in_range_def)
  have later: "g y \<noteq> x" if y: "y \<in> set xs" for y
  proof -
    from y obtain i where i: "i < length xs" "xs ! i = y" by (auto simp: in_set_conv_nth)
    with Cons.prems(3) have "g ((x # xs) ! Suc i) \<noteq> (x # xs) ! 0" by (metis length_Cons
      Suc_less_eq zero_less_Suc)
    with i show ?thesis by simp
  qed
  have IH: "copy_loop g xs ?r
      = Some (map (\<lambda>i. if int i \<in> set xs then ?r ! nat (g (int i)) else ?r ! i) [0..<length ?r])"
  proof (rule Cons.IH)
    show "\<forall>y \<in> set xs. in_range ?r y \<and> in_range ?r (g y)" using Cons.prems(1) by simp
    show "distinct xs" using Cons.prems(2) by simp
    show "\<forall>i < length xs. \<forall>j < i. g (xs ! i) \<noteq> xs ! j"
    proof (intro allI impI)
      fix i j assume "i < length xs" "j < i"
      then show "g (xs ! i) \<noteq> xs ! j" using Cons.prems(3) by (metis Suc_less_eq length_Cons nth_Cons_Suc)
    qed
  qed
  have pt: "(if int i \<in> set xs then ?r ! nat (g (int i)) else ?r ! i)
      = (if int i \<in> set (x # xs) then r ! nat (g (int i)) else r ! i)" if "i < length r" for i
  proof (cases "int i \<in> set xs")
    case True
    with Cons.prems(1) have "in_range r (g (int i))" by simp
    with later [OF True] rng True show ?thesis by (auto simp: in_range_def nth_list_update nat_eq_iff)
  next
    case False
    with rng that show ?thesis by (auto simp: nth_list_update)
  qed
  have "copy_loop g (x # xs) r = copy_loop g xs ?r"
    using rng by (simp add: copy_loop_def get_at_Some set_at_Some)
  with IH pt show ?case by simp
qed

text \<open>The two directions the code uses.\<close>

lemma upto_nth: "i < length [a..b] \<Longrightarrow> [a..b] ! i = a + int i"
  by (simp add: nth_upto)

lemma copy_loop_up:
  assumes "0 \<le> lo" and "hi + n < int (length r)" and "0 < n"
  shows "copy_loop (\<lambda>x. x + n) [lo..hi] r
    = Some (map (\<lambda>i. if lo \<le> int i \<and> int i \<le> hi then r ! (i + nat n) else r ! i) [0..<length r])"
proof -
  have "copy_loop (\<lambda>x. x + n) [lo..hi] r
    = Some (map (\<lambda>i. if int i \<in> set [lo..hi] then r ! nat (int i + n) else r ! i) [0..<length r])"
    by (rule copy_loop_eq) (use assms in \<open>auto simp: in_range_def upto_nth nth_upto\<close>)
  with assms show ?thesis by (simp add: nat_add_distrib)
qed

lemma copy_loop_down:
  assumes "0 \<le> lo - n" and "hi < int (length r)" and "0 < n"
  shows "copy_loop (\<lambda>x. x - n) (rev [lo..hi]) r
    = Some (map (\<lambda>i. if lo \<le> int i \<and> int i \<le> hi then r ! (i - nat n) else r ! i) [0..<length r])"
proof -
  have "copy_loop (\<lambda>x. x - n) (rev [lo..hi]) r
    = Some (map (\<lambda>i. if int i \<in> set (rev [lo..hi]) then r ! nat (int i - n) else r ! i) [0..<length r])"
    by (rule copy_loop_eq) (use assms in \<open>auto simp: in_range_def rev_nth nth_upto\<close>)
  with assms show ?thesis by (simp add: nat_diff_distrib)
qed

lemma fill_loop_range:
  assumes "0 \<le> lo" and "hi < int (length r)"
  shows "fill_loop [lo..hi] v r
    = Some (map (\<lambda>i. if lo \<le> int i \<and> int i \<le> hi then v else r ! i) [0..<length r])"
  by (subst fill_loop_eq) (use assms in \<open>auto simp: in_range_def\<close>)

lemma ensures_copy_loop:
  assumes "\<And>x. x \<in> set xs \<Longrightarrow> in_range r x \<and> in_range r (g x)"
  shows "ensures (copy_loop g xs r) (\<lambda>r'. length r' = length r \<and> set r' \<subseteq> set r)"
  unfolding copy_loop_def
proof (rule ensures_foldM)
  fix x r' assume x: "x \<in> set xs" and r': "length r' = length r \<and> set r' \<subseteq> set r"
  then have "nat (g x) < length r'" using assms [OF x] by (simp add: in_range_def nat_less_iff)
  then have "r' ! nat (g x) \<in> set r'" by (rule nth_mem)
  with r' have "set (r'[nat x := r' ! nat (g x)]) \<subseteq> set r"
    using set_update_subset_insert [of r' "nat x" "r' ! nat (g x)"] by blast
  with r' assms [OF x] show "ensures (get_at r' (g x) \<bind> set_at r' x)
      (\<lambda>r'. length r' = length r \<and> set r' \<subseteq> set r)"
    by (simp add: in_range_def)
qed simp

lemma ensures_fill_loop:
  assumes "\<And>x. x \<in> set xs \<Longrightarrow> in_range r x"
  shows "ensures (fill_loop xs v r) (\<lambda>r'. length r' = length r \<and> set r' \<subseteq> insert v (set r))"
  unfolding fill_loop_def
  by (rule ensures_foldM)
     (use assms in \<open>auto simp: in_range_def dest!: set_update_subset_insert [THEN subsetD]\<close>)

section \<open>Bytes\<close>

lemma uint_byte_of_int: "0 \<le> i \<Longrightarrow> i < 256 \<Longrightarrow> uint (word_of_int i :: 8 word) = i"
  by (simp add: unsigned_of_int take_bit_int_eq_self_iff)

lemma uint_byte_div [simp]: "0 \<le> uint (b :: 8 word) div numeral k"
  by (simp add: pos_imp_zdiv_nonneg_iff)

section \<open>Splitting\<close>

text \<open>\<^verbatim>\<open>strings.Split\<close> and \<^verbatim>\<open>strings.Cut\<close> with a separator of one byte.\<close>

fun splitOn :: "'a \<Rightarrow> 'a list \<Rightarrow> 'a list list" where
  "splitOn c [] = [[]]"
| "splitOn c (x # xs) = (if x = c then [] # splitOn c xs
     else case splitOn c xs of [] \<Rightarrow> [[x]] | w # ws \<Rightarrow> (x # w) # ws)"

fun cutAt :: "'a \<Rightarrow> 'a list \<Rightarrow> 'a list \<times> 'a list \<times> bool" where
  "cutAt c [] = ([], [], False)"
| "cutAt c (x # xs) = (if x = c then ([], xs, True)
     else case cutAt c xs of (a, b, ok) \<Rightarrow> (x # a, b, ok))"

lemma splitOn_Cons: "\<exists>w ws. splitOn c xs = w # ws"
  by (induction xs) (auto split: list.splits)

lemma splitOn_nonempty [simp]: "splitOn c xs \<noteq> []"
  using splitOn_Cons [of c xs] by auto

lemma splitOn_no_sep: "\<forall>w \<in> set (splitOn c xs). c \<notin> set w"
  by (induction xs) (auto split: list.splits)

lemma cutAt_parts: "cutAt c xs = (a, b, ok) \<Longrightarrow>
    c \<notin> set a \<and> xs = (if ok then a @ c # b else a) \<and> (\<not> ok \<longrightarrow> b = [])"
  by (induction xs arbitrary: a b ok) (auto split: if_splits prod.splits)

lemma cutAt_append: "c \<notin> set a \<Longrightarrow> cutAt c (a @ c # b) = (a, b, True)"
  by (induction a) auto

lemma cutAt_none: "c \<notin> set a \<Longrightarrow> cutAt c a = (a, [], False)"
  by (induction a) auto

section \<open>Identifiers shared by the session layer\<close>

text \<open>An unsigned 64-bit counter or index, and the identity of a WebSocket connection.\<close>

type_synonym u64 = "64 word"
type_synonym sock = nat

lemma u64_bound: "unat (w :: u64) < 2 ^ 64"
proof -
  have "unat w < 2 ^ LENGTH(64)" by (rule unsigned_less)
  then show ?thesis by simp
qed

lemma u64_add: "unat (a :: u64) + n < 2 ^ 64 \<Longrightarrow> unat (a + of_nat n) = unat a + n"
  by (simp add: unat_word_ariths unat_of_nat)

section \<open>Systems of atomic steps\<close>

text \<open>
  A component whose operations run under a lock is a set of atomic steps; what holds in every
  interleaving is an invariant of the step relation.
\<close>

locale step_system =
  fixes start :: "'s \<Rightarrow> bool" and step :: "'s \<Rightarrow> 's \<Rightarrow> bool" and inv :: "'s \<Rightarrow> bool"
  assumes start_inv: "start s \<Longrightarrow> inv s" and step_inv: "step s t \<Longrightarrow> inv s \<Longrightarrow> inv t"
begin

lemma steps_inv: "rtranclp step s t \<Longrightarrow> inv s \<Longrightarrow> inv t"
  by (induction rule: rtranclp_induct) (auto intro: step_inv)

lemma reachable_inv: "start s \<Longrightarrow> rtranclp step s t \<Longrightarrow> inv t"
  using steps_inv start_inv by blast

text \<open>What one step from a state satisfying the invariant keeps, every run keeps.\<close>

lemma steps_keep:
  assumes "\<And>u v. inv u \<Longrightarrow> step u v \<Longrightarrow> P u \<Longrightarrow> P v"
  shows "rtranclp step s t \<Longrightarrow> inv s \<Longrightarrow> P s \<Longrightarrow> P t"
  by (induction rule: rtranclp_induct) (use assms steps_inv in blast)+

end

end
