(* ===== verification/Contract.thy ===== *)
theory Contract
  imports GoPrelude
begin

text \<open>
  The contract every operation of the screen meets: from a state that satisfies the invariant it
  does not panic, the invariant holds again, and the old and the new state are related by a
  preorder (what the operation must not change). The rules compose the contract over the program
  constructs of the model.
\<close>

locale contract =
  fixes inv :: "'s \<Rightarrow> bool" and keeps :: "'s \<Rightarrow> 's \<Rightarrow> bool"
  assumes keeps_refl: "keeps s s"
    and keeps_trans: "keeps s t \<Longrightarrow> keeps t u \<Longrightarrow> keeps s u"
begin

definition ok :: "'s \<Rightarrow> 's \<Rightarrow> bool" where
  "ok s t \<longleftrightarrow> inv t \<and> keeps s t"

lemma ok_refl: "inv s \<Longrightarrow> ok s s"
  by (simp add: ok_def keeps_refl)

lemma ok_inv: "ok s t \<Longrightarrow> inv t"
  by (simp add: ok_def)

lemma ok_trans: "ok s t \<Longrightarrow> ok t u \<Longrightarrow> ok s u"
  using keeps_trans by (auto simp: ok_def)

text \<open>Weaken the start state of a postcondition along an earlier step.\<close>

lemma after: "ok s t \<Longrightarrow> ensures m (ok t) \<Longrightarrow> ensures m (ok s)"
  by (erule ensures_mono) (rule ok_trans)

lemma seq: "ensures m (ok s) \<Longrightarrow> (\<And>t. ok s t \<Longrightarrow> ensures (f t) (ok t)) \<Longrightarrow> ensures (m \<bind> f) (ok s)"
  unfolding ensures_bind by (erule ensures_mono) (blast intro: after)

lemma ok_foldM:
  assumes "inv s" and "\<And>x t. x \<in> set xs \<Longrightarrow> inv t \<Longrightarrow> ensures (f x t) (ok t)"
  shows "ensures (foldM f xs s) (ok s)"
  by (rule ensures_foldM) (use assms ok_refl ok_inv in \<open>auto intro: after\<close>)

lemma ok_for_range:
  assumes "inv s" and "\<And>t. inv t \<Longrightarrow> ensures (f t) (ok t)"
  shows "ensures (for_range n f s) (ok s)"
  unfolding for_range_def by (rule ok_foldM) (use assms in auto)

lemma ok_if: "(b \<Longrightarrow> ensures m (ok s)) \<Longrightarrow> (\<not> b \<Longrightarrow> ensures m' (ok s)) \<Longrightarrow>
    ensures (if b then m else m') (ok s)"
  by simp

lemma total: "ensures m (ok s) \<Longrightarrow> \<exists>t. m = Some t \<and> inv t"
  by (auto simp: ensures_iff ok_def)

end

end
