(* ===== verification/VtTypes.thy ===== *)
theory VtTypes
  imports Main "HOL-Library.Word"
begin

text \<open>
  The data of the package vt as \<^verbatim>\<open>src/vt/types.go\<close>, \<^verbatim>\<open>src/vt/charset.go\<close>,
  \<^verbatim>\<open>src/vt/kitty.go\<close> and \<^verbatim>\<open>src/vt/screen.go\<close> declare it. Go's struct embedding
  is record extension: a \<open>screen\<close> is an alt-screen state, which is a cursor state, which is a
  charset state, which is a parser state, so every operation reads and writes the promoted
  fields by their Go names. A Go \<open>[]byte\<close> or string is a list of 8-bit words, a rune and
  an \<open>int\<close> are HOL integers, a slice or map for which nil and empty differ is an option.
\<close>

section \<open>Base types\<close>

type_synonym byte = "8 word"
type_synonym u16 = "16 word"
type_synonym rune = int

text \<open>A Go string literal is written with HOL's character strings.\<close>

definition str :: "string \<Rightarrow> byte list" where
  "str cs = map of_char cs"

abbreviation chr :: "char \<Rightarrow> byte" where
  "chr c \<equiv> of_char c"

lemma of_char_byte_eq: "(of_char c :: byte) = of_char d \<longleftrightarrow> c = d"
proof
  have u: "unat (of_char x :: byte) = of_char x" for x
  proof -
    have "unat (of_char x :: byte) = unat (of_nat (of_char x) :: byte)"
      by (simp only: of_nat_of_char)
    also have "\<dots> = of_char x mod 2 ^ LENGTH(8)" by (rule unat_of_nat)
    also have "\<dots> = of_char x" using nat_of_char_less_256 [of x] by simp
    finally show ?thesis .
  qed
  assume "(of_char c :: byte) = of_char d"
  then have "unat (of_char c :: byte) = unat (of_char d :: byte)" by (rule arg_cong)
  then show "c = d" unfolding u by simp
qed simp

lemma str_eq_iff: "str a = str b \<longleftrightarrow> a = b"
proof -
  have "inj (of_char :: char \<Rightarrow> byte)" by (rule injI) (simp add: of_char_byte_eq)
  then show ?thesis by (simp add: str_def inj_map_eq_map)
qed

section \<open>Styles and cells\<close>

record color =
  cType :: byte
  cVal :: byte
  cR :: byte
  cG :: byte
  cB :: byte

definition noColor :: color where
  "noColor = \<lparr>cType = 0, cVal = 0, cR = 0, cG = 0, cB = 0\<rparr>"

record sgr_style =
  FG :: color
  BG :: color
  UnderlineColor :: color
  Bold :: bool
  Dim :: bool
  Italic :: bool
  Underline :: bool
  DoubleUnderline :: bool
  Overline :: bool
  Blink :: bool
  Inverse :: bool
  Strikethrough :: bool
  Hidden :: bool

definition noStyle :: sgr_style where
  "noStyle = \<lparr>FG = noColor, BG = noColor, UnderlineColor = noColor, Bold = False, Dim = False,
     Italic = False, Underline = False, DoubleUnderline = False, Overline = False, Blink = False,
     Inverse = False, Strikethrough = False, Hidden = False\<rparr>"

record theme_t =
  Foreground :: int
  Background :: int
  CursorColor :: int

record title_entry =
  te_icon :: "byte list"
  te_window :: "byte list"

record cell =
  Hyperlink :: "byte list"
  Ch :: rune
  Style :: sgr_style
  Protected :: bool
  IsoProtected :: bool

text \<open>The cell literal \<^verbatim>\<open>Cell{Ch: c, Style: st}\<close>, its other fields zero.\<close>

definition plainCell :: "rune \<Rightarrow> sgr_style \<Rightarrow> cell" where
  "plainCell c st = \<lparr>Hyperlink = [], Ch = c, Style = st, Protected = False, IsoProtected = False\<rparr>"

definition blankCell_bg :: "color \<Rightarrow> cell" where
  "blankCell_bg bg = plainCell 0x20 (noStyle\<lparr>BG := bg\<rparr>)"

section \<open>Wire runs\<close>

record wire_run =
  wT :: "rune list"
  wU :: "byte list"
  wF :: int
  wB :: int
  wUc :: int
  wA :: u16

section \<open>Parser state\<close>

datatype parserState =
    stGround | stEscape | stEscapeIntermediate | stCsiEntry | stCsiParam | stCsiIntermediate
  | stCsiIgnore | stDcsEntry | stDcsParam | stDcsIntermediate | stDcsPassthrough | stDcsIgnore
  | stOscString | stSosPmApcString

datatype dcsFunction = dcsNone | dcsDecrqss | dcsXTGetTcap | dcsIgnored

definition maxOSCLen :: nat where "maxOSCLen = 4096"
definition maxParams :: int where "maxParams = 32"
definition maxIntermed :: int where "maxIntermed = 2"
definition maxDCSLen :: nat where "maxDCSLen = 256"

record parser_state =
  oscBuf :: "byte list"
  dcsBuf :: "byte list"
  utf8Buf :: "byte list"
  pParams :: "u16 list"
  pGroupLen :: "int list"
  numParams :: int
  numGroups :: int
  curParam :: u16
  pIntermed :: "byte list"
  numInterm :: int
  utf8Len :: int
  utf8Got :: int
  pState :: parserState
  dcsFunc :: dcsFunction
  ignoring :: bool
  privateMarker :: byte
  oscOverflow :: bool
  dcsOverflow :: bool

section \<open>Character sets\<close>

datatype charset = charsetASCII | charsetGraphic | charsetUK

record charset_state = parser_state +
  gsets :: "charset list"
  gl :: int
  singleShft :: int

section \<open>Cursor\<close>

record saved_cursor =
  sc_style :: sgr_style
  sc_charsets :: "charset list"
  sc_x :: int
  sc_y :: int
  sc_gl :: int
  sc_origin :: bool
  sc_pendingWrap :: bool
  sc_protected :: bool
  sc_valid :: bool

record cursor_state = charset_state +
  style :: sgr_style
  mainSaved :: saved_cursor
  altSaved :: saved_cursor
  curY :: int
  curX :: int

section \<open>Alternate screen\<close>

record alt_screen_state = cursor_state +
  savedMainCells :: "cell list list option"
  savedMainWrapped :: "bool list"
  altCells :: "cell list list option"
  savedMainCurX :: int
  savedMainCurY :: int
  savedMainScrollTop :: int
  savedMainScrollBottom :: int
  savedMainStyle :: sgr_style
  InAltScreen :: bool

section \<open>Keyboard protocol and program status\<close>

record kbd_protocol =
  kb_stack :: "byte list"
  kb_flags :: byte

record program_record =
  pr_state :: "byte list"
  pr_kind :: "byte list"
  pr_app :: "byte list"
  pr_touched :: nat
  pr_progress :: int

record program_shown =
  ps_id :: "byte list"
  ps_state :: "byte list"
  ps_kind :: "byte list"
  ps_ok :: bool

record program_status =
  ps_records :: "(byte list \<times> program_record) list"
  ps_shown :: program_shown
  ps_seq :: nat
  ps_occurrence :: nat
  ps_reported :: bool
  ps_exited :: bool

section \<open>The screen\<close>

record environment =
  nowNanos :: int
  unicodeMark :: "rune \<Rightarrow> bool"
  unsafeSingleLine :: "rune \<Rightarrow> bool"
  liftForContrast :: "int \<Rightarrow> int \<Rightarrow> int"

record screen = alt_screen_state +
  env :: environment
  FlushHoldUntil :: int
  ansiModeState :: "(int \<times> bool) list"
  paletteOverride :: "(byte \<times> int) list option"
  dynColors :: "(int \<times> int) list"
  specialColors :: "(int \<times> int) list"
  program :: program_status
  decModeState :: "(int \<times> bool) list"
  savedModeValues :: "(int \<times> bool) list"
  Title :: "byte list"
  iconTitle :: "byte list"
  hyperlink :: "byte list"
  Notification :: "byte list"
  tabStops :: "bool list option"
  Drained :: "wire_run list list"
  drainedWrapped :: "bool list"
  Cells :: "cell list list"
  wrapped :: "bool list"
  drainTail :: "rune list list"
  pendingClipboard :: "byte list"
  selectionData :: "byte list"
  response :: "byte list"
  titleStack :: "title_entry list"
  mainKbd :: kbd_protocol
  altKbd :: kbd_protocol
  linesPerScreen :: int
  scrollTop :: int
  conformanceLevel :: int
  linesPerPage :: int
  scrollBottom :: int
  leftMargin :: int
  rightMargin :: int
  Height :: int
  Width :: int
  Progress :: int
  ProgressValue :: int
  NotificationSeq :: nat
  theme :: theme_t
  lastPrintedRune :: rune
  MouseMode :: int
  lastPrintedStyle :: sgr_style
  OriginMode :: bool
  noClearOnColumn :: bool
  titleSetHex :: bool
  titleQueryHex :: bool
  CursorBlink :: bool
  AutoWrap :: bool
  CursorStyle :: int
  bellRing :: bool
  scrollbackCleared :: bool
  MouseSGR :: bool
  FocusReporting :: bool
  AppKeypad :: bool
  ReverseVideo :: bool
  pendingWrap :: bool
  AppCursorKeys :: bool
  InsertMode :: bool
  LRMarginMode :: bool
  MousePixels :: bool
  LineFeedNewLine :: bool
  ReverseWrap :: bool
  curIsoProtected :: bool
  CursorHidden :: bool
  BracketedPaste :: bool
  allow80To132 :: bool
  curProtected :: bool
  moreFix :: bool
  AllowScreenReport :: bool
  paletteChanged :: bool

end
