(* ===== verification/ParserTable.thy ===== *)
theory ParserTable
  imports VtTypes
begin

text \<open>
  The transition table of \<^verbatim>\<open>src/vt/table.go\<close>. \<open>init\<close> fills a [14][256] array by a
  fixed sequence of writes, later writes winning; the model performs the same writes, in the
  same order, on a function from states and bytes to entries, where \<open>None\<close> is the sentinel
  \<^verbatim>\<open>noTransition\<close>. A transition, packed into a uint16 in Go, is the pair of its action
  and its next state.
\<close>

section \<open>Actions and transitions\<close>

datatype action =
    actNone | actPrint | actExecute | actClear | actCollect | actParam | actSubparam
  | actEscDispatch | actCsiDispatch | actHook | actPut | actUnhook | actOscStart | actOscPut
  | actOscEnd | actIgnore | actMarker

type_synonym transition = "action \<times> parserState"

definition mkT :: "action \<Rightarrow> parserState \<Rightarrow> transition" where
  "mkT act next = (act, next)"

type_synonym table = "parserState \<Rightarrow> int \<Rightarrow> transition option"

definition setRange :: "parserState \<Rightarrow> int \<Rightarrow> int \<Rightarrow> transition \<Rightarrow> table \<Rightarrow> table" where
  "setRange s lo hi t T = (\<lambda>s' b. if s' = s \<and> lo \<le> b \<and> b \<le> hi then Some t else T s' b)"

definition setOne :: "parserState \<Rightarrow> int \<Rightarrow> transition \<Rightarrow> table \<Rightarrow> table" where
  "setOne s b t T = (\<lambda>s' b'. if s' = s \<and> b' = b then Some t else T s' b')"

text \<open>The C0 block most states open with: 0x00-0x17, 0x19 and 0x1C-0x1F.\<close>

definition setC0 :: "parserState \<Rightarrow> transition \<Rightarrow> table \<Rightarrow> table" where
  "setC0 s t = setRange s 0x1C 0x1F t \<circ> setOne s 0x19 t \<circ> setRange s 0x00 0x17 t"

section \<open>Per-state transitions\<close>

definition buildGround :: "table \<Rightarrow> table" where
  "buildGround T = (let s = stGround;
     T = setC0 s (mkT actExecute s) T;
     T = setOne s 0x18 (mkT actExecute s) T;
     T = setOne s 0x1A (mkT actExecute s) T;
     T = setOne s 0x1B (mkT actNone stEscape) T;
     T = setRange s 0x20 0x7F (mkT actPrint s) T;
     T = setRange s 0x80 0x9F (mkT actPrint s) T
   in setRange s 0xA0 0xFF (mkT actPrint s) T)"

definition buildEscape :: "table \<Rightarrow> table" where
  "buildEscape T = (let s = stEscape;
     T = setC0 s (mkT actExecute s) T;
     T = setRange s 0x20 0x2F (mkT actCollect stEscapeIntermediate) T;
     T = setRange s 0x30 0x4F (mkT actEscDispatch stGround) T;
     T = setRange s 0x51 0x57 (mkT actEscDispatch stGround) T;
     T = setOne s 0x59 (mkT actEscDispatch stGround) T;
     T = setOne s 0x5A (mkT actEscDispatch stGround) T;
     T = setOne s 0x5C (mkT actEscDispatch stGround) T;
     T = setRange s 0x60 0x7E (mkT actEscDispatch stGround) T;
     T = setOne s 0x5B (mkT actNone stCsiEntry) T;
     T = setOne s 0x5D (mkT actNone stOscString) T;
     T = setOne s 0x50 (mkT actNone stDcsEntry) T;
     T = setOne s 0x58 (mkT actNone stSosPmApcString) T;
     T = setOne s 0x5E (mkT actNone stSosPmApcString) T;
     T = setOne s 0x5F (mkT actNone stSosPmApcString) T;
     T = setOne s 0x7F (mkT actNone s) T
   in setRange s 0x80 0xFF (mkT actNone s) T)"

definition buildEscapeIntermediate :: "table \<Rightarrow> table" where
  "buildEscapeIntermediate T = (let s = stEscapeIntermediate;
     T = setC0 s (mkT actExecute s) T;
     T = setRange s 0x20 0x2F (mkT actCollect s) T;
     T = setRange s 0x30 0x7E (mkT actEscDispatch stGround) T;
     T = setOne s 0x7F (mkT actNone s) T
   in setRange s 0x80 0xFF (mkT actNone s) T)"

definition buildCsiEntry :: "table \<Rightarrow> table" where
  "buildCsiEntry T = (let s = stCsiEntry;
     T = setC0 s (mkT actExecute s) T;
     T = setRange s 0x20 0x2F (mkT actCollect stCsiIntermediate) T;
     T = setRange s 0x30 0x39 (mkT actParam stCsiParam) T;
     T = setOne s 0x3B (mkT actParam stCsiParam) T;
     T = setOne s 0x3A (mkT actSubparam stCsiParam) T;
     T = setRange s 0x3C 0x3F (mkT actMarker stCsiParam) T;
     T = setRange s 0x40 0x7E (mkT actCsiDispatch stGround) T;
     T = setOne s 0x7F (mkT actNone s) T
   in setRange s 0x80 0xFF (mkT actNone s) T)"

definition buildCsiParam :: "table \<Rightarrow> table" where
  "buildCsiParam T = (let s = stCsiParam;
     T = setC0 s (mkT actExecute s) T;
     T = setRange s 0x20 0x2F (mkT actCollect stCsiIntermediate) T;
     T = setRange s 0x30 0x39 (mkT actParam s) T;
     T = setOne s 0x3B (mkT actParam s) T;
     T = setOne s 0x3A (mkT actSubparam s) T;
     T = setRange s 0x3C 0x3F (mkT actNone stCsiIgnore) T;
     T = setRange s 0x40 0x7E (mkT actCsiDispatch stGround) T;
     T = setOne s 0x7F (mkT actNone s) T
   in setRange s 0x80 0xFF (mkT actNone s) T)"

definition buildCsiIntermediate :: "table \<Rightarrow> table" where
  "buildCsiIntermediate T = (let s = stCsiIntermediate;
     T = setC0 s (mkT actExecute s) T;
     T = setRange s 0x20 0x2F (mkT actCollect s) T;
     T = setRange s 0x30 0x3F (mkT actNone stCsiIgnore) T;
     T = setRange s 0x40 0x7E (mkT actCsiDispatch stGround) T;
     T = setOne s 0x7F (mkT actNone s) T
   in setRange s 0x80 0xFF (mkT actNone s) T)"

definition buildCsiIgnore :: "table \<Rightarrow> table" where
  "buildCsiIgnore T = (let s = stCsiIgnore;
     T = setC0 s (mkT actExecute s) T;
     T = setRange s 0x20 0x3F (mkT actNone s) T;
     T = setRange s 0x40 0x7E (mkT actNone stGround) T;
     T = setOne s 0x7F (mkT actNone s) T
   in setRange s 0x80 0xFF (mkT actNone s) T)"

definition buildDcsEntry :: "table \<Rightarrow> table" where
  "buildDcsEntry T = (let s = stDcsEntry;
     T = setC0 s (mkT actNone s) T;
     T = setRange s 0x20 0x2F (mkT actCollect stDcsIntermediate) T;
     T = setRange s 0x30 0x39 (mkT actParam stDcsParam) T;
     T = setOne s 0x3B (mkT actParam stDcsParam) T;
     T = setOne s 0x3A (mkT actSubparam stDcsParam) T;
     T = setRange s 0x3C 0x3F (mkT actMarker stDcsParam) T;
     T = setRange s 0x40 0x7E (mkT actNone stDcsPassthrough) T;
     T = setOne s 0x7F (mkT actNone s) T
   in setRange s 0x80 0xFF (mkT actNone s) T)"

definition buildDcsParam :: "table \<Rightarrow> table" where
  "buildDcsParam T = (let s = stDcsParam;
     T = setC0 s (mkT actNone s) T;
     T = setRange s 0x20 0x2F (mkT actCollect stDcsIntermediate) T;
     T = setRange s 0x30 0x39 (mkT actParam s) T;
     T = setOne s 0x3B (mkT actParam s) T;
     T = setOne s 0x3A (mkT actSubparam s) T;
     T = setRange s 0x3C 0x3F (mkT actNone stDcsIgnore) T;
     T = setRange s 0x40 0x7E (mkT actNone stDcsPassthrough) T;
     T = setOne s 0x7F (mkT actNone s) T
   in setRange s 0x80 0xFF (mkT actNone s) T)"

definition buildDcsIntermediate :: "table \<Rightarrow> table" where
  "buildDcsIntermediate T = (let s = stDcsIntermediate;
     T = setC0 s (mkT actNone s) T;
     T = setRange s 0x20 0x2F (mkT actCollect s) T;
     T = setRange s 0x30 0x3F (mkT actNone stDcsIgnore) T;
     T = setRange s 0x40 0x7E (mkT actNone stDcsPassthrough) T;
     T = setOne s 0x7F (mkT actNone s) T
   in setRange s 0x80 0xFF (mkT actNone s) T)"

definition buildDcsPassthrough :: "table \<Rightarrow> table" where
  "buildDcsPassthrough T = (let s = stDcsPassthrough;
     T = setC0 s (mkT actPut s) T;
     T = setRange s 0x20 0x7E (mkT actPut s) T;
     T = setOne s 0x7F (mkT actNone s) T
   in setRange s 0x80 0xFF (mkT actPut s) T)"

definition buildDcsIgnore :: "table \<Rightarrow> table" where
  "buildDcsIgnore T = (let s = stDcsIgnore;
     T = setC0 s (mkT actNone s) T;
     T = setRange s 0x20 0x7F (mkT actNone s) T
   in setRange s 0x80 0xFF (mkT actNone s) T)"

definition buildOscString :: "table \<Rightarrow> table" where
  "buildOscString T = (let s = stOscString;
     T = setRange s 0x00 0x06 (mkT actOscPut s) T;
     T = setOne s 0x07 (mkT actNone stGround) T;
     T = setRange s 0x08 0x17 (mkT actOscPut s) T;
     T = setOne s 0x19 (mkT actOscPut s) T;
     T = setRange s 0x1C 0x1F (mkT actOscPut s) T;
     T = setRange s 0x20 0x7F (mkT actOscPut s) T
   in setRange s 0x80 0xFF (mkT actOscPut s) T)"

definition buildSosPmApcString :: "table \<Rightarrow> table" where
  "buildSosPmApcString T = (let s = stSosPmApcString;
     T = setC0 s (mkT actNone s) T;
     T = setRange s 0x20 0x7F (mkT actNone s) T
   in setRange s 0x80 0xFF (mkT actNone s) T)"

section \<open>The anywhere transitions\<close>

definition allStates :: "parserState list" where
  "allStates = [stGround, stEscape, stEscapeIntermediate, stCsiEntry, stCsiParam,
     stCsiIntermediate, stCsiIgnore, stDcsEntry, stDcsParam, stDcsIntermediate,
     stDcsPassthrough, stDcsIgnore, stOscString, stSosPmApcString]"

definition applyC1 :: "parserState \<Rightarrow> table \<Rightarrow> table" where
  "applyC1 s T = (let
     T = setRange s 0x80 0x8F (mkT actExecute stGround) T;
     T = setOne s 0x90 (mkT actNone stDcsEntry) T;
     T = setRange s 0x91 0x97 (mkT actExecute stGround) T;
     T = setOne s 0x98 (mkT actNone stSosPmApcString) T;
     T = setOne s 0x99 (mkT actExecute stGround) T;
     T = setOne s 0x9A (mkT actExecute stGround) T;
     T = setOne s 0x9B (mkT actNone stCsiEntry) T;
     T = setOne s 0x9C (mkT actNone stGround) T;
     T = setOne s 0x9D (mkT actNone stOscString) T;
     T = setOne s 0x9E (mkT actNone stSosPmApcString) T
   in setOne s 0x9F (mkT actNone stSosPmApcString) T)"

definition applyAnywhere1 :: "parserState \<Rightarrow> table \<Rightarrow> table" where
  "applyAnywhere1 s T = (let
     T = setOne s 0x18 (mkT actExecute stGround) T;
     T = setOne s 0x1A (mkT actExecute stGround) T;
     T = (if s \<noteq> stEscape then setOne s 0x1B (mkT actNone stEscape) T else T)
   in if s = stGround then T
      else if s \<noteq> stDcsPassthrough \<and> s \<noteq> stDcsIgnore \<and> s \<noteq> stOscString \<and> s \<noteq> stSosPmApcString
      then applyC1 s T else T)"

definition applyAnywhere :: "table \<Rightarrow> table" where
  "applyAnywhere T = fold applyAnywhere1 allStates T"

definition builtTable :: table where
  "builtTable = applyAnywhere (buildSosPmApcString (buildOscString (buildDcsIgnore
     (buildDcsPassthrough (buildDcsIntermediate (buildDcsParam (buildDcsEntry (buildCsiIgnore
     (buildCsiIntermediate (buildCsiParam (buildCsiEntry (buildEscapeIntermediate (buildEscape
     (buildGround (\<lambda>_ _. None)))))))))))))))"

text \<open>The completeness pass: a sentinel left over becomes "do nothing and stay".\<close>

definition stateTable :: "parserState \<Rightarrow> byte \<Rightarrow> transition" where
  "stateTable s b = (case builtTable s (uint b) of None \<Rightarrow> mkT actNone s | Some t \<Rightarrow> t)"

definition entryAction :: "parserState \<Rightarrow> action" where
  "entryAction s = (if s = stEscape \<or> s = stCsiEntry \<or> s = stDcsEntry then actClear
     else if s = stOscString then actOscStart
     else if s = stDcsPassthrough then actHook
     else actNone)"

definition exitAction :: "parserState \<Rightarrow> action" where
  "exitAction s = (if s = stOscString then actOscEnd
     else if s = stDcsPassthrough then actUnhook else actNone)"

section \<open>The state diagram the table implements\<close>

text \<open>
  The VT500 diagram with the extensions the source states: a colon separates subparameters, and
  a byte 0x80-0x9F is a C1 control except in Ground and in the four string states, where it is
  text. One line per arrow; the equivalence with the filled array is checked entry by entry.
\<close>

definition isStringState :: "parserState \<Rightarrow> bool" where
  "isStringState s \<longleftrightarrow> s = stDcsPassthrough \<or> s = stDcsIgnore \<or> s = stOscString
     \<or> s = stSosPmApcString"

definition c1Spec :: "int \<Rightarrow> transition" where
  "c1Spec i = (if i = 0x90 then (actNone, stDcsEntry)
     else if i = 0x98 \<or> i = 0x9E \<or> i = 0x9F then (actNone, stSosPmApcString)
     else if i = 0x9B then (actNone, stCsiEntry)
     else if i = 0x9C then (actNone, stGround)
     else if i = 0x9D then (actNone, stOscString)
     else (actExecute, stGround))"

definition paramSpec :: "int \<Rightarrow> action" where
  "paramSpec i = (if i = 0x3A then actSubparam else actParam)"

definition escSpec :: "int \<Rightarrow> transition" where
  "escSpec i = (if i = 0x50 then (actNone, stDcsEntry)
     else if i = 0x58 \<or> i = 0x5E \<or> i = 0x5F then (actNone, stSosPmApcString)
     else if i = 0x5B then (actNone, stCsiEntry)
     else if i = 0x5D then (actNone, stOscString)
     else (actEscDispatch, stGround))"

fun diagram :: "parserState \<Rightarrow> int \<Rightarrow> transition" where
  "diagram stGround i = (if i < 0x20 then (actExecute, stGround) else (actPrint, stGround))"
| "diagram stEscape i = (if i < 0x20 then (actExecute, stEscape)
     else if i < 0x30 then (actCollect, stEscapeIntermediate)
     else if i < 0x7F then escSpec i else (actNone, stEscape))"
| "diagram stEscapeIntermediate i = (if i < 0x20 then (actExecute, stEscapeIntermediate)
     else if i < 0x30 then (actCollect, stEscapeIntermediate)
     else if i < 0x7F then (actEscDispatch, stGround) else (actNone, stEscapeIntermediate))"
| "diagram stCsiEntry i = (if i < 0x20 then (actExecute, stCsiEntry)
     else if i < 0x30 then (actCollect, stCsiIntermediate)
     else if i < 0x3C then (paramSpec i, stCsiParam)
     else if i < 0x40 then (actMarker, stCsiParam)
     else if i < 0x7F then (actCsiDispatch, stGround) else (actNone, stCsiEntry))"
| "diagram stCsiParam i = (if i < 0x20 then (actExecute, stCsiParam)
     else if i < 0x30 then (actCollect, stCsiIntermediate)
     else if i < 0x3C then (paramSpec i, stCsiParam)
     else if i < 0x40 then (actNone, stCsiIgnore)
     else if i < 0x7F then (actCsiDispatch, stGround) else (actNone, stCsiParam))"
| "diagram stCsiIntermediate i = (if i < 0x20 then (actExecute, stCsiIntermediate)
     else if i < 0x30 then (actCollect, stCsiIntermediate)
     else if i < 0x40 then (actNone, stCsiIgnore)
     else if i < 0x7F then (actCsiDispatch, stGround) else (actNone, stCsiIntermediate))"
| "diagram stCsiIgnore i = (if i < 0x20 then (actExecute, stCsiIgnore)
     else if i < 0x40 then (actNone, stCsiIgnore)
     else if i < 0x7F then (actNone, stGround) else (actNone, stCsiIgnore))"
| "diagram stDcsEntry i = (if i < 0x20 then (actNone, stDcsEntry)
     else if i < 0x30 then (actCollect, stDcsIntermediate)
     else if i < 0x3C then (paramSpec i, stDcsParam)
     else if i < 0x40 then (actMarker, stDcsParam)
     else if i < 0x7F then (actNone, stDcsPassthrough) else (actNone, stDcsEntry))"
| "diagram stDcsParam i = (if i < 0x20 then (actNone, stDcsParam)
     else if i < 0x30 then (actCollect, stDcsIntermediate)
     else if i < 0x3C then (paramSpec i, stDcsParam)
     else if i < 0x40 then (actNone, stDcsIgnore)
     else if i < 0x7F then (actNone, stDcsPassthrough) else (actNone, stDcsParam))"
| "diagram stDcsIntermediate i = (if i < 0x20 then (actNone, stDcsIntermediate)
     else if i < 0x30 then (actCollect, stDcsIntermediate)
     else if i < 0x40 then (actNone, stDcsIgnore)
     else if i < 0x7F then (actNone, stDcsPassthrough) else (actNone, stDcsIntermediate))"
| "diagram stDcsPassthrough i =
     (if i = 0x7F then (actNone, stDcsPassthrough) else (actPut, stDcsPassthrough))"
| "diagram stDcsIgnore i = (actNone, stDcsIgnore)"
| "diagram stOscString i = (if i = 0x07 then (actNone, stGround) else (actOscPut, stOscString))"
| "diagram stSosPmApcString i = (actNone, stSosPmApcString)"

definition specTransition :: "parserState \<Rightarrow> int \<Rightarrow> transition" where
  "specTransition s i = (if i = 0x18 \<or> i = 0x1A then (actExecute, stGround)
     else if i = 0x1B then (actNone, stEscape)
     else if 0x80 \<le> i \<and> i \<le> 0x9F \<and> s \<noteq> stGround \<and> \<not> isStringState s then c1Spec i
     else diagram s i)"

definition rowMatches :: "parserState \<Rightarrow> bool" where
  "rowMatches s \<longleftrightarrow> list_all (\<lambda>i. (case builtTable s i of None \<Rightarrow> mkT actNone s | Some t \<Rightarrow> t)
     = specTransition s i) [0..255]"

lemma row_ground: "rowMatches stGround"
  by code_simp

lemma row_escape: "rowMatches stEscape"
  by code_simp

lemma row_escape_intermediate: "rowMatches stEscapeIntermediate"
  by code_simp

lemma row_csi_entry: "rowMatches stCsiEntry"
  by code_simp

lemma row_csi_param: "rowMatches stCsiParam"
  by code_simp

lemma row_csi_intermediate: "rowMatches stCsiIntermediate"
  by code_simp

lemma row_csi_ignore: "rowMatches stCsiIgnore"
  by code_simp

lemma row_dcs_entry: "rowMatches stDcsEntry"
  by code_simp

lemma row_dcs_param: "rowMatches stDcsParam"
  by code_simp

lemma row_dcs_intermediate: "rowMatches stDcsIntermediate"
  by code_simp

lemma row_dcs_passthrough: "rowMatches stDcsPassthrough"
  by code_simp

lemma row_dcs_ignore: "rowMatches stDcsIgnore"
  by code_simp

lemma row_osc_string: "rowMatches stOscString"
  by code_simp

lemma row_sos_pm_apc: "rowMatches stSosPmApcString"
  by code_simp

lemmas rows_match =
  row_ground
  row_escape
  row_escape_intermediate
  row_csi_entry
  row_csi_param
  row_csi_intermediate
  row_csi_ignore
  row_dcs_entry
  row_dcs_param
  row_dcs_intermediate
  row_dcs_passthrough
  row_dcs_ignore
  row_osc_string
  row_sos_pm_apc

lemma byte_in_range: "uint (b :: byte) \<in> set [0..255]"
  using uint_bounded [of b] by simp

lemma stateTable_spec [simp]: "stateTable s b = specTransition s (uint b)"
proof -
  have "rowMatches s" by (cases s) (simp_all only: rows_match)
  then have "\<forall>i \<in> set [0..255]. (case builtTable s i of None \<Rightarrow> mkT actNone s | Some t \<Rightarrow> t)
      = specTransition s i"
    unfolding rowMatches_def list_all_iff .
  with byte_in_range show ?thesis unfolding stateTable_def by blast
qed

end
