(* ===== verification/Params.thy ===== *)
theory Params
  imports GoPrelude ParserTable
begin

text \<open>
  The parameter accumulator of the parser: \<^verbatim>\<open>handleParam\<close>, \<^verbatim>\<open>handleSubparam\<close>,
  \<^verbatim>\<open>pushParam\<close>, \<^verbatim>\<open>finalizeParams\<close>, \<^verbatim>\<open>parserClear\<close>, \<^verbatim>\<open>groupStartIdx\<close>,
  \<^verbatim>\<open>paramGroup\<close> and \<^verbatim>\<open>paramVal\<close> of \<^verbatim>\<open>src/vt/parse.go\<close>. The values of a CSI
  sequence sit in one flat array; a group's length sits in \<open>pGroupLen\<close> at the group's start
  index. The invariant \<open>params_ok\<close> says that this walk is well formed, so no array access
  panics, and \<open>groupsOf\<close> reads the accumulator back as the list of groups it stands for.
\<close>

section \<open>Operations\<close>

definition maxCSIArgValue :: int where "maxCSIArgValue = 65535"

definition groupStartIdx :: "int \<Rightarrow> 'a parser_state_scheme \<Rightarrow> int option" where
  "groupStartIdx g s =
     for_range g (\<lambda>idx. get_at (pGroupLen s) idx \<bind> (\<lambda>n. Some (idx + n))) 0"

text \<open>\<^verbatim>\<open>if s.numGroups > 0 { gStart := ...; s.pGroupLen[gStart]++ }\<close>\<close>

definition bumpGroup :: "'a parser_state_scheme \<Rightarrow> 'a parser_state_scheme option" where
  "bumpGroup s = (if numGroups s > 0 then do {
       gStart \<leftarrow> groupStartIdx (numGroups s - 1) s;
       n \<leftarrow> get_at (pGroupLen s) gStart;
       L \<leftarrow> set_at (pGroupLen s) gStart (n + 1);
       Some (s\<lparr>pGroupLen := L\<rparr>) }
     else Some s)"

definition storeParam :: "'a parser_state_scheme \<Rightarrow> 'a parser_state_scheme option" where
  "storeParam s = do {
     P \<leftarrow> set_at (pParams s) (numParams s) (curParam s);
     bumpGroup (s\<lparr>pParams := P, numParams := numParams s + 1\<rparr>) }"

definition pushParam :: "bool \<Rightarrow> 'a parser_state_scheme \<Rightarrow> 'a parser_state_scheme option" where
  "pushParam newGroup s = (if numParams s \<ge> maxParams then Some (s\<lparr>ignoring := True\<rparr>)
     else do {
       s \<leftarrow> storeParam s;
       s \<leftarrow> Some (s\<lparr>curParam := 0\<rparr>);
       if newGroup \<and> numGroups s < maxParams \<and> numParams s < maxParams then do {
         L \<leftarrow> set_at (pGroupLen s) (numParams s) 0;
         Some (s\<lparr>pGroupLen := L, numGroups := numGroups s + 1\<rparr>) }
       else Some s })"

definition handleParam :: "byte \<Rightarrow> 'a parser_state_scheme \<Rightarrow> 'a parser_state_scheme option" where
  "handleParam b s = (if ignoring s then Some s
     else if b = chr CHR '';'' then pushParam True s
     else let v = min (uint (curParam s) * 10 + uint (b - chr CHR ''0'')) maxCSIArgValue
          in Some (s\<lparr>curParam := word_of_int v\<rparr>))"

definition handleSubparam :: "'a parser_state_scheme \<Rightarrow> 'a parser_state_scheme option" where
  "handleSubparam s = (if ignoring s then Some s else pushParam False s)"

definition finalizeParams :: "'a parser_state_scheme \<Rightarrow> 'a parser_state_scheme option" where
  "finalizeParams s = (if ignoring s then Some s
     else if numParams s \<ge> maxParams then Some s
     else storeParam s)"

definition parserClear :: "'a parser_state_scheme \<Rightarrow> 'a parser_state_scheme option" where
  "parserClear s = do {
     L \<leftarrow> set_at (pGroupLen s) 0 0;
     Some (s\<lparr>numParams := 0, numGroups := 0, curParam := 0, numInterm := 0, ignoring := False,
       privateMarker := 0, pGroupLen := L, numGroups := 1\<rparr>) }"

text \<open>A Go \<^verbatim>\<open>ParamGroup\<close>: the fixed array \<open>Params\<close> of eight values and \<open>Len\<close>.\<close>

record param_group =
  pgParams :: "u16 list"
  pgLen :: int

definition emptyGroup :: param_group where
  "emptyGroup = \<lparr>pgParams = replicate 8 0, pgLen = 0\<rparr>"

text \<open>The walk of \<^verbatim>\<open>paramGroup\<close>: \<open>None\<close> in the result is its early \<^verbatim>\<open>return g\<close>.\<close>

fun groupWalk :: "nat \<Rightarrow> int list \<Rightarrow> int \<Rightarrow> int option option" where
  "groupWalk 0 L idx = Some (if idx \<ge> maxParams then None else Some idx)"
| "groupWalk (Suc k) L idx = (if idx \<ge> maxParams then Some None
     else do { n \<leftarrow> get_at L idx; groupWalk k L (idx + n) })"

definition paramGroup :: "int \<Rightarrow> 'a parser_state_scheme \<Rightarrow> param_group option" where
  "paramGroup i s = (if i \<ge> numGroups s then Some emptyGroup
     else do {
       w \<leftarrow> groupWalk (nat i) (pGroupLen s) 0;
       (case w of None \<Rightarrow> Some emptyGroup
        | Some startIdx \<Rightarrow> do {
            len \<leftarrow> get_at (pGroupLen s) startIdx;
            if len = 0 then Some emptyGroup
            else do {
              len \<leftarrow> Some (min len (min 8 (maxParams - startIdx)));
              ps \<leftarrow> foldM (\<lambda>j ps. do { v \<leftarrow> get_at (pParams s) (startIdx + j); set_at ps j v })
                      [0..len - 1] (replicate 8 0);
              Some \<lparr>pgParams = ps, pgLen = len\<rparr> } }) })"

definition paramCount :: "'a parser_state_scheme \<Rightarrow> int" where
  "paramCount s = numGroups s"

definition paramVal :: "int \<Rightarrow> int \<Rightarrow> 'a parser_state_scheme \<Rightarrow> int option" where
  "paramVal i dflt s = do {
     g \<leftarrow> paramGroup i s;
     if pgLen g = 0 then Some dflt
     else do {
       p \<leftarrow> get_at (pgParams g) 0;
       v \<leftarrow> Some (uint p);
       Some (if v = 0 \<and> dflt > 0 then dflt else if v > maxCSIArgValue then maxCSIArgValue else v) } }"

section \<open>The group walk\<close>

text \<open>\<open>reps L i gs\<close>: from start index \<open>i\<close> the array \<open>L\<close> encodes groups of lengths \<open>gs\<close>.\<close>

fun reps :: "int list \<Rightarrow> nat \<Rightarrow> nat list \<Rightarrow> bool" where
  "reps L i [] \<longleftrightarrow> True"
| "reps L i (g # gs) \<longleftrightarrow> i < 32 \<and> L ! i = int g \<and> (gs \<noteq> [] \<longrightarrow> 1 \<le> g) \<and> reps L (i + g) gs"

lemma reps_last: "reps L i (xs @ [m]) \<Longrightarrow> i + sum_list xs < 32 \<and> L ! (i + sum_list xs) = int m"
proof (induction xs arbitrary: i)
  case Nil
  then show ?case by simp
next
  case (Cons x xs)
  from Cons.prems have "reps L (i + x) (xs @ [m])" by simp
  from Cons.IH [OF this] show ?case by (simp add: add.assoc)
qed

lemma reps_ge: "reps L i (xs @ [m]) \<Longrightarrow> \<forall>x \<in> set xs. 1 \<le> x"
  by (induction xs arbitrary: i) auto

lemma reps_length: "reps L i (xs @ [m]) \<Longrightarrow> length xs \<le> sum_list xs"
  by (induction xs arbitrary: i) fastforce+

lemma reps_above: "j < i \<Longrightarrow> reps (L[j := v]) i gs = reps L i gs"
  by (induction gs arbitrary: i) auto

lemma reps_bump:
  "length L = 32 \<Longrightarrow> reps L i (xs @ [m]) \<Longrightarrow> reps (L[i + sum_list xs := int m']) i (xs @ [m'])"
proof (induction xs arbitrary: i)
  case Nil
  then show ?case by simp
next
  case (Cons x xs)
  then have "reps (L[i + x + sum_list xs := int m']) (i + x) (xs @ [m'])" by simp
  with Cons.prems show ?case by (auto simp: add.assoc)
qed

lemma reps_open:
  "length L = 32 \<Longrightarrow> reps L i (xs @ [m]) \<Longrightarrow> 1 \<le> m \<Longrightarrow> i + sum_list xs + m < 32 \<Longrightarrow>
   reps (L[i + sum_list xs + m := 0]) i (xs @ [m, 0])"
proof (induction xs arbitrary: i)
  case Nil
  then show ?case by (simp add: add.commute)
next
  case (Cons x xs)
  then have "reps (L[i + x + sum_list xs + m := 0]) (i + x) (xs @ [m, 0])" by simp
  with Cons.prems show ?case by (auto simp: add.assoc)
qed

lemma walk_foldM:
  "length L = 32 \<Longrightarrow> reps L i (xs @ [m]) \<Longrightarrow> length ys = length xs \<Longrightarrow>
   foldM (\<lambda>_ idx. get_at L idx \<bind> (\<lambda>n. Some (idx + n))) ys (int i) = Some (int (i + sum_list xs))"
proof (induction xs arbitrary: i ys)
  case Nil
  then show ?case by simp
next
  case (Cons x xs)
  then obtain y zs where ys: "ys = y # zs" "length zs = length xs" by (cases ys) auto
  have "foldM (\<lambda>_ idx. get_at L idx \<bind> (\<lambda>n. Some (idx + n))) zs (int (i + x))
      = Some (int (i + x + sum_list xs))"
    by (rule Cons.IH) (use Cons.prems ys in auto)
  with Cons.prems ys show ?case by (simp add: get_at_Some add.assoc)
qed

definition params_ok :: "'a parser_state_scheme \<Rightarrow> bool" where
  "params_ok s \<longleftrightarrow> length (pParams s) = 32 \<and> length (pGroupLen s) = 32
     \<and> (\<exists>gs m. reps (pGroupLen s) 0 (gs @ [m]) \<and> numGroups s = int (length gs) + 1
          \<and> numParams s = int (sum_list gs + m) \<and> sum_list gs + m \<le> 32)"

lemma params_okE:
  assumes "params_ok s"
  obtains gs m where "length (pParams s) = 32" "length (pGroupLen s) = 32"
    "reps (pGroupLen s) 0 (gs @ [m])" "numGroups s = int (length gs) + 1"
    "numParams s = int (sum_list gs + m)" "sum_list gs + m \<le> 32"
  using assms by (auto simp: params_ok_def)

lemma groupStartIdx_eq:
  assumes "length (pGroupLen s) = 32" "reps (pGroupLen s) 0 (gs @ [m])"
  shows "groupStartIdx (int (length gs)) s = Some (int (sum_list gs))"
  using walk_foldM [OF assms, of "[0..int (length gs) - 1]"]
  by (simp add: groupStartIdx_def for_range_def)

lemma bumpGroup_eq:
  assumes "length (pGroupLen s) = 32" "reps (pGroupLen s) 0 (gs @ [m])"
    "numGroups s = int (length gs) + 1"
  shows "bumpGroup s = Some (s\<lparr>pGroupLen := (pGroupLen s)[sum_list gs := int m + 1]\<rparr>)"
  using assms groupStartIdx_eq [OF assms(1,2)] reps_last [OF assms(2)]
  by (simp add: bumpGroup_def get_at_Some set_at_Some)

text \<open>\<open>storeParam\<close> appends the current value to the last group.\<close>

lemma storeParam_eq:
  assumes "length (pParams s) = 32" "length (pGroupLen s) = 32"
    "reps (pGroupLen s) 0 (gs @ [m])" "numGroups s = int (length gs) + 1"
    "numParams s = int (sum_list gs + m)" "sum_list gs + m < 32"
  shows "storeParam s = Some (s\<lparr>pParams := (pParams s)[sum_list gs + m := curParam s],
      numParams := numParams s + 1,
      pGroupLen := (pGroupLen s)[sum_list gs := int m + 1]\<rparr>)"
proof -
  have "nat (int (sum_list gs) + int m) = sum_list gs + m" by (simp add: nat_add_distrib)
  then show ?thesis using assms
    by (simp add: storeParam_def set_at_Some bumpGroup_eq)
qed

section \<open>No array access panics\<close>

definition params_only :: "'a parser_state_scheme \<Rightarrow> 'a parser_state_scheme \<Rightarrow> bool" where
  "params_only s s' \<longleftrightarrow> s' = s\<lparr>pParams := pParams s', pGroupLen := pGroupLen s',
     numParams := numParams s', numGroups := numGroups s', curParam := curParam s',
     ignoring := ignoring s'\<rparr>"

lemma storeParam_ok:
  assumes "params_ok s" "numParams s < 32"
  shows "ensures (storeParam s) (\<lambda>s'. params_ok s' \<and> params_only s s' \<and> numParams s' = numParams s + 1)"
proof -
  from assms(1) obtain gs m where s: "length (pParams s) = 32" "length (pGroupLen s) = 32"
    "reps (pGroupLen s) 0 (gs @ [m])" "numGroups s = int (length gs) + 1"
    "numParams s = int (sum_list gs + m)" "sum_list gs + m \<le> 32" by (rule params_okE)
  with assms(2) have lt: "sum_list gs + m < 32" by simp
  let ?s = "s\<lparr>pParams := (pParams s)[sum_list gs + m := curParam s], numParams := numParams s + 1,
      pGroupLen := (pGroupLen s)[sum_list gs := int m + 1]\<rparr>"
  have "params_ok ?s"
    unfolding params_ok_def
    using s lt reps_bump [OF s(2,3), of "m + 1"]
    by (auto intro!: exI [of _ gs] exI [of _ "m + 1"] simp: add.commute)
  moreover have "params_only s ?s" by (simp add: params_only_def)
  ultimately show ?thesis
    using storeParam_eq [OF s(1-5) lt] by simp
qed

lemma params_ok_curParam [simp]: "params_ok (s\<lparr>curParam := c\<rparr>) = params_ok s"
  by (simp add: params_ok_def)

lemma params_ok_ignoring [simp]: "params_ok (s\<lparr>ignoring := c\<rparr>) = params_ok s"
  by (simp add: params_ok_def)

lemma params_ok_cong:
  "pParams s' = pParams s \<Longrightarrow> pGroupLen s' = pGroupLen s \<Longrightarrow> numGroups s' = numGroups s \<Longrightarrow>
   numParams s' = numParams s \<Longrightarrow> params_ok s' = params_ok s"
  by (simp add: params_ok_def)

lemma params_only_refl [simp]: "params_only s s"
  by (simp add: params_only_def)

lemma params_only_more: "params_only s s' \<Longrightarrow> parser_state.more s' = parser_state.more s"
  unfolding params_only_def by (erule ssubst) simp

lemma params_only_pState: "params_only s s' \<Longrightarrow> pState s' = pState s"
  unfolding params_only_def by (erule ssubst) simp

text \<open>
  The abstraction: the groups the accumulator holds so far. Each operation of the accumulator
  is, on this view, an append to the last group or the start of a new one.
\<close>

fun chop :: "nat list \<Rightarrow> 'a list \<Rightarrow> 'a list list" where
  "chop [] ps = []"
| "chop (g # gs) ps = take g ps # chop gs (drop g ps)"

fun readGroups :: "nat \<Rightarrow> int list \<Rightarrow> 'a list \<Rightarrow> nat \<Rightarrow> 'a list list" where
  "readGroups 0 L P i = []"
| "readGroups (Suc k) L P i = take (nat (L ! i)) (drop i P) # readGroups k L P (i + nat (L ! i))"

definition groupsOf :: "'a parser_state_scheme \<Rightarrow> u16 list list" where
  "groupsOf s = readGroups (nat (numGroups s)) (pGroupLen s) (pParams s) 0"

definition appendLast :: "'b \<Rightarrow> 'b list list \<Rightarrow> 'b list list" where
  "appendLast v gss = butlast gss @ [last gss @ [v]]"

lemma readGroups_chop: "reps L i gs \<Longrightarrow> readGroups (length gs) L P i = chop gs (drop i P)"
  by (induction gs arbitrary: i) (auto simp: add.commute)

lemma chop_append: "chop (gs @ hs) P = chop gs P @ chop hs (drop (sum_list gs) P)"
  by (induction gs arbitrary: P) (auto simp: add.commute)

lemma chop_update: "sum_list gs \<le> j \<Longrightarrow> chop gs (P[j := v]) = chop gs P"
proof (induction gs arbitrary: j P)
  case Nil
  then show ?case by simp
next
  case (Cons g gs)
  then have "chop gs ((drop g P)[j - g := v]) = chop gs (drop g P)" by simp
  with Cons.prems show ?case by (simp add: drop_update_swap)
qed

lemma groupsOf_chop:
  "reps (pGroupLen s) 0 (gs @ [m]) \<Longrightarrow> numGroups s = int (length gs) + 1 \<Longrightarrow>
   groupsOf s = chop gs (pParams s) @ [take m (drop (sum_list gs) (pParams s))]"
  using readGroups_chop [of "pGroupLen s" 0 "gs @ [m]" "pParams s"]
  by (simp add: groupsOf_def chop_append nat_add_distrib)

lemma chop_store:
  assumes "sum_list gs + m < length P"
  shows "chop gs (P[sum_list gs + m := c])
      @ [take (m + 1) (drop (sum_list gs) (P[sum_list gs + m := c]))]
    = appendLast c (chop gs P @ [take m (drop (sum_list gs) P)])"
proof -
  have "drop (sum_list gs) (P[sum_list gs + m := c]) = (drop (sum_list gs) P)[m := c]"
    by (simp add: drop_update_swap)
  moreover have "take (m + 1) ((drop (sum_list gs) P)[m := c]) = take m (drop (sum_list gs) P) @ [c]"
    using assms by (simp add: take_Suc_conv_app_nth)
  ultimately show ?thesis by (simp add: appendLast_def chop_update)
qed

text \<open>What \<open>storeParam\<close> leaves: one value more in the last group, which is then not empty.\<close>

definition last_nonempty :: "'a parser_state_scheme \<Rightarrow> bool" where
  "last_nonempty s \<longleftrightarrow> (\<exists>gs m. reps (pGroupLen s) 0 (gs @ [m]) \<and> 1 \<le> m
     \<and> numGroups s = int (length gs) + 1 \<and> numParams s = int (sum_list gs + m)
     \<and> sum_list gs + m \<le> 32)"

lemma storeParam_refines:
  assumes "params_ok s" "numParams s < 32"
  shows "ensures (storeParam s) (\<lambda>s'. params_ok s' \<and> params_only s s' \<and> last_nonempty s'
     \<and> numParams s' = numParams s + 1 \<and> groupsOf s' = appendLast (curParam s) (groupsOf s)
     \<and> numGroups s' = numGroups s \<and> ignoring s' = ignoring s)"
proof -
  from assms(1) obtain gs m where s: "length (pParams s) = 32" "length (pGroupLen s) = 32"
    "reps (pGroupLen s) 0 (gs @ [m])" "numGroups s = int (length gs) + 1"
    "numParams s = int (sum_list gs + m)" "sum_list gs + m \<le> 32" by (rule params_okE)
  with assms(2) have lt: "sum_list gs + m < 32" by simp
  let ?s = "s\<lparr>pParams := (pParams s)[sum_list gs + m := curParam s], numParams := numParams s + 1,
      pGroupLen := (pGroupLen s)[sum_list gs := int m + 1]\<rparr>"
  have r: "reps (pGroupLen ?s) 0 (gs @ [m + 1])"
    using reps_bump [OF s(2,3), of "m + 1"] by (simp add: add.commute)
  have "groupsOf ?s = appendLast (curParam s) (groupsOf s)"
    using groupsOf_chop [OF r] groupsOf_chop [OF s(3,4)] s lt chop_store [of gs m "pParams s"]
    by simp
  moreover have "last_nonempty ?s"
    unfolding last_nonempty_def using r s lt by (auto intro!: exI [of _ gs] exI [of _ "m + 1"])
  moreover from this have "params_ok ?s"
    using s unfolding params_ok_def last_nonempty_def by auto
  moreover have "params_only s ?s" by (simp add: params_only_def)
  ultimately show ?thesis
    using storeParam_eq [OF s(1-5) lt] by simp
qed

lemma openGroup_refines:
  assumes "params_ok s" "last_nonempty s" "numParams s < 32"
  defines "s' \<equiv> s\<lparr>pGroupLen := (pGroupLen s)[nat (numParams s) := 0], numGroups := numGroups s + 1\<rparr>"
  shows "params_ok s' \<and> groupsOf s' = groupsOf s @ [[]] \<and> 0 \<le> numParams s"
proof -
  from assms(2) obtain gs m where s: "reps (pGroupLen s) 0 (gs @ [m])" "1 \<le> m"
    "numGroups s = int (length gs) + 1" "numParams s = int (sum_list gs + m)"
    by (auto simp: last_nonempty_def)
  have L: "length (pGroupLen s) = 32" "length (pParams s) = 32"
    using assms(1) by (auto simp: params_ok_def)
  have n: "nat (numParams s) = sum_list gs + m" using s(4) by simp
  have r: "reps (pGroupLen s') 0 ((gs @ [m]) @ [0])"
    using reps_open [OF L(1) s(1,2)] assms(3) s(4) n by (simp add: s'_def)
  have "params_ok s'"
    unfolding params_ok_def using r L s assms(3) n
    by (auto simp: s'_def intro!: exI [of _ "gs @ [m]"] exI [of _ 0])
  moreover have "groupsOf s' = groupsOf s @ [[]]"
    using groupsOf_chop [OF r] groupsOf_chop [OF s(1,3)] s by (simp add: s'_def chop_append)
  ultimately show ?thesis using s(4) by simp
qed

lemma last_nonempty_curParam [simp]: "last_nonempty (s\<lparr>curParam := c\<rparr>) = last_nonempty s"
  by (simp add: last_nonempty_def)

lemma groupsOf_curParam [simp]: "groupsOf (s\<lparr>curParam := c\<rparr>) = groupsOf s"
  by (simp add: groupsOf_def)

lemma numGroups_le:
  assumes "last_nonempty s" shows "numGroups s \<le> numParams s"
proof -
  from assms obtain gs m where "reps (pGroupLen s) 0 (gs @ [m])" "1 \<le> m"
    "numGroups s = int (length gs) + 1" "numParams s = int (sum_list gs + m)"
    by (auto simp: last_nonempty_def)
  with reps_length show ?thesis by fastforce
qed

lemma params_only_trans: "params_only s t \<Longrightarrow> params_only t u \<Longrightarrow> params_only s u"
  unfolding params_only_def by (erule ssubst, erule ssubst) simp

lemma pushParam_refines:
  assumes "params_ok s"
  shows "ensures (pushParam new s) (\<lambda>s'. params_ok s' \<and> params_only s s'
     \<and> (numParams s < 31 \<longrightarrow> numParams s' = numParams s + 1 \<and> curParam s' = 0
          \<and> ignoring s' = ignoring s
          \<and> groupsOf s' = appendLast (curParam s) (groupsOf s) @ (if new then [[]] else [])))"
proof (cases "numParams s \<ge> maxParams")
  case True
  with assms show ?thesis by (simp add: pushParam_def maxParams_def params_only_def)
next
  case False
  then have lt: "numParams s < 32" by (simp add: maxParams_def)
  from storeParam_refines [OF assms lt] obtain t where t: "storeParam s = Some t" "params_ok t"
    "params_only s t" "last_nonempty t" "numParams t = numParams s + 1"
    "groupsOf t = appendLast (curParam s) (groupsOf s)" "ignoring t = ignoring s"
    by (auto simp: ensures_iff)
  let ?t = "t\<lparr>curParam := 0\<rparr>"
  let ?u = "?t\<lparr>pGroupLen := (pGroupLen t)[nat (numParams t) := 0], numGroups := numGroups t + 1\<rparr>"
  have st: "params_only s ?t"
    using t(3) unfolding params_only_def by (erule_tac ssubst) simp
  have len: "length (pGroupLen t) = 32" using t(2) by (simp add: params_ok_def)
  show ?thesis
  proof (cases "new \<and> numGroups t < 32 \<and> numParams t < 32")
    case True
    then have o: "params_ok ?u" "groupsOf ?u = groupsOf t @ [[]]" "0 \<le> numParams t"
      using openGroup_refines [of ?t] t(2,4) by auto
    have "params_only ?t ?u" by (simp add: params_only_def)
    with st have "params_only s ?u" by (rule params_only_trans)
    with o True False t len show ?thesis by (simp add: pushParam_def maxParams_def set_at_Some)
  next
    case stop: False
    have "new \<longrightarrow> numParams s \<ge> 31"
      using stop numGroups_le [OF t(4)] t(5) by auto
    with stop False t st show ?thesis by (auto simp: pushParam_def maxParams_def)
  qed
qed

text \<open>One byte of the parameter text, as \<^verbatim>\<open>doAction\<close> sends it to the accumulator.\<close>

definition feedParam :: "byte \<Rightarrow> 'a parser_state_scheme \<Rightarrow> 'a parser_state_scheme option" where
  "feedParam b s = (if b = chr CHR '':'' then handleSubparam s else handleParam b s)"

lemma params_only_curParam [simp]: "params_only s (s\<lparr>curParam := c\<rparr>)"
  by (simp add: params_only_def)

lemma pushParam_ok:
  "params_ok s \<Longrightarrow> ensures (pushParam new s) (\<lambda>s'. params_ok s' \<and> params_only s s')"
  by (rule ensures_mono [OF pushParam_refines]) auto

lemma handleParam_ok:
  "params_ok s \<Longrightarrow> ensures (handleParam b s) (\<lambda>s'. params_ok s' \<and> params_only s s')"
  by (simp add: handleParam_def pushParam_ok Let_def)

lemma handleSubparam_ok:
  "params_ok s \<Longrightarrow> ensures (handleSubparam s) (\<lambda>s'. params_ok s' \<and> params_only s s')"
  by (simp add: handleSubparam_def pushParam_ok)

lemma finalizeParams_ok:
  "params_ok s \<Longrightarrow> ensures (finalizeParams s) (\<lambda>s'. params_ok s' \<and> params_only s s')"
  unfolding finalizeParams_def
  by (auto simp: maxParams_def intro: ensures_mono [OF storeParam_refines])

definition parserClear_result :: "'a parser_state_scheme \<Rightarrow> 'a parser_state_scheme" where
  "parserClear_result s = s\<lparr>numParams := 0, curParam := 0, numInterm := 0, ignoring := False,
     privateMarker := 0, pGroupLen := (pGroupLen s)[0 := 0], numGroups := 1\<rparr>"

lemma parserClear_eq: "length (pGroupLen s) = 32 \<Longrightarrow> parserClear s = Some (parserClear_result s)"
  by (simp add: parserClear_def set_at_Some parserClear_result_def)

lemma parserClear_ok:
  assumes "length (pParams s) = 32" "length (pGroupLen s) = 32"
  shows "params_ok (parserClear_result s)"
    and "groupsOf (parserClear_result s) = [[]]"
proof -
  have r: "reps (pGroupLen (parserClear_result s)) 0 ([] @ [0])"
    using assms by (simp add: parserClear_result_def)
  show "params_ok (parserClear_result s)"
    unfolding params_ok_def using r assms
    by (auto simp: parserClear_result_def intro!: exI [of _ "[]"] exI [of _ 0])
  show "groupsOf (parserClear_result s) = [[]]"
    using groupsOf_chop [OF r] by (simp add: parserClear_result_def)
qed

section \<open>Reading the parameters back\<close>

lemma groupWalk_eq:
  "length L = 32 \<Longrightarrow> reps L i gs \<Longrightarrow> k < length gs \<Longrightarrow>
   groupWalk k L (int i) = Some (Some (int (i + sum_list (take k gs))))"
proof (induction gs arbitrary: i k)
  case Nil
  then show ?case by simp
next
  case (Cons g gs)
  show ?case
  proof (cases k)
    case 0
    with Cons.prems show ?thesis by (simp add: maxParams_def)
  next
    case (Suc j)
    with Cons.prems have "groupWalk j L (int (i + g)) = Some (Some (int (i + g + sum_list (take j gs))))"
      by (intro Cons.IH) auto
    with Cons.prems Suc show ?thesis by (simp add: maxParams_def get_at_Some add.assoc)
  qed
qed

lemma reps_nth: "reps L i gs \<Longrightarrow> k < length gs \<Longrightarrow>
    i + sum_list (take k gs) < 32 \<and> L ! (i + sum_list (take k gs)) = int (gs ! k)"
proof (induction gs arbitrary: i k)
  case Nil
  then show ?case by simp
next
  case (Cons g gs)
  then show ?case
    using Cons.IH [of "i + g" "k - 1"] by (cases k) (auto simp: add.assoc)
qed

lemma copyParams_foldM:
  assumes "startIdx + n \<le> length P" "n \<le> length ps"
  shows "foldM (\<lambda>j ps. do { v \<leftarrow> get_at P (int startIdx + j); set_at ps j v }) [0..int n - 1] ps
    = Some (take n (drop startIdx P) @ drop n ps)"
  using assms
proof (induction n)
  case 0
  then show ?case by simp
next
  case (Suc n)
  have up: "[0..int (Suc n) - 1] = [0..int n - 1] @ [int n]"
    by (simp add: upto_rec2)
  have "foldM (\<lambda>j ps. do { v \<leftarrow> get_at P (int startIdx + j); set_at ps j v }) [0..int n - 1] ps
      = Some (take n (drop startIdx P) @ drop n ps)" using Suc by simp
  moreover have "(take n (drop startIdx P) @ drop n ps)[n := P ! (startIdx + n)]
      = take (Suc n) (drop startIdx P) @ drop (Suc n) ps"
  proof -
    have "take (Suc n) (drop startIdx P) = take n (drop startIdx P) @ [P ! (startIdx + n)]"
      using Suc.prems by (simp add: take_Suc_conv_app_nth)
    moreover have "drop n ps = ps ! n # drop (Suc n) ps"
      using Suc.prems by (simp add: Cons_nth_drop_Suc)
    ultimately show ?thesis using Suc.prems by (simp add: list_update_append)
  qed
  moreover have "nat (int startIdx + int n) = startIdx + n" by (simp add: nat_add_distrib)
  ultimately show ?case
    using Suc.prems unfolding up by (simp add: foldM_append get_at_Some set_at_Some)
qed

lemma length_chop [simp]: "length (chop gs P) = length gs"
  by (induction gs arbitrary: P) auto

lemma nth_chop: "k < length gs \<Longrightarrow>
    chop gs P ! k = take (gs ! k) (drop (sum_list (take k gs)) P)"
proof (induction gs arbitrary: P k)
  case Nil
  then show ?case by simp
next
  case (Cons g gs)
  then show ?case by (cases k) (simp_all add: add.commute)
qed

lemma sum_list_take_nth: "k < length gs \<Longrightarrow> sum_list (take k gs) + gs ! k \<le> sum_list (gs :: nat list)"
proof -
  assume k: "k < length gs"
  have "sum_list gs = sum_list (take (Suc k) gs) + sum_list (drop (Suc k) gs)"
    by (metis append_take_drop_id sum_list_append)
  with k show ?thesis by (simp add: take_Suc_conv_app_nth)
qed

definition groupValue :: "u16 list \<Rightarrow> param_group" where
  "groupValue g = (let n = min (length g) 8
     in \<lparr>pgParams = take n g @ replicate (8 - n) 0, pgLen = int n\<rparr>)"

lemma length_groupsOf: "params_ok s \<Longrightarrow> int (length (groupsOf s)) = numGroups s"
  by (erule params_okE) (simp add: groupsOf_chop)

lemma paramGroup_eq:
  assumes ok: "params_ok s" and i: "0 \<le> i"
  shows "paramGroup i s
    = Some (if i \<ge> numGroups s then emptyGroup else groupValue (groupsOf s ! nat i))"
proof (cases "i \<ge> numGroups s")
  case True
  then show ?thesis by (simp add: paramGroup_def)
next
  case False
  from ok obtain xs m where s: "length (pParams s) = 32" "length (pGroupLen s) = 32"
    "reps (pGroupLen s) 0 (xs @ [m])" "numGroups s = int (length xs) + 1"
    "sum_list xs + m \<le> 32" by (rule params_okE)
  define gs where "gs = xs @ [m]"
  define k where "k = nat i"
  define st where "st = sum_list (take k gs)"
  have k: "k < length gs" using False i s(4) by (simp add: gs_def k_def)
  have rep: "reps (pGroupLen s) 0 gs" using s(3) by (simp add: gs_def)
  have G: "groupsOf s = chop gs (pParams s)"
    using groupsOf_chop [OF s(3,4)] by (simp add: gs_def chop_append)
  have g: "groupsOf s ! k = take (gs ! k) (drop st (pParams s))"
    using k by (simp add: G nth_chop st_def)
  have bnd: "st + gs ! k \<le> 32" using sum_list_take_nth [OF k] s(5) by (simp add: st_def gs_def)
  have w: "groupWalk k (pGroupLen s) 0 = Some (Some (int st))"
    using groupWalk_eq [OF s(2) rep k] by (simp add: st_def)
  have L: "st < 32" "pGroupLen s ! st = int (gs ! k)"
    using reps_nth [OF rep k] by (simp_all add: st_def)
  define n where "n = min (gs ! k) 8"
  have lg: "length (groupsOf s ! k) = gs ! k" using bnd s(1) by (simp add: g)
  have n: "min (int (gs ! k)) (min 8 (maxParams - int st)) = int n"
    using bnd by (auto simp: maxParams_def n_def min_def)
  have loop: "foldM (\<lambda>j ps. do { v \<leftarrow> get_at (pParams s) (int st + j); set_at ps j v })
      [0..int n - 1] (replicate 8 0) = Some (take n (drop st (pParams s)) @ drop n (replicate 8 0))"
    by (rule copyParams_foldM) (use bnd s(1) in \<open>auto simp: n_def\<close>)
  have res: "take n (drop st (pParams s)) = take n (groupsOf s ! k)"
    by (simp add: g n_def min_def)
  have val: "groupValue (groupsOf s ! k)
      = \<lparr>pgParams = take n (groupsOf s ! k) @ replicate (8 - n) 0, pgLen = int n\<rparr>"
    by (simp add: groupValue_def Let_def lg n_def)
  show ?thesis
  proof (cases "gs ! k = 0")
    case True
    with False w L s(2) val show ?thesis
      by (simp add: paramGroup_def get_at_Some emptyGroup_def n_def flip: k_def)
  next
    case nz: False
    have "paramGroup i s = do {
        ps \<leftarrow> foldM (\<lambda>j ps. do { v \<leftarrow> get_at (pParams s) (int st + j); set_at ps j v })
                [0..int n - 1] (replicate 8 0);
        Some \<lparr>pgParams = ps, pgLen = int n\<rparr> }"
      using False w L s(2) nz n by (simp add: paramGroup_def get_at_Some flip: k_def)
    with False loop res val show ?thesis by (simp flip: k_def)
  qed
qed

lemma hd_groupValue: "g \<noteq> [] \<Longrightarrow> get_at (pgParams (groupValue g)) 0 = Some (hd g)"
  by (cases g) (simp_all add: groupValue_def Let_def get_at_def min_def)

lemma pgLen_groupValue: "pgLen (groupValue g) = int (min (length g) 8)"
  by (simp add: groupValue_def Let_def)

lemma length_pgParams [simp]: "length (pgParams (groupValue g)) = 8" "length (pgParams emptyGroup) = 8"
  by (simp_all add: groupValue_def Let_def emptyGroup_def)

definition paramSpecVal :: "int \<Rightarrow> int \<Rightarrow> u16 list list \<Rightarrow> int" where
  "paramSpecVal i dflt gss = (if i \<ge> int (length gss) \<or> gss ! nat i = [] then dflt
     else let v = uint (hd (gss ! nat i)) in if v = 0 \<and> dflt > 0 then dflt else v)"

lemma u16_bound: "uint (v :: u16) \<le> 65535"
  using uint_bounded [of v] by simp

lemma paramVal_eq:
  assumes "params_ok s" "0 \<le> i"
  shows "paramVal i dflt s = Some (paramSpecVal i dflt (groupsOf s))"
proof (cases "i \<ge> numGroups s \<or> groupsOf s ! nat i = []")
  case True
  with assms length_groupsOf [OF assms(1)] show ?thesis
    by (auto simp: paramVal_def paramGroup_eq paramSpecVal_def emptyGroup_def pgLen_groupValue)
next
  case False
  then have "pgLen (groupValue (groupsOf s ! nat i)) \<noteq> 0"
    by (auto simp: pgLen_groupValue)
  with False assms length_groupsOf [OF assms(1)] u16_bound [of "hd (groupsOf s ! nat i)"]
  show ?thesis
    by (simp add: paramVal_def paramGroup_eq paramSpecVal_def hd_groupValue Let_def maxCSIArgValue_def)
qed

lemma paramSpecVal_range:
  "0 \<le> dflt \<Longrightarrow> dflt \<le> 65535 \<Longrightarrow> 0 \<le> paramSpecVal i dflt gss \<and> paramSpecVal i dflt gss \<le> 65535
     \<and> (1 \<le> dflt \<longrightarrow> 1 \<le> paramSpecVal i dflt gss)"
proof -
  have "uint (hd (gss ! nat i)) = 0 \<or> 1 \<le> uint (hd (gss ! nat i))"
    using uint_ge_0 [of "hd (gss ! nat i)"] by linarith
  moreover assume "0 \<le> dflt" "dflt \<le> 65535"
  ultimately show ?thesis
    using u16_bound [of "hd (gss ! nat i)"] by (auto simp: paramSpecVal_def Let_def)
qed

section \<open>The parameter text and the groups it stands for\<close>

text \<open>
  The abstract reading of a parameter text: groups separated by semicolons, values in a group
  by colons, each value its decimal digits, saturated at 65535.
\<close>

definition digitStep :: "u16 \<Rightarrow> byte \<Rightarrow> u16" where
  "digitStep c b = word_of_int (min (uint c * 10 + uint (b - chr CHR ''0'')) maxCSIArgValue)"

definition textValue :: "byte list \<Rightarrow> u16" where
  "textValue ds = foldl digitStep 0 ds"

definition textGroups :: "byte list \<Rightarrow> u16 list list" where
  "textGroups cs = map (map textValue \<circ> splitOn (chr CHR '':'')) (splitOn (chr CHR '';'') cs)"

definition separators :: "byte list \<Rightarrow> nat" where
  "separators cs = length (filter (\<lambda>b. b = chr CHR '';'' \<or> b = chr CHR '':'') cs)"

fun absStep :: "u16 list list \<times> u16 \<Rightarrow> byte \<Rightarrow> u16 list list \<times> u16" where
  "absStep (gss, c) b = (if b = chr CHR '';'' then (appendLast c gss @ [[]], 0)
     else if b = chr CHR '':'' then (appendLast c gss, 0) else (gss, digitStep c b))"

lemma foldl_absStep:
  "(\<lambda>(gss, c). appendLast c gss) (foldl absStep (pre @ [g], c) cs)
   = pre @ (let ws = splitOn (chr CHR '';'') cs; vs = splitOn (chr CHR '':'') (hd ws)
     in (g @ foldl digitStep c (hd vs) # map textValue (tl vs))
        # map (map textValue \<circ> splitOn (chr CHR '':'')) (tl ws))"
proof (induction cs arbitrary: pre g c)
  case Nil
  then show ?case by (simp add: appendLast_def)
next
  case (Cons b cs)
  obtain w ws where w: "splitOn (chr CHR '';'') cs = w # ws" by (meson splitOn_Cons)
  obtain v vs where v: "splitOn (chr CHR '':'') w = v # vs" by (meson splitOn_Cons)
  consider "b = chr CHR '';''" | "b = chr CHR '':''" | "b \<noteq> chr CHR '';''" "b \<noteq> chr CHR '':''" by blast
  then show ?case
  proof cases
    case 1
    then show ?thesis
      using Cons.IH [of "pre @ [g @ [c]]" "[]" 0] w v
      by (simp add: appendLast_def textValue_def)
  next
    case 2
    then show ?thesis
      using Cons.IH [of pre "g @ [c]" 0] w v by (simp add: appendLast_def textValue_def)
  next
    case 3
    then show ?thesis
      using Cons.IH [of pre g "digitStep c b"] w v by simp
  qed
qed

definition abs_params :: "'a parser_state_scheme \<Rightarrow> u16 list list \<times> u16" where
  "abs_params s = (groupsOf s, curParam s)"

lemma feedParam_refines:
  assumes "params_ok s" "\<not> ignoring s" "numParams s + int (separators [b]) \<le> 31"
  shows "ensures (feedParam b s) (\<lambda>s'. params_ok s' \<and> params_only s s' \<and> \<not> ignoring s'
     \<and> abs_params s' = absStep (abs_params s) b
     \<and> numParams s' = numParams s + int (separators [b]))"
proof -
  have push: "ensures (pushParam new s) (\<lambda>s'. params_ok s' \<and> params_only s s' \<and> \<not> ignoring s'
      \<and> groupsOf s' = appendLast (curParam s) (groupsOf s) @ (if new then [[]] else [])
      \<and> curParam s' = 0 \<and> numParams s' = numParams s + 1)" if "separators [b] = 1" for new
    by (rule ensures_mono [OF pushParam_refines [OF assms(1)]]) (use assms that in auto)
  consider "b = chr CHR '';''" | "b = chr CHR '':''" | "b \<noteq> chr CHR '';''" "b \<noteq> chr CHR '':''" by blast
  then show ?thesis
  proof cases
    case 1
    then have one: "separators [b] = 1" by (simp add: separators_def)
    show ?thesis
      using 1 assms one
      by (auto simp: feedParam_def handleParam_def abs_params_def
          intro!: ensures_mono [OF push [OF one, of True]])
  next
    case 2
    then have one: "separators [b] = 1" by (simp add: separators_def)
    show ?thesis
      using 2 assms one
      by (auto simp: feedParam_def handleSubparam_def abs_params_def
          intro!: ensures_mono [OF push [OF one, of False]])
  next
    case 3
    with assms show ?thesis
      by (simp add: feedParam_def handleParam_def abs_params_def separators_def digitStep_def Let_def)
  qed
qed

lemma separators_Cons: "separators (b # cs) = separators [b] + separators cs"
  by (simp add: separators_def)

lemma feedParams_refines:
  "params_ok s \<Longrightarrow> \<not> ignoring s \<Longrightarrow> numParams s + int (separators cs) \<le> 31 \<Longrightarrow>
   ensures (foldM feedParam cs s) (\<lambda>s'. params_ok s' \<and> params_only s s' \<and> \<not> ignoring s'
     \<and> abs_params s' = foldl absStep (abs_params s) cs
     \<and> numParams s' = numParams s + int (separators cs))"
proof (induction cs arbitrary: s)
  case Nil
  then show ?case by (simp add: separators_def)
next
  case (Cons b cs)
  have "numParams s + int (separators [b]) \<le> 31"
    using Cons.prems(3) by (simp add: separators_Cons [of b cs])
  from feedParam_refines [OF Cons.prems(1,2) this] obtain t where t: "feedParam b s = Some t"
    "params_ok t" "params_only s t" "\<not> ignoring t" "abs_params t = absStep (abs_params s) b"
    "numParams t = numParams s + int (separators [b])"
    by (auto simp: ensures_iff)
  have "numParams t + int (separators cs) \<le> 31"
    using Cons.prems(3) t(6) by (simp add: separators_Cons [of b cs])
  from Cons.IH [OF t(2,4) this] have
    "ensures (foldM feedParam cs t) (\<lambda>s'. params_ok s' \<and> params_only s s' \<and> \<not> ignoring s'
      \<and> abs_params s' = foldl absStep (abs_params s) (b # cs)
      \<and> numParams s' = numParams s + int (separators (b # cs)))"
    by (rule ensures_mono)
       (use t in \<open>auto simp: separators_Cons [of b cs] intro: params_only_trans\<close>)
  with t(1) show ?case by simp
qed

text \<open>What the accumulator holds after the text \<open>cs\<close>, and what finalizing it leaves.\<close>

definition collected :: "byte list \<Rightarrow> 'a parser_state_scheme \<Rightarrow> bool" where
  "collected cs s \<longleftrightarrow> params_ok s \<and> \<not> ignoring s \<and> abs_params s = foldl absStep ([[]], 0) cs
     \<and> numParams s = int (separators cs)"

lemma collected_clear: "length (pParams s) = 32 \<Longrightarrow> length (pGroupLen s) = 32 \<Longrightarrow>
    collected [] (parserClear_result s)"
  using parserClear_ok [of s]
  by (simp add: collected_def abs_params_def separators_def parserClear_result_def)

lemma collected_feed:
  assumes "collected cs s" "separators (cs @ ds) \<le> 31"
  shows "ensures (foldM feedParam ds s) (\<lambda>t. collected (cs @ ds) t \<and> params_only s t)"
proof -
  have "numParams s + int (separators ds) \<le> 31"
    using assms by (simp add: collected_def separators_def)
  then show ?thesis
    using assms(1) by (intro ensures_mono [OF feedParams_refines])
      (simp_all add: collected_def separators_def)
qed

lemma collected_finalize:
  assumes "collected cs t" "separators cs \<le> 31"
  shows "ensures (finalizeParams t) (\<lambda>u. params_ok u \<and> params_only t u \<and> groupsOf u = textGroups cs)"
proof -
  have abs: "appendLast (curParam t) (groupsOf t) = textGroups cs"
  proof -
    obtain w ws where w: "splitOn (chr CHR '';'') cs = w # ws" by (meson splitOn_Cons)
    obtain v vs where v: "splitOn (chr CHR '':'') w = v # vs" by (meson splitOn_Cons)
    have "(\<lambda>(gss, c). appendLast c gss) (abs_params t) = textGroups cs"
      using foldl_absStep [of "[]" "[]" 0 cs] w v assms(1)
      by (simp add: collected_def textGroups_def textValue_def)
    then show ?thesis by (simp add: abs_params_def)
  qed
  have "ensures (finalizeParams t) (\<lambda>u. params_ok u \<and> groupsOf u = textGroups cs)"
    using assms abs
    by (auto simp: collected_def finalizeParams_def maxParams_def intro!: ensures_mono [OF storeParam_refines])
  with finalizeParams_ok [of t] assms(1) show ?thesis
    by (auto simp: collected_def ensures_iff)
qed

lemma params_parsed:
  assumes "length (pParams s) = 32" "length (pGroupLen s) = 32" "separators cs \<le> 31"
  shows "ensures (parserClear s \<bind> foldM feedParam cs \<bind> finalizeParams)
     (\<lambda>s'. params_ok s' \<and> groupsOf s' = textGroups cs \<and> paramCount s' = int (length (textGroups cs)))"
proof -
  obtain t where t: "foldM feedParam cs (parserClear_result s) = Some t" "collected cs t"
    using collected_feed [OF collected_clear [OF assms(1,2)], of cs] assms(3) by (auto simp: ensures_iff)
  have "ensures (finalizeParams t) (\<lambda>s'. params_ok s' \<and> groupsOf s' = textGroups cs
      \<and> paramCount s' = int (length (textGroups cs)))"
    by (rule ensures_mono [OF collected_finalize [OF t(2) assms(3)]])
       (use length_groupsOf in \<open>fastforce simp: paramCount_def\<close>)
  then show ?thesis
    using parserClear_eq [OF assms(2)] t(1) by simp
qed


text \<open>
  C8: a parameter text of at most 31 separators, fed to the accumulator byte by byte after a clear
  and finalized, leaves the parameter groups the text denotes: groups separated by semicolons,
  values in a group by colons, each value read in decimal and saturated at 65535; no array access
  panics on the way.
\<close>

theorem params_parse:
  assumes "length (pParams s) = 32" "length (pGroupLen s) = 32" "separators cs \<le> 31"
  shows "ensures (parserClear s \<bind> foldM feedParam cs \<bind> finalizeParams)
     (\<lambda>s'. groupsOf s' = textGroups cs \<and> paramCount s' = int (length (textGroups cs)))"
  by (rule ensures_mono [OF params_parsed [OF assms]]) simp


definition demoParser :: parser_state where
  "demoParser = \<lparr>oscBuf = [], dcsBuf = [], utf8Buf = replicate 4 0, pParams = replicate 32 0,
     pGroupLen = replicate 32 0, numParams = 0, numGroups = 0, curParam = 0,
     pIntermed = replicate 2 0, numInterm = 0, utf8Len = 0, utf8Got = 0, pState = stCsiParam,
     dcsFunc = dcsNone, ignoring = False, privateMarker = 0, oscOverflow = False, dcsOverflow = False\<rparr>"

lemma params_parse_witness:
  "ensures (parserClear demoParser \<bind> foldM feedParam (str ''38:2;99999;'') \<bind> finalizeParams)
     (\<lambda>s'. groupsOf s' = [[38, 2], [65535], [0]] \<and> paramCount s' = 3)"
proof -
  have "textGroups (str ''38:2;99999;'') = [[38, 2], [65535], [0]]" by code_simp
  then show ?thesis
    using params_parse [of demoParser "str ''38:2;99999;''"]
    by (simp add: demoParser_def separators_def str_def)
qed

end
