(* ===== verification/Charset.thy ===== *)
theory Charset
  imports GoPrelude VtTypes
begin

text \<open>
  Character sets (\<^verbatim>\<open>src/vt/charset.go\<close>): designation of G0-G3, the locking and single
  shifts, and the translation of a printable byte, with the invariant of the charset state and
  the functional description of the translation.
\<close>

section \<open>Definitions\<close>

definition decSpecialGraphics :: "rune list" where
  "decSpecialGraphics =
    [0x25c6, 0x2592, 0x2409, 0x240c, 0x240d, 0x240a, 0x00b0, 0x00b1,
     0x2424, 0x240b, 0x2518, 0x2510, 0x250c, 0x2514, 0x253c, 0x23ba,
     0x23bb, 0x2500, 0x23bc, 0x23bd, 0x251c, 0x2524, 0x2534, 0x252c,
     0x2502, 0x2264, 0x2265, 0x03c0, 0x2260, 0x00a3, 0x00b7]"

text \<open>The switch on the active set.\<close>

definition mapChar :: "charset \<Rightarrow> byte \<Rightarrow> rune option" where
  "mapChar cs b = (case cs of
     charsetGraphic \<Rightarrow>
       if 0x60 \<le> b \<and> b \<le> 0x7E then get_at decSpecialGraphics (uint (b - 0x60))
       else if b = 0x5F then Some 0x20 else Some (uint b)
   | charsetUK \<Rightarrow> if b = chr CHR ''#'' then Some 0x00a3 else Some (uint b)
   | charsetASCII \<Rightarrow> Some (uint b))"

definition translateChar :: "byte \<Rightarrow> 'a charset_state_scheme \<Rightarrow> (rune \<times> 'a charset_state_scheme) option" where
  "translateChar b s = do {
     (cs, s') \<leftarrow> (if singleShft s \<ge> 2
        then do { cs \<leftarrow> get_at (gsets s) (singleShft s); Some (cs, s\<lparr>singleShft := -1\<rparr>) }
        else do { cs \<leftarrow> get_at (gsets s) (gl s); Some (cs, s) });
     r \<leftarrow> mapChar cs b;
     Some (r, s') }"

definition scsIndex :: "byte \<Rightarrow> int option" where
  "scsIndex intermediate =
     (if intermediate = chr CHR ''('' then Some 0
      else if intermediate = chr CHR '')'' then Some 1
      else if intermediate = chr CHR ''*'' then Some 2
      else if intermediate = chr CHR ''+'' then Some 3 else None)"

definition designateCharset :: "byte \<Rightarrow> byte \<Rightarrow> 'a charset_state_scheme \<Rightarrow> 'a charset_state_scheme option" where
  "designateCharset intermediate final s = (case scsIndex intermediate of
       None \<Rightarrow> Some s
     | Some idx \<Rightarrow> do {
         g \<leftarrow> set_at (gsets s) idx
           (if final = chr CHR ''0'' then charsetGraphic
            else if final = chr CHR ''A'' then charsetUK else charsetASCII);
         Some (s\<lparr>gsets := g\<rparr>) })"

definition resetCharsets :: "'a charset_state_scheme \<Rightarrow> 'a charset_state_scheme" where
  "resetCharsets s = s\<lparr>gsets := replicate 4 charsetASCII, gl := 0, singleShft := -1\<rparr>"

section \<open>Invariant and behaviour\<close>

definition charset_ok :: "'a charset_state_scheme \<Rightarrow> bool" where
  "charset_ok s \<longleftrightarrow> length (gsets s) = 4 \<and> 0 \<le> gl s \<and> gl s < 4
     \<and> -1 \<le> singleShft s \<and> singleShft s < 4"

definition activeSet :: "'a charset_state_scheme \<Rightarrow> charset" where
  "activeSet s = gsets s ! nat (if 2 \<le> singleShft s then singleShft s else gl s)"

text \<open>What a byte prints as in a character set, without the table lookup.\<close>

definition translated :: "charset \<Rightarrow> byte \<Rightarrow> rune" where
  "translated cs b = (if cs = charsetGraphic \<and> 0x60 \<le> uint b \<and> uint b \<le> 0x7E
       then decSpecialGraphics ! nat (uint b - 0x60)
     else if cs = charsetGraphic \<and> uint b = 0x5F then 0x20
     else if cs = charsetUK \<and> uint b = 0x23 then 0x00a3 else uint b)"

lemma mapChar_eq: "mapChar cs b = Some (translated cs b)"
proof -
  have sub: "uint (b - 0x60) = uint b - 0x60" if "0x60 \<le> b"
    using that uint_sub_if' [of b "0x60"] by (simp add: word_le_def)
  have len: "length decSpecialGraphics = 31" by (simp add: decSpecialGraphics_def)
  have eq: "b = w \<longleftrightarrow> uint b = uint w" for w by (simp add: word_uint_eq_iff)
  show ?thesis
    by (cases cs) (simp_all add: mapChar_def translated_def sub len get_at_Some word_le_def eq)
qed

lemma translateChar_eq:
  assumes "charset_ok s"
  shows "translateChar b s = Some (translated (activeSet s) b,
    if 2 \<le> singleShft s then s\<lparr>singleShft := -1\<rparr> else s)"
  using assms by (auto simp: translateChar_def charset_ok_def activeSet_def get_at_Some mapChar_eq)

text \<open>No translation yields the wide-glyph sentinels: the result is a printable scalar value.\<close>

lemma graphic_range: "\<forall>r \<in> set decSpecialGraphics. 0xa3 \<le> r \<and> r \<le> 0x25c6"
  by (simp add: decSpecialGraphics_def)

lemma translated_range:
  assumes "0x20 \<le> uint b" "uint b < 0x80"
  shows "0x20 \<le> translated cs b \<and> translated cs b \<le> 0x25c6"
proof (cases "cs = charsetGraphic \<and> 0x60 \<le> uint b \<and> uint b \<le> 0x7E")
  case True
  then have "nat (uint b - 0x60) < length decSpecialGraphics"
    by (auto simp: decSpecialGraphics_def)
  then have "decSpecialGraphics ! nat (uint b - 0x60) \<in> set decSpecialGraphics" by (rule nth_mem)
  with graphic_range True show ?thesis by (fastforce simp: translated_def)
next
  case False
  with assms show ?thesis by (auto simp: translated_def)
qed

lemma charset_ok_ops:
  "charset_ok s \<Longrightarrow> charset_ok (if 2 \<le> singleShft s then s\<lparr>singleShft := -1\<rparr> else s)"
  "charset_ok (resetCharsets s)"
  by (auto simp: charset_ok_def resetCharsets_def)

lemma scsIndex_range: "scsIndex i = Some k \<Longrightarrow> 0 \<le> k \<and> k < 4"
  by (auto simp: scsIndex_def split: if_splits)

lemma designateCharset_ok:
  assumes "charset_ok s"
  shows "ensures (designateCharset i f s) (\<lambda>t. charset_ok t \<and> (\<exists>g. t = s\<lparr>gsets := g\<rparr>))"
proof (cases "scsIndex i")
  case None
  have "\<exists>g. s = s\<lparr>gsets := g\<rparr>" by (rule exI [of _ "gsets s"]) simp
  with None assms show ?thesis by (simp add: designateCharset_def)
next
  case (Some k)
  define c where "c = (if f = chr CHR ''0'' then charsetGraphic
    else if f = chr CHR ''A'' then charsetUK else charsetASCII)"
  have e: "designateCharset i f s = do { g \<leftarrow> set_at (gsets s) k c; Some (s\<lparr>gsets := g\<rparr>) }"
    unfolding designateCharset_def Some c_def by simp
  have "\<exists>g. s\<lparr>gsets := g'\<rparr> = s\<lparr>gsets := g\<rparr>" for g' by (rule exI) (rule refl)
  with assms scsIndex_range [OF Some] show ?thesis unfolding e by (simp add: charset_ok_def)
qed

end
