(* ===== verification/Width.thy ===== *)
theory Width
  imports GoPrelude VtTypes
begin

text \<open>
  Cell widths, \<^verbatim>\<open>src/vt/width.go\<close>: the two generated interval tables, the binary search
  \<open>inTable\<close>, and \<open>runeWidth\<close>. The categories Mn, Me and Cf of the standard library's Unicode
  tables are the predicate argument \<open>mark\<close> (the field \<open>unicodeMark\<close> of the screen's
  environment); everything here holds for any such predicate. The binary search is proved
  equal to linear membership for every sorted table (the locale \<open>interval_table\<close>), and both
  tables are instances.
\<close>

section \<open>The tables\<close>

definition wideRanges :: "(rune \<times> rune) list" where
  "wideRanges = [
    (0x1100, 0x115F), (0x231A, 0x231B), (0x2329, 0x232A), (0x23E9, 0x23EC), (0x23F0, 0x23F0),
    (0x23F3, 0x23F3), (0x25FD, 0x25FE), (0x2614, 0x2615), (0x2630, 0x2637), (0x2648, 0x2653),
    (0x267F, 0x267F), (0x268A, 0x268F), (0x2693, 0x2693), (0x26A1, 0x26A1), (0x26AA, 0x26AB),
    (0x26BD, 0x26BE), (0x26C4, 0x26C5), (0x26CE, 0x26CE), (0x26D4, 0x26D4), (0x26EA, 0x26EA),
    (0x26F2, 0x26F3), (0x26F5, 0x26F5), (0x26FA, 0x26FA), (0x26FD, 0x26FD), (0x2705, 0x2705),
    (0x270A, 0x270B), (0x2728, 0x2728), (0x274C, 0x274C), (0x274E, 0x274E), (0x2753, 0x2755),
    (0x2757, 0x2757), (0x2795, 0x2797), (0x27B0, 0x27B0), (0x27BF, 0x27BF), (0x2B1B, 0x2B1C),
    (0x2B50, 0x2B50), (0x2B55, 0x2B55), (0x2E80, 0x2E99), (0x2E9B, 0x2EF3), (0x2F00, 0x2FD5),
    (0x2FF0, 0x303E), (0x3041, 0x3096), (0x3099, 0x30FF), (0x3105, 0x312F), (0x3131, 0x318E),
    (0x3190, 0x31E5), (0x31EF, 0x321E), (0x3220, 0x3247), (0x3250, 0xA48C), (0xA490, 0xA4C6),
    (0xA960, 0xA97C), (0xAC00, 0xD7A3), (0xF900, 0xFAFF), (0xFE10, 0xFE19), (0xFE30, 0xFE52),
    (0xFE54, 0xFE66), (0xFE68, 0xFE6B), (0xFF01, 0xFF60), (0xFFE0, 0xFFE6), (0x16FE0, 0x16FE4),
    (0x16FF0, 0x16FF6), (0x17000, 0x18CD5), (0x18CFF, 0x18D1E), (0x18D80, 0x18DF2),
    (0x1AFF0, 0x1AFF3), (0x1AFF5, 0x1AFFB), (0x1AFFD, 0x1AFFE), (0x1B000, 0x1B122),
    (0x1B132, 0x1B132), (0x1B150, 0x1B152), (0x1B155, 0x1B155), (0x1B164, 0x1B167),
    (0x1B170, 0x1B2FB), (0x1D300, 0x1D356), (0x1D360, 0x1D376), (0x1F004, 0x1F004),
    (0x1F0CF, 0x1F0CF), (0x1F18E, 0x1F18E), (0x1F191, 0x1F19A), (0x1F200, 0x1F202),
    (0x1F210, 0x1F23B), (0x1F240, 0x1F248), (0x1F250, 0x1F251), (0x1F260, 0x1F265),
    (0x1F300, 0x1F320), (0x1F32D, 0x1F335), (0x1F337, 0x1F37C), (0x1F37E, 0x1F393),
    (0x1F3A0, 0x1F3CA), (0x1F3CF, 0x1F3D3), (0x1F3E0, 0x1F3F0), (0x1F3F4, 0x1F3F4),
    (0x1F3F8, 0x1F43E), (0x1F440, 0x1F440), (0x1F442, 0x1F4FC), (0x1F4FF, 0x1F53D),
    (0x1F54B, 0x1F54E), (0x1F550, 0x1F567), (0x1F57A, 0x1F57A), (0x1F595, 0x1F596),
    (0x1F5A4, 0x1F5A4), (0x1F5FB, 0x1F64F), (0x1F680, 0x1F6C5), (0x1F6CC, 0x1F6CC),
    (0x1F6D0, 0x1F6D2), (0x1F6D5, 0x1F6D8), (0x1F6DC, 0x1F6DF), (0x1F6EB, 0x1F6EC),
    (0x1F6F4, 0x1F6FC), (0x1F7E0, 0x1F7EB), (0x1F7F0, 0x1F7F0), (0x1F90C, 0x1F93A),
    (0x1F93C, 0x1F945), (0x1F947, 0x1F9FF), (0x1FA70, 0x1FA7C), (0x1FA80, 0x1FA8A),
    (0x1FA8E, 0x1FAC6), (0x1FAC8, 0x1FAC8), (0x1FACD, 0x1FADC), (0x1FADF, 0x1FAEA),
    (0x1FAEF, 0x1FAF8), (0x20000, 0x2FFFD), (0x30000, 0x3FFFD)]"

definition emojiRanges :: "(rune \<times> rune) list" where
  "emojiRanges = [
    (0x231A, 0x231B), (0x23E9, 0x23EC), (0x23F0, 0x23F0), (0x23F3, 0x23F3), (0x25FD, 0x25FE),
    (0x2614, 0x2615), (0x2648, 0x2653), (0x267F, 0x267F), (0x2693, 0x2693), (0x26A1, 0x26A1),
    (0x26AA, 0x26AB), (0x26BD, 0x26BE), (0x26C4, 0x26C5), (0x26CE, 0x26CE), (0x26D4, 0x26D4),
    (0x26EA, 0x26EA), (0x26F2, 0x26F3), (0x26F5, 0x26F5), (0x26FA, 0x26FA), (0x26FD, 0x26FD),
    (0x2705, 0x2705), (0x270A, 0x270B), (0x2728, 0x2728), (0x274C, 0x274C), (0x274E, 0x274E),
    (0x2753, 0x2755), (0x2757, 0x2757), (0x2795, 0x2797), (0x27B0, 0x27B0), (0x27BF, 0x27BF),
    (0x2B1B, 0x2B1C), (0x2B50, 0x2B50), (0x2B55, 0x2B55), (0x1F004, 0x1F004), (0x1F0CF, 0x1F0CF),
    (0x1F18E, 0x1F18E), (0x1F191, 0x1F19A), (0x1F201, 0x1F201), (0x1F21A, 0x1F21A),
    (0x1F22F, 0x1F22F), (0x1F232, 0x1F236), (0x1F238, 0x1F23A), (0x1F250, 0x1F251),
    (0x1F300, 0x1F320), (0x1F32D, 0x1F335), (0x1F337, 0x1F37C), (0x1F37E, 0x1F393),
    (0x1F3A0, 0x1F3CA), (0x1F3CF, 0x1F3D3), (0x1F3E0, 0x1F3F0), (0x1F3F4, 0x1F3F4),
    (0x1F3F8, 0x1F43E), (0x1F440, 0x1F440), (0x1F442, 0x1F4FC), (0x1F4FF, 0x1F53D),
    (0x1F54B, 0x1F54E), (0x1F550, 0x1F567), (0x1F57A, 0x1F57A), (0x1F595, 0x1F596),
    (0x1F5A4, 0x1F5A4), (0x1F5FB, 0x1F64F), (0x1F680, 0x1F6C5), (0x1F6CC, 0x1F6CC),
    (0x1F6D0, 0x1F6D2), (0x1F6D5, 0x1F6D8), (0x1F6DC, 0x1F6DF), (0x1F6EB, 0x1F6EC),
    (0x1F6F4, 0x1F6FC), (0x1F7E0, 0x1F7EB), (0x1F7F0, 0x1F7F0), (0x1F90C, 0x1F93A),
    (0x1F93C, 0x1F945), (0x1F947, 0x1F9FF), (0x1FA70, 0x1FA7C), (0x1FA80, 0x1FA8A),
    (0x1FA8E, 0x1FAC6), (0x1FAC8, 0x1FAC8), (0x1FACD, 0x1FADC), (0x1FADF, 0x1FAEA),
    (0x1FAEF, 0x1FAF8)]"

section \<open>Binary search\<close>

function searchTable :: "rune \<Rightarrow> (rune \<times> rune) list \<Rightarrow> int \<Rightarrow> int \<Rightarrow> bool option" where
  "searchTable r table lo hi = (if lo \<le> hi then do {
       mid \<leftarrow> Some ((lo + hi) div 2);
       iv \<leftarrow> get_at table mid;
       if r > snd iv then searchTable r table (mid + 1) hi
       else if r < fst iv then searchTable r table lo (mid - 1)
       else Some True }
     else Some False)"
  by pat_completeness auto
termination
  by (relation "measure (\<lambda>(r, table, lo, hi). nat (hi - lo + 1))") auto

declare searchTable.simps [simp del]

definition inTable :: "rune \<Rightarrow> (rune \<times> rune) list \<Rightarrow> bool option" where
  "inTable r table = do {
     hi \<leftarrow> Some (int (length table) - 1);
     a \<leftarrow> get_at table 0;
     z \<leftarrow> get_at table hi;
     if r < fst a \<or> r > snd z then Some False else searchTable r table 0 hi }"

definition isWide :: "rune \<Rightarrow> bool option" where
  "isWide r = do { w \<leftarrow> inTable r wideRanges; if w then Some True else inTable r emojiRanges }"

definition isZeroWidth :: "(rune \<Rightarrow> bool) \<Rightarrow> rune \<Rightarrow> bool" where
  "isZeroWidth mark r = (if r = 0x00AD then False
     else if r \<ge> 0x1160 \<and> r \<le> 0x11FF then True
     else mark r)"

definition runeWidth :: "(rune \<Rightarrow> bool) \<Rightarrow> rune \<Rightarrow> int option" where
  "runeWidth mark r = (if r < 0x20 then Some 0
     else if r < 0x7F then Some 1
     else if r < 0xA0 then Some 0
     else if isZeroWidth mark r then Some 0
     else do { w \<leftarrow> isWide r; Some (if w then 2 else 1) })"

section \<open>Sorted tables\<close>

definition covers :: "(rune \<times> rune) list \<Rightarrow> rune \<Rightarrow> bool" where
  "covers table r \<longleftrightarrow> (\<exists>(a, b) \<in> set table. a \<le> r \<and> r \<le> b)"

fun ascending :: "(rune \<times> rune) list \<Rightarrow> bool" where
  "ascending [] \<longleftrightarrow> True"
| "ascending [(a, b)] \<longleftrightarrow> a \<le> b"
| "ascending ((a, b) # (c, d) # t) \<longleftrightarrow> a \<le> b \<and> b < c \<and> ascending ((c, d) # t)"

lemma ascending_tl: "ascending (x # t) \<Longrightarrow> ascending t"
  by (cases t; cases x) auto

lemma ascending_nth_le: "ascending t \<Longrightarrow> i < length t \<Longrightarrow> fst (t ! i) \<le> snd (t ! i)"
proof (induction t arbitrary: i rule: ascending.induct)
  case (3 a b c d t)
  then show ?case by (cases i) auto
qed auto

lemma ascending_nth_less:
  "ascending t \<Longrightarrow> i < j \<Longrightarrow> j < length t \<Longrightarrow> snd (t ! i) < fst (t ! j)"
proof (induction t arbitrary: i j rule: ascending.induct)
  case (3 a b c d t)
  show ?case
  proof (cases i)
    case 0
    with 3 obtain k where k: "j = Suc k" by (cases j) auto
    show ?thesis
    proof (cases k)
      case 0
      with \<open>i = 0\<close> k 3 show ?thesis by simp
    next
      case (Suc l)
      have "snd (((c, d) # t) ! 0) < fst (((c, d) # t) ! k)"
        using 3 k Suc by (intro "3.IH") auto
      moreover have "c \<le> d" using 3(2) by (cases t) auto
      ultimately show ?thesis using 3(2) \<open>i = 0\<close> k by simp
    qed
  next
    case (Suc m)
    with 3 obtain k where k: "j = Suc k" by (cases j) auto
    with Suc 3 show ?thesis using "3.IH" [of m k] by simp
  qed
qed auto

definition hits :: "rune \<Rightarrow> (rune \<times> rune) list \<Rightarrow> int \<Rightarrow> int \<Rightarrow> bool" where
  "hits r table lo hi \<longleftrightarrow>
     (\<exists>i. lo \<le> int i \<and> int i \<le> hi \<and> fst (table ! i) \<le> r \<and> r \<le> snd (table ! i))"

lemma hits_above:
  assumes "ascending table" "hi < int (length table)" "0 \<le> lo" "lo \<le> mid" "mid \<le> hi"
    "snd (table ! nat mid) < r"
  shows "hits r table lo hi = hits r table (mid + 1) hi"
proof -
  have "\<not> r \<le> snd (table ! i)" if "int i \<le> mid" for i
  proof (cases "i = nat mid")
    case True
    with assms(6) show ?thesis by simp
  next
    case False
    with that have i: "i < nat mid" by simp
    have "nat mid < length table" using assms by auto
    with ascending_nth_less [OF assms(1) i] ascending_nth_le [OF assms(1)] assms(6)
    show ?thesis by (meson leD le_less_trans less_trans order.strict_implies_order)
  qed
  with assms show ?thesis unfolding hits_def by (metis linorder_not_le zle_add1_eq_le order_trans
    less_imp_le add1_zle_eq)
qed

lemma hits_below:
  assumes "ascending table" "hi < int (length table)" "0 \<le> lo" "lo \<le> mid" "mid \<le> hi"
    "r < fst (table ! nat mid)"
  shows "hits r table lo hi = hits r table lo (mid - 1)"
proof -
  have "\<not> fst (table ! i) \<le> r" if "mid \<le> int i" "int i \<le> hi" for i
  proof (cases "i = nat mid")
    case True
    with assms(6) show ?thesis by simp
  next
    case False
    with that assms have i: "nat mid < i" "i < length table" by auto
    then have m: "nat mid < length table" by simp
    with ascending_nth_less [OF assms(1) i] ascending_nth_le [OF assms(1) m] assms(6)
    show ?thesis by simp
  qed
  with assms show ?thesis unfolding hits_def by (metis linorder_not_le zle_diff1_eq order_trans
    less_imp_le)
qed

lemma searchTable_correct:
  "ascending table \<Longrightarrow> 0 \<le> lo \<Longrightarrow> hi < int (length table) \<Longrightarrow>
   searchTable r table lo hi = Some (hits r table lo hi)"
proof (induction r table lo hi rule: searchTable.induct)
  case (1 r table lo hi)
  let ?mid = "(lo + hi) div 2"
  show ?case
  proof (cases "lo \<le> hi")
    case False
    then show ?thesis by (subst searchTable.simps) (auto simp: hits_def)
  next
    case True
    then have mid: "lo \<le> ?mid" "?mid \<le> hi" "0 \<le> ?mid" "?mid < int (length table)"
      using "1.prems" by auto
    have g: "get_at table ?mid = Some (table ! nat ?mid)" using mid by (simp add: get_at_Some)
    consider "r > snd (table ! nat ?mid)" | "\<not> r > snd (table ! nat ?mid)" "r < fst (table ! nat ?mid)"
      | "\<not> r > snd (table ! nat ?mid)" "\<not> r < fst (table ! nat ?mid)" by blast
    then show ?thesis
    proof cases
      case c: 1
      have "searchTable r table (?mid + 1) hi = Some (hits r table (?mid + 1) hi)"
        using "1.IH"(1) [OF True refl g c] "1.prems" mid by simp
      with True g c hits_above [OF "1.prems"(1,3,2) mid(1,2) c] show ?thesis
        by (subst searchTable.simps) simp
    next
      case c: 2
      have "searchTable r table lo (?mid - 1) = Some (hits r table lo (?mid - 1))"
        using "1.IH"(2) [OF True refl g c] "1.prems" mid by simp
      with True g c hits_below [OF "1.prems"(1,3,2) mid(1,2) c(2)] show ?thesis
        by (subst searchTable.simps) simp
    next
      case c: 3
      then have "hits r table lo hi"
        unfolding hits_def using mid by (intro exI [of _ "nat ?mid"]) auto
      with True g c show ?thesis by (subst searchTable.simps) simp
    qed
  qed
qed

text \<open>What a table's reader relies on, and what a sorted table then promises.\<close>

locale interval_table =
  fixes table :: "(rune \<times> rune) list"
  assumes nonempty: "table \<noteq> []"
    and sorted: "ascending table"
begin

lemma covers_hits: "covers table r = hits r table 0 (int (length table) - 1)"
  unfolding covers_def hits_def by (force simp: in_set_conv_nth)

lemma covers_bounds: "covers table r \<Longrightarrow> fst (hd table) \<le> r \<and> r \<le> snd (last table)"
proof -
  assume "covers table r"
  then obtain i where i: "i < length table" "fst (table ! i) \<le> r" "r \<le> snd (table ! i)"
    unfolding covers_def by (force simp: in_set_conv_nth)
  have "fst (table ! 0) \<le> fst (table ! i)"
    using ascending_nth_less [OF sorted, of 0 i] ascending_nth_le [OF sorted, of 0] i nonempty
    by (cases i) force+
  moreover have "snd (table ! i) \<le> snd (table ! (length table - 1))"
    using ascending_nth_less [OF sorted, of i "length table - 1"]
      ascending_nth_le [OF sorted, of "length table - 1"] i nonempty
    by (cases "i = length table - 1") force+
  ultimately show ?thesis
    using i nonempty by (simp add: hd_conv_nth last_conv_nth)
qed

lemma inTable_correct: "inTable r table = Some (covers table r)"
proof -
  have s: "searchTable r table 0 (int (length table) - 1) = Some (covers table r)"
    using searchTable_correct [OF sorted, of 0 "int (length table) - 1" r] by (simp add: covers_hits)
  have "nat (int (length table) - 1) = length table - 1" by simp
  then have e: "get_at table 0 = Some (hd table)" "get_at table (int (length table) - 1) = Some (last table)"
    using nonempty by (simp_all add: get_at_Some hd_conv_nth last_conv_nth Suc_le_eq)
  show ?thesis
    using covers_bounds [of r] s e by (auto simp: inTable_def)
qed

end

lemma ascending_wideRanges: "ascending wideRanges" "wideRanges \<noteq> []"
  by code_simp+

lemma ascending_emojiRanges: "ascending emojiRanges" "emojiRanges \<noteq> []"
  by code_simp+

interpretation wide: interval_table wideRanges
  by unfold_locales (rule ascending_wideRanges)+

interpretation emoji: interval_table emojiRanges
  by unfold_locales (rule ascending_emojiRanges)+

section \<open>Cell widths\<close>

definition widthOf :: "(rune \<Rightarrow> bool) \<Rightarrow> rune \<Rightarrow> int" where
  "widthOf mark r = (if r < 0x20 \<or> 0x7F \<le> r \<and> r < 0xA0 then 0
     else if r < 0x7F then 1
     else if isZeroWidth mark r then 0
     else if covers wideRanges r \<or> covers emojiRanges r then 2 else 1)"

lemma isWide_eq: "isWide r = Some (covers wideRanges r \<or> covers emojiRanges r)"
  by (simp add: isWide_def wide.inTable_correct emoji.inTable_correct)

lemma runeWidth_eq [simp]: "runeWidth mark r = Some (widthOf mark r)"
  by (simp add: runeWidth_def widthOf_def isWide_eq)

lemma widthOf_cases: "widthOf mark r = 0 \<or> widthOf mark r = 1 \<or> widthOf mark r = 2"
  by (simp add: widthOf_def)

end
