(* ===== verification/Utf8.thy ===== *)
theory Utf8
  imports GoPrelude VtTypes
begin

text \<open>
  UTF-8: the emulator's own decoder \<^verbatim>\<open>decodeUTF8Bytes\<close> (\<^verbatim>\<open>src/vt/parse.go\<close>), and what
  the code uses of Go's \<^verbatim>\<open>unicode/utf8\<close>: the encoding \<^verbatim>\<open>WriteRune\<close> appends, and the
  decoding of \<^verbatim>\<open>for range\<close> over a string. Encoding and each decoder are inverse on the
  scalar values the decoder accepts.
\<close>

unbundle bit_operations_syntax

section \<open>Definitions\<close>

text \<open>The four-byte array is indexed by constants only, so its reads are \<open>!\<close>.\<close>

definition decodeUTF8Bytes :: "byte list \<Rightarrow> int \<Rightarrow> rune" where
  "decodeUTF8Bytes buf n = (let
     r = (if n = 2 then
            push_bit 6 (uint (buf ! 0 AND 0x1F)) OR uint (buf ! 1 AND 0x3F)
          else if n = 3 then
            push_bit 12 (uint (buf ! 0 AND 0x0F)) OR push_bit 6 (uint (buf ! 1 AND 0x3F))
              OR uint (buf ! 2 AND 0x3F)
          else
            push_bit 18 (uint (buf ! 0 AND 0x07)) OR push_bit 12 (uint (buf ! 1 AND 0x3F))
              OR push_bit 6 (uint (buf ! 2 AND 0x3F)) OR uint (buf ! 3 AND 0x3F))
   in if n = 2 \<and> r < 0x80 then 0xFFFD
      else if n = 3 \<and> r < 0x800 then 0xFFFD
      else if n = 4 \<and> r < 0x10000 then 0xFFFD
      else if n \<noteq> 2 \<and> n \<noteq> 3 \<and> n \<noteq> 4 then 0xFFFD
      else if r > 0x10FFFF \<or> (r \<ge> 0xD800 \<and> r \<le> 0xDFFF) \<or> r = 0xFFFF then 0xFFFD
      else r)"

definition validRune :: "rune \<Rightarrow> bool" where
  "validRune r \<longleftrightarrow> 0 \<le> r \<and> r \<le> 0x10FFFF \<and> \<not> (0xD800 \<le> r \<and> r \<le> 0xDFFF)"

text \<open>\<^verbatim>\<open>utf8.AppendRune\<close>: an invalid rune is written as U+FFFD.\<close>

definition encodeRune :: "rune \<Rightarrow> byte list" where
  "encodeRune r0 = (let r = (if validRune r0 then r0 else 0xFFFD) in
     if r < 0x80 then [word_of_int r]
     else if r < 0x800 then [word_of_int (0xC0 + r div 64), word_of_int (0x80 + r mod 64)]
     else if r < 0x10000 then [word_of_int (0xE0 + r div 4096),
       word_of_int (0x80 + r div 64 mod 64), word_of_int (0x80 + r mod 64)]
     else [word_of_int (0xF0 + r div 262144), word_of_int (0x80 + r div 4096 mod 64),
       word_of_int (0x80 + r div 64 mod 64), word_of_int (0x80 + r mod 64)])"

definition encodeRunes :: "rune list \<Rightarrow> byte list" where
  "encodeRunes rs = concat (map encodeRune rs)"

definition isCont :: "int \<Rightarrow> bool" where
  "isCont b \<longleftrightarrow> 0x80 \<le> b \<and> b \<le> 0xBF"

text \<open>
  \<^verbatim>\<open>for _, r := range s\<close>: the next rune and the rest; an ill-formed byte yields U+FFFD and
  advances by one.
\<close>

fun nextRune :: "byte list \<Rightarrow> (rune \<times> byte list) option" where
  "nextRune [] = None"
| "nextRune (b # bs) = (let b0 = uint b in
     if b0 < 0x80 then Some (b0, bs)
     else if 0xC2 \<le> b0 \<and> b0 \<le> 0xDF then
       (case bs of b1 # r1 \<Rightarrow>
          if isCont (uint b1) then Some ((b0 - 0xC0) * 64 + (uint b1 - 0x80), r1)
          else Some (0xFFFD, bs)
        | _ \<Rightarrow> Some (0xFFFD, bs))
     else if 0xE0 \<le> b0 \<and> b0 \<le> 0xEF then
       (case bs of b1 # b2 # r2 \<Rightarrow>
          if (if b0 = 0xE0 then 0xA0 else 0x80) \<le> uint b1
             \<and> uint b1 \<le> (if b0 = 0xED then 0x9F else 0xBF) \<and> isCont (uint b2)
          then Some ((b0 - 0xE0) * 4096 + (uint b1 - 0x80) * 64 + (uint b2 - 0x80), r2)
          else Some (0xFFFD, bs)
        | _ \<Rightarrow> Some (0xFFFD, bs))
     else if 0xF0 \<le> b0 \<and> b0 \<le> 0xF4 then
       (case bs of b1 # b2 # b3 # r3 \<Rightarrow>
          if (if b0 = 0xF0 then 0x90 else 0x80) \<le> uint b1
             \<and> uint b1 \<le> (if b0 = 0xF4 then 0x8F else 0xBF)
             \<and> isCont (uint b2) \<and> isCont (uint b3)
          then Some ((b0 - 0xF0) * 262144 + (uint b1 - 0x80) * 4096 + (uint b2 - 0x80) * 64
                 + (uint b3 - 0x80), r3)
          else Some (0xFFFD, bs)
        | _ \<Rightarrow> Some (0xFFFD, bs))
     else Some (0xFFFD, bs))"

lemma nextRune_shorter: "nextRune bs = Some (r, rest) \<Longrightarrow> length rest < length bs"
  by (cases bs) (auto simp: Let_def split: if_splits list.splits)

function runesOf :: "byte list \<Rightarrow> rune list" where
  "runesOf bs = (case nextRune bs of None \<Rightarrow> [] | Some (r, rest) \<Rightarrow> r # runesOf rest)"
  by pat_completeness auto
termination
  by (relation "measure length") (auto dest: nextRune_shorter)

declare runesOf.simps [simp del]

text \<open>\<^verbatim>\<open>utf8.Valid\<close>: every byte belongs to a well-formed sequence.\<close>

function validUtf8 :: "byte list \<Rightarrow> bool" where
  "validUtf8 bs = (case nextRune bs of None \<Rightarrow> True
     | Some (r, rest) \<Rightarrow> (uint (hd bs) < 0x80 \<or> Suc (length rest) < length bs) \<and> validUtf8 rest)"
  by pat_completeness auto
termination
  by (relation "measure length") (auto dest: nextRune_shorter)

declare validUtf8.simps [simp del]

section \<open>Arithmetic form of the decoder\<close>

lemma uint_and_mask: "uint ((b :: byte) AND mask n) = uint b mod 2 ^ n"
  unfolding take_bit_eq_mask [symmetric] by (simp add: unsigned_take_bit_eq flip: take_bit_eq_mod)

lemma byte_masks:
  "uint ((b :: byte) AND 0x3F) = uint b mod 64" "uint (b AND 0x1F) = uint b mod 32"
  "uint (b AND 0x0F) = uint b mod 16" "uint (b AND 0x07) = uint b mod 8"
  using uint_and_mask [of b 6] uint_and_mask [of b 5] uint_and_mask [of b 4] uint_and_mask [of b 3]
  by (simp_all add: mask_eq_exp_minus_1)

lemma push_or: "0 \<le> b \<Longrightarrow> b < 2 ^ n \<Longrightarrow> push_bit n a OR b = a * 2 ^ n + (b :: int)"
proof -
  assume "0 \<le> b" "b < 2 ^ n"
  then have "take_bit n b = b" by (simp add: take_bit_int_eq_self_iff)
  then show ?thesis
    using concat_bit_eq [of n b a] concat_bit_def [of n b a]
    by (simp add: or.commute push_bit_eq_mult add.commute)
qed

definition decodedValue :: "byte list \<Rightarrow> int \<Rightarrow> int" where
  "decodedValue buf n = (if n = 2 then (uint (buf ! 0) mod 32) * 64 + uint (buf ! 1) mod 64
     else if n = 3 then ((uint (buf ! 0) mod 16) * 64 + uint (buf ! 1) mod 64) * 64
       + uint (buf ! 2) mod 64
     else (((uint (buf ! 0) mod 8) * 64 + uint (buf ! 1) mod 64) * 64 + uint (buf ! 2) mod 64) * 64
       + uint (buf ! 3) mod 64)"

lemma or_chain:
  assumes "0 \<le> b" "b < 64" "0 \<le> c" "c < 64" "0 \<le> d" "d < 64"
  shows "push_bit 6 a OR b = a * 64 + (b :: int)"
    and "push_bit 12 a OR push_bit 6 b OR c = (a * 64 + b) * 64 + c"
    and "push_bit 18 a OR push_bit 12 b OR push_bit 6 c OR d = ((a * 64 + b) * 64 + c) * 64 + d"
proof -
  have P: "push_bit 6 x OR e = x * 64 + e" if "0 \<le> e" "e < 64" for x e :: int
    using push_or [of e 6 x] that by simp
  have P12: "push_bit 12 x OR e = x * 4096 + e" if "0 \<le> e" "e < 4096" for x e :: int
    using push_or [of e 12 x] that by simp
  have P18: "push_bit 18 x OR e = x * 262144 + e" if "0 \<le> e" "e < 262144" for x e :: int
    using push_or [of e 18 x] that by simp
  show "push_bit 6 a OR b = a * 64 + b" by (rule P [OF assms(1,2)])
  have bc: "push_bit 6 b OR c = b * 64 + c" by (rule P [OF assms(3,4)])
  have "push_bit 12 a OR (b * 64 + c) = a * 4096 + (b * 64 + c)"
    by (rule P12) (use assms in linarith)+
  then show "push_bit 12 a OR push_bit 6 b OR c = (a * 64 + b) * 64 + c" using bc by simp
  have cd: "push_bit 6 c OR d = c * 64 + d" by (rule P [OF assms(5,6)])
  have bcd: "push_bit 12 b OR (c * 64 + d) = b * 4096 + (c * 64 + d)"
    by (rule P12) (use assms in linarith)+
  have "push_bit 18 a OR (b * 4096 + (c * 64 + d)) = a * 262144 + (b * 4096 + (c * 64 + d))"
    by (rule P18) (use assms in linarith)+
  then show "push_bit 18 a OR push_bit 12 b OR push_bit 6 c OR d = ((a * 64 + b) * 64 + c) * 64 + d"
    using cd bcd by simp
qed

lemma decodedValue_or: "decodedValue buf n = (if n = 2 then
            push_bit 6 (uint (buf ! 0 AND 0x1F)) OR uint (buf ! 1 AND 0x3F)
          else if n = 3 then
            push_bit 12 (uint (buf ! 0 AND 0x0F)) OR push_bit 6 (uint (buf ! 1 AND 0x3F))
              OR uint (buf ! 2 AND 0x3F)
          else
            push_bit 18 (uint (buf ! 0 AND 0x07)) OR push_bit 12 (uint (buf ! 1 AND 0x3F))
              OR push_bit 6 (uint (buf ! 2 AND 0x3F)) OR uint (buf ! 3 AND 0x3F))"
proof -
  have m: "0 \<le> x mod 64" "x mod 64 < 64" for x :: int by simp_all
  note oc = or_chain [OF m m m]
  show ?thesis unfolding decodedValue_def byte_masks
    unfolding oc(3) unfolding oc(2) unfolding oc(1) ..
qed

lemma decodeUTF8Bytes_eq: "decodeUTF8Bytes buf n = (let r = decodedValue buf n in
    if n = 2 \<and> 0x80 \<le> r \<or> n = 3 \<and> 0x800 \<le> r \<or> n = 4 \<and> 0x10000 \<le> r
    then if r > 0x10FFFF \<or> (r \<ge> 0xD800 \<and> r \<le> 0xDFFF) \<or> r = 0xFFFF then 0xFFFD else r
    else 0xFFFD)"
proof -
  obtain r where r: "decodedValue buf n = r" by blast
  show ?thesis unfolding decodeUTF8Bytes_def decodedValue_or [symmetric] r Let_def by auto
qed

lemma decodeUTF8Bytes_valid: "validRune (decodeUTF8Bytes buf n) \<and> decodeUTF8Bytes buf n \<noteq> 0xFFFF
    \<and> 0x80 \<le> decodeUTF8Bytes buf n"
proof -
  obtain r where r: "decodedValue buf n = r" by blast
  show ?thesis unfolding decodeUTF8Bytes_eq r Let_def by (auto simp: validRune_def)
qed

section \<open>Round trips\<close>

definition padBuf :: "byte list \<Rightarrow> byte list" where
  "padBuf bs = bs @ replicate (4 - length bs) 0"

lemma lead_mod: "0 \<le> q \<Longrightarrow> q < m \<Longrightarrow> (k * m + q) mod m = (q :: int)"
  by simp

lemma lead_bytes:
  "0 \<le> q \<Longrightarrow> q < 32 \<Longrightarrow> (192 + q) mod 32 = (q :: int)"
  "0 \<le> q \<Longrightarrow> q < 16 \<Longrightarrow> (224 + q) mod 16 = q"
  "0 \<le> q \<Longrightarrow> q < 8 \<Longrightarrow> (240 + q) mod 8 = q"
  "(128 + x mod 64) mod 64 = (x :: int) mod 64"
  using lead_mod [of q 32 6] lead_mod [of q 16 14] lead_mod [of q 8 30] lead_mod [of "x mod 64" 64 2]
  by simp_all

lemma base64_digits:
  "r div 64 * 64 + r mod 64 = (r :: int)"
  "(r div 4096 * 64 + r div 64 mod 64) * 64 + r mod 64 = r"
  "((r div 262144 * 64 + r div 4096 mod 64) * 64 + r div 64 mod 64) * 64 + r mod 64 = r"
proof -
  have q1: "r div 4096 = r div 64 div 64" using zdiv_zmult2_eq [of 64 r 64] by simp
  have "r div 262144 = r div 4096 div 64" using zdiv_zmult2_eq [of 64 r 4096] by simp
  note q = this [unfolded q1] q1
  have d: "x div 64 * 64 + x mod 64 = x" for x :: int by simp
  show "r div 64 * 64 + r mod 64 = r" by (rule d)
  show "(r div 4096 * 64 + r div 64 mod 64) * 64 + r mod 64 = r"
    unfolding q d [of "r div 64"] by (rule d)
  show "((r div 262144 * 64 + r div 4096 mod 64) * 64 + r div 64 mod 64) * 64 + r mod 64 = r"
    unfolding q d [of "r div 64 div 64"] d [of "r div 64"] by (rule d)
qed

lemma encodeRune_bytes:
  assumes "validRune r" "0x80 \<le> r"
  shows "r < 0x800 \<Longrightarrow> map uint (encodeRune r) = [192 + r div 64, 128 + r mod 64]"
    and "0x800 \<le> r \<Longrightarrow> r < 0x10000 \<Longrightarrow> map uint (encodeRune r)
      = [224 + r div 4096, 128 + r div 64 mod 64, 128 + r mod 64]"
    and "0x10000 \<le> r \<Longrightarrow> map uint (encodeRune r)
      = [240 + r div 262144, 128 + r div 4096 mod 64, 128 + r div 64 mod 64, 128 + r mod 64]"
proof -
  have b: "0 \<le> r" "r \<le> 0x10FFFF" using assms by (auto simp: validRune_def)
  have m: "0 \<le> x mod 64" "x mod 64 < 64" for x :: int by simp_all
  note len = uint_byte_of_int
  show "map uint (encodeRune r) = [192 + r div 64, 128 + r mod 64]" if "r < 0x800"
  proof -
    have "0 \<le> r div 64" "r div 64 < 32" using that b by auto
    with that assms m [of r] show ?thesis by (simp add: encodeRune_def len del: of_int_add)
  qed
  show "map uint (encodeRune r) = [224 + r div 4096, 128 + r div 64 mod 64, 128 + r mod 64]"
    if "0x800 \<le> r" "r < 0x10000"
  proof -
    have "0 \<le> r div 4096" "r div 4096 < 16" using that b by auto
    with that assms m [of r] m [of "r div 64"] show ?thesis
      by (simp add: encodeRune_def len del: of_int_add)
  qed
  show "map uint (encodeRune r)
      = [240 + r div 262144, 128 + r div 4096 mod 64, 128 + r div 64 mod 64, 128 + r mod 64]"
    if "0x10000 \<le> r"
  proof -
    have "0 \<le> r div 262144" "r div 262144 < 8" using that b by auto
    with that assms m [of r] m [of "r div 64"] m [of "r div 4096"] show ?thesis
      by (simp add: encodeRune_def len del: of_int_add)
  qed
qed

lemma padBuf_nth: "map uint bs = is \<Longrightarrow> i < length is \<Longrightarrow> uint (padBuf bs ! i) = is ! i"
  by (auto simp: padBuf_def nth_append)

lemma decoded_bytes:
  assumes "validRune r" "0x80 \<le> r"
  shows "r < 0x800 \<Longrightarrow> decodedValue (padBuf (encodeRune r)) 2 = r"
    and "0x800 \<le> r \<Longrightarrow> r < 0x10000 \<Longrightarrow> decodedValue (padBuf (encodeRune r)) 3 = r"
    and "0x10000 \<le> r \<Longrightarrow> decodedValue (padBuf (encodeRune r)) 4 = r"
proof -
  have b: "0 \<le> r" "r \<le> 0x10FFFF" using assms by (auto simp: validRune_def)
  show "decodedValue (padBuf (encodeRune r)) 2 = r" if c: "r < 0x800"
  proof -
    note e = encodeRune_bytes(1) [OF assms c]
    have q: "0 \<le> r div 64" "r div 64 < 32" using c b by auto
    have u: "uint (padBuf (encodeRune r) ! 0) = 192 + r div 64"
      "uint (padBuf (encodeRune r) ! 1) = 128 + r mod 64"
      using padBuf_nth [OF e, of 0] padBuf_nth [OF e, of 1] by simp_all
    show ?thesis unfolding decodedValue_def u lead_bytes(1) [OF q] lead_bytes(4)
      using base64_digits(1) [of r] by simp
  qed
  show "decodedValue (padBuf (encodeRune r)) 3 = r" if c: "0x800 \<le> r" "r < 0x10000"
  proof -
    note e = encodeRune_bytes(2) [OF assms c]
    have q: "0 \<le> r div 4096" "r div 4096 < 16" using c b by auto
    have u: "uint (padBuf (encodeRune r) ! 0) = 224 + r div 4096"
      "uint (padBuf (encodeRune r) ! 1) = 128 + r div 64 mod 64"
      "uint (padBuf (encodeRune r) ! 2) = 128 + r mod 64"
      using padBuf_nth [OF e, of 0] padBuf_nth [OF e, of 1] padBuf_nth [OF e, of 2] by simp_all
    show ?thesis unfolding decodedValue_def u lead_bytes(2) [OF q] lead_bytes(4)
      using base64_digits(2) [of r] by simp
  qed
  show "decodedValue (padBuf (encodeRune r)) 4 = r" if c: "0x10000 \<le> r"
  proof -
    note e = encodeRune_bytes(3) [OF assms c]
    have q: "0 \<le> r div 262144" "r div 262144 < 8" using c b by auto
    have u: "uint (padBuf (encodeRune r) ! 0) = 240 + r div 262144"
      "uint (padBuf (encodeRune r) ! 1) = 128 + r div 4096 mod 64"
      "uint (padBuf (encodeRune r) ! 2) = 128 + r div 64 mod 64"
      "uint (padBuf (encodeRune r) ! 3) = 128 + r mod 64"
      using padBuf_nth [OF e, of 0] padBuf_nth [OF e, of 1] padBuf_nth [OF e, of 2]
        padBuf_nth [OF e, of 3] by simp_all
    show ?thesis unfolding decodedValue_def u lead_bytes(3) [OF q] lead_bytes(4)
      using base64_digits(3) [of r] by simp
  qed
qed

lemma length_encodeRune:
  "validRune r \<Longrightarrow> length (encodeRune r)
    = (if r < 0x80 then 1 else if r < 0x800 then 2 else if r < 0x10000 then 3 else 4)"
  by (simp add: encodeRune_def)

theorem decode_encode:
  assumes "validRune r" "0x80 \<le> r" "r \<noteq> 0xFFFF"
  shows "decodeUTF8Bytes (padBuf (encodeRune r)) (int (length (encodeRune r))) = r"
proof -
  have b: "0 \<le> r" "r \<le> 0x10FFFF" "\<not> (0xD800 \<le> r \<and> r \<le> 0xDFFF)"
    using assms by (auto simp: validRune_def)
  consider "r < 0x800" | "0x800 \<le> r" "r < 0x10000" | "0x10000 \<le> r" by linarith
  then show ?thesis
  proof cases
    case 1
    with decoded_bytes(1) [OF assms(1,2)] length_encodeRune [OF assms(1)] assms b show ?thesis
      by (simp add: decodeUTF8Bytes_eq)
  next
    case 2
    with decoded_bytes(2) [OF assms(1,2)] length_encodeRune [OF assms(1)] assms b show ?thesis
      by (simp add: decodeUTF8Bytes_eq)
  next
    case 3
    with decoded_bytes(3) [OF assms(1,2)] length_encodeRune [OF assms(1)] assms b show ?thesis
      by (simp add: decodeUTF8Bytes_eq)
  qed
qed

text \<open>The \<^verbatim>\<open>for range\<close> decoder reads back what \<^verbatim>\<open>WriteRune\<close> wrote.\<close>

lemma nextRune_three:
  assumes "uint b0 = 224 + x" "uint b1 = 128 + y" "uint b2 = 128 + z" "0 \<le> x" "x < 16"
    and "x = 0 \<longrightarrow> 32 \<le> y" "x = 13 \<longrightarrow> y \<le> 31" "0 \<le> y" "y < 64" "0 \<le> z" "z < 64"
  shows "nextRune (b0 # b1 # b2 # rest) = Some ((x * 64 + y) * 64 + z, rest)"
  using assms by (simp add: isCont_def)

lemma nextRune_four:
  assumes "uint b0 = 240 + w" "uint b1 = 128 + x" "uint b2 = 128 + y" "uint b3 = 128 + z"
    "0 \<le> w" "w \<le> 4" and "w = 0 \<longrightarrow> 16 \<le> x" "w = 4 \<longrightarrow> x \<le> 15" "0 \<le> x" "x < 64"
    "0 \<le> y" "y < 64" "0 \<le> z" "z < 64"
  shows "nextRune (b0 # b1 # b2 # b3 # rest) = Some (((w * 64 + x) * 64 + y) * 64 + z, rest)"
  using assms by (simp add: isCont_def)

lemma lead_guards:
  fixes r w x y z :: int
  assumes "0 \<le> y" "y < 64" "0 \<le> z" "z < 64"
  shows "(x * 64 + y) * 64 + z = r \<Longrightarrow> 0x800 \<le> r \<Longrightarrow> \<not> (0xD800 \<le> r \<and> r \<le> 0xDFFF)
      \<Longrightarrow> (x = 0 \<longrightarrow> 32 \<le> y) \<and> (x = 13 \<longrightarrow> y \<le> 31)"
    and "((w * 64 + x) * 64 + y) * 64 + z = r \<Longrightarrow> 0x10000 \<le> r \<Longrightarrow> r \<le> 0x10FFFF
      \<Longrightarrow> (w = 0 \<longrightarrow> 16 \<le> x) \<and> (w = 4 \<longrightarrow> x \<le> 15)"
  using assms by auto

lemma nextRune_encode:
  assumes "validRune r"
  shows "nextRune (encodeRune r @ rest) = Some (r, rest)"
proof -
  have b: "0 \<le> r" "r \<le> 0x10FFFF" "\<not> (0xD800 \<le> r \<and> r \<le> 0xDFFF)"
    using assms by (auto simp: validRune_def)
  have m: "0 \<le> x mod 64" "x mod 64 < 64" for x :: int by simp_all
  consider "r < 0x80" | "0x80 \<le> r" "r < 0x800" | "0x800 \<le> r" "r < 0x10000" | "0x10000 \<le> r"
    by linarith
  then show ?thesis
  proof cases
    case 1
    with assms b have "encodeRune r = [word_of_int r]" by (simp add: encodeRune_def)
    with 1 b show ?thesis by (simp add: uint_byte_of_int)
  next
    case 2
    from encodeRune_bytes(1) [OF assms 2] obtain b0 b1 where e: "encodeRune r = [b0, b1]"
      "uint b0 = 192 + r div 64" "uint b1 = 128 + r mod 64" by auto
    have "2 \<le> r div 64" "r div 64 < 32" using 2 by auto
    with e m [of r] base64_digits(1) [of r] show ?thesis by (simp add: isCont_def)
  next
    case 3
    have lo: "0x80 \<le> r" using 3 by simp
    from encodeRune_bytes(2) [OF assms lo 3] obtain b0 b1 b2 where e: "encodeRune r = [b0, b1, b2]"
      "uint b0 = 224 + r div 4096" "uint b1 = 128 + r div 64 mod 64" "uint b2 = 128 + r mod 64"
      by auto
    note d = base64_digits(2) [of r]
    have q: "0 \<le> r div 4096" "r div 4096 < 16" using 3 by auto
    have g: "r div 4096 = 0 \<longrightarrow> 32 \<le> r div 64 mod 64" "r div 4096 = 13 \<longrightarrow> r div 64 mod 64 \<le> 31"
      using lead_guards(1) [OF m m d 3(1) b(3)] by blast+
    show ?thesis using nextRune_three [OF e(2-4) q g m m, of rest]
      by (simp only: e(1) d append_Cons append_Nil)
  next
    case 4
    have lo: "0x80 \<le> r" using 4 by simp
    from encodeRune_bytes(3) [OF assms lo 4] obtain b0 b1 b2 b3
      where e: "encodeRune r = [b0, b1, b2, b3]" "uint b0 = 240 + r div 262144"
      "uint b1 = 128 + r div 4096 mod 64" "uint b2 = 128 + r div 64 mod 64"
      "uint b3 = 128 + r mod 64" by auto
    note d = base64_digits(3) [of r]
    have q: "0 \<le> r div 262144" "r div 262144 \<le> 4" using 4 b by auto
    have g: "r div 262144 = 0 \<longrightarrow> 16 \<le> r div 4096 mod 64"
      "r div 262144 = 4 \<longrightarrow> r div 4096 mod 64 \<le> 15"
      using lead_guards(2) [OF m m d 4 b(2)] by blast+
    show ?thesis using nextRune_four [OF e(2-5) q g m m m, of rest]
      by (simp only: e(1) d append_Cons append_Nil)
  qed
qed

lemma runesOf_encode_append:
  "\<forall>r \<in> set rs. validRune r \<Longrightarrow> runesOf (encodeRunes rs @ rest) = rs @ runesOf rest"
proof (induction rs)
  case Nil
  then show ?case by (simp add: encodeRunes_def)
next
  case (Cons r rs)
  then have "nextRune (encodeRunes (r # rs) @ rest) = Some (r, encodeRunes rs @ rest)"
    by (simp add: encodeRunes_def nextRune_encode)
  then have "runesOf (encodeRunes (r # rs) @ rest) = r # runesOf (encodeRunes rs @ rest)"
    by (subst runesOf.simps) simp
  with Cons show ?case by simp
qed

lemma runesOf_encode: "\<forall>r \<in> set rs. validRune r \<Longrightarrow> runesOf (encodeRunes rs) = rs"
  using runesOf_encode_append [of rs "[]"] by (simp add: runesOf.simps [of "[]"])

text \<open>What \<^verbatim>\<open>range\<close> yields is always a valid rune, and ASCII text is its own decoding.\<close>

lemma nextRune_valid: "nextRune bs = Some (r, rest) \<Longrightarrow> validRune r"
proof (cases bs)
  case (Cons b cs)
  assume n: "nextRune bs = Some (r, rest)"
  have u: "0 \<le> uint b \<and> uint b \<le> 255" using uint_bounded [of b] by simp
  show ?thesis
    using n u unfolding Cons
    by (auto simp: Let_def validRune_def isCont_def split: if_splits list.splits)
qed simp

lemma runesOf_valid: "\<forall>r \<in> set (runesOf bs). validRune r"
proof (induction bs rule: runesOf.induct)
  case (1 bs)
  show ?case
  proof (cases "nextRune bs")
    case None
    then show ?thesis by (simp add: runesOf.simps [of bs])
  next
    case (Some x)
    obtain r rest where x: "x = (r, rest)" by (cases x)
    from 1 [OF Some x [symmetric]] nextRune_valid [of bs r rest] Some x show ?thesis
      by (simp add: runesOf.simps [of bs])
  qed
qed

lemma runesOf_ascii: "\<forall>b \<in> set bs. uint b < 0x80 \<Longrightarrow> runesOf bs = map uint bs"
proof (induction bs)
  case Nil
  then show ?case by (simp add: runesOf.simps)
next
  case (Cons b bs)
  then show ?case by (subst runesOf.simps) (simp add: Let_def)
qed

end
