(* ===== verification/Wire.thy ===== *)
theory Wire
  imports GoPrelude VtTypes Utf8
begin

text \<open>
  Rows as wire runs (\<^verbatim>\<open>src/vt/wire.go\<close>): colours resolved through the palette, same-style
  cells coalesced into runs, and the autolinker, which joins the rows of a wrap chain, finds URLs
  and stamps their overlap with one row into its runs. The text of a run is its list of runes;
  \<^verbatim>\<open>WriteRune\<close> of a value that is no scalar writes U+FFFD.
\<close>

section \<open>Colours\<close>

definition wireDefaultColor :: int where "wireDefaultColor = -1"
definition AttrAutolink :: u16 where "AttrAutolink = 1024"
definition maxAutolinkRows :: nat where "maxAutolinkRows = 4"

definition RGB :: "byte \<Rightarrow> byte \<Rightarrow> byte \<Rightarrow> int" where
  "RGB r g b = uint r * 65536 + uint g * 256 + uint b"

definition basic16RGB :: "byte \<Rightarrow> int" where
  "basic16RGB idx = (let pal =
     [0x000000, 0xcc0403, 0x19cb00, 0xcecb00,
      0x0d73cc, 0xcb1ed1, 0x0dcdcd, 0xdddddd,
      0x767676, 0xf2201f, 0x23fd00, 0xfffd00,
      0x1a8fff, 0xfd28ff, 0x14ffff, 0xffffff]
   in if unat idx < length pal then pal ! unat idx else pal ! 7)"

definition color256RGB :: "byte \<Rightarrow> int" where
  "color256RGB idx = (
     if idx < 16 then basic16RGB idx
     else if idx < 232 then (let
       i = idx - 16;
       b = i mod 6; g = i div 6 mod 6; r = i div 36;
       toVal = (\<lambda>v. if v = 0 then 0 else 55 + uint v * 40)
       in toVal r * 65536 + toVal g * 256 + toVal b)
     else (let v = 8 + uint (idx - 232) * 10 in v * 65536 + v * 256 + v))"

definition overrideOr :: "screen \<Rightarrow> byte \<Rightarrow> int \<Rightarrow> int" where
  "overrideOr s v dflt = (case paletteOverride s of None \<Rightarrow> dflt
     | Some m \<Rightarrow> (case map_of m v of Some c \<Rightarrow> c | None \<Rightarrow> dflt))"

definition colorToWire :: "screen \<Rightarrow> color \<Rightarrow> int" where
  "colorToWire s c = (
     if cType c = 0 then wireDefaultColor
     else if cType c = 1 then overrideOr s (cVal c) (basic16RGB (cVal c))
     else if cType c = 2 then overrideOr s (cVal c) (color256RGB (cVal c))
     else if cType c = 3 then RGB (cR c) (cG c) (cB c)
     else wireDefaultColor)"

section \<open>Runs\<close>

definition styleBits :: "sgr_style \<Rightarrow> u16" where
  "styleBits st = (let bit = (\<lambda>(b :: bool) (v :: u16). if b then v else 0) in
     or (bit (Bold st) 1) (or (bit (Italic st) 2) (or (bit (Underline st) 4)
     (or (bit (Inverse st) 8) (or (bit (Strikethrough st) 16) (or (bit (Dim st) 32)
     (or (bit (Hidden st) 64) (or (bit (Blink st) 128) (or (bit (Overline st) 256)
     (bit (DoubleUnderline st) 512))))))))))"

definition makeRunWithURL :: "screen \<Rightarrow> rune list \<Rightarrow> sgr_style \<Rightarrow> byte list \<Rightarrow> wire_run" where
  "makeRunWithURL s text st url = (let
     fg = (if Inverse st then BG st else FG st);
     bg = (if Inverse st then FG st else BG st);
     f = colorToWire s fg;
     b = colorToWire s bg
   in \<lparr>wT = text, wU = url,
       wF = (if \<not> Hidden st then liftForContrast (env s) f b else f),
       wB = b, wUc = colorToWire s (UnderlineColor st), wA = styleBits st\<rparr>)"

text \<open>A cell's contribution to a text: the second half of a wide glyph is U+FFFF.\<close>

definition cellRune :: "cell \<Rightarrow> rune" where
  "cellRune c = (if Ch c = 0 then 0xFFFF else if validRune (Ch c) then Ch c else 0xFFFD)"

definition trimmableBlank :: "cell \<Rightarrow> bool" where
  "trimmableBlank c \<longleftrightarrow> Ch c = 0x20 \<and> Style c = noStyle \<and> Hyperlink c = []"

definition trimTrailingBlanks :: "cell list \<Rightarrow> cell list" where
  "trimTrailingBlanks row = rev (dropWhile trimmableBlank (rev row))"

text \<open>The loop of \<^verbatim>\<open>cellsToRuns\<close>: the runs closed so far, then the open one.\<close>

fun runsLoop :: "screen \<Rightarrow> rune list \<Rightarrow> sgr_style \<Rightarrow> byte list \<Rightarrow> cell list \<Rightarrow> wire_run list" where
  "runsLoop s buf prev prevURL [] =
     (if buf \<noteq> [] then [makeRunWithURL s buf prev prevURL] else [])"
| "runsLoop s buf prev prevURL (c # cs) =
     (if Style c \<noteq> prev \<or> Hyperlink c \<noteq> prevURL
      then makeRunWithURL s buf prev prevURL # runsLoop s [cellRune c] (Style c) (Hyperlink c) cs
      else runsLoop s (buf @ [cellRune c]) prev prevURL cs)"

definition cellsToRuns :: "screen \<Rightarrow> cell list \<Rightarrow> bool \<Rightarrow> wire_run list" where
  "cellsToRuns s row continuesBelow = (let
     row' = (if continuesBelow then row else trimTrailingBlanks row)
   in case row' of [] \<Rightarrow> []
      | c # cs \<Rightarrow> runsLoop s [cellRune c] (Style c) (Hyperlink c) cs)"

section \<open>Wrap chains\<close>

definition rowMatchText :: "cell list \<Rightarrow> rune list" where
  "rowMatchText row = map cellRune row"

definition blankCell :: "cell \<Rightarrow> bool" where
  "blankCell c \<longleftrightarrow> Ch c = 0 \<or> Ch c = 0x20"

definition leadingBlankCells :: "cell list \<Rightarrow> int" where
  "leadingBlankCells row = int (length (takeWhile blankCell row))"

definition hardWrapIndent :: "cell list \<Rightarrow> cell list \<Rightarrow> int" where
  "hardWrapIndent prev cur = (
     if prev = [] \<or> length prev \<noteq> length cur then -1
     else if blankCell (last prev) then -1
     else let indent = leadingBlankCells prev in
       if indent = 0 \<or> indent \<ge> int (length cur) \<or> indent \<noteq> leadingBlankCells cur then -1
       else indent)"

definition wrappedAt :: "screen \<Rightarrow> int \<Rightarrow> bool" where
  "wrappedAt s y \<longleftrightarrow> 0 \<le> y \<and> y < int (length (wrapped s)) \<and> wrapped s ! nat y"

definition continuesRow :: "int \<Rightarrow> screen \<Rightarrow> bool option" where
  "continuesRow y s = (
     if y \<le> 0 \<or> y \<ge> Height s \<or> y \<ge> int (length (wrapped s)) then Some False
     else if wrapped s ! nat y then Some True
     else do {
       prev \<leftarrow> get_at (Cells s) (y - 1);
       cur \<leftarrow> get_at (Cells s) y;
       Some (hardWrapIndent prev cur \<ge> 0) })"

record chainRow =
  cr_text :: "rune list"
  cr_indent :: int

definition chainRowFor :: "int \<Rightarrow> int \<Rightarrow> screen \<Rightarrow> chainRow option" where
  "chainRowFor r start s = do {
     row \<leftarrow> get_at (Cells s) r;
     let text = rowMatchText row;
     if r > start \<and> \<not> wrappedAt s r then do {
       let indent = leadingBlankCells row;
       text' \<leftarrow> slice text indent (int (length text));
       Some \<lparr>cr_text = text', cr_indent = indent\<rparr> }
     else Some \<lparr>cr_text = text, cr_indent = 0\<rparr> }"

function boundChain :: "chainRow list \<Rightarrow> int \<Rightarrow> chainRow list \<times> int" where
  "boundChain rows focus = (
     if length rows > maxAutolinkRows then
       (if focus > int (length rows) - 1 - focus then boundChain (tl rows) (focus - 1)
        else boundChain (butlast rows) focus)
     else (rows, focus))"
  by pat_completeness auto
termination
  by (relation "measure (length \<circ> fst)") auto

declare boundChain.simps [simp del]

text \<open>The two searches for the ends of the chain, upward from \<open>y\<close> and downward.\<close>

fun chainStart :: "nat \<Rightarrow> screen \<Rightarrow> nat option" where
  "chainStart 0 s = Some 0"
| "chainStart (Suc y) s = do {
     c \<leftarrow> continuesRow (int (Suc y)) s;
     if c then chainStart y s else Some (Suc y) }"

function chainEnd :: "int \<Rightarrow> screen \<Rightarrow> int option" where
  "chainEnd e s = (if e + 1 < Height s then do {
       c \<leftarrow> continuesRow (e + 1) s;
       if c then chainEnd (e + 1) s else Some e }
     else Some e)"
  by pat_completeness auto
termination
  by (relation "measure (\<lambda>(e, s). nat (Height s - e))") auto

declare chainEnd.simps [simp del]

fun mapM :: "('a \<Rightarrow> 'b option) \<Rightarrow> 'a list \<Rightarrow> 'b list option" where
  "mapM f [] = Some []"
| "mapM f (x # xs) = do { y \<leftarrow> f x; ys \<leftarrow> mapM f xs; Some (y # ys) }"

definition chainRows :: "int \<Rightarrow> screen \<Rightarrow> (chainRow list \<times> int) option" where
  "chainRows y s = do {
     start \<leftarrow> (if y \<le> 0 then Some y else map_option int (chainStart (nat y) s));
     let tail = (if start = 0 \<and> wrappedAt s 0 then drainTail s else []);
     e \<leftarrow> chainEnd y s;
     live \<leftarrow> mapM (\<lambda>r. chainRowFor r start s) [start..e];
     Some (boundChain (map (\<lambda>t. \<lparr>cr_text = t, cr_indent = 0\<rparr>) tail @ live)
       (int (length tail) + (y - start))) }"

section \<open>The URL pattern\<close>

text \<open>
  \<^verbatim>\<open>urlRE\<close>: a scheme, then a maximal run of URL characters cut back to the last
  one that may end a URL. The two character classes exclude white space, everything outside ASCII
  and the listed punctuation.
\<close>

definition asciiIn :: "string \<Rightarrow> rune \<Rightarrow> bool" where
  "asciiIn cs r \<longleftrightarrow> r \<in> of_char ` set cs"

definition urlSpace :: "rune \<Rightarrow> bool" where
  "urlSpace r \<longleftrightarrow> r \<in> {0x09, 0x0A, 0x0C, 0x0D, 0x20}"

definition urlBody :: "rune \<Rightarrow> bool" where
  "urlBody r \<longleftrightarrow> r < 0x80 \<and> \<not> urlSpace r \<and> r \<notin> {0x22, 0x27} \<and> r \<noteq> 0x5C \<and> r \<noteq> 0x60
     \<and> \<not> asciiIn ''!*(){}|^<>'' r"

definition urlLast :: "rune \<Rightarrow> bool" where
  "urlLast r \<longleftrightarrow> r < 0x80 \<and> \<not> urlSpace r \<and> r \<notin> {0x22, 0x27} \<and> r \<noteq> 0x5C \<and> r \<noteq> 0x60
     \<and> \<not> asciiIn '':,.!?{}|^~[]()<>'' r"

definition runes :: "string \<Rightarrow> rune list" where
  "runes cs = map of_char cs"

definition schemes :: "rune list list" where
  "schemes = [runes ''https://'', runes ''http://'', runes ''HTTPS://'', runes ''HTTP://'']"

definition schemeLen :: "rune list \<Rightarrow> nat option" where
  "schemeLen t = map_option length (find (\<lambda>p. take (length p) t = p) schemes)"

text \<open>Greedy star, then one final character: the longest split that ends well.\<close>

fun lastSplit :: "nat \<Rightarrow> rune list \<Rightarrow> nat option" where
  "lastSplit 0 t = (case t of [] \<Rightarrow> None | r # _ \<Rightarrow> if urlLast r then Some 1 else None)"
| "lastSplit (Suc n) t = (if Suc n < length t \<and> urlLast (t ! Suc n) then Some (n + 2)
     else lastSplit n t)"

definition urlMatch :: "rune list \<Rightarrow> nat option" where
  "urlMatch t = (case schemeLen t of None \<Rightarrow> None
     | Some k \<Rightarrow> (let body = drop k t in
         map_option (\<lambda>n. k + n) (lastSplit (length (takeWhile urlBody body)) body)))"

text \<open>\<^verbatim>\<open>FindAllStringIndex\<close>: leftmost matches that do not overlap, as rune offsets.\<close>

function findURLs :: "nat \<Rightarrow> rune list \<Rightarrow> (nat \<times> nat) list" where
  "findURLs off t = (case t of [] \<Rightarrow> []
     | _ # r \<Rightarrow> (case urlMatch t of
         Some n \<Rightarrow> if 0 < n then (off, off + n) # findURLs (off + n) (drop n t) else findURLs (Suc off) r
       | None \<Rightarrow> findURLs (Suc off) r))"
  by pat_completeness auto
termination
  by (relation "measure (length \<circ> snd)") auto

declare findURLs.simps [simp del]

fun containsScheme :: "rune list \<Rightarrow> bool" where
  "containsScheme [] = False"
| "containsScheme (r # rs) = (take 3 (r # rs) = runes ''://'' \<or> containsScheme rs)"

section \<open>Stamping\<close>

record linkSpan =
  ls_url :: "byte list"
  ls_startCol :: int
  ls_endCol :: int

definition autolinkSpans :: "chainRow list \<Rightarrow> int \<Rightarrow> linkSpan list option" where
  "autolinkSpans rows focus = (let joined = concat (map cr_text rows) in
     if \<not> containsScheme joined then Some []
     else do {
       before \<leftarrow> slice rows 0 focus;
       row \<leftarrow> get_at rows focus;
       let rowStart = int (length (concat (map cr_text before)));
       let rowEnd = rowStart + int (length (cr_text row));
       Some (map (\<lambda>(ms, me).
           \<lparr>ls_url = encodeRunes (take (me - ms) (drop ms joined)),
            ls_startCol = max (int ms) rowStart - rowStart + cr_indent row,
            ls_endCol = min (int me) rowEnd - rowStart + cr_indent row\<rparr>)
         (filter (\<lambda>(ms, me). \<not> (int me \<le> rowStart \<or> int ms \<ge> rowEnd)) (findURLs 0 joined))) })"

definition spanCovering :: "linkSpan list \<Rightarrow> int \<Rightarrow> linkSpan option" where
  "spanCovering spans col = find (\<lambda>sp. col \<ge> ls_startCol sp \<and> col < ls_endCol sp) spans"

definition nextSpanStart :: "linkSpan list \<Rightarrow> int \<Rightarrow> int" where
  "nextSpanStart spans col = foldl (\<lambda>next sp.
     if ls_startCol sp > col \<and> ls_startCol sp < next then ls_startCol sp else next) (2 ^ 30) spans"

definition runSlice :: "wire_run \<Rightarrow> int \<Rightarrow> int \<Rightarrow> byte list \<Rightarrow> u16 \<Rightarrow> wire_run option" where
  "runSlice run start end url attr = do {
     t \<leftarrow> slice (wT run) start end;
     Some (run\<lparr>wT := t, wU := url, wA := or (wA run) attr\<rparr>) }"

lemma spanCovering_end: "spanCovering spans col = Some sp \<Longrightarrow> col < ls_endCol sp"
  by (auto simp: spanCovering_def find_Some_iff)

lemma nextSpanStart_gt: "col < 2 ^ 30 \<Longrightarrow> col < nextSpanStart spans col"
proof -
  have "col < n \<Longrightarrow> col < foldl (\<lambda>next sp. if ls_startCol sp > col \<and> ls_startCol sp < next
      then ls_startCol sp else next) n spans" for n
    by (induction spans arbitrary: n) auto
  then show "col < 2 ^ 30 \<Longrightarrow> col < nextSpanStart spans col" by (simp add: nextSpanStart_def)
qed

text \<open>
  The inner loop of \<^verbatim>\<open>applyLinkSpans\<close> over one run that starts at column \<open>col\<close>, with fuel: running out
  is \<open>None\<close>. One turn per rune is enough (\<open>linkSegs_text\<close>).
\<close>

fun linkSegs :: "nat \<Rightarrow> linkSpan list \<Rightarrow> int \<Rightarrow> wire_run \<Rightarrow> int \<Rightarrow> wire_run list option" where
  "linkSegs fuel spans col run segStart = (
     if segStart < int (length (wT run)) then
       (case fuel of 0 \<Rightarrow> None
        | Suc n \<Rightarrow> (let absCol = col + segStart in
          case spanCovering spans absCol of
            None \<Rightarrow> (let next = nextSpanStart spans absCol;
                segEnd = (if next - col < int (length (wT run)) then next - col
                          else int (length (wT run))) in
              do { seg \<leftarrow> runSlice run segStart segEnd [] 0;
                   rest \<leftarrow> linkSegs n spans col run segEnd;
                   Some (seg # rest) })
          | Some sp \<Rightarrow> (let segEnd = min (ls_endCol sp - col) (int (length (wT run))) in
              do { seg \<leftarrow> runSlice run segStart segEnd (ls_url sp) AttrAutolink;
                   rest \<leftarrow> linkSegs n spans col run segEnd;
                   Some (seg # rest) })))
     else Some [])"

declare linkSegs.simps [simp del]

fun applyLinkSpans :: "int \<Rightarrow> linkSpan list \<Rightarrow> wire_run list \<Rightarrow> wire_run list option" where
  "applyLinkSpans col spans [] = Some []"
| "applyLinkSpans col spans (run # runs) = do {
     segs \<leftarrow> (if wU run \<noteq> [] then Some [run] else linkSegs (length (wT run)) spans col run 0);
     rest \<leftarrow> applyLinkSpans (col + int (length (wT run))) spans runs;
     Some (segs @ rest) }"

definition stampAutolinks :: "int \<Rightarrow> wire_run list \<Rightarrow> screen \<Rightarrow> wire_run list option" where
  "stampAutolinks y runs s = do {
     (rows, focus) \<leftarrow> chainRows y s;
     spans \<leftarrow> autolinkSpans rows focus;
     if spans = [] then Some runs else applyLinkSpans 0 spans runs }"

definition softWrapsBelow :: "int \<Rightarrow> screen \<Rightarrow> bool" where
  "softWrapsBelow y s \<longleftrightarrow> wrappedAt s (y + 1)"

text \<open>\<^verbatim>\<open>RenderRowWire\<close>: a row outside the screen has no runs.\<close>

definition RenderRowWire :: "int \<Rightarrow> screen \<Rightarrow> wire_run list option" where
  "RenderRowWire y s = (if y < 0 \<or> y \<ge> Height s then Some []
     else do {
       row \<leftarrow> get_at (Cells s) y;
       stampAutolinks y (cellsToRuns s row (softWrapsBelow y s)) s })"

section \<open>Coalescing loses nothing\<close>

definition runsText :: "wire_run list \<Rightarrow> rune list" where
  "runsText runs = concat (map wT runs)"

lemma makeRun_fields [simp]:
  "wT (makeRunWithURL s t st u) = t" "wU (makeRunWithURL s t st u) = u"
  "wA (makeRunWithURL s t st u) = styleBits st"
  by (simp_all add: makeRunWithURL_def Let_def)

lemma runsLoop_text: "runsText (runsLoop s buf st u cs) = buf @ map cellRune cs"
  by (induction cs arbitrary: buf st u) (simp_all add: runsText_def)

lemma cellsToRuns_text: "runsText (cellsToRuns s row cont)
    = map cellRune (if cont then row else trimTrailingBlanks row)"
  by (simp add: cellsToRuns_def Let_def runsLoop_text split: list.split)
     (simp add: runsText_def)

text \<open>The specification of coalescing: each run is a cell's style repeated over its text.\<close>

fun cellTags :: "cell list \<Rightarrow> (sgr_style \<times> byte list) list" where
  "cellTags cs = map (\<lambda>c. (Style c, Hyperlink c)) cs"

definition expandRun :: "wire_run \<Rightarrow> (rune \<times> (u16 \<times> byte list \<times> int \<times> int \<times> int)) list" where
  "expandRun r = map (\<lambda>c. (c, (wA r, wU r, wF r, wB r, wUc r))) (wT r)"

definition cellPaint :: "screen \<Rightarrow> cell \<Rightarrow> rune \<times> (u16 \<times> byte list \<times> int \<times> int \<times> int)" where
  "cellPaint s c = (let r = makeRunWithURL s [] (Style c) (Hyperlink c) in
     (cellRune c, (wA r, wU r, wF r, wB r, wUc r)))"

definition paintOf :: "screen \<Rightarrow> sgr_style \<Rightarrow> byte list \<Rightarrow> u16 \<times> byte list \<times> int \<times> int \<times> int" where
  "paintOf s st u = (let r = makeRunWithURL s [] st u in (wA r, wU r, wF r, wB r, wUc r))"

lemma expandRun_make: "expandRun (makeRunWithURL s t st u) = map (\<lambda>c. (c, paintOf s st u)) t"
  by (simp add: expandRun_def paintOf_def makeRunWithURL_def Let_def)

lemma cellPaint_eq: "cellPaint s c = (cellRune c, paintOf s (Style c) (Hyperlink c))"
  by (simp add: cellPaint_def paintOf_def Let_def)

lemma runsLoop_expand: "concat (map expandRun (runsLoop s buf st u cs))
    = map (\<lambda>c. (c, paintOf s st u)) buf @ map (cellPaint s) cs"
  by (induction cs arbitrary: buf st u) (auto simp: expandRun_make cellPaint_eq)

lemma cellsToRuns_expand: "concat (map expandRun (cellsToRuns s row cont))
    = map (cellPaint s) (if cont then row else trimTrailingBlanks row)"
  by (simp add: cellsToRuns_def Let_def runsLoop_expand cellPaint_eq split: list.split)

lemma runsLoop_nonempty: "r \<in> set (runsLoop s buf st u cs) \<Longrightarrow> buf \<noteq> [] \<Longrightarrow> wT r \<noteq> []"
  by (induction cs arbitrary: buf st u) (auto split: if_splits)

lemma cellsToRuns_nonempty: "\<forall>r \<in> set (cellsToRuns s row cont). wT r \<noteq> []"
proof
  fix r assume "r \<in> set (cellsToRuns s row cont)"
  then obtain c cs where "r \<in> set (runsLoop s [cellRune c] (Style c) (Hyperlink c) cs)"
    by (auto simp: cellsToRuns_def Let_def split: list.splits)
  then show "wT r \<noteq> []" by (rule runsLoop_nonempty) simp
qed

text \<open>Trimming drops only trailing cells that are plain blanks.\<close>

lemma trimTrailingBlanks_prefix:
  "\<exists>bs. row = trimTrailingBlanks row @ bs \<and> (\<forall>c \<in> set bs. trimmableBlank c)"
  unfolding trimTrailingBlanks_def
  by (rule exI [of _ "rev (takeWhile trimmableBlank (rev row))"])
     (auto simp flip: rev_append dest: set_takeWhileD)

lemma trimTrailingBlanks_last:
  "trimTrailingBlanks row = [] \<or> \<not> trimmableBlank (last (trimTrailingBlanks row))"
  using hd_dropWhile [of trimmableBlank "rev row"]
  by (auto simp: trimTrailingBlanks_def last_rev simp del: hd_dropWhile)

section \<open>Stamping terminates, does not panic and keeps the text\<close>

lemma runSlice_Some: "0 \<le> a \<Longrightarrow> a \<le> b \<Longrightarrow> b \<le> int (length (wT run)) \<Longrightarrow>
    runSlice run a b u at = Some (run\<lparr>wT := take (nat (b - a)) (drop (nat a) (wT run)), wU := u,
      wA := or (wA run) at\<rparr>)"
  by (simp add: runSlice_def slice_def)

lemma linkSegs_text:
  assumes "0 \<le> a" "0 \<le> col" "col + int (length (wT run)) \<le> 2 ^ 30"
    and "int (length (wT run)) - a \<le> int fuel"
  shows "ensures (linkSegs fuel spans col run a) (\<lambda>segs. runsText segs = drop (nat a) (wT run)
    \<and> (\<forall>g \<in> set segs. wT g \<noteq> [] \<and> wF g = wF run \<and> wB g = wB run \<and> wUc g = wUc run
        \<and> (wU g = [] \<and> wA g = wA run \<or> wA g = or (wA run) AttrAutolink)))"
  using assms
proof (induction fuel arbitrary: a)
  case 0
  then show ?case by (simp add: linkSegs.simps [of 0] runsText_def)
next
  case (Suc n)
  let ?len = "int (length (wT run))"
  show ?case
  proof (cases "a < ?len")
    case False
    then show ?thesis by (simp add: linkSegs.simps [of "Suc n"] runsText_def)
  next
    case True
    have step: "ensures (runSlice run a b u at \<bind> (\<lambda>seg. linkSegs n spans col run b \<bind> (\<lambda>rest. Some (seg # rest))))
        (\<lambda>segs. runsText segs = drop (nat a) (wT run) \<and> (\<forall>g \<in> set segs. wT g \<noteq> [] \<and> wF g = wF run
          \<and> wB g = wB run \<and> wUc g = wUc run
          \<and> (wU g = [] \<and> wA g = wA run \<or> wA g = or (wA run) AttrAutolink)))"
      if b: "a < b" "b \<le> ?len" and ua: "u = [] \<and> at = 0 \<or> at = AttrAutolink" for b u at
    proof -
      have "take (nat (b - a)) (drop (nat a) (wT run)) @ drop (nat b) (wT run) = drop (nat a) (wT run)"
      proof -
        have "nat b = nat (b - a) + nat a" using Suc.prems b by simp
        then have "drop (nat b) (wT run) = drop (nat (b - a)) (drop (nat a) (wT run))" by simp
        with append_take_drop_id [of "nat (b - a)" "drop (nat a) (wT run)"] show ?thesis by metis
      qed
      then have fin: "runsText segs = drop (nat b) (wT run) \<Longrightarrow>
          take (nat (b - a)) (drop (nat a) (wT run)) @ runsText segs = drop (nat a) (wT run)" for segs
        by simp
      have some: "take (nat (b - a)) (drop (nat a) (wT run)) \<noteq> []" using Suc.prems b by simp
      have IH: "ensures (linkSegs n spans col run b) (\<lambda>segs. runsText segs = drop (nat b) (wT run)
          \<and> (\<forall>g \<in> set segs. wT g \<noteq> [] \<and> wF g = wF run \<and> wB g = wB run \<and> wUc g = wUc run
            \<and> (wU g = [] \<and> wA g = wA run \<or> wA g = or (wA run) AttrAutolink)))"
        by (rule Suc.IH) (use Suc.prems b in auto)
      show ?thesis
        using Suc.prems b ua
        by (simp add: runSlice_Some) (rule ensures_mono [OF IH], use fin some in \<open>auto simp: runsText_def\<close>)
    qed
    show ?thesis
    proof (cases "spanCovering spans (col + a)")
      case None
      have nx: "col + a < nextSpanStart spans (col + a)"
        by (rule nextSpanStart_gt) (use True Suc.prems in simp)
      show ?thesis using True None nx
        by (subst linkSegs.simps, auto simp only: Let_def nat.case option.case if_True intro!: step)
          simp_all
    next
      case (Some sp)
      from spanCovering_end [OF Some] True show ?thesis using Some
        by (subst linkSegs.simps) (auto simp only: Let_def nat.case option.case if_True intro!: step)
    qed
  qed
qed

definition stamped :: "wire_run list \<Rightarrow> wire_run list \<Rightarrow> bool" where
  "stamped runs out \<longleftrightarrow> runsText out = runsText runs
     \<and> ((\<forall>r \<in> set runs. wT r \<noteq> []) \<longrightarrow> (\<forall>r \<in> set out. wT r \<noteq> []))"

lemma applyLinkSpans_text:
  assumes "0 \<le> col" "col + int (length (runsText runs)) \<le> 2 ^ 30"
  shows "ensures (applyLinkSpans col spans runs) (stamped runs)"
  using assms
proof (induction runs arbitrary: col)
  case Nil
  then show ?case by (simp add: stamped_def)
next
  case (Cons run runs)
  have len: "int (length (runsText (run # runs))) = int (length (wT run)) + int (length (runsText runs))"
    by (simp add: runsText_def)
  have IH: "ensures (applyLinkSpans (col + int (length (wT run))) spans runs) (stamped runs)"
    by (rule Cons.IH) (use Cons.prems len in auto)
  have seg: "ensures (if wU run \<noteq> [] then Some [run] else linkSegs (length (wT run)) spans col run 0)
      (\<lambda>segs. runsText segs = wT run \<and> (wT run \<noteq> [] \<longrightarrow> (\<forall>g \<in> set segs. wT g \<noteq> [])))"
  proof (cases "wU run = []")
    case True
    have "ensures (linkSegs (length (wT run)) spans col run 0)
        (\<lambda>segs. runsText segs = wT run \<and> (wT run \<noteq> [] \<longrightarrow> (\<forall>g \<in> set segs. wT g \<noteq> [])))"
      by (rule ensures_mono [OF linkSegs_text [of 0 col run "length (wT run)" spans]])
         (use Cons.prems len in simp_all)
    with True show ?thesis by simp
  qed (simp add: runsText_def)
  show ?case
    unfolding applyLinkSpans.simps ensures_bind
    by (rule ensures_mono [OF seg], rule ensures_mono [OF IH])
       (unfold stamped_def runsText_def ensures_Some, elim conjE, intro conjI impI; force)
qed

lemma ensures_mapM:
  "(\<And>x. x \<in> set xs \<Longrightarrow> ensures (f x) P) \<Longrightarrow>
   ensures (mapM f xs) (\<lambda>ys. length ys = length xs \<and> (\<forall>y \<in> set ys. P y))"
proof (induction xs)
  case Nil
  then show ?case by simp
next
  case (Cons x xs)
  have "ensures (mapM f xs) (\<lambda>ys. length ys = length xs \<and> (\<forall>y \<in> set ys. P y))"
    by (rule Cons.IH) (use Cons.prems in simp)
  moreover have "ensures (f x) P" using Cons.prems by simp
  ultimately show ?case by (auto elim!: ensures_mono)
qed

lemma leadingBlankCells_range: "0 \<le> leadingBlankCells row \<and> leadingBlankCells row \<le> int (length row)"
  using length_takeWhile_le [of blankCell row] by (simp add: leadingBlankCells_def)

lemma continuesRow_total: "Height s = int (length (Cells s)) \<Longrightarrow> ensures (continuesRow y s) (\<lambda>_. True)"
  by (simp add: continuesRow_def)

lemma chainRowFor_total: "0 \<le> r \<Longrightarrow> r < int (length (Cells s)) \<Longrightarrow> ensures (chainRowFor r start s) (\<lambda>_. True)"
  using leadingBlankCells_range by (simp add: chainRowFor_def Let_def rowMatchText_def)

lemma chainStart_range: "Height s = int (length (Cells s)) \<Longrightarrow>
    ensures (chainStart y s) (\<lambda>st. st \<le> y)"
proof (induction y)
  case 0
  then show ?case by simp
next
  case (Suc y)
  then have "ensures (chainStart y s) (\<lambda>st. st \<le> Suc y)" by (auto elim: ensures_mono)
  with continuesRow_total [of s "int (Suc y)"] Suc.prems show ?case
    by (auto elim!: ensures_mono simp del: of_nat_Suc)
qed

lemma chainEnd_range: "Height s = int (length (Cells s)) \<Longrightarrow> e < Height s \<Longrightarrow>
    ensures (chainEnd e s) (\<lambda>r. e \<le> r \<and> r < Height s)"
proof (induction e s rule: chainEnd.induct)
  case (1 e s)
  show ?case
  proof (cases "e + 1 < Height s")
    case True
    from continuesRow_total [OF 1(2), of "e + 1"] obtain c where c: "continuesRow (e + 1) s = Some c"
      by (cases "continuesRow (e + 1) s") auto
    show ?thesis
    proof (cases c)
      case True
      have "ensures (chainEnd (e + 1) s) (\<lambda>r. e + 1 \<le> r \<and> r < Height s)"
        by (rule 1(1)) (use \<open>e + 1 < Height s\<close> c True 1 in auto)
      then have "ensures (chainEnd (e + 1) s) (\<lambda>r. e \<le> r \<and> r < Height s)"
        by (rule ensures_mono) auto
      with \<open>e + 1 < Height s\<close> c True show ?thesis by (subst chainEnd.simps) simp
    next
      case False
      with \<open>e + 1 < Height s\<close> c show ?thesis by (subst chainEnd.simps) simp
    qed
  next
    case False
    with 1 show ?thesis by (subst chainEnd.simps) simp
  qed
qed

text \<open>
  Bounding a chain keeps the focus row, at its new index, and at most four consecutive rows.
\<close>

lemma boundChain_focus:
  "0 \<le> focus \<Longrightarrow> focus < int (length rows) \<Longrightarrow> boundChain rows focus = (rows', focus') \<Longrightarrow>
   0 \<le> focus' \<and> focus' < int (length rows') \<and> length rows' \<le> maxAutolinkRows
   \<and> rows' ! nat focus' = rows ! nat focus \<and> (\<exists>pre post. rows = pre @ rows' @ post)"
proof (induction rows focus rule: boundChain.induct)
  case (1 rows focus)
  show ?case
  proof (cases "length rows > maxAutolinkRows")
    case False
    with 1 show ?thesis by (auto simp: boundChain.simps [of rows focus] intro: exI [of _ "[]"])
  next
    case long: True
    then have ne: "rows \<noteq> []" by auto
    show ?thesis
    proof (cases "focus > int (length rows) - 1 - focus")
      case True
      with long 1(5) have e: "boundChain (tl rows) (focus - 1) = (rows', focus')"
        by (simp add: boundChain.simps [of rows focus])
      have pos: "1 \<le> focus" using True 1(3,4) long by (simp add: maxAutolinkRows_def)
      have IH: "0 \<le> focus' \<and> focus' < int (length rows') \<and> length rows' \<le> maxAutolinkRows
          \<and> rows' ! nat focus' = tl rows ! nat (focus - 1) \<and> (\<exists>pre post. tl rows = pre @ rows' @ post)"
        by (rule 1(1) [OF long True _ _ e]) (use pos 1(4) ne in auto)
      have "tl rows ! nat (focus - 1) = rows ! nat focus"
        using pos 1(4) ne by (subst nth_tl) (auto simp: nat_diff_distrib Suc_diff_le)
      moreover have "\<exists>pre' post. rows = pre' @ rows' @ post"
      proof -
        from IH obtain pre post where "tl rows = pre @ rows' @ post" by blast
        then have "rows = (hd rows # pre) @ rows' @ post" using ne by (cases rows) simp_all
        then show ?thesis by blast
      qed
      ultimately show ?thesis using IH by simp
    next
      case False
      with long 1(5) have e: "boundChain (butlast rows) focus = (rows', focus')"
        by (simp add: boundChain.simps [of rows focus])
      have lt: "focus < int (length rows) - 1" using False 1(3) long by (simp add: maxAutolinkRows_def)
      have IH: "0 \<le> focus' \<and> focus' < int (length rows') \<and> length rows' \<le> maxAutolinkRows
          \<and> rows' ! nat focus' = butlast rows ! nat focus \<and> (\<exists>pre post. butlast rows = pre @ rows' @ post)"
        by (rule 1(2) [OF long False _ _ e]) (use lt 1(3) in auto)
      have "butlast rows ! nat focus = rows ! nat focus"
        using lt 1(3) by (subst nth_butlast) auto
      moreover have "\<exists>pre post'. rows = pre @ rows' @ post'"
      proof -
        from IH obtain pre post where "butlast rows = pre @ rows' @ post" by blast
        then have "rows = pre @ rows' @ (post @ [last rows])"
          using append_butlast_last_id [OF ne] by simp
        then show ?thesis by blast
      qed
      ultimately show ?thesis using IH by simp
    qed
  qed
qed

lemma chainRows_total:
  assumes "Height s = int (length (Cells s))" "0 \<le> y" "y < Height s"
  shows "ensures (chainRows y s) (\<lambda>(rows, focus). 0 \<le> focus \<and> focus < int (length rows)
    \<and> length rows \<le> maxAutolinkRows)"
proof -
  have st: "ensures (if y \<le> 0 then Some y else map_option int (chainStart (nat y) s))
      (\<lambda>st. 0 \<le> st \<and> st \<le> y)"
    using chainStart_range [OF assms(1), of "nat y"] assms(2)
    by (cases "chainStart (nat y) s") auto
  have live: "ensures (mapM (\<lambda>r. chainRowFor r st s) [st..e]) (\<lambda>ys. int (length ys) = e - st + 1)"
    if "0 \<le> st" "st \<le> y" "y \<le> e" "e < Height s" for st e
  proof -
    have "ensures (mapM (\<lambda>r. chainRowFor r st s) [st..e])
        (\<lambda>ys. length ys = length [st..e] \<and> (\<forall>c \<in> set ys. True))"
      by (rule ensures_mapM) (use that assms in \<open>auto intro: chainRowFor_total\<close>)
    then show ?thesis by (rule ensures_mono) (use that in auto)
  qed
  show ?thesis
    unfolding chainRows_def ensures_bind Let_def
  proof (rule ensures_mono [OF st], rule ensures_mono [OF chainEnd_range [OF assms(1,3)]],
      rule ensures_mono [OF live])
    fix st e :: int and ys :: "chainRow list"
    assume h: "0 \<le> st \<and> st \<le> y" "y \<le> e \<and> e < Height s" "int (length ys) = e - st + 1"
    define tail where "tail = (if st = 0 \<and> wrappedAt s 0 then drainTail s else [])"
    obtain rs f where b: "boundChain (map (\<lambda>t. \<lparr>cr_text = t, cr_indent = 0\<rparr>) tail @ ys)
        (int (length tail) + (y - st)) = (rs, f)" by (metis surj_pair)
    have "0 \<le> f \<and> f < int (length rs) \<and> length rs \<le> maxAutolinkRows"
      using boundChain_focus [OF _ _ b] h by auto
    with b show "ensures (Some (boundChain (map (\<lambda>t. \<lparr>cr_text = t, cr_indent = 0\<rparr>)
          (if st = 0 \<and> wrappedAt s 0 then drainTail s else []) @ ys)
        (int (length (if st = 0 \<and> wrappedAt s 0 then drainTail s else [])) + (y - st))))
        (\<lambda>(rows, focus). 0 \<le> focus \<and> focus < int (length rows) \<and> length rows \<le> maxAutolinkRows)"
      by (simp add: tail_def)
  qed auto
qed

lemma autolinkSpans_total: "0 \<le> focus \<Longrightarrow> focus < int (length rows) \<Longrightarrow>
    ensures (autolinkSpans rows focus) (\<lambda>_. True)"
  by (simp add: autolinkSpans_def Let_def)

text \<open>The text of a stamped row is the text of the row: stamping only adds links.\<close>

lemma stampAutolinks_text:
  assumes "Height s = int (length (Cells s))" "0 \<le> y" "y < Height s"
    and "int (length (runsText runs)) \<le> 2 ^ 30"
  shows "ensures (stampAutolinks y runs s) (stamped runs)"
  unfolding stampAutolinks_def ensures_bind
proof (rule ensures_mono [OF chainRows_total [OF assms(1-3)]])
  fix x :: "chainRow list \<times> int"
  assume x: "case x of (rows, focus) \<Rightarrow> 0 \<le> focus \<and> focus < int (length rows)
    \<and> length rows \<le> maxAutolinkRows"
  obtain rows focus where xe: "x = (rows, focus)" by (cases x)
  with x have f: "0 \<le> focus" "focus < int (length rows)" by auto
  have "ensures (if spans = [] then Some runs else applyLinkSpans 0 spans runs) (stamped runs)" for spans
    using applyLinkSpans_text [of 0 runs spans] assms(4) by (simp add: stamped_def)
  with autolinkSpans_total [OF f] xe show "ensures (case x of (rows, focus) \<Rightarrow>
      autolinkSpans rows focus \<bind> (\<lambda>spans. if spans = [] then Some runs else applyLinkSpans 0 spans runs))
    (stamped runs)"
    by (cases "autolinkSpans rows focus") auto
qed

end
