(* ===== verification/GoText.thy ===== *)
theory GoText
  imports GoPrelude VtTypes
begin

text \<open>
  What the code uses of Go's \<^verbatim>\<open>strconv\<close>, \<^verbatim>\<open>fmt\<close>, \<^verbatim>\<open>encoding/hex\<close> and
  \<^verbatim>\<open>encoding/base64\<close>, on byte lists: decimal and hexadecimal printing and parsing, and
  standard base64 with its strict and unpadded decoders. Each printer is inverted by its parser.
\<close>

section \<open>Decimal\<close>

definition digitByte :: "nat \<Rightarrow> byte" where
  "digitByte d = of_nat (48 + d)"

function natDigits :: "nat \<Rightarrow> byte list" where
  "natDigits n = (if n < 10 then [digitByte n] else natDigits (n div 10) @ [digitByte (n mod 10)])"
  by pat_completeness auto
termination
  by (relation "measure id") auto

declare natDigits.simps [simp del]

text \<open>\<^verbatim>\<open>%d\<close> and \<^verbatim>\<open>strconv.Itoa\<close>.\<close>

definition itoa :: "int \<Rightarrow> byte list" where
  "itoa i = (if i < 0 then chr CHR ''-'' # natDigits (nat (- i)) else natDigits (nat i))"

definition isDigit :: "byte \<Rightarrow> bool" where
  "isDigit b \<longleftrightarrow> 48 \<le> uint b \<and> uint b \<le> 57"

text \<open>\<^verbatim>\<open>isAllDigits\<close> of osc.go.\<close>

definition isAllDigits :: "byte list \<Rightarrow> bool" where
  "isAllDigits s \<longleftrightarrow> s \<noteq> [] \<and> (\<forall>b \<in> set s. isDigit b)"

definition digitsValue :: "byte list \<Rightarrow> int" where
  "digitsValue s = foldl (\<lambda>v b. v * 10 + (uint b - 48)) 0 s"

text \<open>
  \<^verbatim>\<open>strconv.ParseUint(s, 10, bits)\<close> and \<^verbatim>\<open>strconv.Atoi(s)\<close>, which takes an optional
  sign; the error of either is \<open>None\<close>.
\<close>

definition parseUint10 :: "byte list \<Rightarrow> nat \<Rightarrow> int option" where
  "parseUint10 s bits = (if isAllDigits s \<and> digitsValue s < 2 ^ bits then Some (digitsValue s) else None)"

definition atoi :: "byte list \<Rightarrow> int option" where
  "atoi s = (case s of [] \<Rightarrow> None
    | c # r \<Rightarrow>
      if c = chr CHR ''-'' then
        (if isAllDigits r \<and> digitsValue r \<le> 2 ^ 63 then Some (- digitsValue r) else None)
      else (let t = (if c = chr CHR ''+'' then r else s) in
        if isAllDigits t \<and> digitsValue t < 2 ^ 63 then Some (digitsValue t) else None))"

lemma digitsValue_snoc: "digitsValue (s @ [b]) = digitsValue s * 10 + (uint b - 48)"
  by (simp add: digitsValue_def)

lemma uint_digitByte: "d < 10 \<Longrightarrow> uint (digitByte d) = 48 + int d"
  using uint_byte_of_int [of "48 + int d"] by (simp add: digitByte_def)

lemma isDigit_digitByte: "d < 10 \<Longrightarrow> isDigit (digitByte d)"
  by (simp add: isDigit_def uint_digitByte)

lemma natDigits_digits: "natDigits n \<noteq> [] \<and> (\<forall>b \<in> set (natDigits n). isDigit b)
    \<and> digitsValue (natDigits n) = int n"
proof (induction n rule: natDigits.induct)
  case (1 n)
  show ?case
  proof (cases "n < 10")
    case True
    then show ?thesis
      by (simp add: natDigits.simps [of n] isDigit_digitByte uint_digitByte digitsValue_def)
  next
    case False
    have "n = n div 10 * 10 + n mod 10" by simp
    then have "int n = int (n div 10) * 10 + int (n mod 10)" by (metis of_nat_add of_nat_mult of_nat_numeral)
    with 1 [OF False] False show ?thesis
      by (simp add: natDigits.simps [of n] isDigit_digitByte uint_digitByte digitsValue_snoc)
  qed
qed

lemma isAllDigits_natDigits: "isAllDigits (natDigits n)"
  using natDigits_digits [of n] by (simp add: isAllDigits_def)

lemma isAllDigits_not_sign: "isAllDigits s \<Longrightarrow> s = c # r \<Longrightarrow> c \<noteq> chr CHR ''-'' \<and> c \<noteq> chr CHR ''+''"
  by (auto simp: isAllDigits_def isDigit_def)

lemma parseUint10_natDigits: "int n < 2 ^ bits \<Longrightarrow> parseUint10 (natDigits n) bits = Some (int n)"
  using natDigits_digits [of n] isAllDigits_natDigits [of n] by (simp add: parseUint10_def)

lemma atoi_natDigits: "int n < 2 ^ 63 \<Longrightarrow> atoi (natDigits n) = Some (int n)"
  using natDigits_digits [of n] isAllDigits_natDigits [of n] isAllDigits_not_sign [of "natDigits n"]
  by (auto simp: atoi_def split: list.splits)

lemma atoi_itoa: "- (2 ^ 63) \<le> i \<Longrightarrow> i < 2 ^ 63 \<Longrightarrow> atoi (itoa i) = Some i"
proof (cases "i < 0")
  case True
  assume "- (2 ^ 63) \<le> i"
  with True natDigits_digits [of "nat (- i)"] isAllDigits_natDigits [of "nat (- i)"] show ?thesis
    by (simp add: itoa_def atoi_def)
next
  case False
  assume "i < 2 ^ 63"
  with False atoi_natDigits [of "nat i"] show ?thesis by (simp add: itoa_def)
qed

section \<open>Hexadecimal\<close>

definition hexDigitU :: "int \<Rightarrow> byte" where
  "hexDigitU d = (if d < 10 then word_of_int (48 + d) else word_of_int (55 + d))"

definition hexDigitL :: "int \<Rightarrow> byte" where
  "hexDigitL d = (if d < 10 then word_of_int (48 + d) else word_of_int (87 + d))"

definition hexValue :: "byte \<Rightarrow> int option" where
  "hexValue b = (let c = uint b in
     if 48 \<le> c \<and> c \<le> 57 then Some (c - 48)
     else if 97 \<le> c \<and> c \<le> 102 then Some (c - 87)
     else if 65 \<le> c \<and> c \<le> 70 then Some (c - 55)
     else None)"

text \<open>\<^verbatim>\<open>%02x\<close> of a byte and \<^verbatim>\<open>%04X\<close> of a 16-bit value.\<close>

definition hex2 :: "byte \<Rightarrow> byte list" where
  "hex2 b = [hexDigitL (uint b div 16), hexDigitL (uint b mod 16)]"

definition hex4U :: "int \<Rightarrow> byte list" where
  "hex4U v = [hexDigitU (v div 4096 mod 16), hexDigitU (v div 256 mod 16),
     hexDigitU (v div 16 mod 16), hexDigitU (v mod 16)]"

definition hexEncode :: "byte list \<Rightarrow> byte list" where
  "hexEncode s = concat (map hex2 s)"

text \<open>\<^verbatim>\<open>strconv.ParseUint(h, 16, bits)\<close> on a string short enough not to overflow.\<close>

definition parseHex :: "byte list \<Rightarrow> int option" where
  "parseHex h = (if h = [] then None
     else foldl (\<lambda>v b. v \<bind> (\<lambda>n. map_option (\<lambda>d. n * 16 + d) (hexValue b))) (Some 0) h)"

fun hexDecode :: "byte list \<Rightarrow> byte list option" where
  "hexDecode [] = Some []"
| "hexDecode [_] = None"
| "hexDecode (a # b # r) = (case (hexValue a, hexValue b, hexDecode r) of
     (Some x, Some y, Some zs) \<Rightarrow> Some (word_of_int (x * 16 + y) # zs)
   | _ \<Rightarrow> None)"

lemma hexValue_digit: "0 \<le> d \<Longrightarrow> d < 16 \<Longrightarrow> hexValue (hexDigitL d) = Some d"
  "0 \<le> d \<Longrightarrow> d < 16 \<Longrightarrow> hexValue (hexDigitU d) = Some d"
  by (simp_all add: hexValue_def hexDigitL_def hexDigitU_def Let_def uint_byte_of_int
      del: of_int_add)

lemma uint_div_16: "0 \<le> uint (b :: byte) div 16" "uint b div 16 < 16"
  using uint_lt2p [of b] by simp_all

lemma hexDecode_encode: "hexDecode (hexEncode s) = Some s"
  by (induction s)
     (simp_all add: hexEncode_def hex2_def hexValue_digit uint_div_16 word_of_int_uint)

section \<open>Base64\<close>

definition b64Char :: "int \<Rightarrow> byte" where
  "b64Char v = (if v < 26 then word_of_int (65 + v) else if v < 52 then word_of_int (71 + v)
     else if v < 62 then word_of_int (v - 4) else if v = 62 then 43 else 47)"

definition b64Value :: "byte \<Rightarrow> int option" where
  "b64Value b = (let c = uint b in
     if 65 \<le> c \<and> c \<le> 90 then Some (c - 65)
     else if 97 \<le> c \<and> c \<le> 122 then Some (c - 71)
     else if 48 \<le> c \<and> c \<le> 57 then Some (c + 4)
     else if c = 43 then Some 62 else if c = 47 then Some 63 else None)"

definition padByte :: byte where "padByte = chr CHR ''=''"

text \<open>\<^verbatim>\<open>StdEncoding.EncodeToString\<close>.\<close>

fun b64Encode :: "byte list \<Rightarrow> byte list" where
  "b64Encode [] = []"
| "b64Encode [a] = [b64Char (uint a div 4), b64Char (uint a mod 4 * 16), padByte, padByte]"
| "b64Encode [a, b] = [b64Char (uint a div 4), b64Char (uint a mod 4 * 16 + uint b div 16),
     b64Char (uint b mod 16 * 4), padByte]"
| "b64Encode (a # b # c # r) = b64Char (uint a div 4) # b64Char (uint a mod 4 * 16 + uint b div 16)
     # b64Char (uint b mod 16 * 4 + uint c div 64) # b64Char (uint c mod 64) # b64Encode r"

text \<open>
  The decoders, on input without the CR and LF they would skip. The strict one wants whole
  quanta, the last padded; the raw one takes a partial last quantum and no padding. Neither
  checks that the bits of a partial quantum that carry no data are zero.
\<close>

fun b64DecodeStd :: "byte list \<Rightarrow> byte list option" where
  "b64DecodeStd [] = Some []"
| "b64DecodeStd (a # b # c # d # r) = (case (b64Value a, b64Value b) of
     (Some w, Some x) \<Rightarrow>
       (if c = padByte \<and> d = padByte \<and> r = [] then Some [word_of_int (w * 4 + x div 16)]
        else (case b64Value c of
          None \<Rightarrow> None
        | Some y \<Rightarrow>
          (if d = padByte \<and> r = [] then
             Some [word_of_int (w * 4 + x div 16), word_of_int (x mod 16 * 16 + y div 4)]
           else (case (b64Value d, b64DecodeStd r) of
             (Some z, Some zs) \<Rightarrow> Some (word_of_int (w * 4 + x div 16)
                # word_of_int (x mod 16 * 16 + y div 4) # word_of_int (y mod 4 * 64 + z) # zs)
           | _ \<Rightarrow> None))))
   | _ \<Rightarrow> None)"
| "b64DecodeStd _ = None"

fun b64DecodeRaw :: "byte list \<Rightarrow> byte list option" where
  "b64DecodeRaw [] = Some []"
| "b64DecodeRaw [a] = None"
| "b64DecodeRaw [a, b] = (case (b64Value a, b64Value b) of
     (Some w, Some x) \<Rightarrow> Some [word_of_int (w * 4 + x div 16)] | _ \<Rightarrow> None)"
| "b64DecodeRaw [a, b, c] = (case (b64Value a, b64Value b, b64Value c) of
     (Some w, Some x, Some y) \<Rightarrow>
       Some [word_of_int (w * 4 + x div 16), word_of_int (x mod 16 * 16 + y div 4)] | _ \<Rightarrow> None)"
| "b64DecodeRaw (a # b # c # d # r) =
     (case (b64Value a, b64Value b, b64Value c, b64Value d, b64DecodeRaw r) of
       (Some w, Some x, Some y, Some z, Some zs) \<Rightarrow> Some (word_of_int (w * 4 + x div 16)
          # word_of_int (x mod 16 * 16 + y div 4) # word_of_int (y mod 4 * 64 + z) # zs)
     | _ \<Rightarrow> None)"

lemma b64Value_char: "0 \<le> v \<Longrightarrow> v < 64 \<Longrightarrow> b64Value (b64Char v) = Some v"
  by (auto simp: b64Value_def b64Char_def Let_def uint_byte_of_int simp del: of_int_add of_int_diff)

lemma b64Value_pad: "b64Value padByte = None"
  by (simp add: b64Value_def padByte_def Let_def)

lemma b64Char_not_pad: "0 \<le> v \<Longrightarrow> v < 64 \<Longrightarrow> b64Char v \<noteq> padByte"
  using b64Value_char [of v] b64Value_pad by force

lemma two_digits:
  fixes x y :: int
  shows "0 \<le> x \<Longrightarrow> x < 4 \<Longrightarrow> 0 \<le> y \<Longrightarrow> y < 16 \<Longrightarrow> 0 \<le> x * 16 + y \<and> x * 16 + y < 64"
    and "0 \<le> x \<Longrightarrow> x < 16 \<Longrightarrow> 0 \<le> y \<Longrightarrow> y < 4 \<Longrightarrow> 0 \<le> x * 4 + y \<and> x * 4 + y < 64"
  by linarith+

lemma byte_parts:
  fixes w :: byte
  shows "uint w div 4 < 64" "uint w div 16 < 16" "uint w div 64 < 4"
  using uint_lt2p [of w] by simp_all

lemma mod_parts: "0 \<le> x mod 4" "x mod 4 < 4" "0 \<le> x mod 16" "x mod 16 < 16" "0 \<le> x mod 64"
    "x mod 64 < (64 :: int)"
  by simp_all

lemma byte_digits:
  fixes a b c :: byte
  shows "0 \<le> uint a div 4" "uint a div 4 < 64" "0 \<le> uint c mod 64" "uint c mod 64 < 64"
    "0 \<le> uint a mod 4 * 16 + uint b div 16" "uint a mod 4 * 16 + uint b div 16 < 64"
    "0 \<le> uint b mod 16 * 4 + uint c div 64" "uint b mod 16 * 4 + uint c div 64 < 64"
    "0 \<le> uint a mod 4 * 16" "uint a mod 4 * 16 < 64" "0 \<le> uint b mod 16 * 4" "uint b mod 16 * 4 < 64"
  using two_digits(1) [OF mod_parts(1,2) uint_byte_div byte_parts(2)]
    two_digits(2) [OF mod_parts(3,4) uint_byte_div byte_parts(3)]
    two_digits(1) [OF mod_parts(1,2), of 0] two_digits(2) [OF mod_parts(3,4), of 0]
  by (simp_all add: byte_parts mod_parts)

lemma rejoin: "(x * 16 + y) div 16 = x + y div (16 :: int)" "(x * 16 + y) mod 16 = y mod 16"
  "(x * 4 + y) div 4 = x + y div (4 :: int)" "(x * 4 + y) mod 4 = y mod 4"
  using div_mult_self3 [of 16 x y] div_mult_self3 [of 4 x y] mod_mult_self3 [of x 16 y]
    mod_mult_self3 [of x 4 y] by simp_all

lemma rejoin_bytes:
  fixes a b c :: byte
  shows "uint a div 4 * 4 + (uint a mod 4 * 16 + uint b div 16) div 16 = uint a"
    "(uint a mod 4 * 16 + uint b div 16) mod 16 * 16 + (uint b mod 16 * 4 + uint c div 64) div 4 = uint b"
    "(uint b mod 16 * 4 + uint c div 64) mod 4 * 64 + uint c mod 64 = uint c"
    "uint a div 4 * 4 + uint a mod 4 * 16 div 16 = uint a"
    "(uint a mod 4 * 16 + uint b div 16) mod 16 * 16 + uint b mod 16 * 4 div 4 = uint b"
proof -
  have r: "0 \<le> uint w" "uint w < 256" for w :: byte using uint_lt2p [of w] by simp_all
  have d: "uint w div 16 div 16 = 0" "uint w div 64 div 4 = 0" "uint w div 16 mod 16 = uint w div 16"
    "uint w div 64 mod 4 = uint w div 64" for w :: byte
    using r [of w] by (simp_all add: div_pos_pos_trivial mod_pos_pos_trivial)
  have q: "x * 16 div 16 = x" "x * 4 div 4 = x" "x div 4 * 4 + x mod 4 = x"
    "x div 16 * 16 + x mod 16 = x" "x div 64 * 64 + x mod 64 = x" for x :: int by simp_all
  have q': "x div 16 * 16 + x mod 16 = x" "x mod 4 + x div 4 * 4 = x" for x :: int by simp_all
  show "uint a div 4 * 4 + (uint a mod 4 * 16 + uint b div 16) div 16 = uint a"
    "(uint a mod 4 * 16 + uint b div 16) mod 16 * 16 + (uint b mod 16 * 4 + uint c div 64) div 4 = uint b"
    "(uint b mod 16 * 4 + uint c div 64) mod 4 * 64 + uint c mod 64 = uint c"
    "uint a div 4 * 4 + uint a mod 4 * 16 div 16 = uint a"
    "(uint a mod 4 * 16 + uint b div 16) mod 16 * 16 + uint b mod 16 * 4 div 4 = uint b"
    unfolding rejoin d q add_0_right by (rule refl q)+
qed

lemmas rejoin_words = rejoin_bytes [THEN arg_cong [of _ _ word_of_int], unfolded word_of_int_uint]

lemma b64_roundtrip: "b64DecodeStd (b64Encode s) = Some s"
  by (induction s rule: b64Encode.induct)
     (simp_all only: b64Encode.simps b64DecodeStd.simps b64Value_char b64Value_pad b64Char_not_pad
       byte_digits rejoin_words word_of_int_uint option.case prod.case simp_thms if_True if_False)

end
