(* ===== verification/ProgramStatus.thy ===== *)
theory ProgramStatus
  imports GoText Utf8 "HOL-Library.AList" "HOL-Library.Multiset"
begin

text \<open>
  Program status, OSC 7501 (\<^verbatim>\<open>src/vt/osc7501.go\<close>): the record set a terminal keeps, the
  events that change it (a report, a shell prompt, the process exit, a hard reset), the fold to
  the one status shown, and the parser of a report. A Go map is an association list whose order
  stands for the unspecified iteration order; the lemmas show that no result depends on it.
\<close>

section \<open>Constants and states\<close>

definition programStatusMaxRecords :: nat where "programStatusMaxRecords = 64"

definition programStatusMaxReport :: nat where
  "programStatusMaxReport = 4096 - (1 + length (str '']7501;'') + 2)"

definition programStatusMaxKey :: nat where "programStatusMaxKey = 16"
definition programStatusMaxMsg :: nat where "programStatusMaxMsg = 2732"
definition programStatusMaxMsgText :: nat where "programStatusMaxMsgText = 2048"
definition programStatusMaxTitle :: nat where "programStatusMaxTitle = 256"
definition programStatusMaxTitleText :: nat where "programStatusMaxTitleText = 192"
definition programStatusMaxName :: nat where "programStatusMaxName = 32"
definition programStatusMaxID :: nat where "programStatusMaxID = 128"
definition programStatusMaxDepth :: nat where "programStatusMaxDepth = 8"

definition progressAbsent :: int where "progressAbsent = -1"
definition progressPercentMax :: int where "progressPercentMax = 100"

definition ProgramStateIdle :: "byte list" where "ProgramStateIdle = str ''idle''"
definition ProgramStateWorking :: "byte list" where "ProgramStateWorking = str ''working''"
definition ProgramStateDone :: "byte list" where "ProgramStateDone = str ''done''"
definition ProgramStateBlocked :: "byte list" where "ProgramStateBlocked = str ''blocked''"
definition ProgramStateError :: "byte list" where "ProgramStateError = str ''error''"
definition programStateClear :: "byte list" where "programStateClear = str ''clear''"

lemmas program_states = ProgramStateIdle_def ProgramStateWorking_def ProgramStateDone_def
  ProgramStateBlocked_def ProgramStateError_def programStateClear_def


section \<open>The record set\<close>

datatype programEvent = programEventReport | programEventPrompt | programEventExit | programEventReset

record programChange =
  pc_id :: "byte list"
  pc_rec :: program_record
  pc_seq :: nat
  pc_event :: programEvent

definition zeroRecord :: program_record where
  "zeroRecord = \<lparr>pr_state = [], pr_kind = [], pr_app = [], pr_touched = 0, pr_progress = 0\<rparr>"

definition emptyShown :: program_shown where
  "emptyShown = \<lparr>ps_id = [], ps_state = [], ps_kind = [], ps_ok = False\<rparr>"

definition emptyStatus :: program_status where
  "emptyStatus = \<lparr>ps_records = [], ps_shown = emptyShown, ps_seq = 0, ps_occurrence = 0,
     ps_reported = False, ps_exited = False\<rparr>"

definition unfinished :: "program_record \<Rightarrow> bool" where
  "unfinished r \<longleftrightarrow> pr_state r = ProgramStateWorking \<or> pr_state r = ProgramStateBlocked"

text \<open>The loop of \<^verbatim>\<open>evict\<close>, from its start \<open>None\<close> (\<^verbatim>\<open>first\<close>).\<close>

fun oldest_from :: "(byte list \<times> nat) option \<Rightarrow> (byte list \<times> program_record) list
    \<Rightarrow> (byte list \<times> nat) option" where
  "oldest_from acc [] = acc"
| "oldest_from acc ((k, r) # rs) = oldest_from
     (case acc of None \<Rightarrow> Some (k, pr_touched r)
      | Some (o_id, o_seq) \<Rightarrow> if pr_touched r < o_seq then Some (k, pr_touched r) else acc) rs"

definition ps_evict :: "program_status \<Rightarrow> program_status" where
  "ps_evict p = (let oldest = (case oldest_from None (ps_records p) of None \<Rightarrow> [] | Some (k, _) \<Rightarrow> k)
     in p\<lparr>ps_records := AList.delete oldest (ps_records p)\<rparr>)"

definition ps_store :: "byte list \<Rightarrow> program_record \<Rightarrow> nat \<Rightarrow> program_status \<Rightarrow> bool \<times> program_status" where
  "ps_store k r0 seq p = (let
     r = r0\<lparr>pr_touched := seq\<rparr>;
     prev = map_of (ps_records p) k;
     changed = (case prev of None \<Rightarrow> True
       | Some q \<Rightarrow> pr_state q \<noteq> pr_state r \<or> pr_kind q \<noteq> pr_kind r);
     p1 = (if prev = None \<and> programStatusMaxRecords \<le> length (ps_records p) then ps_evict p else p)
   in (changed, p1\<lparr>ps_records := AList.update k r (ps_records p1)\<rparr>))"

definition hasPrefix :: "byte list \<Rightarrow> byte list \<Rightarrow> bool" where
  "hasPrefix s pre \<longleftrightarrow> take (length pre) s = pre"

definition slash :: byte where "slash = chr CHR ''/''"

definition ps_clear :: "byte list \<Rightarrow> program_status \<Rightarrow> program_status" where
  "ps_clear k p = (if k = [] then p\<lparr>ps_records := []\<rparr>
     else p\<lparr>ps_records := filter (\<lambda>(k', _). \<not> hasPrefix k' (k @ [slash]))
       (AList.delete k (ps_records p))\<rparr>)"

definition dropUnfinished :: "program_status \<Rightarrow> program_status" where
  "dropUnfinished p = p\<lparr>ps_records := filter (\<lambda>(_, r). \<not> unfinished r) (ps_records p)\<rparr>"

text \<open>The loop of \<^verbatim>\<open>fold\<close> over the records: the blocked record written last.\<close>

fun blocked_from :: "(byte list \<times> program_record) option \<Rightarrow> (byte list \<times> program_record) list
    \<Rightarrow> (byte list \<times> program_record) option" where
  "blocked_from acc [] = acc"
| "blocked_from acc ((k, r) # rs) = blocked_from
     (if pr_state r = ProgramStateBlocked
         \<and> (case acc of None \<Rightarrow> True | Some (_, b) \<Rightarrow> pr_touched b < pr_touched r)
      then Some (k, r) else acc) rs"

definition ps_fold :: "program_status \<Rightarrow> byte list \<times> program_record \<times> bool" where
  "ps_fold p = (let root = map_of (ps_records p) [] in
     case root of
       Some r \<Rightarrow> if pr_state r = ProgramStateBlocked then ([], r, True)
         else (case blocked_from None (ps_records p) of
           Some (k, b) \<Rightarrow> (k, b, True) | None \<Rightarrow> ([], r, True))
     | None \<Rightarrow> (case blocked_from None (ps_records p) of
           Some (k, b) \<Rightarrow> (k, b, True) | None \<Rightarrow> ([], zeroRecord, False)))"

definition ps_apply :: "programChange \<Rightarrow> program_status \<Rightarrow> program_status" where
  "ps_apply c p = (let
     (changed, p1) = (case pc_event c of
        programEventReport \<Rightarrow>
          (let q = p\<lparr>ps_seq := pc_seq c, ps_reported := True\<rparr> in
           if pr_state (pc_rec c) = programStateClear then (True, ps_clear (pc_id c) q)
           else ps_store (pc_id c) (pc_rec c) (pc_seq c) q)
      | programEventPrompt \<Rightarrow> (False, dropUnfinished p)
      | programEventExit \<Rightarrow> (False, p\<lparr>ps_exited := True\<rparr>)
      | programEventReset \<Rightarrow> (False, p\<lparr>ps_records := [], ps_reported := False\<rparr>));
     p2 = (if ps_exited p1 then dropUnfinished p1 else p1);
     (k, r, ok) = ps_fold p2;
     shown = \<lparr>ps_id = k, ps_state = pr_state r, ps_kind = pr_kind r, ps_ok = ok\<rparr>;
     p3 = (if changed \<and> shown \<noteq> ps_shown p2 then p2\<lparr>ps_occurrence := pc_seq c\<rparr> else p2)
   in p3\<lparr>ps_shown := shown\<rparr>)"

section \<open>The status shown\<close>

definition parentId :: "byte list \<Rightarrow> byte list" where
  "parentId k = rev (drop 1 (dropWhile (\<lambda>b. b \<noteq> slash) (rev k)))"

lemma parentId_shorter: "k \<noteq> [] \<Longrightarrow> length (parentId k) < length k"
proof -
  assume "k \<noteq> []"
  then have "0 < length k" by simp
  moreover have "length (dropWhile (\<lambda>b. b \<noteq> slash) (rev k)) \<le> length k"
    using length_dropWhile_le [of "\<lambda>b. b \<noteq> slash" "rev k"] by simp
  ultimately show ?thesis unfolding parentId_def length_rev length_drop by linarith
qed

function programApp :: "(byte list \<times> program_record) list \<Rightarrow> byte list \<Rightarrow> byte list" where
  "programApp rs k = (case map_of rs k of
     Some r \<Rightarrow> if pr_app r \<noteq> [] then pr_app r else if k = [] then [] else programApp rs (parentId k)
   | None \<Rightarrow> if k = [] then [] else programApp rs (parentId k))"
  by pat_completeness auto
termination
  by (relation "measure (length \<circ> snd)") (auto simp: parentId_shorter)

declare programApp.simps [simp del]

record ProgramStatus =
  PS_State :: "byte list"
  PS_Kind :: "byte list"
  PS_App :: "byte list"
  PS_Progress :: int
  PS_Seq :: nat

definition programStatus :: "program_status \<Rightarrow> ProgramStatus" where
  "programStatus p = (case ps_fold p of (k, r, ok) \<Rightarrow>
     if \<not> ok then \<lparr>PS_State = ProgramStateIdle, PS_Kind = [], PS_App = [],
       PS_Progress = progressAbsent, PS_Seq = ps_occurrence p\<rparr>
     else \<lparr>PS_State = pr_state r, PS_Kind = pr_kind r, PS_App = programApp (ps_records p) k,
       PS_Progress = pr_progress r, PS_Seq = ps_occurrence p\<rparr>)"

section \<open>Invariant\<close>

definition storedStates :: "byte list set" where
  "storedStates = {ProgramStateIdle, ProgramStateWorking, ProgramStateDone, ProgramStateBlocked,
     ProgramStateError}"

definition rec_map :: "(byte list \<Rightarrow> program_record option) \<Rightarrow> nat \<Rightarrow> bool" where
  "rec_map m seq \<longleftrightarrow> (\<forall>k r. m k = Some r \<longrightarrow> pr_touched r \<le> seq \<and> pr_state r \<in> storedStates)
     \<and> (\<forall>k r k' r'. m k = Some r \<longrightarrow> m k' = Some r' \<longrightarrow> pr_touched r = pr_touched r' \<longrightarrow> k = k')"

definition records_ok :: "nat \<Rightarrow> (byte list \<times> program_record) list \<Rightarrow> bool" where
  "records_ok seq rs \<longleftrightarrow> distinct (map fst rs) \<and> rec_map (map_of rs) seq"

definition program_ok :: "program_status \<Rightarrow> bool" where
  "program_ok p \<longleftrightarrow> records_ok (ps_seq p) (ps_records p)
     \<and> length (ps_records p) \<le> programStatusMaxRecords \<and> ps_occurrence p \<le> ps_seq p
     \<and> (ps_exited p \<longrightarrow> (\<forall>(k, r) \<in> set (ps_records p). \<not> unfinished r))"

text \<open>What the callers pass: the next number of the counter, and a record the parser made.\<close>

definition change_ok :: "programChange \<Rightarrow> program_status \<Rightarrow> bool" where
  "change_ok c p \<longleftrightarrow> (pc_event c = programEventReport \<longrightarrow> ps_seq p < pc_seq c
     \<and> pr_state (pc_rec c) \<in> insert programStateClear storedStates)"

lemma map_of_filter_distinct: "distinct (map fst rs) \<Longrightarrow>
    map_of (filter P rs) k = (case map_of rs k of None \<Rightarrow> None | Some v \<Rightarrow> if P (k, v) then Some v else None)"
proof (induction rs)
  case Nil
  then show ?case by simp
next
  case (Cons x rs)
  obtain a b where x: "x = (a, b)" by (cases x)
  have "map_of rs a = None" using Cons.prems x by (simp add: map_of_eq_None_iff)
  with Cons x show ?case by auto
qed

lemma length_card_dom: "distinct (map fst rs) \<Longrightarrow> length rs = card (dom (map_of rs))"
  using distinct_card [of "map fst rs"] by (simp add: dom_map_of_conv_image_fst)

lemma in_set_map_of: "distinct (map fst rs) \<Longrightarrow> (k, r) \<in> set rs \<longleftrightarrow> map_of rs k = Some r"
  by (simp add: map_of_eq_Some_iff)

lemma records_ok_filter: "records_ok n rs \<Longrightarrow> records_ok n (filter P rs)"
  unfolding records_ok_def rec_map_def
  by (simp add: distinct_map_filter map_of_filter_distinct split: option.splits if_splits)

lemma records_ok_mono: "records_ok n rs \<Longrightarrow> n \<le> m \<Longrightarrow> records_ok m rs"
  unfolding records_ok_def rec_map_def by (meson le_trans)

lemma records_ok_delete: "records_ok n rs \<Longrightarrow> records_ok n (AList.delete k rs)"
  unfolding records_ok_def rec_map_def
  by (simp add: distinct_delete delete_conv')

lemma records_ok_update:
  assumes "records_ok n rs" and "n < pr_touched r" and "pr_touched r \<le> m" and "pr_state r \<in> storedStates"
  shows "records_ok m (AList.update k r rs)"
proof -
  from assms(1) have d: "distinct (map fst (AList.update k r rs))"
    by (simp add: records_ok_def distinct_update)
  have old: "pr_touched q \<le> n" if "map_of rs k' = Some q" for k' q
    using assms(1) that by (auto simp: records_ok_def rec_map_def)
  have "rec_map ((map_of rs)(k \<mapsto> r)) m"
    unfolding rec_map_def
  proof (intro conjI allI impI)
    fix k' q assume q: "((map_of rs)(k \<mapsto> r)) k' = Some q"
    have "pr_touched q \<le> m \<and> pr_state q \<in> storedStates"
    proof (cases "k' = k")
      case True
      with q assms show ?thesis by simp
    next
      case False
      with q have "map_of rs k' = Some q" by simp
      with assms(1) have "pr_state q \<in> storedStates" by (simp add: records_ok_def rec_map_def)
      with old [OF \<open>map_of rs k' = Some q\<close>] assms(2,3) show ?thesis by simp
    qed
    then show "pr_touched q \<le> m" and "pr_state q \<in> storedStates" by simp_all
  next
    fix a q b q'
    assume ab: "((map_of rs)(k \<mapsto> r)) a = Some q" "((map_of rs)(k \<mapsto> r)) b = Some q'"
      "pr_touched q = pr_touched q'"
    have new: "c = k" if "((map_of rs)(k \<mapsto> r)) c = Some p" "pr_touched p = pr_touched r" for c p
      using that old [of c p] assms(2) by (cases "c = k") simp_all
    show "a = b"
    proof (cases "a = k \<or> b = k")
      case True
      with ab new show ?thesis by (metis fun_upd_same option.inject)
    next
      case False
      with ab assms(1) show ?thesis unfolding records_ok_def rec_map_def by (metis fun_upd_other)
    qed
  qed
  with d show ?thesis by (simp add: records_ok_def update_conv')
qed

lemma records_okI:
  assumes "distinct (map fst rs)" "distinct (map (pr_touched \<circ> snd) rs)"
    and "list_all (\<lambda>(k, r). pr_touched r \<le> n \<and> pr_state r \<in> storedStates) rs"
  shows "records_ok n rs"
proof -
  have "k = k'" if "(k, r) \<in> set rs" "(k', r') \<in> set rs" "pr_touched r = pr_touched r'" for k r k' r'
  proof -
    have "inj_on (pr_touched \<circ> snd) (set rs)" using assms(2) by (simp add: distinct_map)
    from inj_onD [OF this, of "(k, r)" "(k', r')"] that show ?thesis by simp
  qed
  with assms(1,3) show ?thesis
    unfolding records_ok_def rec_map_def by (auto simp: list_all_iff)
qed

lemma oldest_from_min: "oldest_from acc rs = Some (k, n) \<Longrightarrow>
    (acc = Some (k, n) \<or> (\<exists>r. (k, r) \<in> set rs \<and> pr_touched r = n))
    \<and> (\<forall>(k', r) \<in> set rs. n \<le> pr_touched r) \<and> (\<forall>k' n'. acc = Some (k', n') \<longrightarrow> n \<le> n')"
proof (induction rs arbitrary: acc)
  case Nil
  then show ?case by simp
next
  case (Cons x rs)
  obtain k' r where x: "x = (k', r)" by (cases x)
  define acc' where "acc' = (case acc of None \<Rightarrow> Some (k', pr_touched r)
      | Some (i, m) \<Rightarrow> if pr_touched r < m then Some (k', pr_touched r) else acc)"
  from Cons.prems x have "oldest_from acc' rs = Some (k, n)" by (simp add: acc'_def)
  from Cons.IH [OF this] have
    o: "acc' = Some (k, n) \<or> (\<exists>r. (k, r) \<in> set rs \<and> pr_touched r = n)" and
    le: "\<forall>(k', r) \<in> set rs. n \<le> pr_touched r" and
    a: "\<forall>k' n'. acc' = Some (k', n') \<longrightarrow> n \<le> n'" by blast+
  show ?case
  proof (cases acc)
    case None
    then have "acc' = Some (k', pr_touched r)" by (simp add: acc'_def)
    with o le a x None show ?thesis by auto
  next
    case (Some s)
    obtain i m where s: "s = (i, m)" by (cases s)
    show ?thesis
    proof (cases "pr_touched r < m")
      case True
      then have "acc' = Some (k', pr_touched r)" by (simp add: acc'_def Some s)
      with o le a x Some s True show ?thesis by auto
    next
      case False
      then have "acc' = Some (i, m)" by (simp add: acc'_def Some s)
      with o le a x Some s False show ?thesis by auto
    qed
  qed
qed

lemma oldest_from_None: "oldest_from acc rs = None \<longleftrightarrow> acc = None \<and> rs = []"
  by (induction acc rs rule: oldest_from.induct) (auto split: option.splits prod.splits)

text \<open>The record \<^verbatim>\<open>evict\<close> removes was reported before every other one.\<close>

lemma ps_evict_oldest:
  assumes "ps_records p \<noteq> []"
  obtains k r where "(k, r) \<in> set (ps_records p)"
    and "\<forall>(k', r') \<in> set (ps_records p). pr_touched r \<le> pr_touched r'"
    and "ps_evict p = p\<lparr>ps_records := AList.delete k (ps_records p)\<rparr>"
proof -
  from assms obtain k n where o: "oldest_from None (ps_records p) = Some (k, n)"
    using oldest_from_None [of None "ps_records p"] by fastforce
  from oldest_from_min [OF o] obtain r where "(k, r) \<in> set (ps_records p)"
    "\<forall>(k', r') \<in> set (ps_records p). pr_touched r \<le> pr_touched r'" by auto
  moreover have "ps_evict p = p\<lparr>ps_records := AList.delete k (ps_records p)\<rparr>"
    unfolding ps_evict_def o by simp
  ultimately show thesis by (rule that)
qed

lemma length_delete_key:
  assumes "distinct (map fst rs)" "(k, r) \<in> set rs"
  shows "Suc (length (AList.delete k rs)) = length rs"
proof -
  have "distinct (map fst (AList.delete k rs))" using assms(1) by (rule distinct_delete)
  moreover have "dom (map_of (AList.delete k rs)) = dom (map_of rs) - {k}"
    by (auto simp: delete_conv' split: if_splits)
  ultimately have "length (AList.delete k rs) = card (dom (map_of rs) - {k})"
    by (simp add: length_card_dom)
  moreover have k: "k \<in> dom (map_of rs)" using assms by (metis domI map_of_eq_Some_iff)
  ultimately show ?thesis
    using card_Suc_Diff1 [OF finite_dom_map_of k] length_card_dom [OF assms(1)] by simp
qed

lemma length_update_key:
  assumes "distinct (map fst rs)"
  shows "length (AList.update k r rs) = (if map_of rs k = None then Suc (length rs) else length rs)"
proof -
  have "distinct (map fst (AList.update k r rs))" using assms by (rule distinct_update)
  then have "length (AList.update k r rs) = card (insert k (dom (map_of rs)))"
    by (simp add: length_card_dom update_conv')
  also have "\<dots> = (if k \<in> dom (map_of rs) then card (dom (map_of rs)) else Suc (card (dom (map_of rs))))"
    by (rule card_insert_if) (rule finite_dom_map_of)
  finally show ?thesis unfolding length_card_dom [OF assms] domIff by simp
qed

section \<open>The events keep the invariant\<close>

lemma dropUnfinished_ok: "records_ok n (ps_records p) \<Longrightarrow>
    records_ok n (ps_records (dropUnfinished p))
    \<and> length (ps_records (dropUnfinished p)) \<le> length (ps_records p)
    \<and> (\<forall>(k, r) \<in> set (ps_records (dropUnfinished p)). \<not> unfinished r)"
  by (auto simp: dropUnfinished_def records_ok_filter)

lemma dropUnfinished_fields [simp]:
  "ps_seq (dropUnfinished p) = ps_seq p" "ps_occurrence (dropUnfinished p) = ps_occurrence p"
  "ps_exited (dropUnfinished p) = ps_exited p" "ps_reported (dropUnfinished p) = ps_reported p"
  "ps_shown (dropUnfinished p) = ps_shown p"
  by (simp_all add: dropUnfinished_def)

lemma ps_clear_ok: "records_ok n (ps_records p) \<Longrightarrow> records_ok n (ps_records (ps_clear k p))
    \<and> length (ps_records (ps_clear k p)) \<le> length (ps_records p)"
proof -
  assume ok: "records_ok n (ps_records p)"
  have "length (AList.delete k (ps_records p)) \<le> length (ps_records p)"
    by (rule length_delete_le)
  then have "length (filter P (AList.delete k (ps_records p))) \<le> length (ps_records p)" for P
    using length_filter_le [of P "AList.delete k (ps_records p)"] by (rule le_trans [rotated])
  moreover have "records_ok n []" by (simp add: records_ok_def rec_map_def)
  ultimately show ?thesis
    using ok by (cases "k = []") (simp_all add: ps_clear_def records_ok_filter records_ok_delete)
qed

lemma ps_clear_fields [simp]:
  "ps_seq (ps_clear k p) = ps_seq p" "ps_occurrence (ps_clear k p) = ps_occurrence p"
  "ps_exited (ps_clear k p) = ps_exited p" "ps_reported (ps_clear k p) = ps_reported p"
  "ps_shown (ps_clear k p) = ps_shown p"
  by (simp_all add: ps_clear_def)

lemma ps_evict_fields [simp]:
  "ps_seq (ps_evict p) = ps_seq p" "ps_occurrence (ps_evict p) = ps_occurrence p"
  "ps_exited (ps_evict p) = ps_exited p" "ps_reported (ps_evict p) = ps_reported p"
  "ps_shown (ps_evict p) = ps_shown p"
  by (simp_all add: ps_evict_def)

lemma ps_evict_ok:
  assumes "records_ok n (ps_records p)" "ps_records p \<noteq> []"
  shows "records_ok n (ps_records (ps_evict p))
    \<and> Suc (length (ps_records (ps_evict p))) = length (ps_records p)"
proof -
  obtain k r where "(k, r) \<in> set (ps_records p)"
    "ps_evict p = p\<lparr>ps_records := AList.delete k (ps_records p)\<rparr>"
    using ps_evict_oldest [OF assms(2)] by metis
  with assms(1) length_delete_key [of "ps_records p" k r] show ?thesis
    by (simp add: records_ok_delete) (simp add: records_ok_def)
qed

definition storeBase :: "byte list \<Rightarrow> program_status \<Rightarrow> program_status" where
  "storeBase k p = (if map_of (ps_records p) k = None
     \<and> programStatusMaxRecords \<le> length (ps_records p) then ps_evict p else p)"

lemma ps_store_eq: "snd (ps_store k r seq p)
    = (storeBase k p)\<lparr>ps_records := AList.update k (r\<lparr>pr_touched := seq\<rparr>) (ps_records (storeBase k p))\<rparr>"
  by (simp add: ps_store_def storeBase_def Let_def)

lemma storeBase_fields [simp]:
  "ps_seq (storeBase k p) = ps_seq p" "ps_occurrence (storeBase k p) = ps_occurrence p"
  "ps_exited (storeBase k p) = ps_exited p" "ps_reported (storeBase k p) = ps_reported p"
  "ps_shown (storeBase k p) = ps_shown p"
  by (simp_all add: storeBase_def)

lemma ps_store_ok:
  assumes "records_ok n (ps_records p)" "length (ps_records p) \<le> programStatusMaxRecords"
    and "n < seq" "pr_state r \<in> storedStates"
  shows "records_ok seq (ps_records (snd (ps_store k r seq p)))
    \<and> length (ps_records (snd (ps_store k r seq p))) \<le> programStatusMaxRecords"
proof -
  let ?b = "storeBase k p"
  have b: "records_ok n (ps_records ?b) \<and> (map_of (ps_records ?b) k = None
      \<longrightarrow> length (ps_records ?b) < programStatusMaxRecords) \<and> length (ps_records ?b) \<le> programStatusMaxRecords"
  proof (cases "map_of (ps_records p) k = None \<and> programStatusMaxRecords \<le> length (ps_records p)")
    case True
    then have "ps_records p \<noteq> []" by (auto simp: programStatusMaxRecords_def)
    from ps_evict_ok [OF assms(1) this] True assms(2) show ?thesis by (simp add: storeBase_def)
  next
    case False
    with assms show ?thesis by (auto simp: storeBase_def)
  qed
  then have "distinct (map fst (ps_records ?b))" by (simp add: records_ok_def)
  from length_update_key [OF this, of k "r\<lparr>pr_touched := seq\<rparr>"] b
  have "length (AList.update k (r\<lparr>pr_touched := seq\<rparr>) (ps_records ?b)) \<le> programStatusMaxRecords"
    by (auto split: if_splits)
  moreover have "records_ok seq (AList.update k (r\<lparr>pr_touched := seq\<rparr>) (ps_records ?b))"
    by (rule records_ok_update [of n]) (use b assms in auto)
  ultimately show ?thesis by (simp add: ps_store_eq)
qed

definition ps_event :: "programChange \<Rightarrow> program_status \<Rightarrow> bool \<times> program_status" where
  "ps_event c p = (case pc_event c of
        programEventReport \<Rightarrow>
          (let q = p\<lparr>ps_seq := pc_seq c, ps_reported := True\<rparr> in
           if pr_state (pc_rec c) = programStateClear then (True, ps_clear (pc_id c) q)
           else ps_store (pc_id c) (pc_rec c) (pc_seq c) q)
      | programEventPrompt \<Rightarrow> (False, dropUnfinished p)
      | programEventExit \<Rightarrow> (False, p\<lparr>ps_exited := True\<rparr>)
      | programEventReset \<Rightarrow> (False, p\<lparr>ps_records := [], ps_reported := False\<rparr>))"

definition ps_settle :: "program_status \<Rightarrow> program_status" where
  "ps_settle p = (if ps_exited p then dropUnfinished p else p)"

lemma ps_settle_fields [simp]:
  "ps_seq (ps_settle p) = ps_seq p" "ps_occurrence (ps_settle p) = ps_occurrence p"
  "ps_exited (ps_settle p) = ps_exited p" "ps_reported (ps_settle p) = ps_reported p"
  "ps_shown (ps_settle p) = ps_shown p"
  by (simp_all add: ps_settle_def)

definition shownOf :: "byte list \<times> program_record \<times> bool \<Rightarrow> program_shown" where
  "shownOf f = (case f of (k, r, ok) \<Rightarrow>
     \<lparr>ps_id = k, ps_state = pr_state r, ps_kind = pr_kind r, ps_ok = ok\<rparr>)"

lemma ps_apply_eq: "ps_apply c p = (let (changed, p1) = ps_event c p; p2 = ps_settle p1;
      shown = shownOf (ps_fold p2)
    in p2\<lparr>ps_occurrence := (if changed \<and> shown \<noteq> ps_shown p2 then pc_seq c else ps_occurrence p2),
       ps_shown := shown\<rparr>)"
  unfolding ps_apply_def ps_event_def [symmetric]
  by (simp add: ps_settle_def shownOf_def Let_def split: prod.splits)

lemma ps_apply_fields:
  "ps_records (ps_apply c p) = ps_records (ps_settle (snd (ps_event c p)))"
  "ps_seq (ps_apply c p) = ps_seq (snd (ps_event c p))"
  "ps_exited (ps_apply c p) = ps_exited (snd (ps_event c p))"
  "ps_reported (ps_apply c p) = ps_reported (snd (ps_event c p))"
  "ps_occurrence (ps_apply c p) = ps_occurrence (snd (ps_event c p))
     \<or> ps_occurrence (ps_apply c p) = pc_seq c \<and> fst (ps_event c p)"
  by (simp_all add: ps_apply_eq Let_def split: prod.splits)

lemma ps_event_seq: "ps_seq (snd (ps_event c p))
    = (if pc_event c = programEventReport then pc_seq c else ps_seq p)"
  by (simp add: ps_event_def ps_store_eq Let_def split: programEvent.splits)

lemma ps_event_occurrence: "ps_occurrence (snd (ps_event c p)) = ps_occurrence p"
  by (simp add: ps_event_def ps_store_eq Let_def split: programEvent.splits)

lemma ps_event_changed: "fst (ps_event c p) \<Longrightarrow> pc_event c = programEventReport"
  by (simp add: ps_event_def split: programEvent.splits)

lemma ps_event_ok:
  assumes "program_ok p" "change_ok c p"
  shows "records_ok (ps_seq (snd (ps_event c p))) (ps_records (snd (ps_event c p)))
    \<and> length (ps_records (snd (ps_event c p))) \<le> programStatusMaxRecords"
proof (cases "pc_event c")
  case programEventReport
  define q where "q = p\<lparr>ps_seq := pc_seq c, ps_reported := True\<rparr>"
  have q: "records_ok (ps_seq p) (ps_records q)" "length (ps_records q) \<le> programStatusMaxRecords"
    "ps_seq q = pc_seq c" using assms(1) by (simp_all add: q_def program_ok_def)
  have s: "ps_seq p < pc_seq c" using assms(2) programEventReport by (simp add: change_ok_def)
  show ?thesis
  proof (cases "pr_state (pc_rec c) = programStateClear")
    case True
    then have e: "snd (ps_event c p) = ps_clear (pc_id c) q"
      by (simp add: ps_event_def programEventReport q_def)
    from ps_clear_ok [OF q(1), of "pc_id c"] q s show ?thesis
      by (auto simp: e intro: records_ok_mono)
  next
    case False
    then have e: "snd (ps_event c p) = snd (ps_store (pc_id c) (pc_rec c) (pc_seq c) q)"
      by (simp add: ps_event_def programEventReport q_def)
    have "pr_state (pc_rec c) \<in> storedStates"
      using False assms(2) programEventReport by (simp add: change_ok_def)
    from ps_store_ok [OF q(1,2) s this, of "pc_id c"] q show ?thesis by (simp add: e ps_store_eq)
  qed
next
  case programEventPrompt
  with assms(1) dropUnfinished_ok [of "ps_seq p" p] show ?thesis
    by (auto simp: ps_event_def program_ok_def)
next
  case programEventExit
  with assms(1) show ?thesis by (simp add: ps_event_def program_ok_def)
next
  case programEventReset
  then show ?thesis by (simp add: ps_event_def records_ok_def rec_map_def)
qed

lemma ps_apply_ok:
  assumes "program_ok p" "change_ok c p"
  shows "program_ok (ps_apply c p)"
proof -
  let ?e = "snd (ps_event c p)"
  from ps_event_ok [OF assms] have e: "records_ok (ps_seq ?e) (ps_records ?e)"
    "length (ps_records ?e) \<le> programStatusMaxRecords" by simp_all
  have "records_ok (ps_seq ?e) (ps_records (ps_settle ?e))
      \<and> length (ps_records (ps_settle ?e)) \<le> programStatusMaxRecords
      \<and> (ps_exited ?e \<longrightarrow> (\<forall>(k, r) \<in> set (ps_records (ps_settle ?e)). \<not> unfinished r))"
    using e dropUnfinished_ok [OF e(1)] by (auto simp: ps_settle_def)
  moreover have "ps_occurrence p \<le> ps_seq p" using assms(1) by (simp add: program_ok_def)
  then have "ps_occurrence (ps_apply c p) \<le> ps_seq ?e"
    using ps_apply_fields(5) [of c p] ps_event_changed [of c p] assms(2)
    by (auto simp: ps_event_seq ps_event_occurrence change_ok_def)
  ultimately show ?thesis by (simp add: program_ok_def ps_apply_fields)
qed

lemma emptyStatus_ok: "program_ok emptyStatus"
  by (simp add: program_ok_def emptyStatus_def records_ok_def rec_map_def)

section \<open>No result depends on the iteration order of the map\<close>

text \<open>Two association lists that stand for the same map.\<close>

definition same_map :: "(byte list \<times> program_record) list \<Rightarrow> (byte list \<times> program_record) list \<Rightarrow> bool" where
  "same_map rs qs \<longleftrightarrow> distinct (map fst rs) \<and> distinct (map fst qs) \<and> map_of rs = map_of qs"

definition same_status :: "program_status \<Rightarrow> program_status \<Rightarrow> bool" where
  "same_status p q \<longleftrightarrow> same_map (ps_records p) (ps_records q)
     \<and> p\<lparr>ps_records := []\<rparr> = q\<lparr>ps_records := []\<rparr>"

lemma same_map_set: "same_map rs qs \<Longrightarrow> set rs = set qs"
  unfolding same_map_def by (metis set_map_of_compr)

lemma same_map_length: "same_map rs qs \<Longrightarrow> length rs = length qs"
  by (simp add: same_map_def length_card_dom)

lemma same_map_filter: "same_map rs qs \<Longrightarrow> same_map (filter P rs) (filter P qs)"
  by (simp add: same_map_def distinct_map_filter map_of_filter_distinct fun_eq_iff)

lemma same_map_delete: "same_map rs qs \<Longrightarrow> same_map (AList.delete k rs) (AList.delete k qs)"
  by (simp add: same_map_def distinct_delete delete_conv')

lemma same_map_update: "same_map rs qs \<Longrightarrow> same_map (AList.update k r rs) (AList.update k r qs)"
  by (simp add: same_map_def distinct_update update_conv')

lemma blocked_from_max: "blocked_from acc rs = Some (k, b) \<Longrightarrow>
    (acc = Some (k, b) \<or> (k, b) \<in> set rs \<and> pr_state b = ProgramStateBlocked)
    \<and> (\<forall>(k', r) \<in> set rs. pr_state r = ProgramStateBlocked \<longrightarrow> pr_touched r \<le> pr_touched b)
    \<and> (\<forall>k' r. acc = Some (k', r) \<longrightarrow> pr_touched r \<le> pr_touched b)"
proof (induction rs arbitrary: acc)
  case Nil
  then show ?case by simp
next
  case (Cons x rs)
  obtain k' r where x: "x = (k', r)" by (cases x)
  define take' where "take' \<longleftrightarrow> pr_state r = ProgramStateBlocked
      \<and> (case acc of None \<Rightarrow> True | Some (_, b) \<Rightarrow> pr_touched b < pr_touched r)"
  have step: "blocked_from acc (x # rs) = blocked_from (if take' then Some (k', r) else acc) rs"
    unfolding x take'_def by simp
  show ?case
  proof (cases take')
    case True
    with Cons.prems step have "blocked_from (Some (k', r)) rs = Some (k, b)" by simp
    from Cons.IH [OF this] True x show ?thesis
      by (auto simp: take'_def split: option.splits)
  next
    case False
    with Cons.prems step have "blocked_from acc rs = Some (k, b)" by simp
    from Cons.IH [OF this] False x show ?thesis
      by (auto simp: take'_def split: option.splits)
  qed
qed

lemma blocked_from_None: "blocked_from acc rs = None \<longleftrightarrow>
    acc = None \<and> (\<forall>(k, r) \<in> set rs. pr_state r \<noteq> ProgramStateBlocked)"
proof (induction rs arbitrary: acc)
  case Nil
  then show ?case by simp
next
  case (Cons x rs)
  then show ?case by (cases x; cases acc) simp_all
qed

lemma touched_unique: "records_ok n rs \<Longrightarrow> (k, r) \<in> set rs \<Longrightarrow> (k', r') \<in> set rs
    \<Longrightarrow> pr_touched r = pr_touched r' \<Longrightarrow> k = k' \<and> r = r'"
  unfolding records_ok_def rec_map_def by (metis map_of_eq_Some_iff option.inject)

lemma blocked_from_same:
  assumes "records_ok n rs" "same_map rs qs"
  shows "blocked_from None rs = blocked_from None qs"
proof (cases "blocked_from None rs")
  case None
  then have "blocked_from None qs = None"
    using same_map_set [OF assms(2)] blocked_from_None [of None rs] blocked_from_None [of None qs] by simp
  with None show ?thesis by simp
next
  case (Some f)
  obtain k b where f: "f = (k, b)" by (cases f)
  note m = blocked_from_max [OF Some [unfolded f]]
  from m have "blocked_from None qs \<noteq> None"
    using same_map_set [OF assms(2)] blocked_from_None [of None qs] by auto
  then obtain k' b' where q: "blocked_from None qs = Some (k', b')" by auto
  note m' = blocked_from_max [OF q]
  from m m' have "pr_touched b = pr_touched b'" "(k, b) \<in> set rs" "(k', b') \<in> set rs"
    unfolding same_map_set [OF assms(2)] by force+
  from touched_unique [OF assms(1) this(2,3,1)] show ?thesis by (simp add: Some q f)
qed

lemma ps_fold_same:
  assumes "records_ok n (ps_records p)" "same_map (ps_records p) (ps_records q)"
  shows "ps_fold p = ps_fold q"
proof -
  have "map_of (ps_records p) = map_of (ps_records q)" using assms(2) by (simp add: same_map_def)
  then show ?thesis unfolding ps_fold_def blocked_from_same [OF assms] by simp
qed

lemma ps_evict_same:
  assumes ok: "records_ok n (ps_records p)" and same: "same_status p q" and ne: "ps_records p \<noteq> []"
  shows "same_status (ps_evict p) (ps_evict q)"
proof -
  have sm: "same_map (ps_records p) (ps_records q)" using same by (simp add: same_status_def)
  note st = same_map_set [OF sm]
  have ne': "ps_records q \<noteq> []" using st ne by auto
  obtain k r where p: "(k, r) \<in> set (ps_records p)"
    "\<forall>(k', r') \<in> set (ps_records p). pr_touched r \<le> pr_touched r'"
    "ps_evict p = p\<lparr>ps_records := AList.delete k (ps_records p)\<rparr>"
    by (rule ps_evict_oldest [OF ne])
  obtain k' r' where q: "(k', r') \<in> set (ps_records q)"
    "\<forall>(k', r'') \<in> set (ps_records q). pr_touched r' \<le> pr_touched r''"
    "ps_evict q = q\<lparr>ps_records := AList.delete k' (ps_records q)\<rparr>"
    by (rule ps_evict_oldest [OF ne'])
  have "pr_touched r \<le> pr_touched r'" using p(2) q(1) unfolding st [symmetric] by auto
  moreover have "pr_touched r' \<le> pr_touched r" using q(2) p(1) unfolding st by auto
  ultimately have "k = k'" using touched_unique [OF ok p(1), of k' r'] q(1) st by simp
  with p(3) q(3) same same_map_delete [OF sm] show ?thesis by (simp add: same_status_def)
qed

lemma ps_store_same:
  assumes ok: "records_ok n (ps_records p)" and same: "same_status p q"
  shows "fst (ps_store k r s p) = fst (ps_store k r s q)
    \<and> same_status (snd (ps_store k r s p)) (snd (ps_store k r s q))"
proof -
  have sm: "same_map (ps_records p) (ps_records q)" using same by (simp add: same_status_def)
  have m: "map_of (ps_records p) = map_of (ps_records q)" using sm by (simp add: same_map_def)
  have b: "same_status (storeBase k p) (storeBase k q)"
  proof (cases "map_of (ps_records p) k = None \<and> programStatusMaxRecords \<le> length (ps_records p)")
    case True
    then have "ps_records p \<noteq> []" by (auto simp: programStatusMaxRecords_def)
    from ps_evict_same [OF ok same this] True m same_map_length [OF sm] show ?thesis
      by (simp add: storeBase_def)
  next
    case False
    with same m same_map_length [OF sm] show ?thesis by (auto simp: storeBase_def)
  qed
  then have "same_status (snd (ps_store k r s p)) (snd (ps_store k r s q))"
    by (simp add: ps_store_eq same_status_def same_map_update)
  moreover have "fst (ps_store k r s p) = fst (ps_store k r s q)"
    by (simp add: ps_store_def Let_def m)
  ultimately show ?thesis by simp
qed

lemma ps_event_same:
  assumes ok: "program_ok p" and same: "same_status p q"
  shows "fst (ps_event c p) = fst (ps_event c q) \<and> same_status (snd (ps_event c p)) (snd (ps_event c q))"
proof -
  have flds: "ps_seq p = ps_seq q" "ps_shown p = ps_shown q" "ps_occurrence p = ps_occurrence q"
    "ps_reported p = ps_reported q" "ps_exited p = ps_exited q"
    using same unfolding same_status_def by (metis program_status.select_convs program_status.surjective
        program_status.update_convs(1))+
  have sm: "same_map (ps_records p) (ps_records q)" using same by (simp add: same_status_def)
  show ?thesis
  proof (cases "pc_event c")
    case programEventReport
    define p' q' where pq: "p' = p\<lparr>ps_seq := pc_seq c, ps_reported := True\<rparr>"
      "q' = q\<lparr>ps_seq := pc_seq c, ps_reported := True\<rparr>"
    have s': "same_status p' q'" using sm flds by (simp add: same_status_def pq)
    have ok': "records_ok (ps_seq p) (ps_records p')" using ok by (simp add: program_ok_def pq)
    have "same_status (ps_clear k p') (ps_clear k q')" for k
      using s' by (simp add: same_status_def ps_clear_def same_map_filter same_map_delete)
        (simp add: same_map_def)
    with ps_store_same [OF ok' s'] programEventReport show ?thesis
      unfolding ps_event_def Let_def pq by simp
  next
    case programEventPrompt
    with same sm show ?thesis
      by (simp add: ps_event_def same_status_def dropUnfinished_def same_map_filter)
  next
    case programEventExit
    with sm flds show ?thesis by (simp add: ps_event_def same_status_def)
  next
    case programEventReset
    with sm flds show ?thesis by (simp add: ps_event_def same_status_def same_map_def)
  qed
qed

lemma ps_settle_same: "same_status p q \<Longrightarrow> same_status (ps_settle p) (ps_settle q)"
proof -
  assume same: "same_status p q"
  then have "ps_exited p = ps_exited q" unfolding same_status_def
    by (metis program_status.select_convs(6) program_status.surjective program_status.update_convs(1))
  with same show ?thesis
    by (simp add: ps_settle_def dropUnfinished_def same_status_def same_map_filter)
qed

lemma same_status_fields:
  assumes "same_status p q"
  shows "ps_seq p = ps_seq q" "ps_shown p = ps_shown q" "ps_occurrence p = ps_occurrence q"
    "ps_reported p = ps_reported q" "ps_exited p = ps_exited q"
  using assms unfolding same_status_def
  by (metis program_status.select_convs program_status.surjective program_status.update_convs(1))+

lemma ps_settle_ok: "records_ok n (ps_records p) \<Longrightarrow> records_ok n (ps_records (ps_settle p))"
  using dropUnfinished_ok [of n p] by (simp add: ps_settle_def)

lemma ps_apply_same:
  assumes "program_ok p" "change_ok c p" "same_status p q"
  shows "same_status (ps_apply c p) (ps_apply c q)"
proof -
  let ?p = "ps_settle (snd (ps_event c p))" and ?q = "ps_settle (snd (ps_event c q))"
  have ch: "fst (ps_event c p) = fst (ps_event c q)" and s: "same_status ?p ?q"
    using ps_event_same [OF assms(1,3), of c] ps_settle_same by blast+
  have "records_ok (ps_seq (snd (ps_event c p))) (ps_records ?p)"
    using ps_event_ok [OF assms(1,2)] by (simp add: ps_settle_ok)
  then have f: "ps_fold ?p = ps_fold ?q"
    by (rule ps_fold_same) (use s in \<open>simp add: same_status_def\<close>)
  note fl = same_status_fields [OF s]
  have "same_map (ps_records ?p) (ps_records ?q)" using s by (simp add: same_status_def)
  with fl show ?thesis
    by (simp add: ps_apply_eq Let_def case_prod_unfold ch f same_status_def)
qed

lemma programApp_same: "map_of rs = map_of qs \<Longrightarrow> programApp rs k = programApp qs k"
proof (induction rs k rule: programApp.induct)
  case (1 rs k)
  show ?case
  proof (cases "map_of rs k")
    case None
    with 1 show ?thesis by (simp add: programApp.simps [of rs k] programApp.simps [of qs k])
  next
    case (Some r)
    with 1 show ?thesis by (simp add: programApp.simps [of rs k] programApp.simps [of qs k])
  qed
qed

lemma programStatus_same:
  assumes "program_ok p" "same_status p q"
  shows "programStatus p = programStatus q"
proof -
  have sm: "same_map (ps_records p) (ps_records q)" using assms(2) by (simp add: same_status_def)
  have "ps_fold p = ps_fold q"
    by (rule ps_fold_same [of "ps_seq p", OF _ sm]) (use assms(1) in \<open>simp add: program_ok_def\<close>)
  moreover have "programApp (ps_records p) k = programApp (ps_records q) k" for k
    by (rule programApp_same) (use sm in \<open>simp add: same_map_def\<close>)
  ultimately show ?thesis
    by (simp add: programStatus_def same_status_fields [OF assms(2)] split: prod.splits)
qed

section \<open>Reachable record sets\<close>

inductive program_reach :: "program_status \<Rightarrow> bool" where
  program_init: "program_reach emptyStatus"
| program_step: "program_reach p \<Longrightarrow> change_ok c p \<Longrightarrow> program_reach (ps_apply c p)"

lemma program_reach_ok: "program_reach p \<Longrightarrow> program_ok p"
  by (induction rule: program_reach.induct) (simp_all add: emptyStatus_ok ps_apply_ok)

text \<open>The fold shows a record of the set; with nothing blocked it is the root's.\<close>

lemma ps_fold_in: "ps_fold p = (k, r, True) \<Longrightarrow> (k, r) \<in> set (ps_records p)"
  by (auto simp: ps_fold_def Let_def split: option.splits if_splits
      dest: map_of_SomeD blocked_from_max)

section \<open>Parsing a report\<close>

definition isAlnum :: "byte \<Rightarrow> bool" where
  "isAlnum c \<longleftrightarrow> 97 \<le> uint c \<and> uint c \<le> 122 \<or> 65 \<le> uint c \<and> uint c \<le> 90 \<or> isDigit c"

definition isProgramValue :: "byte list \<Rightarrow> bool" where
  "isProgramValue v \<longleftrightarrow> (\<forall>c \<in> set v. isAlnum c \<or> c \<in> set (str ''_.,+/=-''))"

definition isProgramName :: "byte list \<Rightarrow> bool" where
  "isProgramName v \<longleftrightarrow> v \<noteq> [] \<and> (\<forall>c \<in> set v. isAlnum c \<or> c \<in> set (str ''_.+-''))"

definition isProgramID :: "byte list \<Rightarrow> bool" where
  "isProgramID v \<longleftrightarrow> (\<forall>seg \<in> set (splitOn slash v). isProgramName seg)"

definition hasSuffixPad :: "byte list \<Rightarrow> bool" where
  "hasSuffixPad v \<longleftrightarrow> v \<noteq> [] \<and> last v = padByte"

definition isProgramText :: "byte list \<Rightarrow> byte list \<Rightarrow> bool" where
  "isProgramText key v = (if key \<noteq> str ''msg'' \<and> key \<noteq> str ''title'' then True
     else if v = [] then True
     else (let maxDecoded = (if key = str ''title'' then programStatusMaxTitleText
                             else programStatusMaxMsgText) in
       case (if hasSuffixPad v then b64DecodeStd v else b64DecodeRaw v) of
         None \<Rightarrow> False
       | Some b \<Rightarrow> length b \<le> maxDecoded \<and> validUtf8 b
           \<and> (\<forall>r \<in> set (runesOf b). \<not> (r < 0x20 \<or> 0x7f \<le> r \<and> r \<le> 0x9f))))"

definition overProgramLimit :: "byte list \<Rightarrow> byte list \<Rightarrow> bool" where
  "overProgramLimit key v = (
     if key = str ''app'' then programStatusMaxName < length v
     else if key = str ''id'' then programStatusMaxID < length v
       \<or> programStatusMaxDepth \<le> length (filter (\<lambda>c. c = slash) v)
       \<or> (\<exists>seg \<in> set (splitOn slash v). programStatusMaxName < length seg)
     else if key = str ''msg'' then programStatusMaxMsg < length v
     else if key = str ''title'' then programStatusMaxTitle < length v
     else False)"

definition programProgress :: "byte list \<Rightarrow> int" where
  "programProgress v = (if v = [] \<or> 3 < length v \<or> \<not> isAllDigits v then progressAbsent
     else case atoi v of None \<Rightarrow> progressAbsent
       | Some n \<Rightarrow> if progressPercentMax < n then progressAbsent else n)"

record programFields =
  pf_state :: "byte list"
  pf_id :: "byte list"
  pf_kind :: "byte list"
  pf_progress :: "byte list"
  pf_app :: "byte list"
  pf_hasID :: bool

definition pf_set :: "byte list \<Rightarrow> byte list \<Rightarrow> programFields \<Rightarrow> programFields" where
  "pf_set key value f = (
     if key = str ''state'' then f\<lparr>pf_state := value\<rparr>
     else if key = str ''kind'' then f\<lparr>pf_kind := value\<rparr>
     else if key = str ''progress'' then f\<lparr>pf_progress := value\<rparr>
     else if key = str ''app'' then f\<lparr>pf_app := value\<rparr>
     else f)"

definition pf_record :: "programFields \<Rightarrow> (byte list \<times> program_record) option" where
  "pf_record f = (
     if pf_hasID f \<and> \<not> isProgramID (pf_id f) then None
     else let
       st = pf_state f;
       plain = st \<in> {ProgramStateIdle, ProgramStateDone, ProgramStateError, programStateClear};
       busy = st \<in> {ProgramStateWorking, ProgramStateBlocked}
     in if \<not> plain \<and> \<not> busy then None
       else Some (pf_id f,
         \<lparr>pr_state = st,
          pr_kind = (if st = ProgramStateBlocked
            \<and> pf_kind f \<in> {str ''permission'', str ''question'', str ''auth''} then pf_kind f else []),
          pr_app = (if isProgramName (pf_app f) then pf_app f else []),
          pr_touched = 0,
          pr_progress = (if plain then progressAbsent else programProgress (pf_progress f))\<rparr>))"

definition trimBlanks :: "byte list \<Rightarrow> byte list" where
  "trimBlanks v = (let blank = (\<lambda>c. c = 0x20 \<or> c = 0x09) in
     rev (dropWhile blank (rev (dropWhile blank v))))"

text \<open>One turn of the loop over the pairs; \<open>None\<close> is the report discarded whole.\<close>

definition pairStep :: "byte list \<Rightarrow> programFields \<Rightarrow> programFields option" where
  "pairStep pair f = (case cutAt (chr CHR ''='') pair of (k, v, hasValue) \<Rightarrow>
     let key = trimBlanks k; value = trimBlanks v in
     if programStatusMaxKey < length key then None
     else if \<not> hasValue then Some f
     else if overProgramLimit key value then None
     else if key = str ''id'' then Some (f\<lparr>pf_id := value, pf_hasID := True\<rparr>)
     else if \<not> isProgramValue value then Some f
     else if \<not> isProgramText key value then None
     else Some (pf_set key value f))"

definition noFields :: programFields where
  "noFields = \<lparr>pf_state = [], pf_id = [], pf_kind = [], pf_progress = [], pf_app = [], pf_hasID = False\<rparr>"

definition parseProgramReport :: "byte list \<Rightarrow> (byte list \<times> program_record) option" where
  "parseProgramReport data = (if programStatusMaxReport < length data then None
     else foldM pairStep (splitOn (chr CHR '':'') data) noFields \<bind> pf_record)"

text \<open>Whatever the parser accepts is a change the record set takes.\<close>

definition record_valid :: "byte list \<Rightarrow> program_record \<Rightarrow> bool" where
  "record_valid k r \<longleftrightarrow> pr_state r \<in> insert programStateClear storedStates
     \<and> (pr_kind r \<noteq> [] \<longrightarrow> pr_state r = ProgramStateBlocked)
     \<and> -1 \<le> pr_progress r \<and> pr_progress r \<le> 100
     \<and> (0 \<le> pr_progress r \<longrightarrow> unfinished r)
     \<and> (k \<noteq> [] \<longrightarrow> isProgramID k \<and> length k \<le> programStatusMaxID)
     \<and> (pr_app r \<noteq> [] \<longrightarrow> isProgramName (pr_app r) \<and> length (pr_app r) \<le> programStatusMaxName)"

lemma programProgress_range: "-1 \<le> programProgress v \<and> programProgress v \<le> 100"
proof (cases "v = [] \<or> 3 < length v \<or> \<not> isAllDigits v")
  case True
  then show ?thesis by (auto simp: programProgress_def progressAbsent_def)
next
  case False
  have nn: "0 \<le> digitsValue v" if "\<forall>b \<in> set v. isDigit b" for v
    using that by (induction v rule: rev_induct) (auto simp: digitsValue_snoc isDigit_def digitsValue_def)
  obtain n where n: "atoi v = None \<or> atoi v = Some n" by (cases "atoi v") auto
  show ?thesis
  proof (cases "atoi v")
    case None
    then show ?thesis by (simp add: programProgress_def progressAbsent_def)
  next
    case (Some n)
    have "n = digitsValue v"
      using Some False isAllDigits_not_sign [of v]
      by (auto simp: atoi_def Let_def split: list.splits if_splits)
    moreover have "0 \<le> digitsValue v" using False nn by (simp add: isAllDigits_def)
    ultimately show ?thesis using Some
      by (simp add: programProgress_def progressAbsent_def progressPercentMax_def)
  qed
qed

definition fields_ok :: "programFields \<Rightarrow> bool" where
  "fields_ok f \<longleftrightarrow> length (pf_id f) \<le> programStatusMaxID \<and> length (pf_app f) \<le> programStatusMaxName
     \<and> (pf_id f \<noteq> [] \<longrightarrow> pf_hasID f)"

lemma pairStep_ok:
  assumes "fields_ok f" "pairStep pair f = Some g"
  shows "fields_ok g"
proof -
  obtain k v hv where c: "cutAt (chr CHR ''='') pair = (k, v, hv)"
    by (cases "cutAt (chr CHR ''='') pair")
  define key val where kv: "key = trimBlanks k" "val = trimBlanks v"
  have g: "g = f \<or> (\<not> overProgramLimit key val \<and>
      ((key = str ''id'' \<and> g = f\<lparr>pf_id := val, pf_hasID := True\<rparr>) \<or> g = pf_set key val f))"
    using assms(2) unfolding pairStep_def c Let_def prod.case kv [symmetric]
    by (auto split: if_splits)
  have ids: "key = str ''id'' \<Longrightarrow> \<not> overProgramLimit key val \<Longrightarrow> length val \<le> programStatusMaxID"
    and apps: "key = str ''app'' \<Longrightarrow> \<not> overProgramLimit key val \<Longrightarrow> length val \<le> programStatusMaxName"
    by (simp_all add: overProgramLimit_def str_eq_iff)
  have "fields_ok (pf_set key val f)" if "\<not> overProgramLimit key val"
    using apps assms(1) that by (auto simp: pf_set_def fields_ok_def)
  with g ids assms(1) show ?thesis by (auto simp: fields_ok_def)
qed

lemma pairSteps_ok: "fields_ok f \<Longrightarrow> foldM pairStep ps f = Some g \<Longrightarrow> fields_ok g"
proof (induction ps arbitrary: f)
  case Nil
  then show ?case by simp
next
  case (Cons x ps)
  then obtain h where "pairStep x f = Some h" "foldM pairStep ps h = Some g"
    by (cases "pairStep x f") simp_all
  with Cons pairStep_ok show ?case by blast
qed

lemma pf_record_fields:
  assumes "pf_record f = Some (k, r)"
  shows "k = pf_id f" and "pf_hasID f \<longrightarrow> isProgramID (pf_id f)"
    and "pr_state r \<in> insert programStateClear storedStates"
    and "pr_kind r = [] \<or> pr_state r = ProgramStateBlocked"
    and "pr_app r = [] \<or> isProgramName (pr_app r) \<and> pr_app r = pf_app f"
    and "pr_progress r = -1 \<or> unfinished r \<and> pr_progress r = programProgress (pf_progress f)"
proof -
  define plain where "plain \<longleftrightarrow>
    pf_state f \<in> {ProgramStateIdle, ProgramStateDone, ProgramStateError, programStateClear}"
  define busy where "busy \<longleftrightarrow> pf_state f \<in> {ProgramStateWorking, ProgramStateBlocked}"
  note d = assms [unfolded pf_record_def Let_def, folded plain_def busy_def]
  show "k = pf_id f" "pf_hasID f \<longrightarrow> isProgramID (pf_id f)" using d by (auto split: if_splits)
  have pb: "plain \<or> busy" using d by (auto split: if_splits)
  have r: "pr_state r = pf_state f"
    "pr_kind r = (if pf_state f = ProgramStateBlocked
       \<and> pf_kind f \<in> {str ''permission'', str ''question'', str ''auth''} then pf_kind f else [])"
    "pr_app r = (if isProgramName (pf_app f) then pf_app f else [])"
    "pr_progress r = (if plain then progressAbsent else programProgress (pf_progress f))"
    using d by (auto split: if_splits)
  show "pr_state r \<in> insert programStateClear storedStates"
    using pb unfolding r(1) plain_def busy_def storedStates_def by blast
  show "pr_kind r = [] \<or> pr_state r = ProgramStateBlocked" unfolding r(1,2) by simp
  show "pr_app r = [] \<or> isProgramName (pr_app r) \<and> pr_app r = pf_app f" unfolding r(3) by simp
  show "pr_progress r = -1 \<or> unfinished r \<and> pr_progress r = programProgress (pf_progress f)"
    using pb unfolding r(1,4) unfinished_def progressAbsent_def busy_def by auto
qed

lemma pf_record_valid:
  assumes "fields_ok f" "pf_record f = Some (k, r)"
  shows "record_valid k r"
  using pf_record_fields [OF assms(2)] assms(1) programProgress_range [of "pf_progress f"]
  unfolding record_valid_def fields_ok_def by auto

lemma noFields_ok: "fields_ok noFields"
  by (simp add: fields_ok_def noFields_def)

lemma parseProgramReport_valid:
  assumes "parseProgramReport data = Some (k, r)"
  shows "record_valid k r"
proof -
  from assms obtain f where "foldM pairStep (splitOn (chr CHR '':'') data) noFields = Some f"
    "pf_record f = Some (k, r)"
    unfolding parseProgramReport_def by (auto simp: bind_eq_Some_conv split: if_splits)
  with pairSteps_ok [OF noFields_ok] pf_record_valid show ?thesis by blast
qed

section \<open>Properties\<close>


definition demoReport :: programChange where
  "demoReport = \<lparr>pc_id = [], pc_rec = zeroRecord\<lparr>pr_state := ProgramStateBlocked\<rparr>, pc_seq = 1,
     pc_event = programEventReport\<rparr>"

lemma demoReport_reach: "program_reach (ps_apply demoReport emptyStatus)"
  by (rule program_step [OF program_init])
     (simp add: change_ok_def demoReport_def emptyStatus_def zeroRecord_def storedStates_def)


text \<open>
  Go leaves the iteration order of the record map open, and no result depends on it: an event
  applied to two representations of the same map gives representations of the same map, and both
  show the same status.
\<close>

theorem program_order_independent:
  assumes "program_reach p" "change_ok c p" "same_status p q"
  shows "same_status (ps_apply c p) (ps_apply c q) \<and> programStatus p = programStatus q"
  using ps_apply_same [OF program_reach_ok [OF assms(1)] assms(2,3)]
    programStatus_same [OF program_reach_ok [OF assms(1)] assms(3)] by blast

lemma program_order_independent_witness:
  "same_status (ps_apply demoReport emptyStatus) (ps_apply demoReport emptyStatus)"
  using program_order_independent [OF program_init, of demoReport emptyStatus]
  by (simp add: change_ok_def demoReport_def emptyStatus_def zeroRecord_def storedStates_def
      same_status_def same_map_def)

text \<open>
  A report for a new id in a full set evicts exactly one record, the one reported least
  recently, and stores the new one under its id with the report's number.
\<close>

theorem report_evicts_oldest:
  assumes "program_ok p" "change_ok c p" "pc_event c = programEventReport"
    and "pr_state (pc_rec c) \<noteq> programStateClear" "\<not> ps_exited p"
    and "map_of (ps_records p) (pc_id c) = None"
    and "length (ps_records p) = programStatusMaxRecords"
  shows "\<exists>k r. (k, r) \<in> set (ps_records p)
      \<and> (\<forall>(k', r') \<in> set (ps_records p). pr_touched r \<le> pr_touched r')
      \<and> map_of (ps_records (ps_apply c p))
        = (map_of (ps_records p))(k := None, pc_id c \<mapsto> (pc_rec c)\<lparr>pr_touched := pc_seq c\<rparr>)"
proof -
  define q where "q = p\<lparr>ps_seq := pc_seq c, ps_reported := True\<rparr>"
  have "ps_records q \<noteq> []" using assms(7) by (auto simp: q_def programStatusMaxRecords_def)
  then obtain k r where kr: "(k, r) \<in> set (ps_records q)"
    "\<forall>(k', r') \<in> set (ps_records q). pr_touched r \<le> pr_touched r'"
    "ps_evict q = q\<lparr>ps_records := AList.delete k (ps_records q)\<rparr>"
    by (rule ps_evict_oldest)
  have e: "snd (ps_event c p) = snd (ps_store (pc_id c) (pc_rec c) (pc_seq c) q)"
    using assms(3,4) by (simp add: ps_event_def q_def)
  have "\<not> ps_exited (snd (ps_event c p))" using assms(5) by (simp add: e ps_store_eq) (simp add: q_def)
  then have "ps_records (ps_apply c p) = ps_records (snd (ps_event c p))"
    by (simp add: ps_apply_fields ps_settle_def)
  also have "\<dots> = AList.update (pc_id c) ((pc_rec c)\<lparr>pr_touched := pc_seq c\<rparr>)
      (AList.delete k (ps_records p))"
    using assms(6,7) kr(3) by (simp add: e ps_store_eq storeBase_def q_def)
  finally show ?thesis
    using kr(1,2) by (intro exI [of _ k] exI [of _ r]) (simp add: q_def update_conv' delete_conv')
qed

definition fullStatus :: program_status where
  "fullStatus = emptyStatus\<lparr>ps_records := map (\<lambda>n. (str ''w'' @ natDigits n,
     zeroRecord\<lparr>pr_state := ProgramStateIdle, pr_touched := n\<rparr>)) [0..<64], ps_seq := 100\<rparr>"

lemma fullStatus_ok: "program_ok fullStatus"
proof -
  have "records_ok 100 (ps_records fullStatus)"
    by (rule records_okI) (code_simp, code_simp, code_simp)
  moreover have "length (ps_records fullStatus) = 64" by (simp add: fullStatus_def)
  ultimately show ?thesis
    by (simp add: program_ok_def programStatusMaxRecords_def) (simp add: fullStatus_def emptyStatus_def)
qed

lemma report_evicts_oldest_witness:
  "\<exists>k r. (k, r) \<in> set (ps_records fullStatus) \<and> map_of (ps_records (ps_apply (demoReport\<lparr>pc_seq := 101\<rparr>) fullStatus))
     = (map_of (ps_records fullStatus))(k := None,
         [] \<mapsto> zeroRecord\<lparr>pr_state := ProgramStateBlocked, pr_touched := 101\<rparr>)"
proof -
  have "map_of (ps_records fullStatus) [] = None"
    by (auto simp: map_of_eq_None_iff fullStatus_def str_def)
  then show ?thesis
    using report_evicts_oldest [OF fullStatus_ok, of "demoReport\<lparr>pc_seq := 101\<rparr>"]
    by (auto simp: change_ok_def demoReport_def fullStatus_def emptyStatus_def zeroRecord_def
        storedStates_def program_states str_eq_iff programStatusMaxRecords_def)
qed

text \<open>
  C7: Whatever the parser accepts has a defined state, a kind only when blocked, a progress only
  while unfinished and then within 0 to 100, a well-formed id and app within their size limits.
\<close>

theorem parsed_report_valid:
  "\<forall>k r. parseProgramReport data = Some (k, r) \<longrightarrow> record_valid k r"
  using parseProgramReport_valid by blast

lemma parsed_report_valid_witness:
  "record_valid (str ''a/b'')
     \<lparr>pr_state = ProgramStateWorking, pr_kind = [], pr_app = [], pr_touched = 0, pr_progress = 42\<rparr>"
proof -
  have "parseProgramReport (str ''state=working:id=a/b:progress=42'') = Some (str ''a/b'',
     \<lparr>pr_state = ProgramStateWorking, pr_kind = [], pr_app = [], pr_touched = 0, pr_progress = 42\<rparr>)"
    by code_simp
  with parsed_report_valid show ?thesis by blast
qed

end
