(* ===== verification/Screen.thy ===== *)
theory Screen
  imports Contract Params Charset Width Wire ProgramStatus
begin

text \<open>
  The screen (\<^verbatim>\<open>src/vt/screen.go\<close>): its well-formedness invariant, the constructor, the
  horizontal bounds every operation goes through, and the cell-level helpers used across files.
  A grid is a list of rows; the aliasing of Go's row slices is not observable, because every
  operation that moves rows puts a fresh row where it took one.
\<close>

section \<open>Well-formedness\<close>

definition rect :: "int \<Rightarrow> int \<Rightarrow> 'a list list \<Rightarrow> bool" where
  "rect h w g \<longleftrightarrow> int (length g) = h \<and> (\<forall>r \<in> set g. int (length r) = w)"

definition parser_wf :: "'a parser_state_scheme \<Rightarrow> bool" where
  "parser_wf s \<longleftrightarrow> length (pParams s) = 32 \<and> length (pGroupLen s) = 32
     \<and> (pState s = stGround \<or> params_ok s) \<and> length (pIntermed s) = 2
     \<and> 0 \<le> numInterm s \<and> numInterm s \<le> 2 \<and> length (utf8Buf s) = 4
     \<and> (utf8Len s = 0 \<or> (2 \<le> utf8Len s \<and> utf8Len s \<le> 4 \<and> 1 \<le> utf8Got s \<and> utf8Got s < utf8Len s))
     \<and> length (oscBuf s) \<le> maxOSCLen \<and> length (dcsBuf s) \<le> maxDCSLen"

definition maxDimension :: int where "maxDimension = 1000"

definition box_ok :: "screen \<Rightarrow> bool" where
  "box_ok s \<longleftrightarrow> 1 \<le> Height s \<and> Height s \<le> maxDimension \<and> 1 \<le> Width s \<and> Width s \<le> maxDimension
     \<and> 0 \<le> scrollTop s \<and> scrollTop s \<le> scrollBottom s \<and> scrollBottom s < Height s
     \<and> 0 \<le> leftMargin s \<and> leftMargin s \<le> rightMargin s \<and> rightMargin s < Width s"

definition cursor_ok :: "screen \<Rightarrow> bool" where
  "cursor_ok s \<longleftrightarrow> 0 \<le> curX s \<and> curX s < Width s \<and> 0 \<le> curY s \<and> curY s < Height s"

definition grid_ok :: "screen \<Rightarrow> bool" where
  "grid_ok s \<longleftrightarrow> rect (Height s) (Width s) (Cells s) \<and> int (length (wrapped s)) = Height s"

definition slot_ok :: "saved_cursor \<Rightarrow> bool" where
  "slot_ok c \<longleftrightarrow> 0 \<le> sc_x c \<and> 0 \<le> sc_y c \<and> length (sc_charsets c) = 4 \<and> 0 \<le> sc_gl c \<and> sc_gl c < 4"

definition alt_ok :: "screen \<Rightarrow> bool" where
  "alt_ok s \<longleftrightarrow> (InAltScreen s \<longleftrightarrow> savedMainCells s \<noteq> None)
     \<and> (InAltScreen s \<longrightarrow> savedMainCells s \<noteq> Some [] \<and> 0 \<le> savedMainScrollTop s
          \<and> savedMainScrollTop s \<le> savedMainScrollBottom s \<and> savedMainScrollTop s < Height s
          \<and> 0 \<le> savedMainCurX s \<and> 0 \<le> savedMainCurY s)
     \<and> (\<forall>g. altCells s = Some g \<longrightarrow> (\<exists>w. \<forall>r \<in> set g. int (length r) = w))"

definition tabs_ok :: "screen \<Rightarrow> bool" where
  "tabs_ok s \<longleftrightarrow> (\<forall>t. tabStops s = Some t \<longrightarrow> int (length t) = Width s)"

definition maxTitleStack :: nat where "maxTitleStack = 64"
definition maxKbdStack :: nat where "maxKbdStack = 16"

definition limits_ok :: "screen \<Rightarrow> bool" where
  "limits_ok s \<longleftrightarrow> length (titleStack s) \<le> maxTitleStack \<and> length (kb_stack (mainKbd s)) \<le> maxKbdStack
     \<and> length (kb_stack (altKbd s)) \<le> maxKbdStack \<and> length (drainTail s) < maxAutolinkRows
     \<and> length (Drained s) = length (drainedWrapped s) \<and> program_ok (program s)"

definition wf :: "screen \<Rightarrow> bool" where
  "wf s \<longleftrightarrow> parser_wf s \<and> charset_ok s \<and> box_ok s \<and> cursor_ok s \<and> grid_ok s
     \<and> slot_ok (mainSaved s) \<and> slot_ok (altSaved s) \<and> alt_ok s \<and> tabs_ok s \<and> limits_ok s"

definition params_rep :: "u16 list \<Rightarrow> int list \<Rightarrow> int \<Rightarrow> int \<Rightarrow> bool" where
  "params_rep P L g n \<longleftrightarrow> length P = 32 \<and> length L = 32
     \<and> (\<exists>gs m. reps L 0 (gs @ [m]) \<and> g = int (length gs) + 1
          \<and> n = int (sum_list gs + m) \<and> sum_list gs + m \<le> 32)"

lemma params_ok_rep: "params_ok s = params_rep (pParams s) (pGroupLen s) (numGroups s) (numParams s)"
  by (simp add: params_ok_def params_rep_def)

lemmas wf_defs = params_ok_rep wf_def parser_wf_def charset_ok_def box_ok_def cursor_ok_def grid_ok_def
  alt_ok_def tabs_ok_def limits_ok_def

text \<open>What an operation called from the dispatch leaves of the parser.\<close>

definition same_parser :: "screen \<Rightarrow> screen \<Rightarrow> bool" where
  "same_parser s t \<longleftrightarrow> pState t = pState s \<and> pParams t = pParams s \<and> pGroupLen t = pGroupLen s
     \<and> numParams t = numParams s \<and> numGroups t = numGroups s \<and> pIntermed t = pIntermed s
     \<and> numInterm t = numInterm s \<and> privateMarker t = privateMarker s"

interpretation scr: contract wf same_parser
  by unfold_locales (auto simp: same_parser_def)

abbreviation safe :: "screen option \<Rightarrow> screen \<Rightarrow> bool" where
  "safe m s \<equiv> ensures m (scr.ok s)"

lemma params_ok_same: "same_parser s t \<Longrightarrow> params_ok s \<Longrightarrow> params_ok t"
  using params_ok_cong [of t s] by (simp add: same_parser_def)

lemmas ok_defs = wf_defs scr.ok_def same_parser_def

section \<open>Geometry\<close>

definition makeRow :: "int \<Rightarrow> color \<Rightarrow> cell list" where
  "makeRow cols bg = replicate (nat cols) (blankCell_bg bg)"

definition leftBound :: "screen \<Rightarrow> int" where
  "leftBound s = (if LRMarginMode s then leftMargin s else 0)"

definition rightBound :: "screen \<Rightarrow> int" where
  "rightBound s = (if LRMarginMode s then rightMargin s else Width s - 1)"

definition withinHMargins :: "int \<Rightarrow> screen \<Rightarrow> bool" where
  "withinHMargins x s \<longleftrightarrow> x \<ge> leftBound s \<and> x \<le> rightBound s"

definition wrapEdge :: "screen \<Rightarrow> int" where
  "wrapEdge s = (if withinHMargins (curX s) s then rightBound s else Width s - 1)"

definition wrapColumn :: "screen \<Rightarrow> int" where
  "wrapColumn s = (if withinHMargins (curX s) s then leftBound s else 0)"

definition capDimension :: "int \<Rightarrow> int" where
  "capDimension n = (if n \<le> maxDimension then n else maxDimension)"

lemma makeRow_length [simp]: "0 \<le> w \<Longrightarrow> int (length (makeRow w bg)) = w"
  by (simp add: makeRow_def)

lemma makeRow_set: "set (makeRow w bg) \<subseteq> {blankCell_bg bg}"
  by (auto simp: makeRow_def)

lemma bounds_range:
  assumes "box_ok s"
  shows "0 \<le> leftBound s" "leftBound s \<le> rightBound s" "rightBound s < Width s"
    "0 \<le> wrapColumn s" "wrapColumn s < Width s" "0 \<le> wrapEdge s" "wrapEdge s < Width s"
  using assms by (auto simp: box_ok_def leftBound_def rightBound_def wrapColumn_def wrapEdge_def)

section \<open>Construction\<close>

definition zeroSaved :: saved_cursor where
  "zeroSaved = \<lparr>sc_style = noStyle, sc_charsets = replicate 4 charsetASCII, sc_x = 0, sc_y = 0,
     sc_gl = 0, sc_origin = False, sc_pendingWrap = False, sc_protected = False, sc_valid = False\<rparr>"

definition zeroKbd :: kbd_protocol where
  "zeroKbd = \<lparr>kb_stack = [], kb_flags = 0\<rparr>"

definition DefaultTheme :: theme_t where
  "DefaultTheme = \<lparr>Foreground = RGB 0xdd 0xde 0xe1, Background = RGB 0 0 0,
     CursorColor = RGB 0xdd 0xde 0xe1\<rparr>"

text \<open>
  The options of \<^verbatim>\<open>New\<close> set the theme and the contrast floor; the theme is an argument, the floor
  is in the environment. A negative size panics in \<^verbatim>\<open>make\<close>.
\<close>

definition New :: "environment \<Rightarrow> theme_t \<Rightarrow> int \<Rightarrow> int \<Rightarrow> screen option" where
  "New e th rows0 cols0 = (let rows = capDimension rows0; cols = capDimension cols0 in
    if rows < 0 \<or> (0 < rows \<and> cols < 0) then None
    else Some \<lparr>
      oscBuf = [], dcsBuf = [], utf8Buf = replicate 4 0, pParams = replicate 32 0,
      pGroupLen = replicate 32 0, numParams = 0, numGroups = 0, curParam = 0,
      pIntermed = replicate 2 0, numInterm = 0, utf8Len = 0, utf8Got = 0, pState = stGround,
      dcsFunc = dcsNone, ignoring = False, privateMarker = 0, oscOverflow = False, dcsOverflow = False,
      gsets = replicate 4 charsetASCII, gl = 0, singleShft = -1,
      style = noStyle, mainSaved = zeroSaved, altSaved = zeroSaved, curY = 0, curX = 0,
      savedMainCells = None, savedMainWrapped = [], altCells = None, savedMainCurX = 0,
      savedMainCurY = 0, savedMainScrollTop = 0, savedMainScrollBottom = 0,
      savedMainStyle = noStyle, InAltScreen = False,
      env = e, FlushHoldUntil = 0, ansiModeState = [], paletteOverride = None, dynColors = [],
      specialColors = [], program = emptyStatus, decModeState = [], savedModeValues = [],
      Title = [], iconTitle = [], hyperlink = [], Notification = [], tabStops = None, Drained = [],
      drainedWrapped = [], Cells = replicate (nat rows) (makeRow cols noColor),
      wrapped = replicate (nat rows) False, drainTail = [], pendingClipboard = [],
      selectionData = [], response = [], titleStack = [], mainKbd = zeroKbd, altKbd = zeroKbd,
      linesPerScreen = 0, scrollTop = 0, conformanceLevel = 65, linesPerPage = 0,
      scrollBottom = rows - 1, leftMargin = 0, rightMargin = cols - 1, Height = rows, Width = cols,
      Progress = progressAbsent, ProgressValue = progressAbsent, NotificationSeq = 0, theme = th,
      lastPrintedRune = 0, MouseMode = 0, lastPrintedStyle = noStyle, OriginMode = False,
      noClearOnColumn = False, titleSetHex = False, titleQueryHex = False, CursorBlink = True,
      AutoWrap = True, CursorStyle = 0, bellRing = False, scrollbackCleared = False,
      MouseSGR = False, FocusReporting = False, AppKeypad = False, ReverseVideo = False,
      pendingWrap = False, AppCursorKeys = False, InsertMode = False, LRMarginMode = False,
      MousePixels = False, LineFeedNewLine = False, ReverseWrap = False, curIsoProtected = False,
      CursorHidden = False, BracketedPaste = False, allow80To132 = False, curProtected = False,
      moreFix = False, AllowScreenReport = False, paletteChanged = False\<rparr>)"

lemma New_wf:
  assumes "1 \<le> rows" "1 \<le> cols"
  shows "ensures (New e th rows cols) wf"
proof -
  have c: "1 \<le> capDimension rows" "capDimension rows \<le> maxDimension"
    "1 \<le> capDimension cols" "capDimension cols \<le> maxDimension"
    using assms by (auto simp: capDimension_def maxDimension_def)
  show ?thesis
    using c emptyStatus_ok
    by (simp add: New_def Let_def wf_defs slot_ok_def zeroSaved_def zeroKbd_def rect_def
        maxAutolinkRows_def)
qed

end
