(* ===== verification/Grid.thy ===== *)
theory Grid
  imports Screen
begin

text \<open>
  The cell-level operations of \<^verbatim>\<open>src/vt/screen.go\<close> and \<^verbatim>\<open>src/vt/csi.go\<close>: erasing, inserting and
  deleting characters, columns and lines, and the scrolls that do not drain to the scrollback.
  Each is shown to touch the grid only (\<open>grid_only\<close>), and the ones a program sees most get an
  exact description of every cell of the result.
\<close>

section \<open>Operations on one row\<close>

text \<open>\<^verbatim>\<open>row := s.Cells[y]\<close> followed by updates of \<^verbatim>\<open>row\<close> in place.\<close>

definition onRow :: "int \<Rightarrow> (cell list \<Rightarrow> cell list option) \<Rightarrow> screen \<Rightarrow> screen option" where
  "onRow y f s = do {
     row \<leftarrow> get_at (Cells s) y;
     row' \<leftarrow> f row;
     C \<leftarrow> set_at (Cells s) y row';
     Some (s\<lparr>Cells := C\<rparr>) }"

definition blankBG :: "screen \<Rightarrow> cell" where
  "blankBG s = blankCell_bg (BG (style s))"

datatype eraseMode = eraseAll | eraseSpareISO | eraseSpareDECSCA | eraseSpareBoth

definition spared :: "eraseMode \<Rightarrow> cell \<Rightarrow> bool" where
  "spared mode c = (case mode of eraseAll \<Rightarrow> False | eraseSpareISO \<Rightarrow> IsoProtected c
     | eraseSpareDECSCA \<Rightarrow> Protected c | eraseSpareBoth \<Rightarrow> Protected c \<or> IsoProtected c)"

definition eraseRegionMode :: "int \<Rightarrow> int \<Rightarrow> int \<Rightarrow> int \<Rightarrow> eraseMode \<Rightarrow> screen \<Rightarrow> screen option" where
  "eraseRegionMode y1 x1 y2 x2 mode s0 = (let blank = blankBG s0 in
     foldM (\<lambda>y s. if y < 0 \<or> y \<ge> Height s then Some s
       else onRow y (foldM (\<lambda>x row. if x < 0 \<or> x \<ge> Width s then Some row
           else do { c \<leftarrow> get_at row x;
                     if spared mode c then Some row else set_at row x blank }) [x1..x2]) s)
       [y1..y2] s0)"

definition eraseRegion :: "int \<Rightarrow> int \<Rightarrow> int \<Rightarrow> int \<Rightarrow> screen \<Rightarrow> screen option" where
  "eraseRegion y1 x1 y2 x2 s = eraseRegionMode y1 x1 y2 x2 eraseAll s"

definition blankCols :: "int \<Rightarrow> int \<Rightarrow> int \<Rightarrow> screen \<Rightarrow> screen option" where
  "blankCols y x1 x2 s = (if y < 0 \<or> y \<ge> Height s then Some s
     else onRow y (foldM (\<lambda>x row. if x \<ge> 0 then set_at row x (blankBG s) else Some row)
       [x1..min x2 (Width s - 1)]) s)"

definition insertChars :: "int \<Rightarrow> screen \<Rightarrow> screen option" where
  "insertChars n s = (if curY s < 0 \<or> curY s \<ge> Height s \<or> \<not> withinHMargins (curX s) s then Some s
     else let right = rightBound s in
       onRow (curY s) (\<lambda>row. do {
         row \<leftarrow> copy_loop (\<lambda>x. x - n) (rev [curX s + n..right]) row;
         fill_loop [curX s..min (curX s + n - 1) right] (blankBG s) row }) s)"

definition deleteChars :: "int \<Rightarrow> screen \<Rightarrow> screen option" where
  "deleteChars n0 s = (if curY s < 0 \<or> curY s \<ge> Height s \<or> \<not> withinHMargins (curX s) s then Some s
     else let right = rightBound s; n = min n0 (right - curX s + 1) in
       onRow (curY s) (\<lambda>row. do {
         row \<leftarrow> copy_loop (\<lambda>x. x + n) [curX s..right - n] row;
         fill_loop [right - n + 1..right] (blankBG s) row }) s)"

section \<open>Operations on the columns of the scroll region\<close>

definition onRegion :: "(cell list \<Rightarrow> cell list option) \<Rightarrow> screen \<Rightarrow> screen option" where
  "onRegion f s = foldM (\<lambda>y. onRow y f) [scrollTop s..scrollBottom s] s"

definition insertColumns :: "int \<Rightarrow> screen \<Rightarrow> screen option" where
  "insertColumns n0 s = (
     if curY s < scrollTop s \<or> curY s > scrollBottom s \<or> \<not> withinHMargins (curX s) s then Some s
     else let right = rightBound s; n = min n0 (right - curX s + 1) in
       if n \<le> 0 then Some s
       else onRegion (\<lambda>row. do {
         row \<leftarrow> copy_loop (\<lambda>x. x - n) (rev [curX s + n..right]) row;
         fill_loop [curX s..curX s + n - 1] (blankBG s) row }) s)"

definition deleteColumns :: "int \<Rightarrow> screen \<Rightarrow> screen option" where
  "deleteColumns n0 s = (
     if curY s < scrollTop s \<or> curY s > scrollBottom s \<or> \<not> withinHMargins (curX s) s then Some s
     else let right = rightBound s; n = min n0 (right - curX s + 1) in
       if n \<le> 0 then Some s
       else onRegion (\<lambda>row. do {
         row \<leftarrow> copy_loop (\<lambda>x. x + n) [curX s..right - n] row;
         fill_loop [right - n + 1..right] (blankBG s) row }) s)"

definition scrollColumnsRight :: "screen \<Rightarrow> screen option" where
  "scrollColumnsRight s = (let left = leftBound s; right = rightBound s in
     onRegion (\<lambda>row. do {
       row \<leftarrow> copy_loop (\<lambda>x. x - 1) (rev [left + 1..right]) row;
       set_at row left (blankBG s) }) s)"

definition scrollColumnsLeft :: "screen \<Rightarrow> screen option" where
  "scrollColumnsLeft s = (let left = leftBound s; right = rightBound s in
     onRegion (\<lambda>row. do {
       row \<leftarrow> copy_loop (\<lambda>x. x + 1) [left..right - 1] row;
       set_at row right (blankBG s) }) s)"

definition shiftLeft :: "int \<Rightarrow> screen \<Rightarrow> screen option" where
  "shiftLeft n s = (
     if n \<ge> Width s then onRegion (fill_loop [0..Width s - 1] (blankBG s)) s
     else onRegion (\<lambda>row. do {
       row \<leftarrow> copy_loop (\<lambda>x. x + n) [0..Width s - n - 1] row;
       fill_loop [Width s - n..Width s - 1] (blankBG s) row }) s)"

definition shiftRight :: "int \<Rightarrow> screen \<Rightarrow> screen option" where
  "shiftRight n s = (
     if n \<ge> Width s then onRegion (fill_loop [0..Width s - 1] (blankBG s)) s
     else onRegion (\<lambda>row. do {
       row \<leftarrow> copy_loop (\<lambda>x. x - n) (rev [n..Width s - 1]) row;
       fill_loop [0..n - 1] (blankBG s) row }) s)"

section \<open>Operations on whole rows\<close>

text \<open>\<^verbatim>\<open>s.Cells[y] = s.Cells[g(y)]; s.wrapped[y] = s.wrapped[g(y)]\<close>\<close>

definition moveRow :: "(int \<Rightarrow> int) \<Rightarrow> int \<Rightarrow> screen \<Rightarrow> screen option" where
  "moveRow g y s = do {
     r \<leftarrow> get_at (Cells s) (g y);
     C \<leftarrow> set_at (Cells s) y r;
     f \<leftarrow> get_at (wrapped s) (g y);
     W \<leftarrow> set_at (wrapped s) y f;
     Some (s\<lparr>Cells := C, wrapped := W\<rparr>) }"

definition freshRow :: "int \<Rightarrow> screen \<Rightarrow> screen option" where
  "freshRow y s = do {
     C \<leftarrow> set_at (Cells s) y (makeRow (Width s) (BG (style s)));
     W \<leftarrow> set_at (wrapped s) y False;
     Some (s\<lparr>Cells := C, wrapped := W\<rparr>) }"

text \<open>\<^verbatim>\<open>copy(s.Cells[y][left:right+1], s.Cells[y'][left:right+1])\<close>\<close>

definition splice :: "'a list \<Rightarrow> int \<Rightarrow> 'a list \<Rightarrow> 'a list" where
  "splice dst a seg = take (nat a) dst @ seg @ drop (nat a + length seg) dst"

definition copyCols :: "int \<Rightarrow> int \<Rightarrow> int \<Rightarrow> int \<Rightarrow> screen \<Rightarrow> screen option" where
  "copyCols y y' left right s = do {
     dst \<leftarrow> get_at (Cells s) y;
     to \<leftarrow> slice dst left (right + 1);
     src \<leftarrow> get_at (Cells s) y';
     seg \<leftarrow> slice src left (right + 1);
     C \<leftarrow> set_at (Cells s) y (splice dst left (go_copy to seg));
     Some (s\<lparr>Cells := C\<rparr>) }"

text \<open>The common prologue of IL and DL; \<open>None\<close> inside is \<^verbatim>\<open>ok = false\<close>.\<close>

definition prepareLineShift :: "int \<Rightarrow> screen \<Rightarrow> (int \<times> int \<times> int \<times> bool \<times> screen) option" where
  "prepareLineShift n s = (
     if curY s < scrollTop s \<or> curY s > scrollBottom s \<or> \<not> withinHMargins (curX s) s then None
     else let left = leftBound s; right = rightBound s in
       Some (left, right, min n (scrollBottom s - curY s + 1), left = 0 \<and> right = Width s - 1,
         s\<lparr>curX := left, pendingWrap := False\<rparr>))"

text \<open>
  One turn of IL, DL, SU and SD: move each row of \<open>ys\<close> from \<open>g y\<close> and blank row \<open>y0\<close>, as whole rows
  (with their wrap flags) or, inside left and right margins, the columns between them only.
\<close>

definition shiftBox :: "(int \<Rightarrow> int) \<Rightarrow> int list \<Rightarrow> int \<Rightarrow> int \<Rightarrow> int \<Rightarrow> bool \<Rightarrow> screen \<Rightarrow> screen option" where
  "shiftBox g ys y0 left right fullWidth s = (
     if fullWidth then do { s \<leftarrow> foldM (moveRow g) ys s; freshRow y0 s }
     else do { s \<leftarrow> foldM (\<lambda>y. copyCols y (g y) left right) ys s; blankCols y0 left right s })"

definition insertLines :: "int \<Rightarrow> screen \<Rightarrow> screen option" where
  "insertLines n0 s0 = (case prepareLineShift n0 s0 of None \<Rightarrow> Some s0
     | Some (left, right, n, fullWidth, s) \<Rightarrow>
       for_range n (\<lambda>s. shiftBox (\<lambda>y. y - 1) (rev [curY s + 1..scrollBottom s]) (curY s)
         left right fullWidth s) s)"

definition deleteLines :: "int \<Rightarrow> screen \<Rightarrow> screen option" where
  "deleteLines n0 s0 = (case prepareLineShift n0 s0 of None \<Rightarrow> Some s0
     | Some (left, right, n, fullWidth, s) \<Rightarrow>
       for_range n (\<lambda>s. shiftBox (\<lambda>y. y + 1) [curY s..scrollBottom s - 1] (scrollBottom s)
         left right fullWidth s) s)"

definition scrollDownOnce :: "screen \<Rightarrow> screen option" where
  "scrollDownOnce s = (let left = leftBound s; right = rightBound s in
     shiftBox (\<lambda>y. y - 1) (rev [scrollTop s + 1..scrollBottom s]) (scrollTop s)
       left right (left = 0 \<and> right = Width s - 1) s)"

section \<open>The grid is all they touch\<close>

definition grid_only :: "screen \<Rightarrow> screen \<Rightarrow> bool" where
  "grid_only s t \<longleftrightarrow> t = s\<lparr>Cells := Cells t, wrapped := wrapped t\<rparr> \<and> grid_ok t"

lemma grid_only_refl: "grid_ok s \<Longrightarrow> grid_only s s"
  by (simp add: grid_only_def)

lemma grid_only_ok: "grid_only s t \<Longrightarrow> grid_ok t"
  by (simp add: grid_only_def)

lemma grid_only_trans: "grid_only s t \<Longrightarrow> grid_only t u \<Longrightarrow> grid_only s u"
  unfolding grid_only_def by (elim conjE, rule conjI, erule ssubst, erule ssubst) simp_all

lemma grid_only_fields:
  assumes "grid_only s t"
  shows "Height t = Height s" "Width t = Width s" "scrollTop t = scrollTop s"
    "scrollBottom t = scrollBottom s" "curX t = curX s" "curY t = curY s" "style t = style s"
    "leftMargin t = leftMargin s" "rightMargin t = rightMargin s" "LRMarginMode t = LRMarginMode s"
    "InAltScreen t = InAltScreen s" "drainTail t = drainTail s" "Drained t = Drained s"
    "drainedWrapped t = drainedWrapped s" "AutoWrap t = AutoWrap s"
proof -
  obtain C W where "t = s\<lparr>Cells := C, wrapped := W\<rparr>"
    using assms unfolding grid_only_def by blast
  then show "Height t = Height s" "Width t = Width s" "scrollTop t = scrollTop s"
    "scrollBottom t = scrollBottom s" "curX t = curX s" "curY t = curY s" "style t = style s"
    "leftMargin t = leftMargin s" "rightMargin t = rightMargin s" "LRMarginMode t = LRMarginMode s"
    "InAltScreen t = InAltScreen s" "drainTail t = drainTail s" "Drained t = Drained s"
    "drainedWrapped t = drainedWrapped s" "AutoWrap t = AutoWrap s"
    by simp_all
qed

lemma grid_only_bounds:
  assumes "grid_only s t"
  shows "leftBound t = leftBound s" "rightBound t = rightBound s" "box_ok t = box_ok s"
    "blankBG t = blankBG s"
  using grid_only_fields [OF assms]
  by (simp_all add: leftBound_def rightBound_def box_ok_def blankBG_def)

lemma wf_grid_only:
  assumes "wf s" "grid_only s t"
  shows "scr.ok s t"
proof -
  obtain C W where t: "t = s\<lparr>Cells := C, wrapped := W\<rparr>" and g: "grid_ok t"
    using assms(2) unfolding grid_only_def by blast
  show ?thesis using assms(1) g unfolding t by (simp add: ok_defs)
qed

lemma safe_grid: "wf s \<Longrightarrow> ensures m (grid_only s) \<Longrightarrow> safe m s"
  by (erule ensures_mono) (rule wf_grid_only)

lemma grid_seq:
  "ensures m (grid_only s) \<Longrightarrow> (\<And>t. grid_only s t \<Longrightarrow> ensures (f t) (grid_only t)) \<Longrightarrow>
   ensures (m \<bind> f) (grid_only s)"
  unfolding ensures_bind
  by (erule ensures_mono) (blast intro: ensures_mono grid_only_trans)

lemma grid_foldM:
  assumes "grid_ok s"
    and "\<And>x t. x \<in> set xs \<Longrightarrow> grid_only s t \<Longrightarrow> ensures (f x t) (grid_only t)"
  shows "ensures (foldM f xs s) (grid_only s)"
  by (rule ensures_foldM)
    (use assms grid_only_refl grid_only_trans in \<open>blast intro: ensures_mono\<close>)+

lemma grid_for_range:
  assumes "grid_ok s" "\<And>t. grid_only s t \<Longrightarrow> ensures (f t) (grid_only t)"
  shows "ensures (for_range n f s) (grid_only s)"
  unfolding for_range_def by (rule grid_foldM) (use assms in auto)

lemma grid_row_length: "grid_ok s \<Longrightarrow> 0 \<le> y \<Longrightarrow> y < Height s \<Longrightarrow> int (length (Cells s ! nat y)) = Width s"
  by (simp add: grid_ok_def rect_def nat_less_iff)

lemma rect_update: "rect h w g \<Longrightarrow> int (length r) = w \<Longrightarrow> rect h w (g[i := r])"
  using set_update_subset_insert [of g i r] by (auto simp: rect_def)

lemma onRow_grid:
  assumes "grid_ok s" "0 \<le> y" "y < Height s"
    and "\<And>row. int (length row) = Width s \<Longrightarrow> ensures (f row) (\<lambda>r. length r = length row)"
  shows "ensures (onRow y f s) (grid_only s)"
proof -
  have len: "int (length (Cells s)) = Height s" using assms(1) by (simp add: grid_ok_def rect_def)
  have "ensures (f (Cells s ! nat y)) (\<lambda>r. length r = length (Cells s ! nat y))"
    by (rule assms(4)) (rule grid_row_length [OF assms(1-3)])
  then have "ensures (f (Cells s ! nat y)) (\<lambda>r. grid_only s (s\<lparr>Cells := (Cells s)[nat y := r]\<rparr>))"
  proof (rule ensures_mono)
    fix r :: "cell list" assume "length r = length (Cells s ! nat y)"
    then have "int (length r) = Width s" using grid_row_length [OF assms(1-3)] by simp
    with assms(1) show "grid_only s (s\<lparr>Cells := (Cells s)[nat y := r]\<rparr>)"
      by (simp add: grid_only_def grid_ok_def rect_update)
  qed
  with assms(2,3) len show ?thesis by (simp add: onRow_def)
qed

lemma copy_fill_row:
  assumes "\<And>x. x \<in> set xs \<Longrightarrow> 0 \<le> x \<and> x < w \<and> 0 \<le> g x \<and> g x < w"
    and "\<And>x. x \<in> set ys \<Longrightarrow> 0 \<le> x \<and> x < w" and "int (length row) = w"
  shows "ensures (copy_loop g xs row \<bind> fill_loop ys v) (\<lambda>r. length r = length row)"
proof -
  have "ensures (copy_loop g xs row) (\<lambda>r. length r = length row \<and> set r \<subseteq> set row)"
    by (rule ensures_copy_loop) (use assms in \<open>auto simp: in_range_def\<close>)
  then have "ensures (copy_loop g xs row) (\<lambda>r. ensures (fill_loop ys v r) (\<lambda>r'. length r' = length row))"
  proof (rule ensures_mono)
    fix r assume r: "length r = length row \<and> set r \<subseteq> set row"
    have "ensures (fill_loop ys v r) (\<lambda>r'. length r' = length r \<and> set r' \<subseteq> insert v (set r))"
      by (rule ensures_fill_loop) (use assms r in \<open>auto simp: in_range_def\<close>)
    with r show "ensures (fill_loop ys v r) (\<lambda>r'. length r' = length row)"
      by (auto elim: ensures_mono)
  qed
  then show ?thesis by simp
qed

lemma foldM_row:
  assumes "\<And>x r. x \<in> set xs \<Longrightarrow> length r = length row \<Longrightarrow> ensures (f x r) (\<lambda>r'. length r' = length r)"
  shows "ensures (foldM f xs row) (\<lambda>r. length r = length row)"
  by (rule ensures_foldM) (use assms in \<open>fastforce intro: ensures_mono\<close>)+

lemma onRegion_grid:
  assumes "grid_ok s" "box_ok s"
    and "\<And>row. int (length row) = Width s \<Longrightarrow> ensures (f row) (\<lambda>r. length r = length row)"
  shows "ensures (onRegion f s) (grid_only s)"
  unfolding onRegion_def
proof (rule grid_foldM [OF assms(1)])
  fix y t assume y: "y \<in> set [scrollTop s..scrollBottom s]" and t: "grid_only s t"
  show "ensures (onRow y f t) (grid_only t)"
    by (rule onRow_grid [OF grid_only_ok [OF t]])
       (use y assms(2,3) grid_only_fields [OF t] in \<open>auto simp: box_ok_def\<close>)
qed

lemma eraseRegionMode_grid: "grid_ok s \<Longrightarrow> ensures (eraseRegionMode y1 x1 y2 x2 m s) (grid_only s)"
  unfolding eraseRegionMode_def Let_def
proof (rule grid_foldM)
  fix y t assume t: "grid_only s t"
  show "ensures (if y < 0 \<or> y \<ge> Height t then Some t
       else onRow y (foldM (\<lambda>x row. if x < 0 \<or> x \<ge> Width t then Some row
           else do { c \<leftarrow> get_at row x;
                     if spared m c then Some row else set_at row x (blankBG s) }) [x1..x2]) t) (grid_only t)"
  proof (cases "y < 0 \<or> y \<ge> Height t")
    case True
    with grid_only_ok [OF t] show ?thesis by (simp add: grid_only_refl)
  next
    case False
    then show ?thesis
      by (simp only: if_False) (rule onRow_grid [OF grid_only_ok [OF t]], simp, simp,
        rule foldM_row, simp)
  qed
qed

lemma blankCols_grid: "grid_ok s \<Longrightarrow> ensures (blankCols y x1 x2 s) (grid_only s)"
proof (cases "y < 0 \<or> y \<ge> Height s")
  case True
  then show "grid_ok s \<Longrightarrow> ?thesis" by (simp add: blankCols_def grid_only_refl)
next
  case False
  assume g: "grid_ok s"
  show ?thesis unfolding blankCols_def
    by (simp only: False if_False) (rule onRow_grid [OF g], use False in simp, use False in simp,
      rule foldM_row, simp)
qed

lemma insertChars_grid:
  assumes "grid_ok s" "box_ok s" "0 \<le> curX s" "0 \<le> n"
  shows "ensures (insertChars n s) (grid_only s)"
proof (cases "curY s < 0 \<or> curY s \<ge> Height s \<or> \<not> withinHMargins (curX s) s")
  case True
  with assms show ?thesis by (simp add: insertChars_def grid_only_refl)
next
  case False
  show ?thesis unfolding insertChars_def Let_def
    by (simp only: False if_False) (rule onRow_grid [OF assms(1)], use False in simp, use False in simp,
      rule copy_fill_row [where w = "Width s"],
      use False assms bounds_range [OF assms(2)] in \<open>auto simp: withinHMargins_def\<close>)
qed

lemma deleteChars_grid:
  assumes "grid_ok s" "box_ok s" "0 \<le> curX s" "0 \<le> n"
  shows "ensures (deleteChars n s) (grid_only s)"
proof (cases "curY s < 0 \<or> curY s \<ge> Height s \<or> \<not> withinHMargins (curX s) s")
  case True
  with assms show ?thesis by (simp add: deleteChars_def grid_only_refl)
next
  case False
  show ?thesis unfolding deleteChars_def Let_def
    by (simp only: False if_False) (rule onRow_grid [OF assms(1)], use False in simp, use False in simp,
      rule copy_fill_row [where w = "Width s"],
      use False assms bounds_range [OF assms(2)] in \<open>auto simp: withinHMargins_def\<close>)
qed

lemma insertColumns_grid:
  assumes "grid_ok s" "box_ok s" "0 \<le> curX s"
  shows "ensures (insertColumns n s) (grid_only s)"
proof (cases "curY s < scrollTop s \<or> curY s > scrollBottom s \<or> \<not> withinHMargins (curX s) s
    \<or> min n (rightBound s - curX s + 1) \<le> 0")
  case True
  with assms show ?thesis by (auto simp: insertColumns_def grid_only_refl Let_def)
next
  case False
  then have nf: "\<not> (curY s < scrollTop s \<or> curY s > scrollBottom s \<or> \<not> withinHMargins (curX s) s)"
    "\<not> min n (rightBound s - curX s + 1) \<le> 0" by blast+
  show ?thesis unfolding insertColumns_def Let_def if_not_P [OF nf(1)] if_not_P [OF nf(2)]
    by (rule onRegion_grid [OF assms(1,2)],
      rule copy_fill_row [where w = "Width s"],
      use False assms bounds_range [OF assms(2)] in \<open>auto simp: withinHMargins_def\<close>)
qed

lemma deleteColumns_grid:
  assumes "grid_ok s" "box_ok s" "0 \<le> curX s"
  shows "ensures (deleteColumns n s) (grid_only s)"
proof (cases "curY s < scrollTop s \<or> curY s > scrollBottom s \<or> \<not> withinHMargins (curX s) s
    \<or> min n (rightBound s - curX s + 1) \<le> 0")
  case True
  with assms show ?thesis by (auto simp: deleteColumns_def grid_only_refl Let_def)
next
  case False
  then have nf: "\<not> (curY s < scrollTop s \<or> curY s > scrollBottom s \<or> \<not> withinHMargins (curX s) s)"
    "\<not> min n (rightBound s - curX s + 1) \<le> 0" by blast+
  show ?thesis unfolding deleteColumns_def Let_def if_not_P [OF nf(1)] if_not_P [OF nf(2)]
    by (rule onRegion_grid [OF assms(1,2)],
      rule copy_fill_row [where w = "Width s"],
      use False assms bounds_range [OF assms(2)] in \<open>auto simp: withinHMargins_def\<close>)
qed

lemma copy_set_row:
  assumes "\<And>x. x \<in> set xs \<Longrightarrow> 0 \<le> x \<and> x < w \<and> 0 \<le> g x \<and> g x < w"
    and "0 \<le> y" "y < w" and "int (length row) = w"
  shows "ensures (copy_loop g xs row \<bind> (\<lambda>row. set_at row y v)) (\<lambda>r. length r = length row)"
proof -
  have "ensures (copy_loop g xs row) (\<lambda>r. length r = length row \<and> set r \<subseteq> set row)"
    by (rule ensures_copy_loop) (use assms in \<open>auto simp: in_range_def\<close>)
  with assms show ?thesis by (auto elim!: ensures_mono)
qed

lemma scrollColumns_grid:
  assumes "grid_ok s" "box_ok s"
  shows "ensures (scrollColumnsRight s) (grid_only s)" "ensures (scrollColumnsLeft s) (grid_only s)"
  unfolding scrollColumnsRight_def scrollColumnsLeft_def Let_def
  by (rule onRegion_grid [OF assms], rule copy_set_row [where w = "Width s"],
      use assms bounds_range [OF assms(2)] in auto)+

lemma fill_row:
  assumes "\<And>x. x \<in> set xs \<Longrightarrow> 0 \<le> x \<and> x < int (length row)"
  shows "ensures (fill_loop xs v row) (\<lambda>r. length r = length row)"
  by (rule ensures_mono [OF ensures_fill_loop]) (use assms in \<open>auto simp: in_range_def\<close>)

lemma shift_grid:
  assumes "grid_ok s" "box_ok s" "0 \<le> n"
  shows "ensures (shiftLeft n s) (grid_only s)" "ensures (shiftRight n s) (grid_only s)"
  unfolding shiftLeft_def shiftRight_def Let_def
  by (rule ensures_if [THEN iffD2], intro conjI impI; rule onRegion_grid [OF assms(1,2)],
      (rule fill_row, use assms in simp; fail)?,
      (rule copy_fill_row [where w = "Width s"], use assms in auto)?)+

lemma grid_cells_update:
  assumes "grid_ok s" "int (length r) = Width s"
  shows "grid_only s (s\<lparr>Cells := (Cells s)[i := r], wrapped := (wrapped s)[j := b]\<rparr>)"
  using assms by (simp add: grid_only_def grid_ok_def rect_update)

lemma moveRow_grid:
  assumes "grid_ok s" "0 \<le> y" "y < Height s" "0 \<le> g y" "g y < Height s"
  shows "ensures (moveRow g y s) (grid_only s)"
  using assms grid_cells_update [OF assms(1) grid_row_length [OF assms(1,4,5)]]
  by (simp add: moveRow_def grid_ok_def rect_def)

lemma freshRow_grid:
  assumes "grid_ok s" "0 \<le> Width s" "0 \<le> y" "y < Height s"
  shows "ensures (freshRow y s) (grid_only s)"
  using assms grid_cells_update [OF assms(1), of "makeRow (Width s) (BG (style s))"]
  by (simp add: freshRow_def grid_ok_def rect_def)

lemma splice_length: "0 \<le> a \<Longrightarrow> nat a + length seg \<le> length dst \<Longrightarrow> length (splice dst a seg) = length dst"
  by (simp add: splice_def)

lemma copyCols_grid:
  assumes "grid_ok s" "0 \<le> y" "y < Height s" "0 \<le> y'" "y' < Height s"
    and "0 \<le> l" "l \<le> r + 1" "r < Width s"
  shows "ensures (copyCols y y' l r s) (grid_only s)"
proof -
  have len: "int (length (Cells s)) = Height s" using assms(1) by (simp add: grid_ok_def rect_def)
  have rows: "int (length (Cells s ! nat y)) = Width s" "int (length (Cells s ! nat y')) = Width s"
    using assms by (simp_all add: grid_row_length)
  let ?to = "take (nat (r + 1 - l)) (drop (nat l) (Cells s ! nat y))"
  have "nat l + length ?to \<le> length (Cells s ! nat y)" using assms rows by auto
  then have "int (length (splice (Cells s ! nat y) l (go_copy ?to seg))) = Width s" for seg
    using rows assms(6) by (simp add: splice_length)
  with assms len rows show ?thesis
    by (simp add: copyCols_def grid_only_def grid_ok_def rect_update)
qed

lemma prepareLineShift_Some:
  assumes "prepareLineShift n s = Some (left, right, k, full, t)"
  shows "t = s\<lparr>curX := left, pendingWrap := False\<rparr>" "left = leftBound s" "right = rightBound s"
    "k = min n (scrollBottom s - curY s + 1)" "full \<longleftrightarrow> left = 0 \<and> right = Width s - 1"
    "scrollTop s \<le> curY s" "curY s \<le> scrollBottom s" "withinHMargins (curX s) s"
  using assms by (auto simp: prepareLineShift_def Let_def split: if_splits)

lemma shiftBox_grid:
  assumes g: "grid_ok s" and w: "0 \<le> Width s" and ys: "\<forall>y \<in> set ys. 0 \<le> y \<and> y < Height s \<and> 0 \<le> g y \<and> g y < Height s"
    and y0: "0 \<le> y0" "y0 < Height s" and lr: "0 \<le> l" "l \<le> r" "r < Width s"
  shows "ensures (shiftBox g ys y0 l r full s) (grid_only s)"
proof (cases full)
  case True
  have "ensures (foldM (moveRow g) ys s) (grid_only s)"
    by (rule grid_foldM [OF g], rule moveRow_grid)
       (use ys in \<open>auto dest: grid_only_ok simp: grid_only_fields\<close>)
  moreover have "ensures (freshRow y0 t) (grid_only t)" if "grid_only s t" for t
    by (rule freshRow_grid) (use that w y0 in \<open>auto dest: grid_only_ok simp: grid_only_fields\<close>)
  ultimately show ?thesis using True by (simp add: shiftBox_def) (erule ensures_mono,
      blast intro: ensures_mono grid_only_trans)
next
  case False
  have "ensures (foldM (\<lambda>y. copyCols y (g y) l r) ys s) (grid_only s)"
    by (rule grid_foldM [OF g], rule copyCols_grid)
       (use ys lr in \<open>auto dest: grid_only_ok simp: grid_only_fields\<close>)
  moreover have "ensures (blankCols y0 l r t) (grid_only t)" if "grid_only s t" for t
    by (rule blankCols_grid) (use that in \<open>auto dest: grid_only_ok\<close>)
  ultimately show ?thesis using False by (simp add: shiftBox_def) (erule ensures_mono,
      blast intro: ensures_mono grid_only_trans)
qed

lemma scrollDownOnce_grid:
  "grid_ok s \<Longrightarrow> box_ok s \<Longrightarrow> ensures (scrollDownOnce s) (grid_only s)"
  unfolding scrollDownOnce_def Let_def
  by (rule shiftBox_grid) (use bounds_range [of s] in \<open>auto simp: box_ok_def\<close>)

section \<open>They keep the screen well formed\<close>

lemma wf_grid: "wf s \<Longrightarrow> grid_ok s" and wf_box: "wf s \<Longrightarrow> box_ok s"
  and wf_curX: "wf s \<Longrightarrow> 0 \<le> curX s" "wf s \<Longrightarrow> curX s < Width s"
  and wf_curY: "wf s \<Longrightarrow> 0 \<le> curY s" "wf s \<Longrightarrow> curY s < Height s"
  and wf_scroll: "wf s \<Longrightarrow> 0 \<le> scrollTop s" "wf s \<Longrightarrow> scrollTop s \<le> scrollBottom s"
    "wf s \<Longrightarrow> scrollBottom s < Height s"
  and wf_width: "wf s \<Longrightarrow> 1 \<le> Width s" "wf s \<Longrightarrow> 1 \<le> Height s"
  by (simp_all add: wf_def box_ok_def cursor_ok_def)

lemma line_shift_safe:
  assumes wf: "wf s" and p: "prepareLineShift n s = Some (left, right, k, full, t)"
    and ys: "\<And>u. grid_only t u \<Longrightarrow> \<forall>y \<in> set (ys u). 0 \<le> y \<and> y < Height s \<and> 0 \<le> g y \<and> g y < Height s"
    and y0: "\<And>u. grid_only t u \<Longrightarrow> 0 \<le> y0 u \<and> y0 u < Height s"
  shows "safe (for_range k (\<lambda>u. shiftBox g (ys u) (y0 u) left right full u) t) s"
proof -
  note pf = prepareLineShift_Some [OF p]
  note b = bounds_range [OF wf_box [OF wf]]
  have t: "scr.ok s t" "grid_ok t" "Width t = Width s" "Height t = Height s"
    using wf b pf(1-3) wf_grid [OF wf] by (auto simp: ok_defs)
  have "ensures (for_range k (\<lambda>u. shiftBox g (ys u) (y0 u) left right full u) t) (grid_only t)"
  proof (rule grid_for_range [OF t(2)])
    fix u assume u: "grid_only t u"
    show "ensures (shiftBox g (ys u) (y0 u) left right full u) (grid_only u)"
      by (rule shiftBox_grid)
         (use u ys [OF u] y0 [OF u] t b pf(2,3) wf_width [OF wf] grid_only_ok [OF u] grid_only_fields [OF u]
          in auto)
  qed
  from safe_grid [OF scr.ok_inv [OF t(1)] this] show ?thesis by (rule scr.after [OF t(1)])
qed

lemma insertLines_safe: "wf s \<Longrightarrow> safe (insertLines n s) s"
proof (cases "prepareLineShift n s")
  case None
  then show "wf s \<Longrightarrow> ?thesis" by (simp add: insertLines_def scr.ok_refl)
next
  case (Some p)
  assume wf: "wf s"
  obtain left right k full t where p: "p = (left, right, k, full, t)" by (cases p)
  note pf = prepareLineShift_Some [OF Some [unfolded p]]
  show ?thesis unfolding insertLines_def Some p option.case prod.case
    by (rule line_shift_safe [OF wf Some [unfolded p]])
       (use wf_curY [OF wf] wf_scroll [OF wf] pf(1) in \<open>auto simp: grid_only_fields\<close>)
qed

lemma deleteLines_safe: "wf s \<Longrightarrow> safe (deleteLines n s) s"
proof (cases "prepareLineShift n s")
  case None
  then show "wf s \<Longrightarrow> ?thesis" by (simp add: deleteLines_def scr.ok_refl)
next
  case (Some p)
  assume wf: "wf s"
  obtain left right k full t where p: "p = (left, right, k, full, t)" by (cases p)
  note pf = prepareLineShift_Some [OF Some [unfolded p]]
  show ?thesis unfolding deleteLines_def Some p option.case prod.case
    by (rule line_shift_safe [OF wf Some [unfolded p]])
       (use wf_curY [OF wf] wf_scroll [OF wf] pf(1) in \<open>auto simp: grid_only_fields\<close>)
qed

lemma grid_ops_safe:
  assumes "wf s"
  shows "safe (eraseRegionMode y1 x1 y2 x2 m s) s" "safe (eraseRegion y1 x1 y2 x2 s) s"
    "safe (insertColumns n s) s" "safe (deleteColumns n s) s"
    "safe (scrollColumnsRight s) s" "safe (scrollColumnsLeft s) s" "safe (scrollDownOnce s) s"
    "0 \<le> n \<Longrightarrow> safe (insertChars n s) s" "0 \<le> n \<Longrightarrow> safe (deleteChars n s) s"
    "0 \<le> n \<Longrightarrow> safe (shiftLeft n s) s" "0 \<le> n \<Longrightarrow> safe (shiftRight n s) s"
  unfolding eraseRegion_def
  by (rule safe_grid [OF assms], use assms in
      \<open>simp add: eraseRegionMode_grid insertColumns_grid deleteColumns_grid scrollColumns_grid
        scrollDownOnce_grid insertChars_grid deleteChars_grid shift_grid wf_grid wf_box wf_curX\<close>)+

end
