(* ===== verification/Print.thy ===== *)
theory Print
  imports Grid
begin

text \<open>
  Printing and scrolling (\<^verbatim>\<open>put\<close> and its helpers in \<^verbatim>\<open>src/vt/screen.go\<close>, the line motions of
  \<^verbatim>\<open>src/vt/csi.go\<close>): a full-screen scroll drains the top row to the scrollback, with the tail of
  a wrap chain kept for the autolinker.
\<close>

section \<open>Scrolling\<close>

definition dropDrained :: "screen \<Rightarrow> screen" where
  "dropDrained s = s\<lparr>Drained := [], drainedWrapped := []\<rparr>"

definition clearWrapState :: "screen \<Rightarrow> screen" where
  "clearWrapState s = s\<lparr>wrapped := replicate (length (wrapped s)) False, drainTail := []\<rparr>"

definition drainTopRow :: "screen \<Rightarrow> screen option" where
  "drainTopRow s = (let continuesBelow = wrappedAt s 1 in do {
     row \<leftarrow> get_at (Cells s) 0;
     runs \<leftarrow> stampAutolinks 0 (cellsToRuns s row continuesBelow) s;
     s \<leftarrow> Some (s\<lparr>Drained := Drained s @ [runs],
                  drainedWrapped := drainedWrapped s @ [wrappedAt s 0]\<rparr>);
     if InAltScreen s then Some s
     else if continuesBelow then
       (let tail = drainTail s @ [rowMatchText row] in
        Some (s\<lparr>drainTail := (if length tail > maxAutolinkRows - 1
          then drop (length tail - (maxAutolinkRows - 1)) tail else tail)\<rparr>))
     else Some (s\<lparr>drainTail := []\<rparr>) })"

definition scrollUpOnce :: "screen \<Rightarrow> screen option" where
  "scrollUpOnce s = (let left = leftBound s; right = rightBound s;
       fullWidth = (left = 0 \<and> right = Width s - 1) in do {
     s \<leftarrow> (if fullWidth \<and> scrollTop s = 0 \<and> scrollBottom s = Height s - 1
           then drainTopRow s else Some s);
     shiftBox (\<lambda>y. y + 1) [scrollTop s..scrollBottom s - 1] (scrollBottom s) left right fullWidth s })"

definition lineDown :: "screen \<Rightarrow> screen option" where
  "lineDown s = (if curY s = scrollBottom s then
       (if withinHMargins (curX s) s then scrollUpOnce s else Some s)
     else if curY s < Height s - 1 then Some (s\<lparr>curY := curY s + 1\<rparr>) else Some s)"

definition scrollUp :: "int \<Rightarrow> screen \<Rightarrow> screen option" where
  "scrollUp n s = for_range (min n (scrollBottom s - scrollTop s + 1)) scrollUpOnce s"

definition scrollDown :: "int \<Rightarrow> screen \<Rightarrow> screen option" where
  "scrollDown n s = for_range (min n (scrollBottom s - scrollTop s + 1)) scrollDownOnce s"

definition scrollIfNeeded :: "screen \<Rightarrow> screen option" where
  "scrollIfNeeded s = do {
     s \<leftarrow> Some (if curX s \<ge> Width s then s\<lparr>curX := 0, curY := curY s + 1\<rparr> else s);
     s \<leftarrow> (if curY s > scrollBottom s then do {
             s \<leftarrow> scrollUpOnce s; Some (s\<lparr>curY := scrollBottom s\<rparr>) } else Some s);
     if curY s \<ge> Height s then do {
       s \<leftarrow> drainTopRow s;
       C \<leftarrow> set_at (go_copy (Cells s) (tl (Cells s))) (Height s - 1) (makeRow (Width s) (BG (style s)));
       W \<leftarrow> set_at (go_copy (wrapped s) (tl (wrapped s))) (Height s - 1) False;
       Some (s\<lparr>Cells := C, wrapped := W, curY := Height s - 1\<rparr>) }
     else Some s }"

definition markWrapContinuation :: "screen \<Rightarrow> screen" where
  "markWrapContinuation s = (if leftBound s \<noteq> 0 \<or> rightBound s \<noteq> Width s - 1 then s
     else if curY s \<ge> 0 \<and> curY s < int (length (wrapped s))
     then s\<lparr>wrapped := (wrapped s)[nat (curY s) := True]\<rparr> else s)"

section \<open>Printing a rune\<close>

text \<open>The wrap both autowrap sites of \<^verbatim>\<open>put\<close> and the TAB of mode 41 make.\<close>

definition wrapLine :: "screen \<Rightarrow> screen option" where
  "wrapLine s = scrollIfNeeded (s\<lparr>curX := wrapColumn s, curY := curY s + 1\<rparr>)"

definition penCell :: "rune \<Rightarrow> screen \<Rightarrow> cell" where
  "penCell r s = \<lparr>Hyperlink = hyperlink s, Ch = r, Style = style s, Protected = curProtected s,
     IsoProtected = curIsoProtected s\<rparr>"

definition setCell :: "int \<Rightarrow> int \<Rightarrow> cell \<Rightarrow> screen \<Rightarrow> screen option" where
  "setCell y x c s = onRow y (\<lambda>row. set_at row x c) s"

definition advance :: "screen \<Rightarrow> screen" where
  "advance s = (let edge = wrapEdge s in
     if curX s \<ge> Width s then s\<lparr>curX := Width s - 1, pendingWrap := AutoWrap s\<rparr>
     else if curX s \<ge> edge then s\<lparr>curX := edge, pendingWrap := AutoWrap s\<rparr>
     else s\<lparr>curX := curX s + 1\<rparr>)"

text \<open>\<^verbatim>\<open>put\<close> from the write of the cell on, then from its start.\<close>

definition put_glyph :: "rune \<Rightarrow> int \<Rightarrow> screen \<Rightarrow> screen option" where
  "put_glyph r w s = do {
       s \<leftarrow> (if curY s < Height s \<and> curX s < Width s
             then setCell (curY s) (curX s) (penCell r s) s else Some s);
       s \<leftarrow> Some (s\<lparr>lastPrintedRune := r, lastPrintedStyle := style s\<rparr>);
       s \<leftarrow> (if w = 2 then do {
               s \<leftarrow> Some (s\<lparr>curX := curX s + 1\<rparr>);
               if curX s < Width s \<and> curY s < Height s
               then setCell (curY s) (curX s) (penCell 0 s) s else Some s }
             else Some s);
       Some (advance s) }"

definition put :: "rune \<Rightarrow> screen \<Rightarrow> screen option" where
  "put r s = do {
     w \<leftarrow> runeWidth (unicodeMark (env s)) r;
     if w = 0 then Some s
     else do {
       s \<leftarrow> (if pendingWrap s then do {
               s \<leftarrow> wrapLine (s\<lparr>pendingWrap := False\<rparr>);
               Some (markWrapContinuation s) }
             else Some s);
       s \<leftarrow> (if w = 2 \<and> curX s \<ge> wrapEdge s \<and> AutoWrap s then do {
               s \<leftarrow> setCell (curY s) (curX s) (plainCell 0x20 (style s)) s;
               s \<leftarrow> wrapLine s;
               Some (markWrapContinuation s) }
             else Some s);
       s \<leftarrow> (if InsertMode s then insertChars w s else Some s);
       put_glyph r w s } }"

definition repeatLastChar :: "int \<Rightarrow> screen \<Rightarrow> screen option" where
  "repeatLastChar n s = (if lastPrintedRune s = 0 then Some s
     else let saved = style s in do {
       s \<leftarrow> for_range n (\<lambda>s. put (lastPrintedRune s) s) (s\<lparr>style := lastPrintedStyle s\<rparr>);
       Some (s\<lparr>style := saved\<rparr>) })"

section \<open>Safety\<close>

definition scroll_only :: "screen \<Rightarrow> screen \<Rightarrow> bool" where
  "scroll_only s t \<longleftrightarrow> t = s\<lparr>Cells := Cells t, wrapped := wrapped t, Drained := Drained t,
       drainedWrapped := drainedWrapped t, drainTail := drainTail t\<rparr>
     \<and> grid_ok t \<and> length (drainTail t) < maxAutolinkRows
     \<and> length (Drained t) = length (drainedWrapped t)"

definition tail_ok :: "screen \<Rightarrow> bool" where
  "tail_ok s \<longleftrightarrow> length (drainTail s) < maxAutolinkRows \<and> length (Drained s) = length (drainedWrapped s)"

lemma wf_tail: "wf s \<Longrightarrow> tail_ok s"
  by (simp add: wf_def limits_ok_def tail_ok_def)

lemma scroll_only_fields:
  assumes "scroll_only s t"
  shows "Height t = Height s" "Width t = Width s" "scrollTop t = scrollTop s"
    "scrollBottom t = scrollBottom s" "curX t = curX s" "curY t = curY s" "style t = style s"
    "leftBound t = leftBound s" "rightBound t = rightBound s" "box_ok t = box_ok s"
    "InAltScreen t = InAltScreen s" "grid_ok t" "tail_ok t"
proof -
  obtain C W D V T where t: "t = s\<lparr>Cells := C, wrapped := W, Drained := D, drainedWrapped := V,
      drainTail := T\<rparr>"
    using assms unfolding scroll_only_def by blast
  show "Height t = Height s" "Width t = Width s" "scrollTop t = scrollTop s"
    "scrollBottom t = scrollBottom s" "curX t = curX s" "curY t = curY s" "style t = style s"
    "leftBound t = leftBound s" "rightBound t = rightBound s" "box_ok t = box_ok s"
    "InAltScreen t = InAltScreen s"
    unfolding t by (simp_all add: leftBound_def rightBound_def box_ok_def)
  show "grid_ok t" "tail_ok t" using assms by (simp_all add: scroll_only_def tail_ok_def)
qed

lemma scroll_only_trans: "scroll_only s t \<Longrightarrow> scroll_only t u \<Longrightarrow> scroll_only s u"
  unfolding scroll_only_def by (elim conjE, rule conjI, erule ssubst, erule ssubst) simp_all

lemma grid_scroll_only:
  assumes "tail_ok s" "grid_only s t" shows "scroll_only s t"
proof -
  obtain C W where "t = s\<lparr>Cells := C, wrapped := W\<rparr>" "grid_ok t"
    using assms(2) unfolding grid_only_def by blast
  with assms(1) show ?thesis by (simp add: scroll_only_def tail_ok_def)
qed

lemma wf_scroll_only:
  assumes "wf s" "scroll_only s t" shows "scr.ok s t"
proof -
  obtain C W D V T where t: "t = s\<lparr>Cells := C, wrapped := W, Drained := D, drainedWrapped := V,
      drainTail := T\<rparr>" and g: "grid_ok t" "length (drainTail t) < maxAutolinkRows"
      "length (Drained t) = length (drainedWrapped t)"
    using assms(2) unfolding scroll_only_def by blast
  show ?thesis using assms(1) g unfolding t by (simp add: ok_defs)
qed

lemma trim_length: "length (trimTrailingBlanks row) \<le> length row"
  using length_dropWhile_le [of trimmableBlank "rev row"] by (simp add: trimTrailingBlanks_def)

lemma drainTopRow_only:
  assumes "grid_ok s" "box_ok s" "tail_ok s"
  shows "ensures (drainTopRow s) (scroll_only s)"
proof -
  have h: "Height s = int (length (Cells s))" "0 < Height s" "Width s \<le> 1000"
    using assms by (simp_all add: grid_ok_def rect_def box_ok_def maxDimension_def)
  obtain row where row: "get_at (Cells s) 0 = Some row" "int (length row) = Width s"
    using h grid_row_length [OF assms(1), of 0] by (simp add: get_at_def)
  have "int (length (runsText (cellsToRuns s row c))) \<le> 2 ^ 30" for c
  proof -
    have "length (runsText (cellsToRuns s row c)) \<le> length row"
      using trim_length [of row] by (simp add: cellsToRuns_text)
    then have "int (length (runsText (cellsToRuns s row c))) \<le> 1000" using row(2) h(3) by linarith
    then show ?thesis by simp
  qed
  from ensures_mono [OF stampAutolinks_text [OF h(1) _ h(2) this]]
  have "ensures (stampAutolinks 0 (cellsToRuns s row (wrappedAt s 1)) s) (\<lambda>_. True)" by simp
  then obtain runs where "stampAutolinks 0 (cellsToRuns s row (wrappedAt s 1)) s = Some runs"
    by (auto simp: ensures_iff)
  then show ?thesis using assms row
    by (simp add: drainTopRow_def Let_def scroll_only_def tail_ok_def grid_ok_def maxAutolinkRows_def)
qed

lemma scrollUpOnce_only:
  assumes "grid_ok s" "box_ok s" "tail_ok s"
  shows "ensures (scrollUpOnce s) (scroll_only s)"
proof -
  let ?full = "leftBound s = 0 \<and> rightBound s = Width s - 1"
  have refl: "scroll_only s s" using assms by (simp add: scroll_only_def tail_ok_def)
  have d: "ensures (if ?full \<and> scrollTop s = 0 \<and> scrollBottom s = Height s - 1
      then drainTopRow s else Some s) (scroll_only s)"
    using drainTopRow_only [OF assms] refl by simp
  have sh: "ensures (shiftBox (\<lambda>y. y + 1) [scrollTop t..scrollBottom t - 1] (scrollBottom t)
      (leftBound s) (rightBound s) ?full t) (scroll_only s)" if t: "scroll_only s t" for t
  proof -
    note f = scroll_only_fields [OF t]
    have "ensures (shiftBox (\<lambda>y. y + 1) [scrollTop t..scrollBottom t - 1] (scrollBottom t)
      (leftBound s) (rightBound s) ?full t) (grid_only t)"
      by (rule shiftBox_grid) (use f assms bounds_range [OF assms(2)] in \<open>auto simp: box_ok_def\<close>)
    then show ?thesis
      by (rule ensures_mono) (blast intro: scroll_only_trans [OF t] grid_scroll_only [OF f(13)])
  qed
  show ?thesis unfolding scrollUpOnce_def Let_def ensures_bind
    by (rule ensures_mono [OF d]) (rule sh)
qed

lemma scrollUpOnce_safe: "wf s \<Longrightarrow> safe (scrollUpOnce s) s"
  by (rule ensures_mono [OF scrollUpOnce_only]) (auto simp: wf_grid wf_box wf_tail wf_scroll_only)

lemma lineDown_safe:
  assumes "wf s" shows "safe (lineDown s) s"
proof -
  have "scr.ok s (s\<lparr>curY := curY s + 1\<rparr>)" if "curY s < Height s - 1"
    using assms that by (auto simp: ok_defs)
  with scrollUpOnce_safe [OF assms] scr.ok_refl [OF assms] show ?thesis by (simp add: lineDown_def)
qed

lemma scrollUp_safe: "wf s \<Longrightarrow> safe (scrollUp n s) s"
  and scrollDown_safe: "wf s \<Longrightarrow> safe (scrollDown n s) s"
  unfolding scrollUp_def scrollDown_def
  by (rule scr.ok_for_range, assumption, simp add: scrollUpOnce_safe grid_ops_safe)+

text \<open>
  A wrap moves the cursor onto the next row, one past the screen at most, before it settles: the
  screen is well formed once the cursor is back in range.
\<close>

definition settles :: "screen \<Rightarrow> bool" where
  "settles s \<longleftrightarrow> wf (s\<lparr>curY := 0\<rparr>) \<and> 0 \<le> curY s"

lemma settles_simps:
  assumes "settles s"
  shows "grid_ok s" "box_ok s" "tail_ok s" "curX s < Width s" "0 \<le> scrollTop s"
    "scrollTop s \<le> scrollBottom s" "scrollBottom s < Height s"
  using assms by (simp_all add: settles_def wf_defs tail_ok_def)

lemma settles_wf: "settles s \<Longrightarrow> 0 \<le> y \<Longrightarrow> y < Height s \<Longrightarrow> scr.ok s (s\<lparr>curY := y\<rparr>)"
  by (simp add: settles_def ok_defs)

lemma settles_scroll: "settles s \<Longrightarrow> scroll_only s t \<Longrightarrow> settles t \<and> same_parser s t"
proof -
  assume s: "settles s" and st: "scroll_only s t"
  obtain C W D V T where t: "t = s\<lparr>Cells := C, wrapped := W, Drained := D, drainedWrapped := V,
      drainTail := T\<rparr>" and g: "grid_ok t" "length (drainTail t) < maxAutolinkRows"
      "length (Drained t) = length (drainedWrapped t)"
    using st unfolding scroll_only_def by blast
  show ?thesis using s g unfolding t by (simp add: settles_def wf_defs same_parser_def)
qed

lemma scrollIfNeeded_safe:
  assumes s: "settles s"
  shows "safe (scrollIfNeeded s) s"
proof -
  note f = settles_simps [OF s]
  show ?thesis
  proof (cases "curY s > scrollBottom s")
    case True
    have "ensures (scrollUpOnce s) (\<lambda>t. scr.ok s (t\<lparr>curY := scrollBottom t\<rparr>))"
    proof (rule ensures_mono [OF scrollUpOnce_only [OF f(1-3)]])
      fix t assume t: "scroll_only s t"
      have st: "settles t" "same_parser s t" using settles_scroll [OF s t] by simp_all
      have "scr.ok t (t\<lparr>curY := scrollBottom t\<rparr>)"
        by (rule settles_wf [OF st(1)]) (use scroll_only_fields [OF t] f in auto)
      with st(2) show "scr.ok s (t\<lparr>curY := scrollBottom t\<rparr>)"
        by (auto simp: scr.ok_def intro: scr.keeps_trans)
    qed
    then have "ensures (scrollUpOnce s) (\<lambda>t. scr.ok s (t\<lparr>curY := scrollBottom t\<rparr>)
        \<and> scrollBottom t < Height t)"
      using scrollUpOnce_only [OF f(1-3)] f(7)
      by (auto simp: ensures_iff scroll_only_fields(1,4))
    with True f(4) show ?thesis
      by (simp add: scrollIfNeeded_def) (erule ensures_mono, simp)
  next
    case False
    with f have "curY s < Height s" by simp
    moreover have "scr.ok s (s\<lparr>curY := curY s\<rparr>)"
      using s False f by (intro settles_wf) (auto simp: settles_def)
    ultimately show ?thesis using False f(4) by (simp add: scrollIfNeeded_def)
  qed
qed

lemma wrapLine_safe:
  assumes "wf s" shows "safe (wrapLine s) s"
proof -
  let ?t = "s\<lparr>curX := wrapColumn s, curY := curY s + 1\<rparr>"
  have "settles ?t" "same_parser s ?t"
    using assms bounds_range [OF wf_box [OF assms]]
    by (auto simp: settles_def wf_defs same_parser_def)
  from scrollIfNeeded_safe [OF this(1)] this(2) show ?thesis
    unfolding wrapLine_def
    by (auto elim!: ensures_mono simp: scr.ok_def intro: scr.keeps_trans)
qed

lemma markWrap_ok: "wf s \<Longrightarrow> scr.ok s (markWrapContinuation s)"
  by (simp add: markWrapContinuation_def ok_defs)

lemma setCell_grid: "grid_ok s \<Longrightarrow> 0 \<le> y \<Longrightarrow> y < Height s \<Longrightarrow> 0 \<le> x \<Longrightarrow> x < Width s \<Longrightarrow>
    ensures (setCell y x c s) (grid_only s)"
  unfolding setCell_def by (rule onRow_grid) simp_all

lemma setCell_safe: "wf s \<Longrightarrow> 0 \<le> y \<Longrightarrow> y < Height s \<Longrightarrow> 0 \<le> x \<Longrightarrow> x < Width s \<Longrightarrow>
    safe (setCell y x c s) s"
  by (rule safe_grid) (simp_all add: setCell_grid wf_grid)

lemma advance_ok:
  assumes "wf (s\<lparr>curX := 0\<rparr>)" "0 \<le> curX s"
  shows "wf (advance s) \<and> same_parser s (advance s)"
proof -
  have b: "box_ok s" using assms by (simp add: wf_def box_ok_def)
  note r = bounds_range [OF b]
  have w: "1 \<le> Width s" using b by (simp add: box_ok_def)
  define x where "x = (if curX s \<ge> Width s then Width s - 1 else if curX s \<ge> wrapEdge s
    then wrapEdge s else curX s + 1)"
  define p where "p = (if curX s \<ge> Width s \<or> curX s \<ge> wrapEdge s then AutoWrap s else pendingWrap s)"
  have "advance s = s\<lparr>curX := x, pendingWrap := p\<rparr>"
    by (simp add: advance_def x_def p_def Let_def)
  moreover have "0 \<le> x" "x < Width s" using w r(6,7) assms(2) by (auto simp: x_def)
  ultimately have e: "advance s = s\<lparr>curX := x, pendingWrap := p\<rparr>" "0 \<le> x" "x < Width s" by simp_all
  show ?thesis using assms e(2,3) unfolding e(1) by (simp add: wf_defs same_parser_def)
qed

lemma put_glyph_safe:
  assumes "wf s"
  shows "safe (put_glyph r w s) s"
proof -
  have c: "curY s < Height s \<and> curX s < Width s" using assms by (simp add: wf_curX wf_curY)
  have "safe (setCell (curY s) (curX s) (penCell r s) s) s"
    by (rule setCell_safe) (use assms in \<open>simp_all add: wf_curX wf_curY\<close>)
  then obtain t where t: "setCell (curY s) (curX s) (penCell r s) s = Some t" "wf t" "same_parser s t"
    by (auto simp: ensures_iff scr.ok_def)
  define u where "u = t\<lparr>lastPrintedRune := r, lastPrintedStyle := style t\<rparr>"
  have u: "wf u" "same_parser s u" using t(2,3) by (simp_all add: u_def wf_defs same_parser_def)
  show ?thesis
  proof (cases "w = 2")
    case False
    have "wf (advance u) \<and> same_parser u (advance u)"
      by (rule advance_ok) (use u(1) in \<open>simp_all add: wf_defs\<close>)
    with False c t(1) u show ?thesis
      by (auto simp: put_glyph_def u_def scr.ok_def intro: scr.keeps_trans)
  next
    case True
    define v where "v = u\<lparr>curX := curX u + 1\<rparr>"
    have v: "wf (v\<lparr>curX := 0\<rparr>)" "0 \<le> curX v" "same_parser s v" "grid_ok v"
      using u by (simp_all add: v_def wf_defs same_parser_def)
    have "ensures (if curX v < Width v \<and> curY v < Height v
        then setCell (curY v) (curX v) (penCell 0 v) v else Some v) (grid_only v)"
    proof (cases "curX v < Width v \<and> curY v < Height v")
      case True
      with v have "0 \<le> curY v" by (simp add: wf_defs)
      with True v setCell_grid show ?thesis by simp
    next
      case False
      then show ?thesis by (simp only: if_False ensures_Some grid_only_refl [OF v(4)])
    qed
    then obtain x where x: "(if curX v < Width v \<and> curY v < Height v
        then setCell (curY v) (curX v) (penCell 0 v) v else Some v) = Some x" "grid_only v x"
      by (auto simp only: ensures_iff)
    obtain C W where xe: "x = v\<lparr>Cells := C, wrapped := W\<rparr>" and g: "grid_ok x"
      using x(2) unfolding grid_only_def by blast
    have "wf (advance x) \<and> same_parser x (advance x)"
      by (rule advance_ok) (use v g in \<open>simp_all add: xe wf_defs\<close>)
    moreover have "same_parser s x" using v(3) by (simp add: xe same_parser_def)
    ultimately have "wf (advance x) \<and> same_parser s (advance x)" by (auto intro: scr.keeps_trans)
    moreover have "put_glyph r w s = Some (advance x)"
      using True c t(1) x(1) by (simp add: put_glyph_def v_def u_def cong: if_cong)
    ultimately show ?thesis by (simp add: scr.ok_def)
  qed
qed

lemma put_safe:
  assumes "wf s"
  shows "safe (put r s) s"
proof -
  obtain w where w: "w = widthOf (unicodeMark (env s)) r" "w = 0 \<or> w = 1 \<or> w = 2"
    using widthOf_cases by metis
  show ?thesis
    unfolding put_def runeWidth_eq w(1) [symmetric] bind.bind_lunit
  proof (rule scr.ok_if)
    show "safe (Some s) s" using assms by (simp add: scr.ok_refl)
    assume "w \<noteq> 0"
    show "safe ((if pendingWrap s then do {
               s \<leftarrow> wrapLine (s\<lparr>pendingWrap := False\<rparr>);
               Some (markWrapContinuation s) }
             else Some s) \<bind> (\<lambda>s. (if w = 2 \<and> curX s \<ge> wrapEdge s \<and> AutoWrap s then do {
               s \<leftarrow> setCell (curY s) (curX s) (plainCell 0x20 (style s)) s;
               s \<leftarrow> wrapLine s;
               Some (markWrapContinuation s) }
             else Some s) \<bind> (\<lambda>s. (if InsertMode s then insertChars w s else Some s) \<bind> put_glyph r w))) s"
    proof (intro scr.seq scr.ok_if)
      have a: "scr.ok s (s\<lparr>pendingWrap := False\<rparr>)" using assms by (simp add: ok_defs)
      show "safe (wrapLine (s\<lparr>pendingWrap := False\<rparr>)) s"
        by (rule scr.after [OF a]) (rule wrapLine_safe [OF scr.ok_inv [OF a]])
    qed (use assms w in \<open>auto dest!: scr.ok_inv intro: scr.ok_refl markWrap_ok wrapLine_safe setCell_safe
        grid_ops_safe put_glyph_safe simp: wf_curX wf_curY\<close>)
  qed
qed

lemma repeatLastChar_safe:
  assumes "wf s" shows "safe (repeatLastChar n s) s"
proof (cases "lastPrintedRune s = 0")
  case True
  with assms show ?thesis by (simp add: repeatLastChar_def scr.ok_refl)
next
  case False
  have a: "scr.ok s (s\<lparr>style := lastPrintedStyle s\<rparr>)" using assms by (simp add: ok_defs)
  have r: "safe (for_range n (\<lambda>s. put (lastPrintedRune s) s) (s\<lparr>style := lastPrintedStyle s\<rparr>)) s"
    by (rule scr.after [OF a], rule scr.ok_for_range [OF scr.ok_inv [OF a]], rule put_safe)
  have e: "scr.ok t (t\<lparr>style := c\<rparr>)" if "scr.ok s t" for t c
    using scr.ok_inv [OF that] by (simp add: ok_defs)
  show ?thesis unfolding repeatLastChar_def Let_def if_not_P [OF False]
    by (rule scr.seq [OF r]) (simp add: e)
qed

end
