(* ===== verification/Cursor.thy ===== *)
theory Cursor
  imports Print
begin

text \<open>
  Cursor motion, margins, tab stops and the saved cursor (\<^verbatim>\<open>src/vt/csi.go\<close>,
  \<^verbatim>\<open>src/vt/tabstops.go\<close>): every motion lands inside the screen, and the motions stop where the
  margins say.
\<close>

section \<open>Motion\<close>

definition clampCursor :: "screen \<Rightarrow> screen" where
  "clampCursor s = s\<lparr>curX := min (max (curX s) 0) (Width s - 1),
     curY := min (max (curY s) 0) (Height s - 1)\<rparr>"

definition cursorUp :: "int \<Rightarrow> screen \<Rightarrow> screen" where
  "cursorUp n s = (let low = (if curY s \<ge> scrollTop s then scrollTop s else 0) in
     clampCursor (s\<lparr>curY := max (curY s - n) low\<rparr>))"

definition cursorDown :: "int \<Rightarrow> screen \<Rightarrow> screen" where
  "cursorDown n s = (let high = (if curY s \<le> scrollBottom s then scrollBottom s else Height s - 1) in
     clampCursor (s\<lparr>curY := min (curY s + n) high\<rparr>))"

definition originRow :: "int \<Rightarrow> screen \<Rightarrow> int" where
  "originRow y0 s = (let y = max y0 0 in
     if OriginMode s then min (y + scrollTop s) (scrollBottom s) else min y (Height s - 1))"

definition originCol :: "int \<Rightarrow> screen \<Rightarrow> int" where
  "originCol x0 s = (let x = max x0 0 in
     if OriginMode s then min (x + leftBound s) (rightBound s) else min x (Width s - 1))"

definition cursorPosition :: "int \<Rightarrow> int \<Rightarrow> screen \<Rightarrow> screen" where
  "cursorPosition y x s0 = (let s = s0\<lparr>curY := originRow y s0\<rparr> in s\<lparr>curX := originCol x s\<rparr>)"

definition cursorRight :: "int \<Rightarrow> screen \<Rightarrow> screen" where
  "cursorRight n s = (let high = (if curX s \<le> rightBound s then rightBound s else Width s - 1) in
     clampCursor (s\<lparr>curX := min (curX s + n) high\<rparr>))"

definition backspace :: "screen \<Rightarrow> screen" where
  "backspace s0 = (let
     revWrap = (ReverseWrap s0 \<and> AutoWrap s0);
     left = leftBound s0;
     wasPending = pendingWrap s0;
     s = s0\<lparr>pendingWrap := False\<rparr>
   in if wasPending \<and> revWrap then s
      else if curX s > left then s\<lparr>curX := curX s - 1\<rparr>
      else if revWrap \<and> curY s > scrollTop s then s\<lparr>curY := curY s - 1, curX := rightBound s\<rparr>
      else if revWrap \<and> curY s \<le> scrollTop s then s\<lparr>curY := scrollBottom s, curX := rightBound s\<rparr>
      else if curX s > 0 \<and> curX s < left then s\<lparr>curX := curX s - 1\<rparr>
      else s)"

definition cursorLeft :: "int \<Rightarrow> screen \<Rightarrow> screen" where
  "cursorLeft n0 s = (let n = (if n0 < 1 then 1 else n0) in
     if ReverseWrap s \<and> AutoWrap s then (backspace ^^ nat n) s
     else let low = (if curX s \<ge> leftBound s then leftBound s else 0) in
       clampCursor (s\<lparr>curX := max (curX s - n) low\<rparr>))"

definition carriageReturn :: "screen \<Rightarrow> screen" where
  "carriageReturn s = (if curX s \<ge> leftBound s then s\<lparr>curX := leftBound s\<rparr> else s\<lparr>curX := 0\<rparr>)"

definition decBackIndex :: "screen \<Rightarrow> screen option" where
  "decBackIndex s0 = (let s = s0\<lparr>pendingWrap := False\<rparr>; left = leftBound s in
     if curX s = left then scrollColumnsRight s
     else if curX s > 0 then Some (s\<lparr>curX := curX s - 1\<rparr>) else Some s)"

definition decForwardIndex :: "screen \<Rightarrow> screen option" where
  "decForwardIndex s0 = (let s = s0\<lparr>pendingWrap := False\<rparr>; right = rightBound s in
     if curX s = right then scrollColumnsLeft s
     else if curX s < Width s - 1 then Some (s\<lparr>curX := curX s + 1\<rparr>) else Some s)"

text \<open>\<^verbatim>\<open>RI\<close> of the ESC dispatch.\<close>

definition reverseIndex :: "screen \<Rightarrow> screen option" where
  "reverseIndex s0 = (let s = s0\<lparr>pendingWrap := False\<rparr> in
     if curY s = scrollTop s then
       (if withinHMargins (curX s) s then scrollDownOnce s else Some s)
     else if curY s > 0 then Some (s\<lparr>curY := curY s - 1\<rparr>) else Some s)"

section \<open>Margins\<close>

definition setScrollRegion :: "screen \<Rightarrow> screen option" where
  "setScrollRegion s = do {
     t \<leftarrow> paramVal 0 1 s;
     b \<leftarrow> paramVal 1 (Height s) s;
     let top = max (t - 1) 0;
     let bottom = min (b - 1) (Height s - 1);
     if top \<ge> bottom then Some s
     else (let s = s\<lparr>scrollTop := top, scrollBottom := bottom\<rparr>;
               s = (if OriginMode s then s\<lparr>curY := scrollTop s, curX := leftBound s\<rparr>
                    else s\<lparr>curY := 0, curX := 0\<rparr>)
           in Some (s\<lparr>pendingWrap := False\<rparr>)) }"

definition setLeftRightMargins :: "screen \<Rightarrow> screen option" where
  "setLeftRightMargins s = do {
     l \<leftarrow> paramVal 0 1 s;
     r \<leftarrow> paramVal 1 (Width s) s;
     let left = max (l - 1) 0;
     let right = min (r - 1) (Width s - 1);
     if left \<ge> right then Some s
     else (let s = s\<lparr>leftMargin := left, rightMargin := right\<rparr>;
               s = (if OriginMode s then s\<lparr>curY := scrollTop s, curX := leftMargin s\<rparr>
                    else s\<lparr>curY := 0, curX := 0\<rparr>)
           in Some (s\<lparr>pendingWrap := False\<rparr>)) }"

section \<open>Tab stops\<close>

definition defaultStops :: "int \<Rightarrow> bool list" where
  "defaultStops w = map (\<lambda>i. 0 < i \<and> i mod 8 = 0) [0..w - 1]"

definition initTabStops :: "screen \<Rightarrow> screen option" where
  "initTabStops s = do {
     t \<leftarrow> foldM (\<lambda>i t. if i mod 8 = 0 then set_at t i True else Some t) [8..Width s - 1]
           (replicate (nat (Width s)) False);
     Some (s\<lparr>tabStops := Some t\<rparr>) }"

definition writeTabStop :: "int \<Rightarrow> bool \<Rightarrow> screen \<Rightarrow> screen option" where
  "writeTabStop col b s = do {
     s \<leftarrow> (if tabStops s = None then initTabStops s else Some s);
     (case tabStops s of None \<Rightarrow> Some s
      | Some t \<Rightarrow> if col \<ge> 0 \<and> col < int (length t)
          then do { t' \<leftarrow> set_at t col b; Some (s\<lparr>tabStops := Some t'\<rparr>) } else Some s) }"

definition setTabStop :: "int \<Rightarrow> screen \<Rightarrow> screen option" where
  "setTabStop col s = writeTabStop col True s"

definition clearTabStop :: "int \<Rightarrow> screen \<Rightarrow> screen option" where
  "clearTabStop col s = writeTabStop col False s"

definition clearAllTabStops :: "screen \<Rightarrow> screen" where
  "clearAllTabStops s = s\<lparr>tabStops := Some (replicate (nat (Width s)) False)\<rparr>"

fun firstStop :: "int list \<Rightarrow> bool list \<Rightarrow> int \<Rightarrow> int option" where
  "firstStop [] t dflt = Some dflt"
| "firstStop (i # is) t dflt = do { b \<leftarrow> get_at t i; if b then Some i else firstStop is t dflt }"

definition nextTabStop :: "int \<Rightarrow> screen \<Rightarrow> int option" where
  "nextTabStop col s = (case tabStops s of None \<Rightarrow> Some ((col + 8) div 8 * 8)
     | Some t \<Rightarrow> firstStop [col + 1..Width s - 1] t (Width s))"

definition prevTabStop :: "int \<Rightarrow> screen \<Rightarrow> int option" where
  "prevTabStop col s = (case tabStops s of None \<Rightarrow> Some (max ((col - 1) div 8 * 8) 0)
     | Some t \<Rightarrow> firstStop (rev [0..col - 1]) t 0)"

definition tabOnce :: "screen \<Rightarrow> (screen \<times> bool) option" where
  "tabOnce s = (let right = rightBound s in do {
     next \<leftarrow> nextTabStop (curX s) s;
     if curX s \<le> right \<and> next > right then
       (if curX s = right then Some (s, False) else Some (s\<lparr>curX := right\<rparr>, True))
     else if next \<ge> Width s then
       (if curX s = Width s - 1 then Some (s, False) else Some (s\<lparr>curX := Width s - 1\<rparr>, True))
     else Some (s\<lparr>curX := next\<rparr>, True) })"

definition cursorTabForward :: "int \<Rightarrow> screen \<Rightarrow> screen option" where
  "cursorTabForward n s = loopM tabOnce (nat n) s"

definition cursorTabBackward :: "int \<Rightarrow> screen \<Rightarrow> screen option" where
  "cursorTabBackward n s = loopM (\<lambda>s. do {
       x \<leftarrow> prevTabStop (curX s) s;
       if x \<le> 0 then Some (s\<lparr>curX := 0\<rparr>, False) else Some (s\<lparr>curX := x\<rparr>, True) }) (nat n) s"

definition tabClear :: "int \<Rightarrow> screen \<Rightarrow> screen option" where
  "tabClear mode s = (if mode = 0 then clearTabStop (curX s) s
     else if mode = 3 then Some (clearAllTabStops s) else Some s)"

section \<open>The saved cursor\<close>

definition savedSlot :: "screen \<Rightarrow> saved_cursor" where
  "savedSlot s = (if InAltScreen s then altSaved s else mainSaved s)"

definition saveCursor :: "screen \<Rightarrow> screen" where
  "saveCursor s = (let c = \<lparr>sc_style = style s, sc_charsets = gsets s, sc_x = curX s, sc_y = curY s,
       sc_gl = gl s, sc_origin = OriginMode s, sc_pendingWrap = pendingWrap s,
       sc_protected = curProtected s, sc_valid = True\<rparr>
     in if InAltScreen s then s\<lparr>altSaved := c\<rparr> else s\<lparr>mainSaved := c\<rparr>)"

definition restoreCursor :: "screen \<Rightarrow> screen" where
  "restoreCursor s0 = (let slot = savedSlot s0 in
     if \<not> sc_valid slot then s0\<lparr>curY := 0, curX := 0, pendingWrap := False\<rparr>
     else let
       s = s0\<lparr>curY := sc_y slot, curX := sc_x slot, style := sc_style slot, OriginMode := sc_origin slot,
              gsets := sc_charsets slot, gl := sc_gl slot, curProtected := sc_protected slot,
              pendingWrap := sc_pendingWrap slot\<rparr>;
       s = (if curY s \<ge> Height s then s\<lparr>curY := Height s - 1\<rparr> else s)
     in (if curX s \<ge> Width s then s\<lparr>curX := Width s - 1\<rparr> else s))"

section \<open>Safety\<close>

lemma wf_move: "wf s \<Longrightarrow> 0 \<le> x \<Longrightarrow> x < Width s \<Longrightarrow> 0 \<le> y \<Longrightarrow> y < Height s \<Longrightarrow>
    scr.ok s (s\<lparr>curX := x, curY := y, pendingWrap := p\<rparr>)"
  by (simp add: ok_defs)

lemma clampCursor_ok: "wf s \<Longrightarrow> scr.ok s (clampCursor (s\<lparr>curX := x\<rparr>))"
    "wf s \<Longrightarrow> scr.ok s (clampCursor (s\<lparr>curY := y\<rparr>))"
  using wf_move [of s "min (max x 0) (Width s - 1)" "min (max (curY s) 0) (Height s - 1)" "pendingWrap s"]
    wf_move [of s "min (max (curX s) 0) (Width s - 1)" "min (max y 0) (Height s - 1)" "pendingWrap s"]
    wf_width [of s]
  by (auto simp: clampCursor_def)

lemma cursor_ops_ok:
  assumes "wf s"
  shows "scr.ok s (cursorUp n s)" "scr.ok s (cursorDown n s)" "scr.ok s (cursorRight n s)"
  using assms by (simp_all add: cursorUp_def cursorDown_def cursorRight_def Let_def clampCursor_ok)

lemma originRow_range: "wf s \<Longrightarrow> 0 \<le> originRow y s \<and> originRow y s < Height s"
  using wf_scroll [of s] wf_width [of s] by (auto simp: originRow_def Let_def)

lemma originCol_range: "wf s \<Longrightarrow> 0 \<le> originCol x s \<and> originCol x s < Width s"
  using bounds_range [OF wf_box, of s] wf_width [of s] by (auto simp: originCol_def Let_def)

lemma cursorPosition_ok:
  assumes "wf s" shows "scr.ok s (cursorPosition y x s)"
proof -
  have "originCol x (s\<lparr>curY := y'\<rparr>) = originCol x s" for y'
    by (simp add: originCol_def leftBound_def rightBound_def Let_def)
  then have "cursorPosition y x s
      = s\<lparr>curX := originCol x s, curY := originRow y s, pendingWrap := pendingWrap s\<rparr>"
    by (simp add: cursorPosition_def Let_def)
  with wf_move originRow_range originCol_range assms show ?thesis by metis
qed

lemma move_ok:
  assumes "wf s"
  shows "scr.ok s (s\<lparr>pendingWrap := p\<rparr>)"
    and "0 \<le> x \<Longrightarrow> x < Width s \<Longrightarrow> scr.ok s (s\<lparr>curX := x\<rparr>)"
    and "0 \<le> x \<Longrightarrow> x < Width s \<Longrightarrow> scr.ok s (s\<lparr>pendingWrap := p, curX := x\<rparr>)"
    and "0 \<le> x \<Longrightarrow> x < Width s \<Longrightarrow> scr.ok s (s\<lparr>curX := x, pendingWrap := p\<rparr>)"
    and "0 \<le> y \<Longrightarrow> y < Height s \<Longrightarrow> scr.ok s (s\<lparr>curY := y\<rparr>)"
    and "0 \<le> y \<Longrightarrow> y < Height s \<Longrightarrow> scr.ok s (s\<lparr>pendingWrap := p, curY := y\<rparr>)"
    and "0 \<le> y \<Longrightarrow> y < Height s \<Longrightarrow> 0 \<le> x \<Longrightarrow> x < Width s \<Longrightarrow> scr.ok s (s\<lparr>curY := y, curX := x\<rparr>)"
    and "0 \<le> y \<Longrightarrow> y < Height s \<Longrightarrow> 0 \<le> x \<Longrightarrow> x < Width s \<Longrightarrow>
      scr.ok s (s\<lparr>pendingWrap := p, curY := y, curX := x\<rparr>)"
    and "0 \<le> y \<Longrightarrow> y < Height s \<Longrightarrow> 0 \<le> x \<Longrightarrow> x < Width s \<Longrightarrow>
      scr.ok s (s\<lparr>curY := y, curX := x, pendingWrap := p\<rparr>)"
  using assms by (simp_all add: ok_defs)

lemma bound_updates [simp]:
  "leftBound (s\<lparr>curX := x\<rparr>) = leftBound s" "leftBound (s\<lparr>curY := y\<rparr>) = leftBound s"
  "leftBound (s\<lparr>pendingWrap := p\<rparr>) = leftBound s"
  "rightBound (s\<lparr>curX := x\<rparr>) = rightBound s" "rightBound (s\<lparr>curY := y\<rparr>) = rightBound s"
  "rightBound (s\<lparr>pendingWrap := p\<rparr>) = rightBound s"
  "withinHMargins z (s\<lparr>curX := x\<rparr>) = withinHMargins z s"
  "withinHMargins z (s\<lparr>curY := y\<rparr>) = withinHMargins z s"
  "withinHMargins z (s\<lparr>pendingWrap := p\<rparr>) = withinHMargins z s"
  by (simp_all add: leftBound_def rightBound_def withinHMargins_def)

lemma backspace_ok:
  assumes "wf s" shows "scr.ok s (backspace s)"
  using bounds_range [OF wf_box [OF assms]] wf_curX [OF assms] wf_curY [OF assms] wf_scroll [OF assms]
  by (simp add: backspace_def Let_def move_ok [OF assms])

lemma backspaces_ok: "wf s \<Longrightarrow> scr.ok s ((backspace ^^ n) s)"
proof (induction n)
  case 0
  then show ?case by (simp add: scr.ok_refl)
next
  case (Suc n)
  with backspace_ok [of "(backspace ^^ n) s"] show ?case
    by (auto intro: scr.ok_trans dest: scr.ok_inv)
qed

lemma cursorLeft_ok: "wf s \<Longrightarrow> scr.ok s (cursorLeft n s)"
  by (simp add: cursorLeft_def Let_def backspaces_ok clampCursor_ok)

lemma carriageReturn_ok: "wf s \<Longrightarrow> scr.ok s (carriageReturn s)"
  using bounds_range [OF wf_box, of s] wf_width [of s] by (simp add: carriageReturn_def move_ok)

lemma safe_after: "scr.ok s t \<Longrightarrow> (wf t \<Longrightarrow> safe m t) \<Longrightarrow> safe m s"
  using scr.after scr.ok_inv by blast

lemma index_safe:
  assumes "wf s"
  shows "safe (decBackIndex s) s" "safe (decForwardIndex s) s" "safe (reverseIndex s) s"
proof -
  note m = move_ok(1) [OF assms, of False]
  have "safe (scrollColumnsRight (s\<lparr>pendingWrap := False\<rparr>)) s"
    "safe (scrollColumnsLeft (s\<lparr>pendingWrap := False\<rparr>)) s"
    "safe (scrollDownOnce (s\<lparr>pendingWrap := False\<rparr>)) s"
    by (rule safe_after [OF m], rule grid_ops_safe, assumption)+
  then show "safe (decBackIndex s) s" "safe (decForwardIndex s) s" "safe (reverseIndex s) s"
    using wf_curX [OF assms] wf_curY [OF assms]
    by (simp_all add: decBackIndex_def decForwardIndex_def reverseIndex_def Let_def move_ok [OF assms])
qed

lemma paramVal_wf: "params_ok s \<Longrightarrow> 0 \<le> i \<Longrightarrow> \<exists>v. paramVal i d s = Some v"
  using paramVal_eq by blast

lemma margins_safe:
  assumes "wf s" "params_ok s"
  shows "safe (setScrollRegion s) s" "safe (setLeftRightMargins s) s"
proof -
  obtain a b c where p: "paramVal 0 1 s = Some a" "paramVal 1 (Height s) s = Some b"
    "paramVal 1 (Width s) s = Some c"
    using paramVal_wf [OF assms(2), of 0] paramVal_wf [OF assms(2), of 1] by fastforce
  note r = bounds_range [OF wf_box [OF assms(1)]]
  define top bottom where tb: "top = max (a - 1) 0" "bottom = min (b - 1) (Height s - 1)"
  show "safe (setScrollRegion s) s"
  proof (cases "top \<ge> bottom")
    case True
    then show ?thesis by (simp add: setScrollRegion_def p Let_def scr.ok_refl [OF assms(1)] flip: tb)
  next
    case False
    have rng: "0 \<le> top" "top \<le> bottom" "bottom < Height s" "top < Height s"
      using False by (auto simp: tb)
    have "scr.ok s (s\<lparr>scrollTop := top, scrollBottom := bottom, curY := y, curX := x, pendingWrap := False\<rparr>)"
      if "0 \<le> y" "y < Height s" "0 \<le> x" "x < Width s" for x y
      using assms(1) that rng by (simp add: ok_defs)
    moreover note rng(1,4)
    moreover have "leftBound (s\<lparr>scrollTop := top, scrollBottom := bottom\<rparr>) = leftBound s"
      by (simp add: leftBound_def)
    ultimately show ?thesis using False r wf_width [OF assms(1)]
      by (cases "OriginMode s") (simp_all add: setScrollRegion_def p Let_def flip: tb)
  qed
  define left right where lr: "left = max (a - 1) 0" "right = min (c - 1) (Width s - 1)"
  show "safe (setLeftRightMargins s) s"
  proof (cases "left \<ge> right")
    case True
    then show ?thesis by (simp add: setLeftRightMargins_def p Let_def scr.ok_refl [OF assms(1)] flip: lr)
  next
    case False
    have rng: "0 \<le> left" "left \<le> right" "right < Width s" "left < Width s"
      using False by (auto simp: lr)
    have "scr.ok s (s\<lparr>leftMargin := left, rightMargin := right, curY := y, curX := x, pendingWrap := False\<rparr>)"
      if "0 \<le> y" "y < Height s" "0 \<le> x" "x < Width s" for x y
      using assms(1) that rng by (simp add: ok_defs)
    moreover note rng(1,4)
    ultimately show ?thesis using False wf_scroll [OF assms(1)] wf_width [OF assms(1)]
      by (cases "OriginMode s") (simp_all add: setLeftRightMargins_def p Let_def flip: lr)
  qed
qed

section \<open>Tab stops stay aligned with the width\<close>

lemma tabs_update: "wf s \<Longrightarrow> int (length t) = Width s \<Longrightarrow> scr.ok s (s\<lparr>tabStops := Some t\<rparr>)"
  by (simp add: ok_defs)

lemma initTabStops_safe:
  assumes "wf s"
  shows "ensures (initTabStops s) (\<lambda>t. scr.ok s t \<and> (\<exists>st. tabStops t = Some st))"
proof -
  have w: "0 \<le> Width s" using wf_width [OF assms] by simp
  have "ensures (foldM (\<lambda>i t. if i mod 8 = 0 then set_at t i True else Some t) [8..Width s - 1]
      (replicate (nat (Width s)) False)) (\<lambda>t. int (length t) = Width s)"
    by (rule ensures_foldM) (use w in auto)
  then show ?thesis
    unfolding initTabStops_def ensures_bind
    by (rule ensures_mono) (simp add: tabs_update assms)
qed

lemma writeTabStop_safe:
  assumes "wf s" shows "safe (writeTabStop col b s) s"
  unfolding writeTabStop_def
proof (rule scr.seq)
  show "safe (if tabStops s = None then initTabStops s else Some s) s"
    using initTabStops_safe [OF assms] by (auto simp: scr.ok_refl assms elim: ensures_mono)
  fix t assume "scr.ok s t"
  then have wf: "wf t" by (rule scr.ok_inv)
  show "safe (case tabStops t of None \<Rightarrow> Some t
      | Some st \<Rightarrow> if col \<ge> 0 \<and> col < int (length st)
          then do { t' \<leftarrow> set_at st col b; Some (t\<lparr>tabStops := Some t'\<rparr>) } else Some t) t"
  proof (cases "tabStops t")
    case None
    with wf show ?thesis by (simp add: scr.ok_refl)
  next
    case (Some st)
    with wf have "int (length st) = Width t" by (simp add: wf_def tabs_ok_def)
    with Some wf show ?thesis by (simp add: scr.ok_refl tabs_update)
  qed
qed

lemma firstStop_range:
  "\<forall>i \<in> set is. 0 \<le> i \<and> i < int (length t) \<Longrightarrow> ensures (firstStop is t d) (\<lambda>r. r = d \<or> r \<in> set is)"
  by (induction "is") (auto simp: get_at_Some elim: ensures_mono)

lemma nextTabStop_range:
  assumes "wf s" shows "ensures (nextTabStop (curX s) s) (\<lambda>r. curX s < r)"
proof (cases "tabStops s")
  case None
  then show ?thesis by (simp add: nextTabStop_def)
next
  case (Some t)
  with assms have "int (length t) = Width s" by (simp add: wf_def tabs_ok_def)
  then have "ensures (firstStop [curX s + 1..Width s - 1] t (Width s))
      (\<lambda>r. r = Width s \<or> r \<in> set [curX s + 1..Width s - 1])"
    by (intro firstStop_range) (use wf_curX [OF assms] in auto)
  then have "ensures (firstStop [curX s + 1..Width s - 1] t (Width s)) (\<lambda>r. curX s < r)"
    by (rule ensures_mono) (use wf_curX [OF assms] in auto)
  with Some show ?thesis by (simp add: nextTabStop_def)
qed

lemma tabOnce_safe:
  assumes "wf s" shows "ensures (tabOnce s) (\<lambda>(t, _). scr.ok s t)"
  unfolding tabOnce_def Let_def ensures_bind
proof (rule ensures_mono [OF nextTabStop_range [OF assms]])
  fix r assume "curX s < r"
  then show "ensures (if curX s \<le> rightBound s \<and> r > rightBound s then
       (if curX s = rightBound s then Some (s, False) else Some (s\<lparr>curX := rightBound s\<rparr>, True))
     else if r \<ge> Width s then
       (if curX s = Width s - 1 then Some (s, False) else Some (s\<lparr>curX := Width s - 1\<rparr>, True))
     else Some (s\<lparr>curX := r\<rparr>, True)) (\<lambda>(t, _). scr.ok s t)"
    using wf_curX [OF assms] bounds_range [OF wf_box [OF assms]] wf_width [OF assms]
    by (simp add: scr.ok_refl assms move_ok)
qed

lemma prevTabStop_range:
  assumes "wf s" shows "ensures (prevTabStop (curX s) s) (\<lambda>r. 0 \<le> r \<and> r < Width s)"
proof (cases "tabStops s")
  case None
  with wf_curX [OF assms] show ?thesis by (auto simp: prevTabStop_def)
next
  case (Some t)
  with assms have "int (length t) = Width s" by (simp add: wf_def tabs_ok_def)
  then have "ensures (firstStop (rev [0..curX s - 1]) t 0) (\<lambda>r. r = 0 \<or> r \<in> set (rev [0..curX s - 1]))"
    by (intro firstStop_range) (use wf_curX [OF assms] in auto)
  then have "ensures (firstStop (rev [0..curX s - 1]) t 0) (\<lambda>r. 0 \<le> r \<and> r < Width s)"
    by (rule ensures_mono) (use wf_curX [OF assms] in auto)
  with Some show ?thesis by (simp add: prevTabStop_def)
qed

lemma ok_loopM:
  assumes "wf s" and "\<And>t. wf t \<Longrightarrow> ensures (f t) (\<lambda>(u, _). scr.ok t u)"
  shows "safe (loopM f n s) s"
proof (rule ensures_loopM)
  show "scr.ok s s" using assms(1) by (rule scr.ok_refl)
  fix t assume t: "scr.ok s t"
  show "ensures (f t) (\<lambda>(u, _). scr.ok s u)"
    by (rule ensures_mono [OF assms(2) [OF scr.ok_inv [OF t]]]) (auto intro: scr.ok_trans [OF t])
qed

lemma tab_ops_safe:
  assumes "wf s"
  shows "safe (cursorTabForward n s) s" "safe (cursorTabBackward n s) s" "safe (tabClear m s) s"
    "safe (setTabStop c s) s"
proof -
  show "safe (cursorTabForward n s) s" unfolding cursorTabForward_def
    by (rule ok_loopM [OF assms tabOnce_safe])
  show "safe (cursorTabBackward n s) s" unfolding cursorTabBackward_def
  proof (rule ok_loopM [OF assms])
    fix t assume wf: "wf t"
    show "ensures (do { x \<leftarrow> prevTabStop (curX t) t;
        if x \<le> 0 then Some (t\<lparr>curX := 0\<rparr>, False) else Some (t\<lparr>curX := x\<rparr>, True) })
        (\<lambda>(u, _). scr.ok t u)"
      unfolding ensures_bind
      by (rule ensures_mono [OF prevTabStop_range [OF wf]]) (use wf_width [OF wf] in \<open>simp add: move_ok wf\<close>)
  qed
  have "scr.ok s (clearAllTabStops s)"
    using wf_width [OF assms] assms by (simp add: clearAllTabStops_def tabs_update)
  then show "safe (tabClear m s) s"
    using writeTabStop_safe [OF assms] scr.ok_refl [OF assms] by (simp add: tabClear_def clearTabStop_def)
  show "safe (setTabStop c s) s"
    using writeTabStop_safe [OF assms] by (simp add: setTabStop_def)
qed

section \<open>The saved cursor\<close>

lemma saveCursor_ok: "wf s \<Longrightarrow> scr.ok s (saveCursor s)"
  by (simp add: saveCursor_def Let_def ok_defs slot_ok_def)

lemma restoreCursor_ok:
  assumes "wf s" shows "scr.ok s (restoreCursor s)"
proof (cases "sc_valid (savedSlot s)")
  case False
  with wf_width [OF assms] show ?thesis
    by (simp add: restoreCursor_def Let_def move_ok [OF assms])
next
  case True
  let ?c = "savedSlot s"
  have slot: "slot_ok ?c" using assms by (simp add: savedSlot_def wf_def)
  define y x where yx: "y = min (sc_y ?c) (Height s - 1)" "x = min (sc_x ?c) (Width s - 1)"
  have rng: "0 \<le> y" "y < Height s" "0 \<le> x" "x < Width s"
    using slot wf_width [OF assms] by (auto simp: yx slot_ok_def)
  have "restoreCursor s = s\<lparr>curY := y, curX := x,
      style := sc_style ?c, OriginMode := sc_origin ?c, gsets := sc_charsets ?c, gl := sc_gl ?c,
      curProtected := sc_protected ?c, pendingWrap := sc_pendingWrap ?c\<rparr>"
    using True by (simp add: restoreCursor_def Let_def yx min_def)
  also have "scr.ok s \<dots>"
    using assms slot rng by (simp add: ok_defs slot_ok_def)
  finally show ?thesis .
qed

end
