(* ===== verification/AltScreen.thy ===== *)
theory AltScreen
  imports Print
begin

text \<open>
  The alternate screen and resizing (\<^verbatim>\<open>src/vt/screen.go\<close>): the main screen is saved on entry
  and comes back, cut or padded to the current size, on exit.
\<close>

section \<open>Switching\<close>

definition altCellsFit :: "screen \<Rightarrow> bool option" where
  "altCellsFit s = (let g = (case altCells s of None \<Rightarrow> [] | Some g \<Rightarrow> g) in
     if int (length g) = Height s \<and> Height s > 0
     then do { r \<leftarrow> get_at g 0; Some (int (length r) = Width s) } else Some False)"

definition freshGrid :: "int \<Rightarrow> int \<Rightarrow> cell list list" where
  "freshGrid h w = replicate (nat h) (makeRow w noColor)"

definition enterAltScreen :: "int \<Rightarrow> screen \<Rightarrow> screen option" where
  "enterAltScreen mode s0 = (if InAltScreen s0 then Some s0
     else (let s = s0\<lparr>hyperlink := [], savedMainCells := Some (Cells s0), savedMainWrapped := wrapped s0,
         savedMainCurY := curY s0, savedMainCurX := curX s0, savedMainStyle := style s0,
         savedMainScrollTop := scrollTop s0, savedMainScrollBottom := scrollBottom s0\<rparr> in do {
       fit \<leftarrow> (if mode = 1049 then Some False else altCellsFit s);
       let g = (if fit then (case altCells s of None \<Rightarrow> [] | Some g \<Rightarrow> g)
                else freshGrid (Height s) (Width s));
       s \<leftarrow> Some (s\<lparr>altCells := Some g, Cells := g, wrapped := replicate (nat (Height s)) False,
                    scrollTop := 0, scrollBottom := Height s - 1\<rparr>);
       s \<leftarrow> Some (if mode = 1049 then s\<lparr>curY := 0, curX := 0, style := noStyle\<rparr> else s);
       Some (s\<lparr>InAltScreen := True\<rparr>) }))"

definition fitRow :: "int \<Rightarrow> cell list \<Rightarrow> cell list" where
  "fitRow w row = go_copy (makeRow w noColor) row"

definition restoreRow :: "cell list list \<Rightarrow> int \<Rightarrow> nat \<Rightarrow> cell list" where
  "restoreRow saved w i = (
     if i < length saved \<and> int (length (saved ! i)) = w then saved ! i
     else if i < length saved then fitRow w (saved ! i)
     else makeRow w noColor)"

definition exitAltScreen :: "int \<Rightarrow> screen \<Rightarrow> screen" where
  "exitAltScreen mode s = (case (InAltScreen s, savedMainCells s) of
     (True, Some saved) \<Rightarrow> (let
       y = (if mode = 1049 then savedMainCurY s else curY s);
       x = (if mode = 1049 then savedMainCurX s else curX s)
      in s\<lparr>hyperlink := [],
           altCells := (if mode = 1047 \<or> mode = 1049 then None else Some (Cells s)),
           Cells := map (restoreRow saved (Width s)) [0..<nat (Height s)],
           wrapped := go_copy (replicate (nat (Height s)) False) (savedMainWrapped s),
           savedMainWrapped := [],
           scrollTop := savedMainScrollTop s,
           scrollBottom := (if savedMainScrollBottom s \<ge> Height s then Height s - 1
             else savedMainScrollBottom s),
           style := (if mode = 1049 then savedMainStyle s else style s),
           curY := (if y \<ge> Height s then Height s - 1 else y),
           curX := (if x \<ge> Width s then Width s - 1 else x),
           savedMainCells := None, InAltScreen := False\<rparr>)
   | _ \<Rightarrow> s)"

section \<open>Resizing\<close>

definition resizeHeight :: "int \<Rightarrow> screen \<Rightarrow> screen option" where
  "resizeHeight rows s0 = do {
     s \<leftarrow> Some (if rows > Height s0 then (let
         grow = rows - Height s0;
         newRows = freshGrid grow (Width s0);
         flags = replicate (nat grow) False;
         s = (if InAltScreen s0
              then s0\<lparr>Cells := newRows @ Cells s0, wrapped := flags @ wrapped s0, curY := curY s0 + grow\<rparr>
              else s0\<lparr>Cells := Cells s0 @ newRows, wrapped := wrapped s0 @ flags\<rparr>)
         in s\<lparr>Height := rows\<rparr>)
       else s0);
     if rows < Height s then do {
       C \<leftarrow> slice (Cells s) 0 rows;
       W \<leftarrow> slice (wrapped s) 0 rows;
       Some (s\<lparr>Cells := C, wrapped := W, Height := rows\<rparr>) }
     else Some s }"

definition resizeWidth :: "int \<Rightarrow> screen \<Rightarrow> screen option" where
  "resizeWidth cols s0 = (if cols = Width s0 then Some s0
     else (let s = s0\<lparr>Cells := map (fitRow cols) (Cells s0), Width := cols\<rparr> in
       case tabStops s of None \<Rightarrow> Some s
       | Some old \<Rightarrow> do {
           t \<leftarrow> foldM (\<lambda>i t. if i > 0 \<and> i mod 8 = 0 then set_at t i True else Some t)
                 [int (length old)..cols - 1] (go_copy (replicate (nat cols) False) old);
           Some (s\<lparr>tabStops := Some t\<rparr>) }))"

definition resizeSavedMain :: "int \<Rightarrow> int \<Rightarrow> screen \<Rightarrow> screen option" where
  "resizeSavedMain rows cols s = (case savedMainCells s of None \<Rightarrow> Some s
     | Some saved \<Rightarrow> do {
       same \<leftarrow> (if int (length saved) = rows then
            (if rows = 0 then Some True
             else do { r \<leftarrow> get_at saved 0; Some (int (length r) = cols) })
          else Some False);
       if same then Some s
       else (let
         resized = map (\<lambda>i. if i < length saved then fitRow cols (saved ! i) else makeRow cols noColor)
                     [0..<nat rows];
         s = s\<lparr>savedMainCells := Some resized\<rparr>;
         s = (if savedMainCurY s \<ge> rows then s\<lparr>savedMainCurY := rows - 1\<rparr> else s);
         s = (if savedMainCurX s \<ge> cols then s\<lparr>savedMainCurX := cols - 1\<rparr> else s)
        in Some s) })"

definition Resize :: "int \<Rightarrow> int \<Rightarrow> screen \<Rightarrow> screen option" where
  "Resize rows0 cols0 s = (let cols = capDimension (max cols0 1); rows = capDimension (max rows0 1) in do {
     s \<leftarrow> resizeHeight rows s;
     s \<leftarrow> resizeWidth cols s;
     s \<leftarrow> Some (if curY s \<ge> Height s then s\<lparr>curY := Height s - 1\<rparr> else s);
     s \<leftarrow> Some (if curX s \<ge> Width s then s\<lparr>curX := Width s - 1\<rparr> else s);
     s \<leftarrow> Some (s\<lparr>scrollTop := 0, scrollBottom := Height s - 1, leftMargin := 0,
                  rightMargin := Width s - 1\<rparr>);
     resizeSavedMain rows cols s })"

section \<open>Reading the screen as text\<close>

definition trimRightSpaces :: "rune list \<Rightarrow> rune list" where
  "trimRightSpaces t = rev (dropWhile (\<lambda>r. r = 0x20) (rev t))"

definition scalarOr :: "rune \<Rightarrow> rune" where
  "scalarOr r = (if validRune r then r else 0xFFFD)"

definition RowString :: "int \<Rightarrow> screen \<Rightarrow> rune list" where
  "RowString y s = (if y < 0 \<or> y \<ge> int (length (Cells s)) then []
     else trimRightSpaces (map (\<lambda>c. if Ch c = 0 then 0x20 else scalarOr (Ch c)) (Cells s ! nat y)))"

definition MainScreenText :: "screen \<Rightarrow> rune list list \<times> bool list" where
  "MainScreenText s = (let
     (cells, flags) = (case (InAltScreen s, savedMainCells s) of
        (True, Some g) \<Rightarrow> (g, savedMainWrapped s) | _ \<Rightarrow> (Cells s, wrapped s));
     wr = go_copy (replicate (length cells) False) flags;
     rows = map (\<lambda>y. let text = map (scalarOr \<circ> Ch) (filter (\<lambda>c. Ch c \<noteq> 0) (cells ! y)) in
        if Suc y \<ge> length wr \<or> \<not> wr ! Suc y then trimRightSpaces text else text) [0..<length cells]
   in (rows, wr))"

section \<open>Safety\<close>

lemma freshGrid_rect: "0 \<le> h \<Longrightarrow> 0 \<le> w \<Longrightarrow> rect h w (freshGrid h w)"
  by (auto simp: rect_def freshGrid_def)

lemma fitRow_length: "0 \<le> w \<Longrightarrow> int (length (fitRow w r)) = w"
  by (simp add: fitRow_def)

lemma restoreRow_length: "0 \<le> w \<Longrightarrow> int (length (restoreRow g w i)) = w"
  by (simp add: restoreRow_def fitRow_length)

lemma altCellsFit_total:
  "ensures (altCellsFit s) (\<lambda>b. b \<longrightarrow> (\<exists>g. altCells s = Some g \<and> int (length g) = Height s
      \<and> int (length (g ! 0)) = Width s))"
  by (auto simp: altCellsFit_def Let_def split: option.splits)

lemma alt_rect:
  assumes "wf s" "altCells s = Some g" "int (length g) = Height s" "int (length (g ! 0)) = Width s"
  shows "rect (Height s) (Width s) g"
proof -
  from assms(1,2) obtain w where w: "\<forall>r \<in> set g. int (length r) = w" by (auto simp: wf_def alt_ok_def)
  have "g ! 0 \<in> set g" using assms(3) wf_width [OF assms(1)] by (intro nth_mem) auto
  with w assms(3,4) show ?thesis by (auto simp: rect_def)
qed

lemma enterAltScreen_safe:
  assumes "wf s" shows "safe (enterAltScreen mode s) s"
proof (cases "InAltScreen s")
  case True
  with assms show ?thesis by (simp add: enterAltScreen_def scr.ok_refl)
next
  case False
  define t where "t = s\<lparr>hyperlink := [], savedMainCells := Some (Cells s), savedMainWrapped := wrapped s,
         savedMainCurY := curY s, savedMainCurX := curX s, savedMainStyle := style s,
         savedMainScrollTop := scrollTop s, savedMainScrollBottom := scrollBottom s\<rparr>"
  have at: "altCells t = altCells s" "Height t = Height s" "Width t = Width s" by (simp_all add: t_def)
  have fit: "ensures (if mode = 1049 then Some False else altCellsFit t)
      (\<lambda>b. b \<longrightarrow> (\<exists>g. altCells s = Some g \<and> int (length g) = Height s \<and> int (length (g ! 0)) = Width s))"
    using altCellsFit_total [of t] at by simp
  have ne: "Cells s \<noteq> []" using assms wf_width [OF assms] by (auto simp: wf_def grid_ok_def rect_def)
  have fin: "scr.ok s (t\<lparr>altCells := Some g, Cells := g, wrapped := replicate (nat (Height s)) False,
        scrollTop := 0, scrollBottom := Height s - 1, InAltScreen := True\<rparr>)"
      "scr.ok s (t\<lparr>altCells := Some g, Cells := g, wrapped := replicate (nat (Height s)) False,
        scrollTop := 0, scrollBottom := Height s - 1, curY := 0, curX := 0, style := noStyle,
        InAltScreen := True\<rparr>)" if g: "rect (Height s) (Width s) g" for g
    using assms ne g unfolding t_def by (auto simp: ok_defs rect_def)
  show ?thesis
    unfolding enterAltScreen_def if_not_P [OF False] Let_def t_def [symmetric] ensures_bind
  proof (rule ensures_mono [OF fit])
    fix b assume b: "b \<longrightarrow> (\<exists>g. altCells s = Some g \<and> int (length g) = Height s
      \<and> int (length (g ! 0)) = Width s)"
    define g where "g = (if b then (case altCells t of None \<Rightarrow> [] | Some g \<Rightarrow> g)
      else freshGrid (Height t) (Width t))"
    have "rect (Height s) (Width s) g"
      using b alt_rect [OF assms] freshGrid_rect [of "Height s" "Width s"] wf_width [OF assms]
      by (auto simp: g_def at)
    note f = fin [OF this]
    show "ensures (Some (t\<lparr>altCells := Some (if b then (case altCells t of None \<Rightarrow> [] | Some g \<Rightarrow> g)
         else freshGrid (Height t) (Width t)), Cells := (if b then (case altCells t of None \<Rightarrow> [] | Some g \<Rightarrow> g)
         else freshGrid (Height t) (Width t)), wrapped := replicate (nat (Height t)) False,
         scrollTop := 0, scrollBottom := Height t - 1\<rparr>)) (\<lambda>x. ensures (Some (if mode = 1049
         then x\<lparr>curY := 0, curX := 0, style := noStyle\<rparr> else x))
         (\<lambda>x. ensures (Some (x\<lparr>InAltScreen := True\<rparr>)) (scr.ok s)))"
      using f by (cases b) (simp_all add: g_def at)
  qed
qed

lemma exitAltScreen_ok:
  assumes "wf s" shows "scr.ok s (exitAltScreen mode s)"
proof (cases "InAltScreen s")
  case False
  then show ?thesis by (simp add: exitAltScreen_def scr.ok_refl assms split: option.split)
next
  case True
  with assms obtain saved where saved: "savedMainCells s = Some saved" by (auto simp: wf_def alt_ok_def)
  define C where "C = map (restoreRow saved (Width s)) [0..<nat (Height s)]"
  define W where "W = go_copy (replicate (nat (Height s)) False) (savedMainWrapped s)"
  define A where "A = (if mode = 1047 \<or> mode = 1049 then None else Some (Cells s))"
  define y0 x0 where "y0 = (if mode = 1049 then savedMainCurY s else curY s)"
    and "x0 = (if mode = 1049 then savedMainCurX s else curX s)"
  define y where "y = (if y0 \<ge> Height s then Height s - 1 else y0)"
  define x where "x = (if x0 \<ge> Width s then Width s - 1 else x0)"
  define b where "b = (if savedMainScrollBottom s \<ge> Height s then Height s - 1 else savedMainScrollBottom s)"
  define st where "st = (if mode = 1049 then savedMainStyle s else style s)"
  have e: "exitAltScreen mode s = s\<lparr>hyperlink := [], altCells := A, Cells := C, wrapped := W,
      savedMainWrapped := [], scrollTop := savedMainScrollTop s, scrollBottom := b, style := st,
      curY := y, curX := x, savedMainCells := None, InAltScreen := False\<rparr>"
    unfolding exitAltScreen_def Let_def C_def W_def A_def y_def x_def y0_def x0_def b_def st_def saved
    using True by simp
  have g: "rect (Height s) (Width s) C" "int (length W) = Height s"
    using wf_width [OF assms] by (auto simp: rect_def C_def W_def restoreRow_length)
  have alt: "\<forall>g. A = Some g \<longrightarrow> (\<exists>w. \<forall>r \<in> set g. int (length r) = w)"
    using wf_grid [OF assms] by (auto simp: A_def grid_ok_def rect_def)
  have sv: "0 \<le> savedMainScrollTop s" "savedMainScrollTop s \<le> b" "b < Height s" "0 \<le> y" "y < Height s"
    "0 \<le> x" "x < Width s"
    using assms True wf_width [OF assms] wf_curX [OF assms] wf_curY [OF assms]
    by (auto simp: b_def y_def x_def y0_def x0_def wf_def alt_ok_def)
  show ?thesis unfolding e using assms g alt sv by (simp add: ok_defs)
qed

section \<open>Resizing keeps the screen well formed\<close>

text \<open>
  Between the two axes of a resize the cursor, the scroll region and the margins may lie outside
  the screen; everything else is in order. On the alternate screen the saved scroll region of the
  main screen has to fit the new height: nothing adjusts its top (\<open>Resize\<close> does not touch it, and
  the exit only clamps its bottom).
\<close>

definition loose :: "screen \<Rightarrow> bool" where
  "loose s \<longleftrightarrow> wf (s\<lparr>curX := 0, curY := 0, scrollTop := 0, scrollBottom := 0, leftMargin := 0,
       rightMargin := 0\<rparr>) \<and> 0 \<le> curX s \<and> 0 \<le> curY s"

lemma wf_loose: "wf s \<Longrightarrow> loose s"
  by (simp add: loose_def wf_defs)

lemma rect_append: "rect h w g \<Longrightarrow> rect h' w g' \<Longrightarrow> rect (h + h') w (g @ g')"
  by (auto simp: rect_def)

lemma rect_take: "rect h w g \<Longrightarrow> 0 \<le> n \<Longrightarrow> n \<le> h \<Longrightarrow> rect n w (take (nat n) g)"
  by (auto simp: rect_def dest: in_set_takeD)

lemma resizeHeight_loose:
  assumes "wf s" "1 \<le> rows" "rows \<le> maxDimension" "InAltScreen s \<longrightarrow> savedMainScrollTop s < rows"
  shows "ensures (resizeHeight rows s) (\<lambda>t. loose t \<and> same_parser s t \<and> Height t = rows \<and> Width t = Width s)"
proof -
  have rc: "rect (Height s) (Width s) (Cells s)" "int (length (wrapped s)) = Height s"
    using wf_grid [OF assms(1)] by (simp_all add: grid_ok_def)
  have w: "0 \<le> Width s" using wf_width [OF assms(1)] by simp
  consider "rows > Height s" | "rows = Height s" | "rows < Height s" by linarith
  then show ?thesis
  proof cases
    case 1
    have f: "rect (rows - Height s) (Width s) (freshGrid (rows - Height s) (Width s))"
      by (rule freshGrid_rect) (use 1 w in auto)
    have g: "rect rows (Width s) (freshGrid (rows - Height s) (Width s) @ Cells s)"
      "rect rows (Width s) (Cells s @ freshGrid (rows - Height s) (Width s))"
      using rect_append [OF f rc(1)] rect_append [OF rc(1) f] by simp_all
    define C where "C = (if InAltScreen s then freshGrid (rows - Height s) (Width s) @ Cells s
      else Cells s @ freshGrid (rows - Height s) (Width s))"
    define W where "W = (if InAltScreen s then replicate (nat (rows - Height s)) False @ wrapped s
      else wrapped s @ replicate (nat (rows - Height s)) False)"
    define y where "y = (if InAltScreen s then curY s + (rows - Height s) else curY s)"
    have cw: "rect rows (Width s) C" "int (length W) = rows" "0 \<le> y"
      using g rc(2) 1 wf_curY [OF assms(1)] by (auto simp: C_def W_def y_def)
    have "resizeHeight rows s = Some (s\<lparr>Cells := C, wrapped := W, curY := y, Height := rows\<rparr>)"
      using 1 by (cases "InAltScreen s") (simp_all add: resizeHeight_def Let_def C_def W_def y_def)
    with assms cw show ?thesis by (simp add: loose_def wf_defs same_parser_def)
  next
    case 2
    with assms(1) show ?thesis by (simp add: resizeHeight_def wf_loose scr.keeps_refl)
  next
    case 3
    have "rect rows (Width s) (take (nat rows) (Cells s))" "int (length (take (nat rows) (wrapped s))) = rows"
      using rect_take [OF rc(1)] 3 assms(2) rc(2) by auto
    moreover have "rows \<le> int (length (Cells s))" using rc(1) 3 by (simp add: rect_def)
    ultimately show ?thesis using assms 3 rc
      by (simp add: resizeHeight_def slice_def loose_def wf_defs same_parser_def)
  qed
qed

lemma rect_fit: "0 \<le> w \<Longrightarrow> rect h w' g \<Longrightarrow> rect h w (map (fitRow w) g)"
  by (auto simp: rect_def fitRow_length)

lemma resizeWidth_loose:
  assumes "loose s" "1 \<le> cols" "cols \<le> maxDimension"
  shows "ensures (resizeWidth cols s) (\<lambda>t. loose t \<and> same_parser s t \<and> Height t = Height s \<and> Width t = cols)"
proof (cases "cols = Width s")
  case True
  with assms show ?thesis by (simp add: resizeWidth_def scr.keeps_refl)
next
  case False
  have rc: "rect (Height s) cols (map (fitRow cols) (Cells s))"
    using rect_fit [of cols "Height s" "Width s" "Cells s"] assms by (simp add: loose_def wf_defs)
  define t where "t = s\<lparr>Cells := map (fitRow cols) (Cells s), Width := cols\<rparr>"
  have t: "tabStops t = tabStops s" "same_parser s t" "Height t = Height s" "Width t = cols"
    by (simp_all add: t_def same_parser_def)
  have ok: "loose (t\<lparr>tabStops := st\<rparr>)" if "\<forall>x. st = Some x \<longrightarrow> int (length x) = cols" for st
    using assms rc that by (simp add: t_def loose_def wf_defs)
  show ?thesis
  proof (cases "tabStops s")
    case None
    then have "t\<lparr>tabStops := None\<rparr> = t" by (simp add: t_def)
    with ok [of None] have "loose t" by simp
    with t False None show ?thesis by (simp add: resizeWidth_def t_def)
  next
    case (Some old)
    have "int (length old) = Width s" using assms(1) Some by (simp add: loose_def wf_defs)
    then have "ensures (foldM (\<lambda>i t. if i > 0 \<and> i mod 8 = 0 then set_at t i True else Some t)
        [int (length old)..cols - 1] (go_copy (replicate (nat cols) False) old)) (\<lambda>x. int (length x) = cols)"
      by (intro ensures_foldM) (use assms(2) in auto)
    moreover have "same_parser s (t\<lparr>tabStops := Some x\<rparr>)" for x by (simp add: t_def same_parser_def)
    ultimately show ?thesis
      unfolding resizeWidth_def if_not_P [OF False] Let_def t_def [symmetric] t(1) Some option.case ensures_bind
      by (elim ensures_mono) (use ok t in \<open>auto simp: t_def\<close>)
  qed
qed

lemma loose_tidy:
  assumes "loose s"
  shows "wf (s\<lparr>curY := min (curY s) (Height s - 1), curX := min (curX s) (Width s - 1), scrollTop := 0,
      scrollBottom := Height s - 1, leftMargin := 0, rightMargin := Width s - 1\<rparr>)"
  using assms by (simp add: loose_def wf_defs min_less_iff_disj)

lemma resizeSavedMain_safe:
  assumes "wf s" "1 \<le> rows" "1 \<le> cols"
  shows "safe (resizeSavedMain rows cols s) s"
proof (cases "savedMainCells s")
  case None
  with assms show ?thesis by (simp add: resizeSavedMain_def scr.ok_refl)
next
  case (Some saved)
  define C where "C = map (\<lambda>i. if i < length saved then fitRow cols (saved ! i) else makeRow cols noColor)
    [0..<nat rows]"
  define y where "y = (if savedMainCurY s \<ge> rows then rows - 1 else savedMainCurY s)"
  define x where "x = (if savedMainCurX s \<ge> cols then cols - 1 else savedMainCurX s)"
  have alt: "InAltScreen s" "0 \<le> savedMainCurY s" "0 \<le> savedMainCurX s"
    using assms(1) Some by (auto simp: wf_def alt_ok_def)
  have C: "C \<noteq> []" using assms by (simp add: C_def)
  have "scr.ok s (s\<lparr>savedMainCells := Some C, savedMainCurY := y, savedMainCurX := x\<rparr>)"
    using assms alt C by (simp add: ok_defs y_def x_def)
  moreover have "s\<lparr>savedMainCells := Some C, savedMainCurY := y, savedMainCurX := x\<rparr>
      = (let s = s\<lparr>savedMainCells := Some C\<rparr>;
         s = (if savedMainCurY s \<ge> rows then s\<lparr>savedMainCurY := rows - 1\<rparr> else s);
         s = (if savedMainCurX s \<ge> cols then s\<lparr>savedMainCurX := cols - 1\<rparr> else s) in s)"
    by (simp add: Let_def y_def x_def)
  ultimately have fin: "scr.ok s (let s = s\<lparr>savedMainCells := Some C\<rparr>;
         s = (if savedMainCurY s \<ge> rows then s\<lparr>savedMainCurY := rows - 1\<rparr> else s);
         s = (if savedMainCurX s \<ge> cols then s\<lparr>savedMainCurX := cols - 1\<rparr> else s) in s)" by simp
  have "ensures (if int (length saved) = rows then
            (if rows = 0 then Some True
             else do { r \<leftarrow> get_at saved 0; Some (int (length r) = cols) })
          else Some False) (\<lambda>_. True)" using assms by simp
  then show ?thesis
    unfolding resizeSavedMain_def Some option.case ensures_bind C_def [symmetric]
    by (rule ensures_mono) (use fin scr.ok_refl [OF assms(1)] in \<open>simp add: Let_def\<close>)
qed

lemma capDimension_range: "1 \<le> n \<Longrightarrow> 1 \<le> capDimension n \<and> capDimension n \<le> maxDimension"
  by (simp add: capDimension_def maxDimension_def)

lemma Resize_safe:
  assumes "wf s" and "InAltScreen s \<longrightarrow> savedMainScrollTop s < capDimension (max rows 1)"
  shows "safe (Resize rows cols s) s"
proof -
  let ?r = "capDimension (max rows 1)" and ?c = "capDimension (max cols 1)"
  have rc: "1 \<le> ?r" "?r \<le> maxDimension" "1 \<le> ?c" "?c \<le> maxDimension"
    using capDimension_range [of "max rows 1"] capDimension_range [of "max cols 1"] by simp_all
  have fin: "safe (do {
     s \<leftarrow> Some (if curY u \<ge> Height u then u\<lparr>curY := Height u - 1\<rparr> else u);
     s \<leftarrow> Some (if curX s \<ge> Width s then s\<lparr>curX := Width s - 1\<rparr> else s);
     s \<leftarrow> Some (s\<lparr>scrollTop := 0, scrollBottom := Height s - 1, leftMargin := 0,
                  rightMargin := Width s - 1\<rparr>);
     resizeSavedMain ?r ?c s }) s" if u: "loose u" "same_parser s u" for u
  proof -
    define v where "v = u\<lparr>curY := min (curY u) (Height u - 1), curX := min (curX u) (Width u - 1),
      scrollTop := 0, scrollBottom := Height u - 1, leftMargin := 0, rightMargin := Width u - 1\<rparr>"
    have "same_parser u v" by (simp add: v_def same_parser_def)
    with u(2) have v: "scr.ok s v"
      using loose_tidy [OF u(1)] by (auto simp: scr.ok_def v_def [symmetric] intro: scr.keeps_trans)
    have e: "(do {
       s \<leftarrow> Some (if curY u \<ge> Height u then u\<lparr>curY := Height u - 1\<rparr> else u);
       s \<leftarrow> Some (if curX s \<ge> Width s then s\<lparr>curX := Width s - 1\<rparr> else s);
       s \<leftarrow> Some (s\<lparr>scrollTop := 0, scrollBottom := Height s - 1, leftMargin := 0,
                  rightMargin := Width s - 1\<rparr>);
       resizeSavedMain ?r ?c s }) = resizeSavedMain ?r ?c v"
      by (simp add: v_def min_def)
    show ?thesis unfolding e
      by (rule scr.after [OF v], rule resizeSavedMain_safe [OF scr.ok_inv [OF v]]) (use rc in simp_all)
  qed
  show ?thesis unfolding Resize_def Let_def
    unfolding ensures_bind [of "resizeHeight ?r s"] ensures_bind [of "resizeWidth ?c _"]
  proof (rule ensures_mono [OF resizeHeight_loose [OF assms(1) rc(1,2) assms(2)]])
    fix t assume t: "loose t \<and> same_parser s t \<and> Height t = ?r \<and> Width t = Width s"
    have lt: "loose t" "same_parser s t" using t by simp_all
    show "ensures (resizeWidth ?c t) (\<lambda>x. ensures (do {
       s \<leftarrow> Some (if curY x \<ge> Height x then x\<lparr>curY := Height x - 1\<rparr> else x);
       s \<leftarrow> Some (if curX s \<ge> Width s then s\<lparr>curX := Width s - 1\<rparr> else s);
       s \<leftarrow> Some (s\<lparr>scrollTop := 0, scrollBottom := Height s - 1, leftMargin := 0,
                  rightMargin := Width s - 1\<rparr>);
       resizeSavedMain ?r ?c s }) (scr.ok s))"
    proof (rule ensures_mono [OF resizeWidth_loose [OF lt(1) rc(3,4)]])
      fix x assume x: "loose x \<and> same_parser t x \<and> Height x = Height t \<and> Width x = ?c"
      show "safe (do {
       s \<leftarrow> Some (if curY x \<ge> Height x then x\<lparr>curY := Height x - 1\<rparr> else x);
       s \<leftarrow> Some (if curX s \<ge> Width s then s\<lparr>curX := Width s - 1\<rparr> else s);
       s \<leftarrow> Some (s\<lparr>scrollTop := 0, scrollBottom := Height s - 1, leftMargin := 0,
                  rightMargin := Width s - 1\<rparr>);
       resizeSavedMain ?r ?c s }) s"
        by (rule fin) (use x lt(2) in \<open>blast intro: scr.keeps_trans\<close>)+
    qed
  qed
qed

end
