(* ===== verification/Frame.thy ===== *)
theory Frame
  imports Screen
begin

text \<open>
  The fields the screen invariant and the parser frame do not depend on: pen attributes, modes,
  titles, colors, pending output. An operation that writes only these meets the contract of the
  screen by rewriting with \<open>wf_frame\<close> and \<open>parser_frame\<close>.
\<close>

lemma wf_frame [simp]:
  "wf (s\<lparr>style := st\<rparr>) = wf s"
  "wf (s\<lparr>FlushHoldUntil := i\<rparr>) = wf s"
  "wf (s\<lparr>ansiModeState := am\<rparr>) = wf s"
  "wf (s\<lparr>paletteOverride := po\<rparr>) = wf s"
  "wf (s\<lparr>dynColors := dc\<rparr>) = wf s"
  "wf (s\<lparr>specialColors := dc\<rparr>) = wf s"
  "wf (s\<lparr>decModeState := am\<rparr>) = wf s"
  "wf (s\<lparr>savedModeValues := am\<rparr>) = wf s"
  "wf (s\<lparr>Title := bs\<rparr>) = wf s"
  "wf (s\<lparr>iconTitle := bs\<rparr>) = wf s"
  "wf (s\<lparr>hyperlink := bs\<rparr>) = wf s"
  "wf (s\<lparr>Notification := bs\<rparr>) = wf s"
  "wf (s\<lparr>pendingClipboard := bs\<rparr>) = wf s"
  "wf (s\<lparr>selectionData := bs\<rparr>) = wf s"
  "wf (s\<lparr>response := bs\<rparr>) = wf s"
  by (simp_all add: wf_defs)

lemma wf_frame_ints [simp]:
  "wf (s\<lparr>linesPerScreen := i\<rparr>) = wf s"
  "wf (s\<lparr>conformanceLevel := i\<rparr>) = wf s"
  "wf (s\<lparr>linesPerPage := i\<rparr>) = wf s"
  "wf (s\<lparr>Progress := i\<rparr>) = wf s"
  "wf (s\<lparr>ProgressValue := i\<rparr>) = wf s"
  "wf (s\<lparr>NotificationSeq := n\<rparr>) = wf s"
  "wf (s\<lparr>lastPrintedRune := i\<rparr>) = wf s"
  "wf (s\<lparr>MouseMode := i\<rparr>) = wf s"
  "wf (s\<lparr>lastPrintedStyle := st\<rparr>) = wf s"
  "wf (s\<lparr>CursorStyle := i\<rparr>) = wf s"
  by (simp_all add: wf_defs)

lemma wf_frame_flags [simp]:
  "wf (s\<lparr>OriginMode := b\<rparr>) = wf s"
  "wf (s\<lparr>noClearOnColumn := b\<rparr>) = wf s"
  "wf (s\<lparr>titleSetHex := b\<rparr>) = wf s"
  "wf (s\<lparr>titleQueryHex := b\<rparr>) = wf s"
  "wf (s\<lparr>CursorBlink := b\<rparr>) = wf s"
  "wf (s\<lparr>AutoWrap := b\<rparr>) = wf s"
  "wf (s\<lparr>bellRing := b\<rparr>) = wf s"
  "wf (s\<lparr>scrollbackCleared := b\<rparr>) = wf s"
  "wf (s\<lparr>MouseSGR := b\<rparr>) = wf s"
  "wf (s\<lparr>FocusReporting := b\<rparr>) = wf s"
  "wf (s\<lparr>AppKeypad := b\<rparr>) = wf s"
  "wf (s\<lparr>ReverseVideo := b\<rparr>) = wf s"
  "wf (s\<lparr>pendingWrap := b\<rparr>) = wf s"
  "wf (s\<lparr>AppCursorKeys := b\<rparr>) = wf s"
  "wf (s\<lparr>InsertMode := b\<rparr>) = wf s"
  "wf (s\<lparr>LRMarginMode := b\<rparr>) = wf s"
  "wf (s\<lparr>MousePixels := b\<rparr>) = wf s"
  "wf (s\<lparr>LineFeedNewLine := b\<rparr>) = wf s"
  "wf (s\<lparr>ReverseWrap := b\<rparr>) = wf s"
  "wf (s\<lparr>curIsoProtected := b\<rparr>) = wf s"
  "wf (s\<lparr>CursorHidden := b\<rparr>) = wf s"
  "wf (s\<lparr>BracketedPaste := b\<rparr>) = wf s"
  "wf (s\<lparr>allow80To132 := b\<rparr>) = wf s"
  "wf (s\<lparr>curProtected := b\<rparr>) = wf s"
  "wf (s\<lparr>moreFix := b\<rparr>) = wf s"
  "wf (s\<lparr>paletteChanged := b\<rparr>) = wf s"
  by (simp_all add: wf_defs)

lemma parser_frame [simp]:
  "same_parser s (t\<lparr>style := st\<rparr>) = same_parser s t"
  "same_parser s (t\<lparr>FlushHoldUntil := i\<rparr>) = same_parser s t"
  "same_parser s (t\<lparr>ansiModeState := am\<rparr>) = same_parser s t"
  "same_parser s (t\<lparr>paletteOverride := po\<rparr>) = same_parser s t"
  "same_parser s (t\<lparr>dynColors := dc\<rparr>) = same_parser s t"
  "same_parser s (t\<lparr>specialColors := dc\<rparr>) = same_parser s t"
  "same_parser s (t\<lparr>decModeState := am\<rparr>) = same_parser s t"
  "same_parser s (t\<lparr>savedModeValues := am\<rparr>) = same_parser s t"
  "same_parser s (t\<lparr>Title := bs\<rparr>) = same_parser s t"
  "same_parser s (t\<lparr>iconTitle := bs\<rparr>) = same_parser s t"
  "same_parser s (t\<lparr>hyperlink := bs\<rparr>) = same_parser s t"
  "same_parser s (t\<lparr>Notification := bs\<rparr>) = same_parser s t"
  "same_parser s (t\<lparr>pendingClipboard := bs\<rparr>) = same_parser s t"
  "same_parser s (t\<lparr>selectionData := bs\<rparr>) = same_parser s t"
  "same_parser s (t\<lparr>response := bs\<rparr>) = same_parser s t"
  "same_parser s (t\<lparr>titleStack := ts\<rparr>) = same_parser s t"
  "same_parser s (t\<lparr>mainKbd := kb\<rparr>) = same_parser s t"
  "same_parser s (t\<lparr>altKbd := kb\<rparr>) = same_parser s t"
  "same_parser s (t\<lparr>program := pr\<rparr>) = same_parser s t"
  "same_parser s (t\<lparr>tabStops := tb\<rparr>) = same_parser s t"
  "same_parser s (t\<lparr>drainTail := dt\<rparr>) = same_parser s t"
  "same_parser s (t\<lparr>gl := i\<rparr>) = same_parser s t"
  "same_parser s (t\<lparr>singleShft := i\<rparr>) = same_parser s t"
  "same_parser s (t\<lparr>Cells := g\<rparr>) = same_parser s t"
  "same_parser s (t\<lparr>curX := i\<rparr>) = same_parser s t"
  "same_parser s (t\<lparr>curY := i\<rparr>) = same_parser s t"
  by (simp_all add: same_parser_def)

lemma parser_frame_ints [simp]:
  "same_parser s (t\<lparr>linesPerScreen := i\<rparr>) = same_parser s t"
  "same_parser s (t\<lparr>conformanceLevel := i\<rparr>) = same_parser s t"
  "same_parser s (t\<lparr>linesPerPage := i\<rparr>) = same_parser s t"
  "same_parser s (t\<lparr>Progress := i\<rparr>) = same_parser s t"
  "same_parser s (t\<lparr>ProgressValue := i\<rparr>) = same_parser s t"
  "same_parser s (t\<lparr>NotificationSeq := n\<rparr>) = same_parser s t"
  "same_parser s (t\<lparr>lastPrintedRune := i\<rparr>) = same_parser s t"
  "same_parser s (t\<lparr>MouseMode := i\<rparr>) = same_parser s t"
  "same_parser s (t\<lparr>lastPrintedStyle := st\<rparr>) = same_parser s t"
  "same_parser s (t\<lparr>CursorStyle := i\<rparr>) = same_parser s t"
  "same_parser s (t\<lparr>scrollTop := i\<rparr>) = same_parser s t"
  "same_parser s (t\<lparr>scrollBottom := i\<rparr>) = same_parser s t"
  "same_parser s (t\<lparr>leftMargin := i\<rparr>) = same_parser s t"
  "same_parser s (t\<lparr>rightMargin := i\<rparr>) = same_parser s t"
  by (simp_all add: same_parser_def)

lemma parser_frame_flags [simp]:
  "same_parser s (t\<lparr>OriginMode := b\<rparr>) = same_parser s t"
  "same_parser s (t\<lparr>noClearOnColumn := b\<rparr>) = same_parser s t"
  "same_parser s (t\<lparr>titleSetHex := b\<rparr>) = same_parser s t"
  "same_parser s (t\<lparr>titleQueryHex := b\<rparr>) = same_parser s t"
  "same_parser s (t\<lparr>CursorBlink := b\<rparr>) = same_parser s t"
  "same_parser s (t\<lparr>AutoWrap := b\<rparr>) = same_parser s t"
  "same_parser s (t\<lparr>bellRing := b\<rparr>) = same_parser s t"
  "same_parser s (t\<lparr>scrollbackCleared := b\<rparr>) = same_parser s t"
  "same_parser s (t\<lparr>MouseSGR := b\<rparr>) = same_parser s t"
  "same_parser s (t\<lparr>FocusReporting := b\<rparr>) = same_parser s t"
  "same_parser s (t\<lparr>AppKeypad := b\<rparr>) = same_parser s t"
  "same_parser s (t\<lparr>ReverseVideo := b\<rparr>) = same_parser s t"
  "same_parser s (t\<lparr>pendingWrap := b\<rparr>) = same_parser s t"
  "same_parser s (t\<lparr>AppCursorKeys := b\<rparr>) = same_parser s t"
  "same_parser s (t\<lparr>InsertMode := b\<rparr>) = same_parser s t"
  "same_parser s (t\<lparr>LRMarginMode := b\<rparr>) = same_parser s t"
  "same_parser s (t\<lparr>MousePixels := b\<rparr>) = same_parser s t"
  "same_parser s (t\<lparr>LineFeedNewLine := b\<rparr>) = same_parser s t"
  "same_parser s (t\<lparr>ReverseWrap := b\<rparr>) = same_parser s t"
  "same_parser s (t\<lparr>curIsoProtected := b\<rparr>) = same_parser s t"
  "same_parser s (t\<lparr>CursorHidden := b\<rparr>) = same_parser s t"
  "same_parser s (t\<lparr>BracketedPaste := b\<rparr>) = same_parser s t"
  "same_parser s (t\<lparr>allow80To132 := b\<rparr>) = same_parser s t"
  "same_parser s (t\<lparr>curProtected := b\<rparr>) = same_parser s t"
  "same_parser s (t\<lparr>moreFix := b\<rparr>) = same_parser s t"
  "same_parser s (t\<lparr>paletteChanged := b\<rparr>) = same_parser s t"
  by (simp_all add: same_parser_def)

lemma same_parser_refl [simp]: "same_parser s s"
  by (simp add: same_parser_def)

lemma scr_ok_iff: "scr.ok s t \<longleftrightarrow> wf t \<and> same_parser s t"
  by (simp add: scr.ok_def)

lemma wf_titleStack: "wf s \<Longrightarrow> length ts \<le> maxTitleStack \<Longrightarrow> wf (s\<lparr>titleStack := ts\<rparr>)"
  by (simp add: wf_defs)

lemma wf_kbd: "wf s \<Longrightarrow> length (kb_stack k) \<le> maxKbdStack \<Longrightarrow> wf (s\<lparr>mainKbd := k\<rparr>) \<and> wf (s\<lparr>altKbd := k\<rparr>)"
  by (simp add: wf_defs)

lemma wf_program: "wf s \<Longrightarrow> program_ok p \<Longrightarrow> wf (s\<lparr>program := p\<rparr>)"
  by (simp add: wf_defs)

lemma wf_gl: "wf s \<Longrightarrow> 0 \<le> i \<Longrightarrow> i < 4 \<Longrightarrow> wf (s\<lparr>gl := i\<rparr>)"
  by (simp add: wf_defs)

lemma wf_params: "wf s \<Longrightarrow> pState s \<noteq> stGround \<Longrightarrow> params_ok s"
  by (simp add: wf_def parser_wf_def)

end
