(* ===== verification/Sgr.thy ===== *)
theory Sgr
  imports Params GoText
begin

text \<open>
  Select Graphic Rendition (\<^verbatim>\<open>src/vt/sgr.go\<close>): the parameter loop of \<open>applySGR\<close> with
  both extended-color forms, and the parameter string that DECRQSS reports. The loop reads the
  parameter arrays of the parser; \<open>sgrSpec\<close> is the same switch over the list of parameter
  groups, and the refinement lemma \<open>applySGR_eq\<close> identifies the two. The round trip parses
  the reported string with the parser's own accumulator and replays it.
\<close>

section \<open>The code\<close>

definition clampByte :: "int \<Rightarrow> byte" where
  "clampByte v = (if v < 0 then 0 else if v > 255 then 255 else word_of_int v)"

text \<open>\<open>Params\<close> is an array of eight and every index into it is a constant below eight.\<close>

definition gval :: "param_group \<Rightarrow> nat \<Rightarrow> int" where
  "gval g k = uint (pgParams g ! k)"

definition indexed :: "int \<Rightarrow> color" where
  "indexed v = noColor\<lparr>cType := 1, cVal := word_of_int v\<rparr>"

definition palette :: "int \<Rightarrow> color" where
  "palette v = noColor\<lparr>cType := 2, cVal := clampByte v\<rparr>"

definition rgbColor :: "int \<Rightarrow> int \<Rightarrow> int \<Rightarrow> color" where
  "rgbColor r g b = noColor\<lparr>cType := 3, cR := clampByte r, cG := clampByte g, cB := clampByte b\<rparr>"

text \<open>The cases of the switch that only set attributes; an unknown parameter changes nothing.\<close>

definition sgrAttr :: "int \<Rightarrow> bool \<Rightarrow> int \<Rightarrow> sgr_style \<Rightarrow> sgr_style" where
  "sgrAttr p sub q st = (
     if p = 0 then noStyle
     else if p = 1 then st\<lparr>Bold := True\<rparr>
     else if p = 2 then st\<lparr>Dim := True\<rparr>
     else if p = 3 then st\<lparr>Italic := True\<rparr>
     else if p = 4 then
       (if sub then
          (if q = 0 then st\<lparr>Underline := False, DoubleUnderline := False\<rparr>
           else if q = 2 then st\<lparr>DoubleUnderline := True, Underline := False\<rparr>
           else st\<lparr>Underline := True, DoubleUnderline := False\<rparr>)
        else st\<lparr>Underline := True\<rparr>)
     else if p = 5 then st\<lparr>Blink := True\<rparr>
     else if p = 6 then st\<lparr>Blink := True\<rparr>
     else if p = 7 then st\<lparr>Inverse := True\<rparr>
     else if p = 8 then st\<lparr>Hidden := True\<rparr>
     else if p = 9 then st\<lparr>Strikethrough := True\<rparr>
     else if p = 21 then st\<lparr>DoubleUnderline := True, Underline := False\<rparr>
     else if p = 22 then st\<lparr>Bold := False, Dim := False\<rparr>
     else if p = 23 then st\<lparr>Italic := False\<rparr>
     else if p = 24 then st\<lparr>Underline := False, DoubleUnderline := False\<rparr>
     else if p = 25 then st\<lparr>Blink := False\<rparr>
     else if p = 27 then st\<lparr>Inverse := False\<rparr>
     else if p = 28 then st\<lparr>Hidden := False\<rparr>
     else if p = 29 then st\<lparr>Strikethrough := False\<rparr>
     else if p \<ge> 30 \<and> p \<le> 37 then st\<lparr>FG := indexed (p - 30)\<rparr>
     else if p = 39 then st\<lparr>FG := noColor\<rparr>
     else if p \<ge> 40 \<and> p \<le> 47 then st\<lparr>BG := indexed (p - 40)\<rparr>
     else if p = 49 then st\<lparr>BG := noColor\<rparr>
     else if p = 53 then st\<lparr>Overline := True\<rparr>
     else if p = 55 then st\<lparr>Overline := False\<rparr>
     else if p = 59 then st\<lparr>UnderlineColor := noColor\<rparr>
     else if p \<ge> 90 \<and> p \<le> 97 then st\<lparr>FG := indexed (p - 90 + 8)\<rparr>
     else if p \<ge> 100 \<and> p \<le> 107 then st\<lparr>BG := indexed (p - 100 + 8)\<rparr>
     else st)"

text \<open>The pointer argument \<open>*c\<close> is the color before and, in the result, after.\<close>

definition parseExtColorColon :: "param_group \<Rightarrow> color \<Rightarrow> color" where
  "parseExtColorColon g c = (
     if gval g 1 = 5 then palette (gval g 2)
     else if gval g 1 = 2 then
       (if pgLen g \<ge> 6 then rgbColor (gval g 3) (gval g 4) (gval g 5)
        else if pgLen g = 5 then rgbColor (gval g 2) (gval g 3) (gval g 4)
        else if pgLen g = 4 then rgbColor (gval g 2) (gval g 3) 0
        else c)
     else c)"

definition parseExtColorLegacy :: "int \<Rightarrow> color \<Rightarrow> 'a parser_state_scheme \<Rightarrow> (int \<times> color) option" where
  "parseExtColorLegacy i c s = (if i + 1 \<ge> paramCount s then Some (i, c)
     else do {
       modeGroup \<leftarrow> paramGroup (i + 1) s;
       if pgLen modeGroup = 0 then Some (i + 1, c)
       else if gval modeGroup 0 = 5 \<and> i + 2 < paramCount s then do {
         vg \<leftarrow> paramGroup (i + 2) s;
         Some (i + 2, if pgLen vg > 0 then palette (gval vg 0) else c) }
       else if gval modeGroup 0 = 2 \<and> i + 4 < paramCount s then do {
         rg \<leftarrow> paramGroup (i + 2) s;
         gg \<leftarrow> paramGroup (i + 3) s;
         bg \<leftarrow> paramGroup (i + 4) s;
         Some (i + 4, if pgLen rg > 0 \<and> pgLen gg > 0 \<and> pgLen bg > 0
           then rgbColor (gval rg 0) (gval gg 0) (gval bg 0) else c) }
       else Some (i + 1, c) })"

definition parseExtColorGroup :: "int \<Rightarrow> color \<Rightarrow> 'a parser_state_scheme \<Rightarrow> (int \<times> color) option" where
  "parseExtColorGroup i c s = do {
     g \<leftarrow> paramGroup i s;
     if pgLen g \<ge> 3 then Some (i, parseExtColorColon g c) else parseExtColorLegacy i c s }"

text \<open>
  One round of the loop: the group index after the body and the style. The fuel of the loop is
  the number of groups, since the index grows in every round; running out of it would be
  \<open>None\<close>, which the refinement lemma excludes.
\<close>

definition sgrBody :: "int \<Rightarrow> 'a parser_state_scheme \<Rightarrow> sgr_style \<Rightarrow> (int \<times> sgr_style) option" where
  "sgrBody i s st = do {
     g \<leftarrow> paramGroup i s;
     if pgLen g = 0 then Some (i, st)
     else let p = gval g 0 in
       if p = 38 then do { (i, c) \<leftarrow> parseExtColorGroup i (FG st) s; Some (i, st\<lparr>FG := c\<rparr>) }
       else if p = 48 then do { (i, c) \<leftarrow> parseExtColorGroup i (BG st) s; Some (i, st\<lparr>BG := c\<rparr>) }
       else if p = 58 then do {
         (i, c) \<leftarrow> parseExtColorGroup i (UnderlineColor st) s; Some (i, st\<lparr>UnderlineColor := c\<rparr>) }
       else Some (i, sgrAttr p (pgLen g \<ge> 2) (gval g 1) st) }"

fun sgrLoop :: "nat \<Rightarrow> int \<Rightarrow> 'a parser_state_scheme \<Rightarrow> sgr_style \<Rightarrow> sgr_style option" where
  "sgrLoop fuel i s st = (if i \<ge> paramCount s then Some st
     else case fuel of 0 \<Rightarrow> None
       | Suc fuel \<Rightarrow> do { (i, st) \<leftarrow> sgrBody i s st; sgrLoop fuel (i + 1) s st })"

definition applySGR :: "'a cursor_state_scheme \<Rightarrow> 'a cursor_state_scheme option" where
  "applySGR s = do {
     p0 \<leftarrow> get_at (pParams s) 0;
     if numGroups s = 0 \<or> (numGroups s = 1 \<and> numParams s = 1 \<and> p0 = 0)
     then Some (s\<lparr>style := noStyle\<rparr>)
     else do {
       st \<leftarrow> sgrLoop (nat (paramCount s)) 0 s (style s);
       Some (s\<lparr>style := st\<rparr>) } }"

text \<open>The parameter string, built as the list of its decimal numbers and joined with semicolons.\<close>

definition appendColorParams :: "int list \<Rightarrow> color \<Rightarrow> int \<Rightarrow> int list" where
  "appendColorParams params c base = params @ (
     if cType c = 1 then
       (if cVal c < 8 then [base + uint (cVal c)] else [base + 60 + uint (cVal c) - 8])
     else if cType c = 2 then [base + 8, 5, uint (cVal c)]
     else if cType c = 3 then [base + 8, 2, uint (cR c), uint (cG c), uint (cB c)]
     else [])"

definition appendUnderlineColorParams :: "int list \<Rightarrow> color \<Rightarrow> int list" where
  "appendUnderlineColorParams params c = params @ (
     if cType c = 2 then [58, 5, uint (cVal c)]
     else if cType c = 3 then [58, 2, uint (cR c), uint (cG c), uint (cB c)]
     else [])"

definition flagParam :: "bool \<Rightarrow> int \<Rightarrow> int list" where
  "flagParam b n = (if b then [n] else [])"

definition sgrCodes :: "sgr_style \<Rightarrow> int list" where
  "sgrCodes st = (if st = noStyle then [0] else
     let params = [0] @ flagParam (Bold st) 1 @ flagParam (Dim st) 2 @ flagParam (Italic st) 3
           @ flagParam (Underline st) 4 @ flagParam (DoubleUnderline st) 21
           @ flagParam (Blink st) 5 @ flagParam (Inverse st) 7 @ flagParam (Hidden st) 8
           @ flagParam (Strikethrough st) 9 @ flagParam (Overline st) 53;
         params = appendColorParams params (FG st) 30;
         params = appendColorParams params (BG st) 40
     in if cType (UnderlineColor st) \<noteq> 0
        then appendUnderlineColorParams params (UnderlineColor st) else params)"

fun joinWith :: "byte \<Rightarrow> byte list list \<Rightarrow> byte list" where
  "joinWith sep [] = []"
| "joinWith sep [w] = w"
| "joinWith sep (w # ws) = w @ sep # joinWith sep ws"

definition sgrParamsString :: "sgr_style \<Rightarrow> byte list" where
  "sgrParamsString st = joinWith (chr CHR '';'') (map itoa (sgrCodes st))"

definition sgrSequence :: "sgr_style \<Rightarrow> byte list" where
  "sgrSequence st = [0x1B] @ str ''['' @ sgrParamsString st @ str ''m''"

section \<open>The switch over parameter groups\<close>

definition gv :: "u16 list \<Rightarrow> nat \<Rightarrow> int" where
  "gv g k = (if k < length g then uint (g ! k) else 0)"

definition extColon :: "u16 list \<Rightarrow> color \<Rightarrow> color" where
  "extColon g c = (
     if gv g 1 = 5 then palette (gv g 2)
     else if gv g 1 = 2 then
       (if length g \<ge> 6 then rgbColor (gv g 3) (gv g 4) (gv g 5)
        else if length g = 5 then rgbColor (gv g 2) (gv g 3) (gv g 4)
        else if length g = 4 then rgbColor (gv g 2) (gv g 3) 0
        else c)
     else c)"

text \<open>The number of following groups an extended color takes, and the color.\<close>

definition extLegacy :: "u16 list list \<Rightarrow> color \<Rightarrow> nat \<times> color" where
  "extLegacy gs c = (if gs = [] then (0, c)
     else if gs ! 0 = [] then (1, c)
     else if gv (gs ! 0) 0 = 5 \<and> 1 < length gs then
       (2, if gs ! 1 \<noteq> [] then palette (gv (gs ! 1) 0) else c)
     else if gv (gs ! 0) 0 = 2 \<and> 3 < length gs then
       (4, if gs ! 1 \<noteq> [] \<and> gs ! 2 \<noteq> [] \<and> gs ! 3 \<noteq> []
           then rgbColor (gv (gs ! 1) 0) (gv (gs ! 2) 0) (gv (gs ! 3) 0) else c)
     else (1, c))"

definition extGroup :: "u16 list \<Rightarrow> u16 list list \<Rightarrow> color \<Rightarrow> nat \<times> color" where
  "extGroup g gs c = (if length g \<ge> 3 then (0, extColon g c) else extLegacy gs c)"

definition sgrRound :: "u16 list \<Rightarrow> u16 list list \<Rightarrow> sgr_style \<Rightarrow> nat \<times> sgr_style" where
  "sgrRound g gs st = (
     if g = [] then (0, st)
     else if gv g 0 = 38 then (case extGroup g gs (FG st) of (k, c) \<Rightarrow> (k, st\<lparr>FG := c\<rparr>))
     else if gv g 0 = 48 then (case extGroup g gs (BG st) of (k, c) \<Rightarrow> (k, st\<lparr>BG := c\<rparr>))
     else if gv g 0 = 58 then
       (case extGroup g gs (UnderlineColor st) of (k, c) \<Rightarrow> (k, st\<lparr>UnderlineColor := c\<rparr>))
     else (0, sgrAttr (gv g 0) (length g \<ge> 2) (gv g 1) st))"

function sgrSpec :: "u16 list list \<Rightarrow> sgr_style \<Rightarrow> sgr_style" where
  "sgrSpec [] st = st"
| "sgrSpec (g # gs) st = (case sgrRound g gs st of (k, st') \<Rightarrow> sgrSpec (drop k gs) st')"
  by pat_completeness auto
termination
  by (relation "measure (\<lambda>(gs, _). length gs)") auto

section \<open>The loop implements the switch\<close>

lemma gval_groupValue: "k < 8 \<Longrightarrow> gval (groupValue g) k = gv g k"
  by (auto simp: gval_def gv_def groupValue_def Let_def nth_append min_def)

lemma pgLen_conds: "pgLen (groupValue g) = 0 \<longleftrightarrow> g = []" "0 < pgLen (groupValue g) \<longleftrightarrow> g \<noteq> []"
  "2 \<le> pgLen (groupValue g) \<longleftrightarrow> 2 \<le> length g" "3 \<le> pgLen (groupValue g) \<longleftrightarrow> 3 \<le> length g"
  "6 \<le> pgLen (groupValue g) \<longleftrightarrow> 6 \<le> length g"
  "pgLen (groupValue g) = 5 \<longleftrightarrow> length g = 5" "pgLen (groupValue g) = 4 \<longleftrightarrow> length g = 4"
  by (auto simp: pgLen_groupValue min_def split: if_splits)

lemma colon_eq: "parseExtColorColon (groupValue g) c = extColon g c"
  by (simp add: parseExtColorColon_def extColon_def gval_groupValue pgLen_conds)

lemma count_split:
  assumes "params_ok s" "groupsOf s = pre @ rest"
  shows "paramCount s = int (length pre) + int (length rest)"
  using length_groupsOf [OF assms(1)] assms(2) by (simp add: paramCount_def)

lemma group_at:
  assumes "params_ok s" "groupsOf s = pre @ rest" "k < length rest"
  shows "paramGroup (int (length pre) + int k) s = Some (groupValue (rest ! k))"
  using assms(2,3) paramGroup_eq [OF assms(1), of "int (length pre) + int k"]
    count_split [OF assms(1,2)]
  by (simp add: paramCount_def nat_add_distrib nth_append)

lemma legacy_eq:
  assumes "params_ok s" "groupsOf s = pre @ g # gs"
  shows "parseExtColorLegacy (int (length pre)) c s
    = Some (case extLegacy gs c of (k, c') \<Rightarrow> (int (length pre) + int k, c'))"
proof -
  note at = group_at [OF assms]
  have g: "paramGroup (int (length pre) + 1) s = Some (groupValue (gs ! 0))" if "gs \<noteq> []"
    using at [of 1] that by simp
  have g2: "paramGroup (int (length pre) + 2) s = Some (groupValue (gs ! 1))" if "1 < length gs"
    using at [of 2] that by simp
  have g34: "paramGroup (int (length pre) + 3) s = Some (groupValue (gs ! 2))"
    "paramGroup (int (length pre) + 4) s = Some (groupValue (gs ! 3))" if "3 < length gs"
    using at [of 3] at [of 4] that by simp_all
  have z: "gs ! 0 = [] \<longleftrightarrow> pgLen (groupValue (gs ! 0)) = 0" by (simp add: pgLen_conds)
  show ?thesis
    using g g2 g34 count_split [OF assms] unfolding parseExtColorLegacy_def extLegacy_def
    by (auto simp: gval_groupValue pgLen_conds)
qed

lemma extGroup_eq:
  assumes "params_ok s" "groupsOf s = pre @ g # gs"
  shows "parseExtColorGroup (int (length pre)) c s
    = Some (case extGroup g gs c of (k, c') \<Rightarrow> (int (length pre) + int k, c'))"
  using group_at [OF assms, of 0] legacy_eq [OF assms, of c]
  by (simp add: parseExtColorGroup_def extGroup_def pgLen_conds colon_eq)

lemma sgrBody_eq:
  assumes "params_ok s" "groupsOf s = pre @ g # gs"
  shows "sgrBody (int (length pre)) s st
    = Some (case sgrRound g gs st of (k, st') \<Rightarrow> (int (length pre) + int k, st'))"
  using group_at [OF assms, of 0] extGroup_eq [OF assms]
  by (auto simp: sgrBody_def sgrRound_def pgLen_conds gval_groupValue Let_def split: prod.splits)

lemma extGroup_le: "fst (extGroup g gs c) \<le> length gs"
  by (cases gs) (auto simp: extGroup_def extLegacy_def Suc_le_eq)

lemma sgrRound_le: "sgrRound g gs st = (k, st') \<Longrightarrow> k \<le> length gs"
  using extGroup_le [of g gs] by (auto simp: sgrRound_def split: if_splits prod.splits) (metis fst_conv)+

lemma sgrLoop_eq:
  assumes "params_ok s" "groupsOf s = pre @ rest" "length rest \<le> fuel"
  shows "sgrLoop fuel (int (length pre)) s st = Some (sgrSpec rest st)"
  using assms(2,3)
proof (induction fuel arbitrary: pre rest st)
  case 0
  then show ?case using count_split [OF assms(1) 0(1)] by simp
next
  case (Suc fuel)
  note cnt = count_split [OF assms(1) Suc.prems(1)]
  show ?case
  proof (cases rest)
    case Nil
    then show ?thesis using cnt by simp
  next
    case (Cons g gs)
    obtain k st' where r: "sgrRound g gs st = (k, st')" by fastforce
    have k: "k \<le> length gs" using r by (rule sgrRound_le)
    have len: "int (length (pre @ g # take k gs)) = int (length pre) + int k + 1" using k by simp
    have "sgrLoop fuel (int (length (pre @ g # take k gs))) s st' = Some (sgrSpec (drop k gs) st')"
      by (rule Suc.IH) (use Suc.prems Cons k in simp_all)
    then show ?thesis
      using cnt Cons r sgrBody_eq [OF assms(1), of pre g gs st] Suc.prems(1)
      unfolding len by simp
  qed
qed

lemma applySGR_eq:
  assumes "params_ok s"
  shows "applySGR s = Some (s\<lparr>style := sgrSpec (groupsOf s) (style s)\<rparr>)"
proof -
  have loop: "sgrLoop (nat (paramCount s)) 0 s (style s) = Some (sgrSpec (groupsOf s) (style s))"
    using sgrLoop_eq [OF assms, of "[]" "groupsOf s" "nat (paramCount s)"] length_groupsOf [OF assms]
    by (simp add: paramCount_def)
  from assms obtain gs m where s: "length (pParams s) = 32" "length (pGroupLen s) = 32"
    "reps (pGroupLen s) 0 (gs @ [m])" "numGroups s = int (length gs) + 1"
    "numParams s = int (sum_list gs + m)" by (rule params_okE)
  have "sgrSpec (groupsOf s) (style s) = noStyle"
    if "numGroups s = 1" "numParams s = 1" "pParams s ! 0 = 0"
  proof -
    obtain v vs where v: "pParams s = v # vs" using s(1) by (cases "pParams s") auto
    have "groupsOf s = [[pParams s ! 0]]"
      using that(1,2) s groupsOf_chop [OF s(3,4)] v by simp
    with that(3) show ?thesis by (simp add: sgrRound_def gv_def sgrAttr_def)
  qed
  then have early: "numGroups s = 0 \<or> (numGroups s = 1 \<and> numParams s = 1 \<and> pParams s ! 0 = 0)
      \<Longrightarrow> sgrSpec (groupsOf s) (style s) = noStyle"
    using s(4) by auto
  have "applySGR s = (if numGroups s = 0 \<or> (numGroups s = 1 \<and> numParams s = 1 \<and> pParams s ! 0 = 0)
      then Some (s\<lparr>style := noStyle\<rparr>) else Some (s\<lparr>style := sgrSpec (groupsOf s) (style s)\<rparr>))"
    unfolding applySGR_def loop using s(1) by (simp add: get_at_Some)
  with early show ?thesis by (auto split: if_splits)
qed


section \<open>Styles the report reproduces\<close>

text \<open>Every color the code builds is one of these, and an underline color is never indexed.\<close>

definition color_ok :: "color \<Rightarrow> bool" where
  "color_ok c \<longleftrightarrow> c = noColor \<or> (\<exists>v. 0 \<le> v \<and> v < 16 \<and> c = indexed v) \<or> (\<exists>v. c = palette v)
     \<or> (\<exists>r g b. c = rgbColor r g b)"

definition style_ok :: "sgr_style \<Rightarrow> bool" where
  "style_ok st \<longleftrightarrow> color_ok (FG st) \<and> color_ok (BG st) \<and> color_ok (UnderlineColor st)
     \<and> cType (UnderlineColor st) \<noteq> 1"

lemma color_okI [simp]: "color_ok noColor" "0 \<le> v \<Longrightarrow> v < 16 \<Longrightarrow> color_ok (indexed v)"
  "color_ok (palette w)" "color_ok (rgbColor r g b)"
  unfolding color_ok_def by blast+

lemma cType_simps [simp]: "cType noColor = 0" "cType (indexed v) = 1" "cType (palette v) = 2"
  "cType (rgbColor r g b) = 3"
  by (simp_all add: noColor_def indexed_def palette_def rgbColor_def)

lemma noStyle_ok [simp]: "style_ok noStyle"
  by (simp add: style_ok_def noStyle_def)

lemma sgrAttr_ok: "style_ok st \<Longrightarrow> style_ok (sgrAttr p sub q st)"
  by (simp add: sgrAttr_def) (simp add: style_ok_def)

lemma extGroup_ok: "color_ok c \<Longrightarrow> color_ok (snd (extGroup g gs c))
    \<and> (cType c \<noteq> 1 \<longrightarrow> cType (snd (extGroup g gs c)) \<noteq> 1)"
  by (simp add: extGroup_def extLegacy_def extColon_def)

lemma sgrRound_ok: "style_ok st \<Longrightarrow> style_ok (snd (sgrRound g gs st))"
  using extGroup_ok [of "FG st" g gs] extGroup_ok [of "BG st" g gs]
    extGroup_ok [of "UnderlineColor st" g gs] sgrAttr_ok [of st]
  by (auto simp: sgrRound_def style_ok_def split: prod.splits)

lemma sgrSpec_ok: "style_ok st \<Longrightarrow> style_ok (sgrSpec gs st)"
proof (induction gs st rule: sgrSpec.induct)
  case (2 g gs st)
  with sgrRound_ok [of st g gs] show ?case by (auto split: prod.splits)
qed simp


section \<open>The report is a parameter text that restores the style\<close>

lemma digitStep_digit: "d < 10 \<Longrightarrow> 0 \<le> n \<Longrightarrow> n * 10 + int d \<le> 65535 \<Longrightarrow>
    digitStep (word_of_int n) (digitByte d) = word_of_int (n * 10 + int d)"
proof -
  assume d: "d < 10" and n: "0 \<le> n" "n * 10 + int d \<le> 65535"
  have "digitByte d - chr CHR ''0'' = word_of_int (int d)"
    by (simp add: digitByte_def)
  moreover have "uint (word_of_int (int d) :: byte) = int d" by (rule uint_byte_of_int) (use d in simp_all)
  moreover have "uint (word_of_int n :: u16) = n"
    using n by (simp add: unsigned_of_int take_bit_int_eq_self_iff)
  ultimately show ?thesis using n by (simp add: digitStep_def maxCSIArgValue_def)
qed

lemma textValue_natDigits: "n \<le> 65535 \<Longrightarrow> textValue (natDigits n) = word_of_int (int n)"
proof (induction n rule: natDigits.induct)
  case (1 n)
  show ?case
  proof (cases "n < 10")
    case True
    then show ?thesis
      using digitStep_digit [of n 0] by (simp add: natDigits.simps [of n] textValue_def)
  next
    case False
    have "n = n div 10 * 10 + n mod 10" by simp
    then have n: "int n = int (n div 10) * 10 + int (n mod 10)"
      by (metis of_nat_add of_nat_mult of_nat_numeral)
    have "textValue (natDigits n) = digitStep (word_of_int (int (n div 10))) (digitByte (n mod 10))"
      using False 1 by (simp add: natDigits.simps [of n] textValue_def)
    also have "\<dots> = word_of_int (int (n div 10) * 10 + int (n mod 10))"
      by (rule digitStep_digit) (use 1(2) n in linarith)+
    finally show ?thesis using n by simp
  qed
qed

lemma splitOn_clean: "c \<notin> set w \<Longrightarrow> splitOn c w = [w]"
  by (induction w) auto

lemma splitOn_append: "c \<notin> set w \<Longrightarrow> splitOn c (w @ c # xs) = w # splitOn c xs"
  by (induction w) auto

lemma splitOn_join: "ws \<noteq> [] \<Longrightarrow> \<forall>w \<in> set ws. c \<notin> set w \<Longrightarrow> splitOn c (joinWith c ws) = ws"
  by (induction c ws rule: joinWith.induct) (simp_all add: splitOn_clean splitOn_append)

lemma itoa_clean: "0 \<le> n \<Longrightarrow> chr CHR '';'' \<notin> set (itoa n) \<and> chr CHR '':'' \<notin> set (itoa n)"
  using natDigits_digits [of "nat n"] by (force simp: itoa_def isDigit_def)

lemma textGroups_join:
  assumes "ns \<noteq> []" "\<forall>n \<in> set ns. 0 \<le> n \<and> n \<le> 65535"
  shows "textGroups (joinWith (chr CHR '';'') (map itoa ns)) = map (\<lambda>n. [word_of_int n]) ns"
proof -
  have "splitOn (chr CHR '';'') (joinWith (chr CHR '';'') (map itoa ns)) = map itoa ns"
    by (rule splitOn_join) (use assms itoa_clean in auto)
  moreover have "map textValue (splitOn (chr CHR '':'') (itoa n)) = [word_of_int n]" if "n \<in> set ns" for n
    using that assms itoa_clean [of n] textValue_natDigits [of "nat n"]
    by (auto simp: splitOn_clean itoa_def)
  ultimately show ?thesis by (simp add: textGroups_def)
qed

abbreviation codes :: "int list \<Rightarrow> u16 list list" where
  "codes ns \<equiv> map (\<lambda>n. [word_of_int n]) ns"

lemma gv_code: "0 \<le> n \<Longrightarrow> n \<le> 65535 \<Longrightarrow> gv [word_of_int n] 0 = n"
  by (simp add: gv_def unsigned_of_int take_bit_int_eq_self_iff)

lemma spec_attr: "0 \<le> n \<Longrightarrow> n \<le> 65535 \<Longrightarrow> n \<notin> {38, 48, 58} \<Longrightarrow>
    sgrSpec ([word_of_int n] # gs) st = sgrSpec gs (sgrAttr n False 0 st)"
  by (simp add: sgrRound_def gv_code gv_def [of _ "Suc 0"])

lemma spec_flag: "0 \<le> n \<Longrightarrow> n \<le> 65535 \<Longrightarrow> n \<notin> {38, 48, 58} \<Longrightarrow>
    sgrSpec (codes (flagParam b n) @ gs) st = sgrSpec gs (if b then sgrAttr n False 0 st else st)"
  by (cases b) (simp_all add: flagParam_def spec_attr del: sgrSpec.simps)

text \<open>One extended color, and one color of any kind, set at either base.\<close>

lemma u8_le [simp]: "uint (v :: byte) \<le> 65535"
  using uint_bounded [of v] by simp

lemma gv_byte: "gv [word_of_int (uint (v :: byte))] 0 = uint v"
  by (rule gv_code) simp_all

lemma gv_one: "gv [x] 0 = uint x"
  by (simp add: gv_def)

lemma ext_palette: "extGroup [n] ([word_of_int 5] # [word_of_int (uint (v :: byte))] # gs) c
    = (2, palette (uint v))"
  using gv_byte [of v] by (simp add: extGroup_def extLegacy_def gv_one)

lemma ext_rgb: "extGroup [n] ([word_of_int 2] # [word_of_int (uint (r :: byte))]
      # [word_of_int (uint (g :: byte))] # [word_of_int (uint (b :: byte))] # gs) c
    = (4, rgbColor (uint r) (uint g) (uint b))"
  using gv_byte [of r] gv_byte [of g] gv_byte [of b]
  by (simp add: extGroup_def extLegacy_def gv_one)

lemma spec_ext:
  assumes "gv g 0 = n" "n = 38 \<or> n = 48 \<or> n = 58" "\<And>c. extGroup g gs c = (k, e)"
  shows "sgrSpec (g # gs) st = sgrSpec (drop k gs) (if n = 38 then st\<lparr>FG := e\<rparr>
      else if n = 48 then st\<lparr>BG := e\<rparr> else st\<lparr>UnderlineColor := e\<rparr>)"
proof -
  have "g \<noteq> []" using assms(1,2) by (auto simp: gv_def)
  then have "sgrRound g gs st = (k, if n = 38 then st\<lparr>FG := e\<rparr>
      else if n = 48 then st\<lparr>BG := e\<rparr> else st\<lparr>UnderlineColor := e\<rparr>)"
    using assms(1,2) by (auto simp: sgrRound_def assms(3))
  then show ?thesis by simp
qed

lemma clampByte_uint [simp]: "clampByte (uint w) = w"
proof -
  have "\<not> uint w < 0" "\<not> uint w > 255" using uint_bounded [of w] by simp_all
  then show ?thesis by (simp only: clampByte_def if_False word_of_int_uint)
qed

lemma palette_clamp [simp]: "palette (uint (clampByte v)) = palette v"
  by (simp add: palette_def)

lemma rgb_clamp [simp]: "rgbColor (uint (clampByte r)) (uint (clampByte g)) (uint (clampByte b)) = rgbColor r g b"
  by (simp add: rgbColor_def)

definition set_color :: "int \<Rightarrow> color \<Rightarrow> sgr_style \<Rightarrow> sgr_style" where
  "set_color base c st = (if base = 30 then st\<lparr>FG := c\<rparr> else st\<lparr>BG := c\<rparr>)"

lemma set_noColor: "base = 30 \<and> FG st = noColor \<or> base = 40 \<and> BG st = noColor \<Longrightarrow>
    set_color base noColor st = st"
  by (auto simp: set_color_def)

lemma attr_color:
  "0 \<le> v \<Longrightarrow> v < 8 \<Longrightarrow> sgrAttr (30 + v) sub q st = st\<lparr>FG := indexed v\<rparr>"
  "0 \<le> v \<Longrightarrow> v < 8 \<Longrightarrow> sgrAttr (40 + v) sub q st = st\<lparr>BG := indexed v\<rparr>"
  "8 \<le> v \<Longrightarrow> v < 16 \<Longrightarrow> sgrAttr (82 + v) sub q st = st\<lparr>FG := indexed v\<rparr>"
  "8 \<le> v \<Longrightarrow> v < 16 \<Longrightarrow> sgrAttr (92 + v) sub q st = st\<lparr>BG := indexed v\<rparr>"
  by (simp_all add: sgrAttr_def)

lemma color_codes:
  assumes "color_ok c" "base = 30 \<and> FG st = noColor \<or> base = 40 \<and> BG st = noColor"
  shows "sgrSpec (codes (appendColorParams [] c base) @ gs) st = sgrSpec gs (set_color base c st)"
proof -
  consider "c = noColor" | v where "0 \<le> v" "v < 16" "c = indexed v" | v where "c = palette v"
    | r g b where "c = rgbColor r g b"
    using assms(1) by (auto simp: color_ok_def)
  then show ?thesis
  proof cases
    case 1
    then show ?thesis using assms(2) by (simp add: appendColorParams_def set_noColor)
  next
    case 2
    have u: "uint (word_of_int v :: byte) = v" using 2 by (simp add: uint_byte_of_int)
    then have lt: "(word_of_int v :: byte) < 8 \<longleftrightarrow> v < 8" by (simp add: word_less_def)
    let ?n = "if v < 8 then base + v else base + 60 + v - 8"
    have "appendColorParams [] c base = [?n]"
      using 2 u lt by (simp add: appendColorParams_def indexed_def)
    moreover have "sgrSpec ([word_of_int ?n] # gs) st = sgrSpec gs (sgrAttr ?n False 0 st)"
      by (rule spec_attr) (use 2 assms(2) in auto)
    moreover have "sgrAttr ?n False 0 st = set_color base c st"
      using 2 assms(2) attr_color [of v False 0 st] by (cases "v < 8") (auto simp: set_color_def)
    ultimately show ?thesis by simp
  next
    case 3
    have "gv [word_of_int (base + 8)] 0 = base + 8" using assms(2) by (intro gv_code) auto
    then have "sgrSpec ([word_of_int (base + 8)] # [word_of_int 5]
        # [word_of_int (uint (clampByte v))] # gs) st = sgrSpec gs (set_color base c st)"
      using 3 assms(2) by (subst spec_ext [OF _ _ ext_palette]) (auto simp: set_color_def)
    moreover have "appendColorParams [] c base = [base + 8, 5, uint (clampByte v)]"
      using 3 by (simp add: appendColorParams_def) (simp add: palette_def)
    ultimately show ?thesis by (simp del: sgrSpec.simps of_int_add of_int_numeral)
  next
    case 4
    have "gv [word_of_int (base + 8)] 0 = base + 8" using assms(2) by (intro gv_code) auto
    then have "sgrSpec ([word_of_int (base + 8)] # [word_of_int 2]
        # [word_of_int (uint (clampByte r))] # [word_of_int (uint (clampByte g))]
        # [word_of_int (uint (clampByte b))] # gs) st = sgrSpec gs (set_color base c st)"
      using 4 assms(2) by (subst spec_ext [OF _ _ ext_rgb]) (auto simp: set_color_def)
    moreover have "appendColorParams [] c base
        = [base + 8, 2, uint (clampByte r), uint (clampByte g), uint (clampByte b)]"
      using 4 by (simp add: appendColorParams_def) (simp add: rgbColor_def)
    ultimately show ?thesis by (simp del: sgrSpec.simps of_int_add of_int_numeral)
  qed
qed


lemma underline_codes:
  assumes "color_ok c" "cType c \<noteq> 1" "UnderlineColor st = noColor"
  shows "sgrSpec (codes (appendUnderlineColorParams [] c) @ gs) st
    = sgrSpec gs (st\<lparr>UnderlineColor := c\<rparr>)"
proof -
  have b: "gv [word_of_int 58] 0 = 58" by (rule gv_code) simp_all
  consider "c = noColor" | v where "c = palette v" | r g b where "c = rgbColor r g b"
    using assms(1,2) by (auto simp: color_ok_def)
  then show ?thesis
  proof cases
    case 1
    then have "st\<lparr>UnderlineColor := c\<rparr> = st" using assms(3) by (cases st) simp
    with 1 show ?thesis by (simp add: appendUnderlineColorParams_def)
  next
    case 2
    have "sgrSpec ([word_of_int 58] # [word_of_int 5] # [word_of_int (uint (clampByte v))] # gs) st
        = sgrSpec gs (st\<lparr>UnderlineColor := c\<rparr>)"
      using 2 by (subst spec_ext [OF b _ ext_palette]) auto
    moreover have "appendUnderlineColorParams [] c = [58, 5, uint (clampByte v)]"
      using 2 by (simp add: appendUnderlineColorParams_def) (simp add: palette_def)
    ultimately show ?thesis by (simp del: sgrSpec.simps)
  next
    case 3
    have "sgrSpec ([word_of_int 58] # [word_of_int 2] # [word_of_int (uint (clampByte r))]
        # [word_of_int (uint (clampByte g))] # [word_of_int (uint (clampByte b))] # gs) st
        = sgrSpec gs (st\<lparr>UnderlineColor := c\<rparr>)"
      using 3 by (subst spec_ext [OF b _ ext_rgb]) auto
    moreover have "appendUnderlineColorParams [] c
        = [58, 2, uint (clampByte r), uint (clampByte g), uint (clampByte b)]"
      using 3 by (simp add: appendUnderlineColorParams_def) (simp add: rgbColor_def)
    ultimately show ?thesis by (simp del: sgrSpec.simps)
  qed
qed

text \<open>One flag of the report, replayed on a style that does not have it yet.\<close>

lemma flag_codes:
  "\<not> Bold st \<Longrightarrow> sgrSpec (codes (flagParam b 1) @ gs) st = sgrSpec gs (st\<lparr>Bold := b\<rparr>)"
  "\<not> Dim st \<Longrightarrow> sgrSpec (codes (flagParam b 2) @ gs) st = sgrSpec gs (st\<lparr>Dim := b\<rparr>)"
  "\<not> Italic st \<Longrightarrow> sgrSpec (codes (flagParam b 3) @ gs) st = sgrSpec gs (st\<lparr>Italic := b\<rparr>)"
  "\<not> Underline st \<Longrightarrow> sgrSpec (codes (flagParam b 4) @ gs) st = sgrSpec gs (st\<lparr>Underline := b\<rparr>)"
  "\<not> DoubleUnderline st \<Longrightarrow> sgrSpec (codes (flagParam b 21) @ gs) st
     = sgrSpec gs (st\<lparr>Underline := Underline st \<and> \<not> b, DoubleUnderline := b\<rparr>)"
  "\<not> Blink st \<Longrightarrow> sgrSpec (codes (flagParam b 5) @ gs) st = sgrSpec gs (st\<lparr>Blink := b\<rparr>)"
  "\<not> Inverse st \<Longrightarrow> sgrSpec (codes (flagParam b 7) @ gs) st = sgrSpec gs (st\<lparr>Inverse := b\<rparr>)"
  "\<not> Hidden st \<Longrightarrow> sgrSpec (codes (flagParam b 8) @ gs) st = sgrSpec gs (st\<lparr>Hidden := b\<rparr>)"
  "\<not> Strikethrough st \<Longrightarrow> sgrSpec (codes (flagParam b 9) @ gs) st = sgrSpec gs (st\<lparr>Strikethrough := b\<rparr>)"
  "\<not> Overline st \<Longrightarrow> sgrSpec (codes (flagParam b 53) @ gs) st = sgrSpec gs (st\<lparr>Overline := b\<rparr>)"
  by (cases st; cases b; subst spec_flag; simp add: sgrAttr_def)+

lemma noStyle_fields: "FG noStyle = noColor" "BG noStyle = noColor" "UnderlineColor noStyle = noColor"
  "\<not> Bold noStyle" "\<not> Dim noStyle" "\<not> Italic noStyle" "\<not> Underline noStyle"
  "\<not> DoubleUnderline noStyle" "\<not> Overline noStyle" "\<not> Blink noStyle" "\<not> Inverse noStyle"
  "\<not> Strikethrough noStyle" "\<not> Hidden noStyle"
  by (simp_all add: noStyle_def)

definition oneUnderline :: "sgr_style \<Rightarrow> sgr_style" where
  "oneUnderline st = st\<lparr>Underline := Underline st \<and> \<not> DoubleUnderline st\<rparr>"

lemma appendColor_split: "appendColorParams params c base = params @ appendColorParams [] c base"
  by (simp add: appendColorParams_def)

lemma appendUnderline_split: "(if cType c \<noteq> 0 then appendUnderlineColorParams params c else params)
    = params @ appendUnderlineColorParams [] c"
  by (simp add: appendUnderlineColorParams_def)

lemma sgrSpec_codes:
  assumes "style_ok st"
  shows "sgrSpec (codes (sgrCodes st)) st0 = oneUnderline st"
proof (cases "st = noStyle")
  case True
  then show ?thesis
    by (simp add: sgrCodes_def sgrRound_def gv_def sgrAttr_def oneUnderline_def) (simp add: noStyle_def)
next
  case False
  let ?flags = "codes (flagParam (Bold st) 1) @ codes (flagParam (Dim st) 2) @ codes (flagParam (Italic st) 3)
       @ codes (flagParam (Underline st) 4) @ codes (flagParam (DoubleUnderline st) 21)
       @ codes (flagParam (Blink st) 5) @ codes (flagParam (Inverse st) 7) @ codes (flagParam (Hidden st) 8)
       @ codes (flagParam (Strikethrough st) 9) @ codes (flagParam (Overline st) 53)"
  let ?cols = "codes (appendColorParams [] (FG st) 30) @ codes (appendColorParams [] (BG st) 40)
       @ codes (appendUnderlineColorParams [] (UnderlineColor st)) @ []"
  let ?st = "(oneUnderline st)\<lparr>FG := noColor, BG := noColor, UnderlineColor := noColor\<rparr>"
  have c: "codes (sgrCodes st) = [0] # ?flags @ ?cols"
    using False appendUnderline_split [of "UnderlineColor st"] appendColor_split [of "_ # _"]
      appendColor_split [of "_ @ _"]
    by (simp add: sgrCodes_def Let_def)
  have "sgrSpec ([0] # ?flags @ ?cols) st0 = sgrSpec (?flags @ ?cols) noStyle"
    by (simp add: sgrRound_def gv_def sgrAttr_def del: append_Nil2)
  also have "\<dots> = sgrSpec ?cols ?st"
    by (cases st) (simp add: flag_codes noStyle_def oneUnderline_def)
  also have "\<dots> = sgrSpec [] (set_color 40 (BG st) (set_color 30 (FG st) ?st)\<lparr>UnderlineColor := UnderlineColor st\<rparr>)"
    using assms unfolding style_ok_def
    by (simp add: color_codes underline_codes set_color_def del: append_Nil2)
  finally show ?thesis using c by (simp add: set_color_def oneUnderline_def)
qed


lemma sgrCodes_range: "\<forall>n \<in> set (sgrCodes st). 0 \<le> n \<and> n \<le> 65535"
proof -
  have u: "0 \<le> uint v \<and> uint v \<le> 255" for v :: byte using uint_bounded [of v] by simp
  have c: "\<forall>n \<in> set (appendColorParams [] c base). 0 \<le> n \<and> n \<le> 65535"
    if "base = 30 \<or> base = 40" for c base
    using that u [of "cVal c"] u [of "cR c"] u [of "cG c"] u [of "cB c"]
    by (auto simp: appendColorParams_def)
  have uc: "\<forall>n \<in> set (appendUnderlineColorParams [] c). 0 \<le> n \<and> n \<le> 65535" for c
    using u [of "cVal c"] u [of "cR c"] u [of "cG c"] u [of "cB c"]
    by (auto simp: appendUnderlineColorParams_def)
  have f: "\<forall>n \<in> set (flagParam b k). 0 \<le> n \<and> n \<le> 65535" if "0 \<le> k" "k \<le> 65535" for b k
    using that by (simp add: flagParam_def)
  show ?thesis
    unfolding sgrCodes_def Let_def appendUnderline_split appendColor_split [of "_ @ _"]
      appendColor_split [of "appendColorParams _ _ _"]
    using uc by (simp add: ball_Un) (intro impI conjI f c; simp)
qed

lemma sgrCodes_length: "1 \<le> length (sgrCodes st) \<and> length (sgrCodes st) \<le> 26"
proof -
  have c: "length (appendColorParams [] c base) \<le> 5" for c base
    by (simp add: appendColorParams_def)
  have uc: "length (appendUnderlineColorParams [] c) \<le> 5" for c
    by (simp add: appendUnderlineColorParams_def)
  have f: "length (flagParam b k) \<le> 1" for b k by (simp add: flagParam_def)
  have "length (sgrCodes st) \<le> 26"
    unfolding sgrCodes_def Let_def appendUnderline_split appendColor_split [of "_ @ _"]
      appendColor_split [of "appendColorParams _ _ _"]
    using c [of "FG st" 30] c [of "BG st" 40] uc [of "UnderlineColor st"] f [of "Bold st" 1]
      f [of "Dim st" 2] f [of "Italic st" 3] f [of "Underline st" 4] f [of "DoubleUnderline st" 21]
      f [of "Blink st" 5] f [of "Inverse st" 7] f [of "Hidden st" 8] f [of "Strikethrough st" 9]
      f [of "Overline st" 53] by simp
  moreover have "sgrCodes st \<noteq> []" by (auto simp: sgrCodes_def Let_def appendColorParams_def appendUnderlineColorParams_def)
  ultimately show ?thesis by (simp add: Suc_le_eq)
qed

lemma sgrParams_groups: "textGroups (sgrParamsString st) = codes (sgrCodes st)"
  unfolding sgrParamsString_def
  by (rule textGroups_join) (use sgrCodes_range [of st] sgrCodes_length [of st] in auto)


lemma separators_clean: "chr CHR '';'' \<notin> set w \<Longrightarrow> chr CHR '':'' \<notin> set w \<Longrightarrow> separators w = 0"
  by (induction w) (auto simp: separators_def)

lemma separators_join: "ws \<noteq> [] \<Longrightarrow> \<forall>w \<in> set ws. chr CHR '';'' \<notin> set w \<and> chr CHR '':'' \<notin> set w \<Longrightarrow>
    separators (joinWith (chr CHR '';'') ws) < length ws"
proof (induction "chr CHR '';''" ws rule: joinWith.induct)
  case (3 w v vs)
  then have "separators w = 0" by (simp add: separators_clean)
  with 3 show ?case by (simp add: separators_def)
qed (simp_all add: separators_clean)

text \<open>
  C9: the parameter string that DECRQSS reports for a style (\<open>sgrParamsString\<close>) fits the
  parser's parameter limits, and when it is fed back through the parser's accumulator and applied,
  whatever style was current before, it restores exactly the reported style; the one exception is
  a style with both underline flags set, of which only the double underline comes back.
\<close>

theorem sgr_report_roundtrip:
  assumes "length (pParams s) = 32" "length (pGroupLen s) = 32" "style_ok st"
  shows "ensures (parserClear s \<bind> foldM feedParam (sgrParamsString st) \<bind> finalizeParams \<bind> applySGR)
    (\<lambda>s'. style s' = (if Underline st \<and> DoubleUnderline st then st\<lparr>Underline := False\<rparr> else st))"
proof -
  have one: "oneUnderline st = (if Underline st \<and> DoubleUnderline st then st\<lparr>Underline := False\<rparr> else st)"
    by (cases st) (auto simp: oneUnderline_def)
  have "separators (sgrParamsString st) < length (sgrCodes st)"
  proof -
    have clean: "\<forall>w \<in> set (map itoa (sgrCodes st)). chr CHR '';'' \<notin> set w \<and> chr CHR '':'' \<notin> set w"
      using sgrCodes_range [of st] itoa_clean by fastforce
    have "map itoa (sgrCodes st) \<noteq> []" using sgrCodes_length [of st] by auto
    from separators_join [OF this clean] show ?thesis
      unfolding sgrParamsString_def by (simp only: length_map)
  qed
  then have "separators (sgrParamsString st) \<le> 31" using sgrCodes_length [of st] by simp
  from params_parsed [OF assms(1,2) this] show ?thesis
    unfolding ensures_bind [of _ applySGR]
    by (rule ensures_mono)
       (simp add: applySGR_eq sgrParams_groups sgrSpec_codes [OF assms(3)] one)
qed


definition demoState :: cursor_state where
  "demoState = \<lparr>oscBuf = [], dcsBuf = [], utf8Buf = replicate 4 0, pParams = replicate 32 0,
     pGroupLen = replicate 32 0, numParams = 0, numGroups = 0, curParam = 0,
     pIntermed = replicate 2 0, numInterm = 0, utf8Len = 0, utf8Got = 0, pState = stGround,
     dcsFunc = dcsNone, ignoring = False, privateMarker = 0, oscOverflow = False, dcsOverflow = False,
     gsets = replicate 4 charsetASCII, gl = 0, singleShft = -1, style = noStyle,
     mainSaved = \<lparr>sc_style = noStyle, sc_charsets = [], sc_x = 0, sc_y = 0, sc_gl = 0, sc_origin = False,
       sc_pendingWrap = False, sc_protected = False, sc_valid = False\<rparr>,
     altSaved = \<lparr>sc_style = noStyle, sc_charsets = [], sc_x = 0, sc_y = 0, sc_gl = 0, sc_origin = False,
       sc_pendingWrap = False, sc_protected = False, sc_valid = False\<rparr>, curY = 0, curX = 0\<rparr>"

definition demoStyle :: sgr_style where
  "demoStyle = noStyle\<lparr>Bold := True, FG := indexed 9, UnderlineColor := rgbColor 1 2 3\<rparr>"

lemma sgr_report_roundtrip_witness:
  "ensures (parserClear demoState \<bind> foldM feedParam (sgrParamsString demoStyle) \<bind> finalizeParams
      \<bind> applySGR) (\<lambda>s'. style s' = demoStyle)"
proof -
  have "style_ok demoStyle" by (simp add: demoStyle_def style_ok_def noStyle_fields)
  moreover have "\<not> Underline demoStyle" by (simp add: demoStyle_def noStyle_fields)
  ultimately show ?thesis
    using sgr_report_roundtrip [of demoState demoStyle] by (simp add: demoState_def)
qed

end
