(* ===== verification/Reports.thy ===== *)
theory Reports
  imports Frame Sgr
begin

text \<open>
  The answers the terminal writes back to the program, and the small states they report: the
  kitty keyboard protocol (\<^verbatim>\<open>src/vt/kitty.go\<close>), the title stack and window reports, device
  attributes and device status (\<^verbatim>\<open>src/vt/csi.go\<close>), mode reports
  (\<^verbatim>\<open>src/vt/tabstops.go\<close>) and the DCS queries (\<^verbatim>\<open>src/vt/dcs.go\<close>). A reply is
  injected into the program's input, so the safety lemmas say which bytes of the program's own
  choosing a reply can carry.
\<close>

section \<open>Replies\<close>

definition ESC :: byte where "ESC = 0x1B"
definition ST :: "byte list" where "ST = [0x1B, 0x5C]"

definition respond :: "byte list \<Rightarrow> screen \<Rightarrow> screen" where
  "respond r s = s\<lparr>response := response s @ r\<rparr>"

text \<open>\<^verbatim>\<open>ESC [ body\<close>, \<^verbatim>\<open>ESC P body ST\<close> and \<^verbatim>\<open>ESC ] body ST\<close>.\<close>

definition csiReply :: "byte list \<Rightarrow> byte list" where
  "csiReply body = ESC # str ''['' @ body"

definition dcsReply :: "byte list \<Rightarrow> byte list" where
  "dcsReply body = ESC # str ''P'' @ body @ ST"

definition oscReply :: "byte list \<Rightarrow> byte list" where
  "oscReply body = ESC # str '']'' @ body @ ST"

section \<open>Kitty keyboard protocol\<close>

definition kbdHonoredMask :: byte where "kbdHonoredMask = 1"

definition activeKbd :: "screen \<Rightarrow> kbd_protocol" where
  "activeKbd s = (if InAltScreen s then altKbd s else mainKbd s)"

text \<open>A write through the pointer \<open>activeKbd\<close> returns.\<close>

definition setActiveKbd :: "kbd_protocol \<Rightarrow> screen \<Rightarrow> screen" where
  "setActiveKbd k s = (if InAltScreen s then s\<lparr>altKbd := k\<rparr> else s\<lparr>mainKbd := k\<rparr>)"

definition KeyboardFlags :: "screen \<Rightarrow> byte" where
  "KeyboardFlags s = kb_flags (activeKbd s)"

definition reportKeyboardFlags :: "screen \<Rightarrow> screen" where
  "reportKeyboardFlags s = respond (csiReply (str ''?'' @ itoa (uint (kb_flags (activeKbd s))) @ str ''u'')) s"

definition honored :: "int \<Rightarrow> byte" where
  "honored flags = word_of_int flags AND kbdHonoredMask"

definition pushKeyboardFlags :: "int \<Rightarrow> screen \<Rightarrow> screen" where
  "pushKeyboardFlags flags s = (let k = activeKbd s;
       stack = (if length (kb_stack k) \<ge> maxKbdStack then drop 1 (kb_stack k) else kb_stack k)
     in setActiveKbd \<lparr>kb_stack = stack @ [kb_flags k], kb_flags = honored flags\<rparr> s)"

text \<open>The loop of \<open>popKeyboardFlags\<close>, with the pops that are left over.\<close>

fun popLoop :: "nat \<Rightarrow> kbd_protocol \<Rightarrow> nat \<times> kbd_protocol" where
  "popLoop 0 k = (0, k)"
| "popLoop (Suc n) k = (if kb_stack k = [] then (Suc n, k)
     else popLoop n \<lparr>kb_stack = butlast (kb_stack k), kb_flags = last (kb_stack k)\<rparr>)"

definition popKeyboardFlags :: "int \<Rightarrow> screen \<Rightarrow> screen" where
  "popKeyboardFlags n s = (let (left, k) = popLoop (nat (max n 1)) (activeKbd s)
     in setActiveKbd (if left > 0 then k\<lparr>kb_flags := 0\<rparr> else k) s)"

definition setKeyboardFlags :: "int \<Rightarrow> int \<Rightarrow> screen \<Rightarrow> screen" where
  "setKeyboardFlags flags mode s = (let k = activeKbd s; f = honored flags in
     setActiveKbd (k\<lparr>kb_flags := (if mode = 3 then kb_flags k AND NOT f
       else if mode = 2 then kb_flags k OR f else f)\<rparr>) s)"

section \<open>Titles\<close>

definition isControlRune :: "rune \<Rightarrow> bool" where
  "isControlRune r \<longleftrightarrow> r < 0x20 \<or> r = 0x7F \<or> (r \<ge> 0x80 \<and> r \<le> 0x9F)"

definition stripControlRunes :: "byte list \<Rightarrow> byte list" where
  "stripControlRunes t = encodeRunes (filter (\<lambda>r. \<not> isControlRune r) (runesOf t))"

definition decodeTitle :: "byte list \<Rightarrow> screen \<Rightarrow> byte list" where
  "decodeTitle dt s = (if \<not> titleSetHex s then dt
     else case hexDecode dt of Some b \<Rightarrow> b | None \<Rightarrow> dt)"

definition encodeTitle :: "byte list \<Rightarrow> screen \<Rightarrow> byte list" where
  "encodeTitle title s = (if titleQueryHex s then hexEncode title else stripControlRunes title)"

text \<open>\<^verbatim>\<open>for i := range s.paramCount() { v := s.paramVal(i, 0); ... }\<close>\<close>

definition paramLoop :: "(int \<Rightarrow> screen \<Rightarrow> screen option) \<Rightarrow> screen \<Rightarrow> screen option" where
  "paramLoop f s = foldM (\<lambda>i s. do { v \<leftarrow> paramVal i 0 s; f v s }) [0..paramCount s - 1] s"

definition setTitleModes :: "bool \<Rightarrow> screen \<Rightarrow> screen option" where
  "setTitleModes on s = paramLoop (\<lambda>v s.
       Some (if v = 0 then s\<lparr>titleSetHex := on\<rparr>
         else if v = 1 then s\<lparr>titleQueryHex := on\<rparr> else s)) s"

definition pushTitle :: "int \<Rightarrow> screen \<Rightarrow> screen" where
  "pushTitle which s = (let ts = titleStack s @ [\<lparr>te_icon = iconTitle s, te_window = Title s\<rparr>]
     in s\<lparr>titleStack := (if length ts > maxTitleStack then drop (length ts - maxTitleStack) ts else ts)\<rparr>)"

definition popTitle :: "int \<Rightarrow> screen \<Rightarrow> screen" where
  "popTitle which s = (if titleStack s = [] then s
     else let top = last (titleStack s); s = s\<lparr>titleStack := butlast (titleStack s)\<rparr>;
              s = (if which = 0 \<or> which = 1 then s\<lparr>iconTitle := te_icon top\<rparr> else s)
          in if which = 0 \<or> which = 2 then s\<lparr>Title := te_window top\<rparr> else s)"

definition windowManipulation :: "screen \<Rightarrow> screen option" where
  "windowManipulation s = do {
     p \<leftarrow> paramVal 0 0 s;
     if p = 18 then Some (respond (csiReply (str ''8;'' @ itoa (Height s) @ str '';'' @ itoa (Width s) @ str ''t'')) s)
     else if p = 19 then
       Some (respond (csiReply (str ''9;'' @ itoa (Height s) @ str '';'' @ itoa (Width s) @ str ''t'')) s)
     else if p = 20 then Some (respond (oscReply (str ''L'' @ encodeTitle (iconTitle s) s)) s)
     else if p = 21 then Some (respond (oscReply (str ''l'' @ encodeTitle (Title s) s)) s)
     else if p = 22 then do { w \<leftarrow> paramVal 1 0 s; Some (pushTitle w s) }
     else if p = 23 then do { w \<leftarrow> paramVal 1 0 s; Some (popTitle w s) }
     else Some (if p \<ge> 24 then s\<lparr>linesPerPage := p\<rparr> else s) }"

section \<open>Device attributes and status\<close>

definition daFirmwareVersion :: int where "daFirmwareVersion = 410"

definition deviceAttributes :: "screen \<Rightarrow> screen option" where
  "deviceAttributes s = (
     if privateMarker s = chr CHR ''>'' then
       Some (respond (csiReply (str ''>64;'' @ itoa daFirmwareVersion @ str '';0c'')) s)
     else if privateMarker s = chr CHR ''='' then Some (respond (dcsReply (str ''!|00000000'')) s)
     else do {
       p \<leftarrow> paramVal 0 0 s;
       Some (if p = 0 then respond (csiReply (str ''?65;1;2;6;9;15;16;17;18;21;22;28;29c'')) s else s) })"

definition decDeviceStatus :: "int \<Rightarrow> int \<Rightarrow> screen \<Rightarrow> screen option" where
  "decDeviceStatus row col s = do {
     p \<leftarrow> paramVal 0 0 s;
     if p = 6 then Some (respond (csiReply (str ''?'' @ itoa row @ str '';'' @ itoa col @ str '';1R'')) s)
     else if p = 15 then Some (respond (csiReply (str ''?13n'')) s)
     else if p = 25 then Some (respond (csiReply (str ''?21n'')) s)
     else if p = 26 then Some (respond (csiReply (str ''?27;0;0;0n'')) s)
     else if p = 55 then Some (respond (csiReply (str ''?53n'')) s)
     else if p = 56 then Some (respond (csiReply (str ''?57;0n'')) s)
     else if p = 62 then Some (respond (csiReply (str ''0*{'')) s)
     else if p = 63 then do {
       pid \<leftarrow> paramVal 1 0 s;
       Some (respond (dcsReply (itoa pid @ str ''!~0000'')) s) }
     else if p = 75 then Some (respond (csiReply (str ''?70n'')) s)
     else if p = 85 then Some (respond (csiReply (str ''?83n'')) s)
     else Some s }"

definition deviceStatusReport :: "screen \<Rightarrow> screen option" where
  "deviceStatusReport s = (let
       row = (if OriginMode s then max (curY s - scrollTop s + 1) 1 else curY s + 1);
       col = (if OriginMode s then max (curX s - leftBound s + 1) 1 else curX s + 1)
     in if privateMarker s = chr CHR ''?'' then decDeviceStatus row col s
     else do {
       p \<leftarrow> paramVal 0 0 s;
       Some (if p = 5 then respond (csiReply (str ''0n'')) s
         else if p = 6 then respond (csiReply (itoa row @ str '';'' @ itoa col @ str ''R'')) s
         else s) })"

section \<open>Mode reports\<close>

definition boolToModeStatus :: "bool \<Rightarrow> int" where
  "boolToModeStatus v = (if v then 1 else 2)"

definition settableDECModes :: "int list" where
  "settableDECModes = [3, 4, 18, 19, 35, 42, 67]"

definition settableANSIModes :: "int list" where
  "settableANSIModes = [2, 12]"

definition recognizedDECModes :: "(int \<times> int) list" where
  "recognizedDECModes = [(60, 4)]"

definition recognizedANSIModes :: "(int \<times> int) list" where
  "recognizedANSIModes = [(1, 4), (5, 4), (7, 4), (10, 4), (11, 4), (13, 4), (14, 4), (15, 4),
     (16, 4), (17, 4), (18, 4), (19, 4)]"

text \<open>\<open>m[k]\<close> of a \<^verbatim>\<open>map[int]bool\<close>, false for an absent key.\<close>

definition flagOf :: "(int \<times> bool) list \<Rightarrow> int \<Rightarrow> bool" where
  "flagOf m k = (map_of m k = Some True)"

definition valueOr0 :: "(int \<times> int) list \<Rightarrow> int \<Rightarrow> int" where
  "valueOr0 m k = (case map_of m k of Some v \<Rightarrow> v | None \<Rightarrow> 0)"

definition IsFlushHeld :: "screen \<Rightarrow> bool" where
  "IsFlushHeld s \<longleftrightarrow> nowNanos (env s) < FlushHoldUntil s"

definition decModeStatus :: "int \<Rightarrow> screen \<Rightarrow> int" where
  "decModeStatus mode s = (
     if mode = 1 then boolToModeStatus (AppCursorKeys s)
     else if mode = 5 then boolToModeStatus (ReverseVideo s)
     else if mode = 6 then boolToModeStatus (OriginMode s)
     else if mode = 7 then boolToModeStatus (AutoWrap s)
     else if mode = 12 then boolToModeStatus (CursorBlink s)
     else if mode = 25 then boolToModeStatus (\<not> CursorHidden s)
     else if mode = 45 then boolToModeStatus (ReverseWrap s)
     else if mode = 66 then boolToModeStatus (AppKeypad s)
     else if mode = 40 then boolToModeStatus (allow80To132 s)
     else if mode = 69 then boolToModeStatus (LRMarginMode s)
     else if mode = 95 then boolToModeStatus (noClearOnColumn s)
     else if mode = 47 \<or> mode = 1047 \<or> mode = 1049 then boolToModeStatus (InAltScreen s)
     else if mode = 1000 \<or> mode = 1002 \<or> mode = 1003 then boolToModeStatus (MouseMode s = mode)
     else if mode = 1004 then boolToModeStatus (FocusReporting s)
     else if mode = 1006 then boolToModeStatus (MouseSGR s)
     else if mode = 1016 then boolToModeStatus (MousePixels s)
     else if mode = 2004 then boolToModeStatus (BracketedPaste s)
     else if mode = 2026 then boolToModeStatus (IsFlushHeld s)
     else if mode \<in> set settableDECModes then boolToModeStatus (flagOf (decModeState s) mode)
     else valueOr0 recognizedDECModes mode)"

definition ansiModeStatus :: "int \<Rightarrow> screen \<Rightarrow> int" where
  "ansiModeStatus mode s = (
     if mode = 4 then boolToModeStatus (InsertMode s)
     else if mode = 20 then boolToModeStatus (LineFeedNewLine s)
     else if mode \<in> set settableANSIModes then boolToModeStatus (flagOf (ansiModeState s) mode)
     else valueOr0 recognizedANSIModes mode)"

definition handleDECRQM :: "screen \<Rightarrow> screen option" where
  "handleDECRQM s = (if conformanceLevel s < 63 then Some s
     else do {
       mode \<leftarrow> paramVal 0 0 s;
       Some (if privateMarker s = chr CHR ''?''
         then respond (csiReply (str ''?'' @ itoa mode @ str '';'' @ itoa (decModeStatus mode s) @ str ''$y'')) s
         else respond (csiReply (itoa mode @ str '';'' @ itoa (ansiModeStatus mode s) @ str ''$y'')) s) })"

section \<open>DCS queries\<close>

definition dcsHook :: "byte \<Rightarrow> screen \<Rightarrow> screen option" where
  "dcsHook finalByte s0 = (let s = s0\<lparr>dcsOverflow := False\<rparr> in do {
     i0 \<leftarrow> get_at (pIntermed s) 0;
     Some (if numInterm s = 1 \<and> i0 = chr CHR ''$'' \<and> finalByte = chr CHR ''q''
       then s\<lparr>dcsFunc := dcsDecrqss, dcsBuf := []\<rparr>
       else if numInterm s = 1 \<and> i0 = chr CHR ''+'' \<and> finalByte = chr CHR ''q''
       then s\<lparr>dcsFunc := dcsXTGetTcap, dcsBuf := []\<rparr>
       else s\<lparr>dcsFunc := dcsIgnored\<rparr>) })"

definition dcsPut :: "byte \<Rightarrow> screen \<Rightarrow> screen" where
  "dcsPut b s = (if dcsFunc s = dcsDecrqss \<or> dcsFunc s = dcsXTGetTcap
     then (if length (dcsBuf s) < maxDCSLen then s\<lparr>dcsBuf := dcsBuf s @ [b]\<rparr>
           else s\<lparr>dcsOverflow := True\<rparr>)
     else s)"

definition splitSemis :: "byte list \<Rightarrow> byte list list" where
  "splitSemis s = (if s = [] then [] else splitOn (chr CHR '';'') s)"

text \<open>Two digits at a time; malformed input gives the empty string.\<close>

definition decodeHexString :: "byte list \<Rightarrow> byte list" where
  "decodeHexString h = (case hexDecode h of Some b \<Rightarrow> b | None \<Rightarrow> [])"

definition encodeHexString :: "byte list \<Rightarrow> byte list" where
  "encodeHexString s = concat (map (\<lambda>b. [hexDigitU (uint b div 16), hexDigitU (uint b mod 16)]) s)"

definition tcapReply :: "byte list \<Rightarrow> byte list" where
  "tcapReply part = (let name = decodeHexString part in
     if name = [] then []
     else if name = str ''Co'' \<or> name = str ''colors''
     then dcsReply (str ''1+r'' @ part @ str ''='' @ encodeHexString (str ''256''))
     else dcsReply (str ''0+r'' @ part))"

definition handleXTGetTcap :: "byte list \<Rightarrow> screen \<Rightarrow> screen" where
  "handleXTGetTcap query s = fold (\<lambda>part s. respond (tcapReply part) s) (splitSemis query) s"

definition orDefault :: "int \<Rightarrow> int \<Rightarrow> int" where
  "orDefault v d = (if v = 0 then d else v)"

text \<open>The data of the reply to a valid query; an unknown query has none.\<close>

definition decrqssData :: "byte list \<Rightarrow> screen \<Rightarrow> byte list option" where
  "decrqssData q s = (
     if q = str ''m'' then Some (sgrParamsString (style s) @ str ''m'')
     else if q = str ''r'' then
       Some (itoa (scrollTop s + 1) @ str '';'' @ itoa (scrollBottom s + 1) @ str ''r'')
     else if q = str '' q'' then Some (itoa (CursorStyle s) @ str '' q'')
     else if q = str [CHR 0x22, CHR ''q''] then
       Some (itoa (if curProtected s then 1 else 0) @ str [CHR 0x22, CHR ''q''])
     else if q = str [CHR 0x22, CHR ''p''] then
       Some (itoa (orDefault (conformanceLevel s) 65) @ str ('';1'' @ [CHR 0x22, CHR ''p'']))
     else if q = str ''s'' then
       Some (itoa (leftBound s + 1) @ str '';'' @ itoa (rightBound s + 1) @ str ''s'')
     else if q = str ''t'' then Some (itoa (orDefault (linesPerPage s) (Height s)) @ str ''t'')
     else if q = str ''*|'' then Some (itoa (orDefault (linesPerScreen s) (Height s)) @ str ''*|'')
     else if q = str ''*x'' then Some (str ''0*x'')
     else if q = str ''$}'' then Some (str ''0$}'')
     else if q = str ''$~'' then Some (str ''0$~'')
     else None)"

definition handleDecrqss :: "byte list \<Rightarrow> screen \<Rightarrow> screen" where
  "handleDecrqss q s = (case decrqssData q s of
     Some d \<Rightarrow> respond (dcsReply (str ''1$r'' @ d)) s
   | None \<Rightarrow> respond (dcsReply (str ''0$r'')) s)"

definition dcsUnhook :: "screen \<Rightarrow> screen" where
  "dcsUnhook s = (let s = (if \<not> dcsOverflow s then
         (if dcsFunc s = dcsDecrqss then handleDecrqss (dcsBuf s) s
          else if dcsFunc s = dcsXTGetTcap then handleXTGetTcap (dcsBuf s) s
          else s)
       else s)
     in s\<lparr>dcsFunc := dcsNone\<rparr>)"

section \<open>Contracts\<close>

lemma respond_ok [simp]: "wf (respond r s) = wf s" "same_parser s (respond r t) = same_parser s t"
  by (simp_all add: respond_def)

lemma setActiveKbd_ok: "wf s \<Longrightarrow> length (kb_stack k) \<le> maxKbdStack \<Longrightarrow> scr.ok s (setActiveKbd k s)"
  by (simp add: setActiveKbd_def scr_ok_iff wf_kbd)

lemma activeKbd_length: "wf s \<Longrightarrow> length (kb_stack (activeKbd s)) \<le> maxKbdStack"
  by (simp add: activeKbd_def wf_def limits_ok_def)

lemma popLoop_length: "length (kb_stack (snd (popLoop n k))) \<le> length (kb_stack k)"
proof (induction n k rule: popLoop.induct)
  case (2 n k)
  then show ?case by (simp add: le_diff_conv) (meson le_trans diff_le_self)
qed simp

lemma kbd_ok:
  assumes "wf s"
  shows "scr.ok s (reportKeyboardFlags s)" "scr.ok s (pushKeyboardFlags f s)"
    "scr.ok s (popKeyboardFlags n s)" "scr.ok s (setKeyboardFlags f m s)"
proof -
  note len = activeKbd_length [OF assms]
  show "scr.ok s (reportKeyboardFlags s)" using assms by (simp add: reportKeyboardFlags_def scr_ok_iff)
  show "scr.ok s (pushKeyboardFlags f s)"
    unfolding pushKeyboardFlags_def Let_def
    by (rule setActiveKbd_ok [OF assms]) (use len in \<open>simp add: maxKbdStack_def\<close>)
  obtain left k where k: "popLoop (nat (max n 1)) (activeKbd s) = (left, k)" by fastforce
  have "length (kb_stack k) \<le> maxKbdStack"
    using popLoop_length [of "nat (max n 1)" "activeKbd s"] len k by simp
  then show "scr.ok s (popKeyboardFlags n s)"
    by (simp add: popKeyboardFlags_def k setActiveKbd_ok assms)
  show "scr.ok s (setKeyboardFlags f m s)"
    unfolding setKeyboardFlags_def Let_def
    by (rule setActiveKbd_ok [OF assms]) (use len in simp)
qed

lemma paramLoop_safe:
  assumes "wf s" "params_ok s"
    and "\<And>v t. 0 \<le> v \<Longrightarrow> v \<le> 65535 \<Longrightarrow> wf t \<Longrightarrow> params_ok t \<Longrightarrow> safe (f v t) t"
  shows "safe (paramLoop f s) s"
  unfolding paramLoop_def
proof (rule ensures_foldM)
  show "scr.ok s s" using assms(1) by (rule scr.ok_refl)
  fix i t assume i: "i \<in> set [0..paramCount s - 1]" and t: "scr.ok s t"
  then have ok: "params_ok t" using params_ok_same [of s t] assms(2) by (simp add: scr_ok_iff)
  then have v: "paramVal i 0 t = Some (paramSpecVal i 0 (groupsOf t))" using i by (simp add: paramVal_eq)
  have "safe (f (paramSpecVal i 0 (groupsOf t)) t) t"
    by (rule assms(3)) (use paramSpecVal_range [of 0 i "groupsOf t"] t ok scr.ok_inv in auto)
  with t show "safe (do { v \<leftarrow> paramVal i 0 t; f v t }) s"
    by (simp add: v scr.after)
qed

lemma setTitleModes_safe: "wf s \<Longrightarrow> params_ok s \<Longrightarrow> safe (setTitleModes on s) s"
  unfolding setTitleModes_def by (rule paramLoop_safe) (simp_all add: scr_ok_iff)

lemma title_stack_ok: "wf s \<Longrightarrow> scr.ok s (pushTitle w s) \<and> scr.ok s (popTitle w s)"
proof -
  assume w: "wf s"
  then have "length (titleStack s) \<le> maxTitleStack" by (simp add: wf_def limits_ok_def)
  with w show ?thesis
    by (auto simp: pushTitle_def popTitle_def Let_def scr_ok_iff maxTitleStack_def intro!: wf_titleStack)
qed

lemma report_safe:
  assumes "wf s" "params_ok s"
  shows "safe (windowManipulation s) s" "safe (deviceAttributes s) s" "safe (deviceStatusReport s) s"
    "safe (handleDECRQM s) s"
proof -
  have v: "paramVal 0 0 s = Some (paramSpecVal 0 0 (groupsOf s))"
    "paramVal 1 0 s = Some (paramSpecVal 1 0 (groupsOf s))"
    using assms(2) by (simp_all add: paramVal_eq)
  show "safe (windowManipulation s) s"
    using assms(1) by (simp add: windowManipulation_def v title_stack_ok [unfolded scr_ok_iff] scr_ok_iff)
  show "safe (deviceAttributes s) s"
    using assms(1) by (simp add: deviceAttributes_def v scr_ok_iff)
  show "safe (deviceStatusReport s) s"
    using assms(1) by (simp add: deviceStatusReport_def decDeviceStatus_def v Let_def scr_ok_iff)
  show "safe (handleDECRQM s) s"
    using assms(1) by (simp add: handleDECRQM_def v scr_ok_iff)
qed


lemma fold_respond: "fold (\<lambda>p. respond (f p)) ps s = respond (concat (map f ps)) s"
proof (induction ps arbitrary: s)
  case (Cons p ps)
  then show ?case by (simp add: respond_def)
qed (simp add: respond_def)

lemma handleXTGetTcap_eq: "handleXTGetTcap q s = respond (concat (map tcapReply (splitSemis q))) s"
  unfolding handleXTGetTcap_def by (rule fold_respond)

lemma dcs_ok:
  assumes "wf s"
  shows "safe (dcsHook b s) s" "scr.ok s (dcsPut b s)" "scr.ok s (dcsUnhook s)"
proof -
  have len: "length (pIntermed s) = 2" using assms by (simp add: wf_def parser_wf_def)
  show "safe (dcsHook b s) s"
    using assms len by (simp add: dcsHook_def Let_def get_at_Some ok_defs)
  show "scr.ok s (dcsPut b s)" using assms by (simp add: dcsPut_def ok_defs)
  have "wf (t\<lparr>dcsFunc := dcsNone\<rparr>) = wf t" "same_parser s (t\<lparr>dcsFunc := dcsNone\<rparr>) = same_parser s t" for t
    by (simp_all add: wf_defs same_parser_def)
  then show "scr.ok s (dcsUnhook s)"
    using assms by (simp add: dcsUnhook_def handleXTGetTcap_eq Let_def handleDecrqss_def scr_ok_iff split: option.split)
qed


section \<open>What a reply can carry\<close>

lemma hexDigitL_range: "0 \<le> d \<Longrightarrow> d < 16 \<Longrightarrow> 48 \<le> uint (hexDigitL d) \<and> uint (hexDigitL d) \<le> 102"
  by (simp add: hexDigitL_def uint_byte_of_int del: of_int_add)

lemma hexEncode_range: "b \<in> set (hexEncode s) \<Longrightarrow> 48 \<le> uint b \<and> uint b \<le> 102"
  using hexDigitL_range uint_div_16 by (force simp: hexEncode_def hex2_def)

lemma strip_runes: "runesOf (stripControlRunes t) = filter (\<lambda>r. \<not> isControlRune r) (runesOf t)"
  unfolding stripControlRunes_def by (rule runesOf_encode) (use runesOf_valid in auto)

text \<open>
  A title report carries no control character: whatever title the program set, and in
  either title mode, no rune of the label that \<open>encodeTitle\<close> puts into the reply is a C0, DEL
  or C1 control, so the reply cannot inject a line into the program's input; in UTF-8 mode the
  label keeps every other rune of the title in order.
\<close>

theorem title_report_clean:
  "(\<forall>r \<in> set (runesOf (encodeTitle title s)). r \<ge> 0x20 \<and> r \<noteq> 0x7F \<and> \<not> (0x80 \<le> r \<and> r \<le> 0x9F))
   \<and> runesOf (encodeTitle title s) = (if titleQueryHex s then map uint (hexEncode title)
        else filter (\<lambda>r. \<not> isControlRune r) (runesOf title))"
proof -
  have eq: "runesOf (encodeTitle title s) = (if titleQueryHex s then map uint (hexEncode title)
        else filter (\<lambda>r. \<not> isControlRune r) (runesOf title))"
    using hexEncode_range [of _ title]
    by (force simp: encodeTitle_def strip_runes intro!: runesOf_ascii)
  have hex: "\<forall>r \<in> set (map uint (hexEncode title)). r \<ge> 0x20 \<and> r < 0x7F"
    using hexEncode_range [of _ title] by fastforce
  show ?thesis
    unfolding eq using hex by (auto simp: isControlRune_def not_le)
qed

lemma hexDecode_digits: "hexDecode p = Some n \<Longrightarrow> \<forall>b \<in> set p. hexValue b \<noteq> None"
  by (induction p arbitrary: n rule: hexDecode.induct) (auto split: option.splits prod.splits)

definition isHexText :: "byte list \<Rightarrow> bool" where
  "isHexText p \<longleftrightarrow> p \<noteq> [] \<and> list_all (\<lambda>b. hexValue b \<noteq> None) p"

lemma tcapReply_hex: "tcapReply part \<noteq> [] \<Longrightarrow> isHexText part"
  using hexDecode_digits [of part]
  by (cases "hexDecode part") (auto simp: tcapReply_def decodeHexString_def isHexText_def list_all_iff Let_def)

text \<open>
  C10: a terminfo query (XTGETTCAP) can only make the terminal echo hexadecimal digits: the reply
  is the concatenation of one frame per queried name that is not malformed, each the name's own
  digits between fixed strings, and a name with any other byte (a CR or LF among them) is skipped.
\<close>

theorem xtgettcap_echo_safe:
  "\<exists>parts. response (handleXTGetTcap query s) = response s @ concat (map tcapReply parts)
     \<and> (\<forall>p \<in> set parts. isHexText p
          \<and> (tcapReply p = dcsReply (str ''0+r'' @ p) \<or> tcapReply p = dcsReply (str ''1+r'' @ p @ str ''=323536'')))
     \<and> parts = filter (\<lambda>p. decodeHexString p \<noteq> []) (splitSemis query)"
proof -
  let ?ps = "filter (\<lambda>p. decodeHexString p \<noteq> []) (splitSemis query)"
  have skip: "concat (map tcapReply ps) = concat (map tcapReply (filter (\<lambda>p. decodeHexString p \<noteq> []) ps))" for ps
    by (induction ps) (auto simp: tcapReply_def Let_def)
  have num: "encodeHexString (str ''256'') = str ''323536''" by code_simp
  have frame: "tcapReply p = dcsReply (str ''0+r'' @ p) \<or> tcapReply p = dcsReply (str ''1+r'' @ p @ str ''=323536'')"
    if "decodeHexString p \<noteq> []" for p
    using that num by (simp add: tcapReply_def Let_def str_def)
  have "tcapReply p \<noteq> []" if "decodeHexString p \<noteq> []" for p
    using that by (simp add: tcapReply_def Let_def dcsReply_def)
  then have "\<forall>p \<in> set ?ps. isHexText p" using tcapReply_hex by auto
  with frame have "\<forall>p \<in> set ?ps. isHexText p \<and> (tcapReply p = dcsReply (str ''0+r'' @ p)
      \<or> tcapReply p = dcsReply (str ''1+r'' @ p @ str ''=323536''))" by simp
  moreover have "response (handleXTGetTcap query s) = response s @ concat (map tcapReply ?ps)"
    using skip [of "splitSemis query"] by (simp add: handleXTGetTcap_eq respond_def)
  ultimately show ?thesis by blast
qed


section \<open>Stacks\<close>

lemma kbd_set_get [simp]: "activeKbd (setActiveKbd k s) = k" "setActiveKbd k' (setActiveKbd k s) = setActiveKbd k' s"
  "setActiveKbd (activeKbd s) s = s"
  by (simp_all add: activeKbd_def setActiveKbd_def)

text \<open>What the pushes leave on the stack, the last push on top.\<close>

lemma push_kbd: "length (kb_stack (activeKbd s)) < maxKbdStack \<Longrightarrow>
    pushKeyboardFlags f s = setActiveKbd \<lparr>kb_stack = kb_stack (activeKbd s) @ [kb_flags (activeKbd s)],
      kb_flags = honored f\<rparr> s"
  by (simp add: pushKeyboardFlags_def Let_def)

lemma popLoop_push: "popLoop n \<lparr>kb_stack = kb_stack k @ [kb_flags k], kb_flags = f\<rparr>
    = (if n = 0 then (0, \<lparr>kb_stack = kb_stack k @ [kb_flags k], kb_flags = f\<rparr>) else popLoop (n - 1) k)"
proof -
  have k: "\<lparr>kb_stack = kb_stack k, kb_flags = kb_flags k\<rparr> = k" by (cases k) simp
  show ?thesis by (cases n) (simp_all add: k)
qed

lemma pushes_pop:
  assumes "length (kb_stack (activeKbd s)) + length fs \<le> maxKbdStack"
  shows "popLoop (length fs) (activeKbd (fold pushKeyboardFlags fs s)) = (0, activeKbd s)
    \<and> length (kb_stack (activeKbd (fold pushKeyboardFlags fs s))) = length (kb_stack (activeKbd s)) + length fs
    \<and> (\<forall>k. setActiveKbd k (fold pushKeyboardFlags fs s) = setActiveKbd k s)"
  using assms
proof (induction fs rule: rev_induct)
  case Nil
  then show ?case by simp
next
  case (snoc f fs)
  let ?t = "fold pushKeyboardFlags fs s"
  have IH: "popLoop (length fs) (activeKbd ?t) = (0, activeKbd s)"
    "length (kb_stack (activeKbd ?t)) = length (kb_stack (activeKbd s)) + length fs"
    "\<And>k. setActiveKbd k ?t = setActiveKbd k s"
    using snoc by simp_all
  with snoc.prems have p: "pushKeyboardFlags f ?t = setActiveKbd \<lparr>kb_stack = kb_stack (activeKbd ?t)
      @ [kb_flags (activeKbd ?t)], kb_flags = honored f\<rparr> ?t" by (intro push_kbd) simp
  show ?case by (simp add: p IH popLoop_push)
qed

text \<open>
  Popping as many keyboard-protocol entries as were pushed restores the whole screen state,
  the flags and the stack of the screen in effect among it, as long as the pushes fit the stack.
\<close>

theorem kbd_push_pop:
  assumes "fs \<noteq> []" "length (kb_stack (activeKbd s)) + length fs \<le> maxKbdStack"
  shows "popKeyboardFlags (int (length fs)) (fold pushKeyboardFlags fs s) = s"
proof -
  have n: "nat (max (int (length fs)) 1) = length fs" using assms(1) by (cases fs) simp_all
  from pushes_pop [OF assms(2)] have "popLoop (length fs) (activeKbd (fold pushKeyboardFlags fs s)) = (0, activeKbd s)"
    "setActiveKbd (activeKbd s) (fold pushKeyboardFlags fs s) = s" by simp_all
  then show ?thesis by (simp only: popKeyboardFlags_def n Let_def prod.case if_False less_irrefl)
qed

definition demoEnv :: environment where
  "demoEnv = \<lparr>nowNanos = 1, unicodeMark = (\<lambda>r. 0x300 \<le> r \<and> r \<le> 0x36F),
     unsafeSingleLine = (\<lambda>r. r < 0x20 \<or> (0x7F \<le> r \<and> r < 0xA0)), liftForContrast = (\<lambda>fg bg. fg)\<rparr>"

definition demoScreen :: screen where
  "demoScreen = the (New demoEnv DefaultTheme 4 6)"

lemma demoScreen_eq: "New demoEnv DefaultTheme 4 6 = Some demoScreen"
  using New_wf [of 4 6 demoEnv DefaultTheme] by (auto simp: demoScreen_def ensures_iff)

lemma demoScreen_wf: "wf demoScreen"
  using New_wf [of 4 6 demoEnv DefaultTheme] by (simp add: demoScreen_eq)

lemma title_report_clean_witness: "runesOf (encodeTitle (str ''a'' @ [0x0D, 0x0A] @ str ''b'') demoScreen) = runes ''ab''"
proof -
  have "\<not> titleQueryHex demoScreen"
    by (simp add: demoScreen_def New_def Let_def capDimension_def maxDimension_def)
  moreover have "filter (\<lambda>r. \<not> isControlRune r) (runesOf (str ''a'' @ [0x0D, 0x0A] @ str ''b'')) = runes ''ab''"
    by code_simp
  ultimately show ?thesis
    using title_report_clean [of "str ''a'' @ [0x0D, 0x0A] @ str ''b''" demoScreen]
    by (simp only: if_False)
qed

lemma xtgettcap_echo_safe_witness:
  "response (handleXTGetTcap (str ''5443;zz'') demoScreen) = response demoScreen @ tcapReply (str ''5443'')"
proof -
  have "filter (\<lambda>p. decodeHexString p \<noteq> []) (splitSemis (str ''5443;zz'')) = [str ''5443'']" by code_simp
  then show ?thesis using xtgettcap_echo_safe [of "str ''5443;zz''" demoScreen] by auto
qed

lemma kbd_push_pop_witness:
  "popKeyboardFlags 2 (fold pushKeyboardFlags [1, 0] demoScreen) = demoScreen"
proof -
  have "kb_stack (activeKbd demoScreen) = []"
    by (simp add: demoScreen_def New_def Let_def capDimension_def maxDimension_def activeKbd_def zeroKbd_def)
  then show ?thesis using kbd_push_pop [of "[1, 0]" demoScreen] by (simp add: maxKbdStack_def)
qed

text \<open>
  A title pushed with XTWINOPS 22 comes back with 23 whatever the program set in between:
  both titles are those of the push, and the stack is the one before it, less its oldest entry
  when the push found it full.
\<close>

lemma title_push_pop:
  "popTitle 0 ((pushTitle w s)\<lparr>Title := a, iconTitle := b\<rparr>)
   = s\<lparr>titleStack := drop (Suc (length (titleStack s)) - maxTitleStack) (titleStack s)\<rparr>"
proof -
  let ?e = "\<lparr>te_icon = iconTitle s, te_window = Title s\<rparr>"
  let ?k = "Suc (length (titleStack s)) - maxTitleStack"
  have k: "?k \<le> length (titleStack s)" by (simp add: maxTitleStack_def)
  have ts: "titleStack (pushTitle w s) = drop ?k (titleStack s) @ [?e]"
    using k by (simp add: pushTitle_def Let_def)
  have "popTitle 0 ((pushTitle w s)\<lparr>Title := a, iconTitle := b\<rparr>)
      = (pushTitle w s)\<lparr>titleStack := drop ?k (titleStack s), iconTitle := iconTitle s, Title := Title s\<rparr>"
    using ts by (simp add: popTitle_def Let_def)
  also have "\<dots> = s\<lparr>titleStack := drop ?k (titleStack s)\<rparr>"
    by (simp add: pushTitle_def Let_def)
  finally show ?thesis .
qed

end
