(* ===== verification/Modes.thy ===== *)
theory Modes
  imports Cursor AltScreen Reports "HOL-Library.AList"
begin

text \<open>
  Erasing and rectangles, the mode switches, and the soft reset of \<^verbatim>\<open>src/vt/csi.go\<close>: the
  operations between the cell-level primitives and the CSI dispatch. Each meets the contract of
  the screen.
\<close>

section \<open>Rectangles\<close>

text \<open>The row and column limits and the origin offset: \<open>(rowLo, rowHi, colLo, colHi, oy, ox)\<close>.\<close>

definition rectLimits :: "screen \<Rightarrow> int \<times> int \<times> int \<times> int \<times> int \<times> int" where
  "rectLimits s = (if OriginMode s
     then (scrollTop s, scrollBottom s, leftBound s, rightBound s, scrollTop s, leftBound s)
     else (0, Height s - 1, 0, Width s - 1, 0, 0))"

text \<open>\<^verbatim>\<open>min(max(v, lo), hi)\<close>\<close>

definition clampTo :: "int \<Rightarrow> int \<Rightarrow> int \<Rightarrow> int" where
  "clampTo lo hi v = min (max v lo) hi"

definition rectBounds :: "int \<Rightarrow> int \<Rightarrow> int \<Rightarrow> int \<Rightarrow> screen \<Rightarrow> int \<times> int \<times> int \<times> int" where
  "rectBounds pt pl pb pr s = (case rectLimits s of (rowLo, rowHi, colLo, colHi, oy, ox) \<Rightarrow> (let
     top = (if pt < 1 then 1 else pt);
     left = (if pl < 1 then 1 else pl);
     y1 = clampTo rowLo rowHi (top - 1 + oy);
     x1 = clampTo colLo colHi (left - 1 + ox);
     y2 = (if pb \<ge> 1 then clampTo rowLo rowHi (pb - 1 + oy) else rowHi);
     x2 = (if pr \<ge> 1 then clampTo colLo colHi (pr - 1 + ox) else colHi)
   in (y1, x1, y2, x2)))"

text \<open>The rectangle in four consecutive parameters from index \<open>k\<close>.\<close>

definition rectParams :: "int \<Rightarrow> screen \<Rightarrow> (int \<times> int \<times> int \<times> int) option" where
  "rectParams k s = do {
     pt \<leftarrow> paramVal k 0 s;
     pl \<leftarrow> paramVal (k + 1) 0 s;
     pb \<leftarrow> paramVal (k + 2) 0 s;
     pr \<leftarrow> paramVal (k + 3) 0 s;
     Some (rectBounds pt pl pb pr s) }"

text \<open>The 32-bit sum of the characters of a rectangle, blanks and spacers as 0x20.\<close>

definition rectSum :: "int \<Rightarrow> int \<Rightarrow> int \<Rightarrow> int \<Rightarrow> screen \<Rightarrow> 32 word option" where
  "rectSum y1 x1 y2 x2 s = foldM (\<lambda>y sum. foldM (\<lambda>x sum. do {
       row \<leftarrow> get_at (Cells s) y;
       c \<leftarrow> get_at row x;
       Some (sum + word_of_int (if Ch c = 0 then 0x20 else Ch c)) }) [x1..x2] sum) [y1..y2] 0"

definition reportRectChecksum :: "screen \<Rightarrow> screen option" where
  "reportRectChecksum s = (if \<not> AllowScreenReport s then Some s
     else do {
       pid \<leftarrow> paramVal 0 0 s;
       (y1, x1, y2, x2) \<leftarrow> rectParams 2 s;
       sum \<leftarrow> rectSum y1 x1 y2 x2 s;
       let checksum = (0x10000 - sum mod 0x10000) mod 0x10000;
       Some (respond (dcsReply (itoa pid @ str ''!~'' @ hex4U (uint checksum))) s) })"

definition fillRect :: "screen \<Rightarrow> screen option" where
  "fillRect s = do {
     c0 \<leftarrow> paramVal 0 0 s;
     let ch = (if c0 < 0x20 then 0x20 else c0);
     (y1, x1, y2, x2) \<leftarrow> rectParams 1 s;
     foldM (\<lambda>y s. foldM (\<lambda>x s. setCell y x \<lparr>Hyperlink = [], Ch = ch, Style = style s,
         Protected = curProtected s, IsoProtected = False\<rparr> s) [x1..x2] s) [y1..y2] s }"

definition eraseRect :: "bool \<Rightarrow> screen \<Rightarrow> screen option" where
  "eraseRect selective s = do {
     (y1, x1, y2, x2) \<leftarrow> rectParams 0 s;
     eraseRegionMode y1 x1 y2 x2 (if selective then eraseSpareDECSCA else eraseAll) s }"

text \<open>The copy goes through a buffer of the source rows.\<close>

definition pasteRect :: "int \<Rightarrow> int \<Rightarrow> int \<Rightarrow> int \<Rightarrow> cell list list \<Rightarrow> screen \<Rightarrow> screen option" where
  "pasteRect dy0 dx0 h w buf s = foldM (\<lambda>i s. foldM (\<lambda>j s.
       let dy = dy0 + i; dx = dx0 + j in
       if dy \<ge> 0 \<and> dy < Height s \<and> dx \<ge> 0 \<and> dx < Width s
       then do { row \<leftarrow> get_at buf i; c \<leftarrow> get_at row j; setCell dy dx c s }
       else Some s) [0..w - 1] s) [0..h - 1] s"

definition copyRect :: "screen \<Rightarrow> screen option" where
  "copyRect s = do {
     (sy1, sx1, sy2, sx2) \<leftarrow> rectParams 0 s;
     let (rowLo, rowHi, colLo, colHi, oy, ox) = rectLimits s;
     dt \<leftarrow> paramVal 5 0 s;
     dl \<leftarrow> paramVal 6 0 s;
     let dtop = (if dt < 1 then 1 else dt);
     let dleft = (if dl < 1 then 1 else dl);
     let dy0 = clampTo rowLo rowHi (dtop - 1 + oy);
     let dx0 = clampTo colLo colHi (dleft - 1 + ox);
     let h = sy2 - sy1 + 1;
     let w = sx2 - sx1 + 1;
     if h \<le> 0 \<or> w \<le> 0 then Some s
     else do {
       buf \<leftarrow> mapM (\<lambda>i. do { row \<leftarrow> get_at (Cells s) (sy1 + i); slice row sx1 (sx2 + 1) }) [0..h - 1];
       pasteRect dy0 dx0 h w buf s } }"

section \<open>Erasing\<close>

definition eraseInDisplay :: "int \<Rightarrow> bool \<Rightarrow> screen \<Rightarrow> screen option" where
  "eraseInDisplay mode selective s = (let regular = (if selective then eraseSpareBoth else eraseSpareISO) in
     if mode = 0 then do {
       s \<leftarrow> eraseRegionMode (curY s) (curX s) (curY s) (Width s - 1) regular s;
       eraseRegionMode (curY s + 1) 0 (Height s - 1) (Width s - 1) regular s }
     else if mode = 1 then do {
       s \<leftarrow> eraseRegionMode 0 0 (curY s - 1) (Width s - 1) regular s;
       eraseRegionMode (curY s) 0 (curY s) (curX s) regular s }
     else if mode = 2 then do {
       s \<leftarrow> eraseRegionMode 0 0 (Height s - 1) (Width s - 1)
             (if selective then eraseSpareBoth else eraseAll) s;
       Some (clearWrapState (dropDrained s)) }
     else if mode = 3 then
       Some ((dropDrained (s\<lparr>scrollbackCleared := True\<rparr>))\<lparr>drainTail := []\<rparr>)
     else Some s)"

definition eraseInLine :: "int \<Rightarrow> bool \<Rightarrow> screen \<Rightarrow> screen option" where
  "eraseInLine mode selective s = (let m = (if selective then eraseSpareBoth else eraseSpareISO) in
     if mode = 0 then eraseRegionMode (curY s) (curX s) (curY s) (Width s - 1) m s
     else if mode = 1 then eraseRegionMode (curY s) 0 (curY s) (curX s) m s
     else if mode = 2 then eraseRegionMode (curY s) 0 (curY s) (Width s - 1) m s
     else Some s)"

definition eraseChars :: "int \<Rightarrow> screen \<Rightarrow> screen option" where
  "eraseChars n s = (let e = curX s + n - 1; e = (if e \<ge> Width s then Width s - 1 else e) in
     eraseRegionMode (curY s) (curX s) (curY s) e eraseSpareISO s)"

section \<open>Modes\<close>

definition HoldFlush :: "int \<Rightarrow> screen \<Rightarrow> screen" where
  "HoldFlush until s = (if until > FlushHoldUntil s then s\<lparr>FlushHoldUntil := until\<rparr> else s)"

definition ReleaseFlush :: "screen \<Rightarrow> screen" where
  "ReleaseFlush s = s\<lparr>FlushHoldUntil := 0\<rparr>"

definition trackDECMode :: "int \<Rightarrow> bool \<Rightarrow> screen \<Rightarrow> screen" where
  "trackDECMode mode on s = s\<lparr>decModeState := AList.update mode on (decModeState s)\<rparr>"

definition trackANSIMode :: "int \<Rightarrow> bool \<Rightarrow> screen \<Rightarrow> screen" where
  "trackANSIMode mode on s = s\<lparr>ansiModeState := AList.update mode on (ansiModeState s)\<rparr>"

definition resetMargins :: "screen \<Rightarrow> screen" where
  "resetMargins s = s\<lparr>scrollTop := 0, scrollBottom := Height s - 1, LRMarginMode := False,
     leftMargin := 0, rightMargin := Width s - 1\<rparr>"

definition setColumnMode :: "screen \<Rightarrow> screen option" where
  "setColumnMode s0 = (let s = (resetMargins s0)\<lparr>curX := 0, curY := 0, pendingWrap := False\<rparr> in
     if noClearOnColumn s \<and> conformanceLevel s \<ge> 65 then Some s
     else do {
       s \<leftarrow> eraseRegion 0 0 (Height s - 1) (Width s - 1) s;
       Some (dropDrained s) })"

definition oneSecond :: int where "oneSecond = 1000000000"

definition setMode :: "int \<Rightarrow> screen \<Rightarrow> screen option" where
  "setMode mode s = (
     if mode = 1 then Some (s\<lparr>AppCursorKeys := True\<rparr>)
     else if mode = 5 then Some (s\<lparr>ReverseVideo := True\<rparr>)
     else if mode = 6 then Some (let s = s\<lparr>OriginMode := True\<rparr> in s\<lparr>curY := scrollTop s, curX := leftBound s\<rparr>)
     else if mode = 7 then Some (s\<lparr>AutoWrap := True\<rparr>)
     else if mode = 12 then Some (s\<lparr>CursorBlink := True\<rparr>)
     else if mode = 3 then setColumnMode (trackDECMode 3 True s)
     else if mode = 25 then Some (s\<lparr>CursorHidden := False\<rparr>)
     else if mode = 40 then Some (s\<lparr>allow80To132 := True\<rparr>)
     else if mode = 41 then Some (s\<lparr>moreFix := True\<rparr>)
     else if mode = 45 then Some (s\<lparr>ReverseWrap := True\<rparr>)
     else if mode = 66 then Some (s\<lparr>AppKeypad := True\<rparr>)
     else if mode = 69 then Some (if conformanceLevel s \<ge> 64 then s\<lparr>LRMarginMode := True\<rparr> else s)
     else if mode = 95 then Some (s\<lparr>noClearOnColumn := True\<rparr>)
     else if mode = 47 \<or> mode = 1047 \<or> mode = 1049 then enterAltScreen mode s
     else if mode = 1048 then Some (saveCursor s)
     else if mode = 1000 \<or> mode = 1002 \<or> mode = 1003 then Some (s\<lparr>MouseMode := mode\<rparr>)
     else if mode = 1004 then Some (s\<lparr>FocusReporting := True\<rparr>)
     else if mode = 1006 then Some (s\<lparr>MouseSGR := True\<rparr>)
     else if mode = 1016 then Some (s\<lparr>MousePixels := True\<rparr>)
     else if mode = 2004 then Some (s\<lparr>BracketedPaste := True\<rparr>)
     else if mode = 2026 then Some (HoldFlush (nowNanos (env s) + oneSecond) s)
     else if mode \<in> set settableDECModes then Some (trackDECMode mode True s)
     else Some s)"

definition resetMode :: "int \<Rightarrow> screen \<Rightarrow> screen option" where
  "resetMode mode s = (
     if mode = 1 then Some (s\<lparr>AppCursorKeys := False\<rparr>)
     else if mode = 5 then Some (s\<lparr>ReverseVideo := False\<rparr>)
     else if mode = 6 then Some (s\<lparr>OriginMode := False, curY := 0, curX := 0\<rparr>)
     else if mode = 7 then Some (s\<lparr>AutoWrap := False\<rparr>)
     else if mode = 12 then Some (s\<lparr>CursorBlink := False\<rparr>)
     else if mode = 3 then setColumnMode (trackDECMode 3 False s)
     else if mode = 25 then Some (s\<lparr>CursorHidden := True\<rparr>)
     else if mode = 40 then Some (s\<lparr>allow80To132 := False\<rparr>)
     else if mode = 41 then Some (s\<lparr>moreFix := False\<rparr>)
     else if mode = 45 then Some (s\<lparr>ReverseWrap := False\<rparr>)
     else if mode = 66 then Some (s\<lparr>AppKeypad := False\<rparr>)
     else if mode = 69 then Some (s\<lparr>LRMarginMode := False, leftMargin := 0, rightMargin := Width s - 1\<rparr>)
     else if mode = 95 then Some (s\<lparr>noClearOnColumn := False\<rparr>)
     else if mode = 47 \<or> mode = 1047 \<or> mode = 1049 then Some (dropDrained (exitAltScreen mode s))
     else if mode = 1048 then Some (restoreCursor s)
     else if mode = 1000 then Some (if MouseMode s = 1000 then s\<lparr>MouseMode := 0\<rparr> else s)
     else if mode = 1002 then Some (if MouseMode s = 1002 then s\<lparr>MouseMode := 0\<rparr> else s)
     else if mode = 1003 then Some (if MouseMode s = 1003 then s\<lparr>MouseMode := 0\<rparr> else s)
     else if mode = 1004 then Some (s\<lparr>FocusReporting := False\<rparr>)
     else if mode = 1006 then Some (s\<lparr>MouseSGR := False\<rparr>)
     else if mode = 1016 then Some (s\<lparr>MousePixels := False\<rparr>)
     else if mode = 2004 then Some (s\<lparr>BracketedPaste := False\<rparr>)
     else if mode = 2026 then Some (ReleaseFlush s)
     else if mode \<in> set settableDECModes then Some (trackDECMode mode False s)
     else Some s)"

definition ansiMode :: "bool \<Rightarrow> int \<Rightarrow> screen \<Rightarrow> screen" where
  "ansiMode on mode s = (if mode = 4 then s\<lparr>InsertMode := on\<rparr>
     else if mode = 20 then s\<lparr>LineFeedNewLine := on\<rparr>
     else if mode \<in> set settableANSIModes then trackANSIMode mode on s else s)"

definition applyModes :: "bool \<Rightarrow> screen \<Rightarrow> screen option" where
  "applyModes on s = (
     if privateMarker s = chr CHR ''?'' then paramLoop (if on then setMode else resetMode) s
     else if privateMarker s = 0 then paramLoop (\<lambda>mode s. Some (ansiMode on mode s)) s
     else Some s)"

definition xtSaveModes :: "screen \<Rightarrow> screen option" where
  "xtSaveModes s = paramLoop (\<lambda>mode s. Some (s\<lparr>savedModeValues :=
     AList.update mode (decModeStatus mode s = 1) (savedModeValues s)\<rparr>)) s"

definition xtRestoreModes :: "screen \<Rightarrow> screen option" where
  "xtRestoreModes s = paramLoop (\<lambda>mode s.
     if flagOf (savedModeValues s) mode then setMode mode s else resetMode mode s) s"

definition softReset :: "screen \<Rightarrow> screen" where
  "softReset s = resetCharsets (s\<lparr>style := noStyle, hyperlink := [], scrollTop := 0,
     scrollBottom := Height s - 1, mainSaved := zeroSaved, altSaved := zeroSaved,
     pendingWrap := False, CursorHidden := False, CursorStyle := 0, BracketedPaste := False,
     AppCursorKeys := False, AppKeypad := False, OriginMode := False, AutoWrap := True,
     ReverseVideo := False, InsertMode := False, curProtected := False, curIsoProtected := False,
     LineFeedNewLine := False, ReverseWrap := False, LRMarginMode := False, leftMargin := 0,
     rightMargin := Width s - 1, allow80To132 := False, noClearOnColumn := False, moreFix := False,
     MouseMode := 0, MouseSGR := False, MousePixels := False, FocusReporting := False,
     decModeState := [], ansiModeState := []\<rparr>)"

section \<open>Contracts\<close>

lemma clampTo_range: "lo \<le> hi \<Longrightarrow> lo \<le> clampTo lo hi v \<and> clampTo lo hi v \<le> hi"
  by (simp add: clampTo_def)

lemma rectBounds_range:
  assumes "wf s" "rectBounds pt pl pb pr s = (y1, x1, y2, x2)"
  shows "0 \<le> y1" "y1 < Height s" "0 \<le> x1" "x1 < Width s" "0 \<le> y2" "y2 < Height s" "0 \<le> x2" "x2 < Width s"
proof -
  obtain rl rh cl ch oy ox where l: "rectLimits s = (rl, rh, cl, ch, oy, ox)" by (cases "rectLimits s") auto
  have r: "0 \<le> rl" "rl \<le> rh" "rh < Height s" "0 \<le> cl" "cl \<le> ch" "ch < Width s"
    using l wf_scroll [OF assms(1)] wf_width [OF assms(1)] bounds_range [OF wf_box [OF assms(1)]]
    by (auto simp: rectLimits_def split: if_splits)
  have e: "y1 = clampTo rl rh ((if pt < 1 then 1 else pt) - 1 + oy)"
    "x1 = clampTo cl ch ((if pl < 1 then 1 else pl) - 1 + ox)"
    "y2 = (if pb \<ge> 1 then clampTo rl rh (pb - 1 + oy) else rh)"
    "x2 = (if pr \<ge> 1 then clampTo cl ch (pr - 1 + ox) else ch)"
    using assms(2) by (simp_all add: rectBounds_def l Let_def)
  have "rl \<le> y1 \<and> y1 \<le> rh" "cl \<le> x1 \<and> x1 \<le> ch" "rl \<le> y2 \<and> y2 \<le> rh" "cl \<le> x2 \<and> x2 \<le> ch"
    unfolding e using r by (simp_all add: clampTo_range)
  with r show "0 \<le> y1" "y1 < Height s" "0 \<le> x1" "x1 < Width s" "0 \<le> y2" "y2 < Height s" "0 \<le> x2" "x2 < Width s"
    by linarith+
qed

lemma rectParams_Some: "params_ok s \<Longrightarrow> 0 \<le> k \<Longrightarrow> \<exists>pt pl pb pr. rectParams k s = Some (rectBounds pt pl pb pr s)"
  by (simp add: rectParams_def paramVal_eq) blast

lemma cell_row: "wf s \<Longrightarrow> 0 \<le> y \<Longrightarrow> y < Height s \<Longrightarrow>
    get_at (Cells s) y = Some (Cells s ! nat y) \<and> int (length (Cells s ! nat y)) = Width s"
  using grid_row_length [OF wf_grid] by (simp add: get_at_Some wf_def grid_ok_def rect_def)

lemma rectSum_total:
  assumes "wf s" "0 \<le> y1" "y2 < Height s" "0 \<le> x1" "x2 < Width s"
  shows "ensures (rectSum y1 x1 y2 x2 s) (\<lambda>_. True)"
  unfolding rectSum_def
proof (rule ensures_foldM)
  fix y sum assume y: "y \<in> set [y1..y2]"
  then have row: "get_at (Cells s) y = Some (Cells s ! nat y)" "int (length (Cells s ! nat y)) = Width s"
    using cell_row [OF assms(1), of y] assms by auto
  show "ensures (foldM (\<lambda>x sum. do { row \<leftarrow> get_at (Cells s) y; c \<leftarrow> get_at row x;
       Some (sum + word_of_int (if Ch c = 0 then 0x20 else Ch c)) }) [x1..x2] sum) (\<lambda>_. True)"
    by (rule ensures_foldM) (use row assms in auto)
qed simp

definition same_box :: "screen \<Rightarrow> screen \<Rightarrow> bool" where
  "same_box s t \<longleftrightarrow> scr.ok s t \<and> Height t = Height s \<and> Width t = Width s"

lemma same_box_ok: "ensures m (same_box s) \<Longrightarrow> safe m s"
  by (erule ensures_mono) (simp add: same_box_def)

lemma setCell_box:
  assumes "same_box s t" "0 \<le> y" "y < Height s" "0 \<le> x" "x < Width s"
  shows "ensures (setCell y x c t) (same_box s)"
proof -
  have t: "wf t" "Height t = Height s" "Width t = Width s" "scr.ok s t"
    using assms(1) scr.ok_inv by (auto simp: same_box_def)
  have "ensures (setCell y x c t) (\<lambda>u. scr.ok t u \<and> Height u = Height t \<and> Width u = Width t)"
  proof (rule ensures_conj)
    show "safe (setCell y x c t) t" using setCell_safe [of t y x c] assms t by simp
    show "ensures (setCell y x c t) (\<lambda>u. Height u = Height t \<and> Width u = Width t)"
      using cell_row [of t y] t assms by (simp add: setCell_def onRow_def set_at_Some wf_def grid_ok_def rect_def)
  qed
  then show ?thesis by (rule ensures_mono) (use t scr.ok_trans in \<open>auto simp: same_box_def\<close>)
qed

lemma fillRect_safe:
  assumes "wf s" "params_ok s" shows "safe (fillRect s) s"
proof -
  obtain c0 where c0: "paramVal 0 0 s = Some c0" using paramVal_eq [OF assms(2), of 0 0] by auto
  obtain pt pl pb pr where p: "rectParams 1 s = Some (rectBounds pt pl pb pr s)"
    using rectParams_Some [OF assms(2), of 1] by auto
  obtain y1 x1 y2 x2 where b: "rectBounds pt pl pb pr s = (y1, x1, y2, x2)" by (metis prod_cases4)
  note r = rectBounds_range [OF assms(1) b]
  have loop: "ensures (foldM (\<lambda>y s. foldM (\<lambda>x s. setCell y x (f s) s) [x1..x2] s) [y1..y2] s) (same_box s)" for f
  proof (rule ensures_foldM)
    show "same_box s s" using assms(1) by (simp add: same_box_def scr.ok_refl)
    fix y t assume y: "y \<in> set [y1..y2]" and t: "same_box s t"
    show "ensures (foldM (\<lambda>x s. setCell y x (f s) s) [x1..x2] t) (same_box s)"
      by (rule ensures_foldM [where I = "same_box s", OF t], rule setCell_box) (use y r in auto)
  qed
  show ?thesis
    unfolding fillRect_def using c0 p b same_box_ok [OF loop] by simp
qed

lemma eraseRect_safe: "wf s \<Longrightarrow> params_ok s \<Longrightarrow> safe (eraseRect sel s) s"
  using rectParams_Some [of s 0] grid_ops_safe(1) [of s]
  by (auto simp: eraseRect_def split: prod.split)

lemma reportRectChecksum_safe: "wf s \<Longrightarrow> params_ok s \<Longrightarrow> safe (reportRectChecksum s) s"
proof -
  assume w: "wf s" and p: "params_ok s"
  obtain pid where pid: "paramVal 0 0 s = Some pid" using paramVal_eq [OF p, of 0 0] by auto
  obtain pt pl pb pr where rp: "rectParams 2 s = Some (rectBounds pt pl pb pr s)"
    using rectParams_Some [OF p, of 2] by auto
  obtain y1 x1 y2 x2 where b: "rectBounds pt pl pb pr s = (y1, x1, y2, x2)" by (metis prod_cases4)
  note r = rectBounds_range [OF w b]
  obtain sum where "rectSum y1 x1 y2 x2 s = Some sum"
    using rectSum_total [OF w, of y1 y2 x1 x2] r by (auto simp: ensures_iff)
  then show ?thesis
    unfolding reportRectChecksum_def using w pid rp b by (simp add: Let_def scr_ok_iff)
qed

lemma copyRect_safe:
  assumes "wf s" "params_ok s" shows "safe (copyRect s) s"
proof -
  obtain pt pl pb pr where rp: "rectParams 0 s = Some (rectBounds pt pl pb pr s)"
    using rectParams_Some [OF assms(2), of 0] by auto
  obtain y1 x1 y2 x2 where b: "rectBounds pt pl pb pr s = (y1, x1, y2, x2)" by (metis prod_cases4)
  note r = rectBounds_range [OF assms(1) b]
  obtain dt dl where d: "paramVal 5 0 s = Some dt" "paramVal 6 0 s = Some dl"
    using paramVal_eq [OF assms(2)] by (metis zero_le_numeral)
  let ?h = "y2 - y1 + 1" and ?w = "x2 - x1 + 1"
  have buf: "ensures (mapM (\<lambda>i. do { row \<leftarrow> get_at (Cells s) (y1 + i); slice row x1 (x2 + 1) }) [0..?h - 1])
      (\<lambda>buf. int (length buf) = ?h \<and> (\<forall>row \<in> set buf. int (length row) = ?w))" if "?h > 0" "?w > 0"
  proof -
    have "ensures (mapM (\<lambda>i. do { row \<leftarrow> get_at (Cells s) (y1 + i); slice row x1 (x2 + 1) }) [0..?h - 1])
      (\<lambda>ys. length ys = length [0..?h - 1] \<and> (\<forall>y \<in> set ys. int (length y) = ?w))"
    proof (rule ensures_mapM)
      fix i assume i: "i \<in> set [0..?h - 1]"
      show "ensures (do { row \<leftarrow> get_at (Cells s) (y1 + i); slice row x1 (x2 + 1) }) (\<lambda>row. int (length row) = ?w)"
        using cell_row [OF assms(1), of "y1 + i"] i r that by auto
    qed
    then show ?thesis by (rule ensures_mono) (use that in simp)
  qed
  have paste: "safe (pasteRect dy dx ?h ?w buf s) s"
    if "int (length buf) = ?h \<and> (\<forall>row \<in> set buf. int (length row) = ?w)" for buf dy dx
    unfolding pasteRect_def
  proof (rule same_box_ok, rule ensures_foldM)
    show "same_box s s" using assms(1) by (simp add: same_box_def scr.ok_refl)
    fix i t assume i: "i \<in> set [0..?h - 1]" and t: "same_box s t"
    have row: "int (length (buf ! nat i)) = ?w" using i that by (auto simp: nat_less_iff)
    show "ensures (foldM (\<lambda>j s. let y = dy + i; x = dx + j in
         if y \<ge> 0 \<and> y < Height s \<and> x \<ge> 0 \<and> x < Width s
         then do { row \<leftarrow> get_at buf i; c \<leftarrow> get_at row j; setCell y x c s } else Some s) [0..?w - 1] t) (same_box s)"
    proof (rule ensures_foldM [where I = "same_box s", OF t])
      fix j u assume j: "j \<in> set [0..?w - 1]" and u: "same_box s u"
      then have "Height u = Height s" "Width u = Width s" by (simp_all add: same_box_def)
      then show "ensures (let y = dy + i; x = dx + j in
         if y \<ge> 0 \<and> y < Height u \<and> x \<ge> 0 \<and> x < Width u
         then do { row \<leftarrow> get_at buf i; c \<leftarrow> get_at row j; setCell y x c u } else Some u) (same_box s)"
        using i j u row that by (simp add: Let_def setCell_box)
    qed
  qed
  show ?thesis
  proof (cases "?h \<le> 0 \<or> ?w \<le> 0")
    case True
    then show ?thesis
      unfolding copyRect_def using rp b d assms(1)
      by (simp add: Let_def scr.ok_refl split: prod.split)
  next
    case False
    have "ensures (mapM (\<lambda>i. do { row \<leftarrow> get_at (Cells s) (y1 + i); slice row x1 (x2 + 1) }) [0..?h - 1])
        (\<lambda>buf. safe (pasteRect dy dx ?h ?w buf s) s)" for dy dx
      by (rule ensures_mono [OF buf]) (use False paste in auto)
    with False show ?thesis
      unfolding copyRect_def using rp b d by (simp add: Let_def split: prod.split)
  qed
qed

lemma drained_ok:
  "wf s \<Longrightarrow> scr.ok s (dropDrained s)" "wf s \<Longrightarrow> scr.ok s (clearWrapState s)"
  "wf s \<Longrightarrow> scr.ok s (s\<lparr>drainTail := []\<rparr>)"
  by (simp_all add: dropDrained_def clearWrapState_def ok_defs maxAutolinkRows_def)

lemma safe_map: "safe m s \<Longrightarrow> (\<And>t. wf t \<Longrightarrow> scr.ok t (f t)) \<Longrightarrow> safe (do { t \<leftarrow> m; Some (f t) }) s"
  by (rule scr.seq) (auto dest: scr.ok_inv)

lemma erase_safe:
  assumes "wf s"
  shows "safe (eraseInDisplay mode sel s) s" "safe (eraseInLine mode sel s) s" "safe (eraseChars n s) s"
proof -
  note e = grid_ops_safe(1)
  have seq: "safe (do { s \<leftarrow> eraseRegionMode a b c d m s; eraseRegionMode (f s) (g s) (h s) (k s) m' s }) s"
    for a b c d m f g h k m'
    by (rule scr.seq [OF e [OF assms]], rule e, rule scr.ok_inv)
  have two: "safe (do { s \<leftarrow> eraseRegionMode a b c d m s; Some (clearWrapState (dropDrained s)) }) s" for a b c d m
    by (rule safe_map [OF e [OF assms]], rule scr.ok_trans, erule drained_ok,
        rule drained_ok(2), rule scr.ok_inv, erule drained_ok(1))
  have three: "scr.ok s ((dropDrained (s\<lparr>scrollbackCleared := True\<rparr>))\<lparr>drainTail := []\<rparr>)"
    using assms by (simp add: dropDrained_def ok_defs maxAutolinkRows_def)
  show "safe (eraseInDisplay mode sel s) s"
    unfolding eraseInDisplay_def Let_def
    by (intro scr.ok_if seq two) (use three assms scr.ok_refl in simp_all)
  show "safe (eraseInLine mode sel s) s" "safe (eraseChars n s) s"
    unfolding eraseInLine_def eraseChars_def Let_def
    by (intro scr.ok_if e assms; use assms scr.ok_refl in simp)+
qed

lemma resetMargins_ok: "wf s \<Longrightarrow> scr.ok s ((resetMargins s)\<lparr>curX := 0, curY := 0, pendingWrap := False\<rparr>)"
  by (simp add: resetMargins_def ok_defs)

lemma setColumnMode_safe: "wf s \<Longrightarrow> safe (setColumnMode s) s"
  unfolding setColumnMode_def Let_def
proof (rule safe_after [OF resetMargins_ok], assumption, rule scr.ok_if)
  let ?t = "(resetMargins s)\<lparr>curX := 0, curY := 0, pendingWrap := False\<rparr>"
  assume t: "wf ?t"
  show "safe (Some ?t) ?t" using t by (simp add: scr.ok_refl)
  show "safe (do { s \<leftarrow> eraseRegion 0 0 (Height ?t - 1) (Width ?t - 1) ?t; Some (dropDrained s) }) ?t"
    by (rule safe_map [OF grid_ops_safe(2) [OF t] drained_ok(1)])
qed

lemma track_ok: "wf s \<Longrightarrow> scr.ok s (trackDECMode m b s)" "wf s \<Longrightarrow> scr.ok s (trackANSIMode m b s)"
  by (simp_all add: trackDECMode_def trackANSIMode_def scr_ok_iff)

lemma origin_ok: "wf s \<Longrightarrow> scr.ok s (s\<lparr>OriginMode := b, curY := scrollTop s, curX := leftBound s\<rparr>)"
    "wf s \<Longrightarrow> scr.ok s (s\<lparr>OriginMode := b, curY := 0, curX := 0\<rparr>)"
  using wf_scroll [of s] wf_width [of s] bounds_range [OF wf_box, of s]
  by (simp_all add: move_ok [unfolded scr_ok_iff] scr_ok_iff)

lemma margins_off_ok: "wf s \<Longrightarrow> scr.ok s (s\<lparr>LRMarginMode := False, leftMargin := 0, rightMargin := Width s - 1\<rparr>)"
  by (simp add: ok_defs)

lemma leftBound_origin [simp]: "leftBound (s\<lparr>OriginMode := b\<rparr>) = leftBound s"
  by (simp add: leftBound_def)

lemma setMode_safe: "wf s \<Longrightarrow> safe (setMode mode s) s"
  unfolding setMode_def Let_def
  by (intro scr.ok_if enterAltScreen_safe safe_after [OF track_ok(1) setColumnMode_safe])
     (simp_all add: origin_ok [unfolded scr_ok_iff] track_ok [unfolded scr_ok_iff]
        saveCursor_ok [unfolded scr_ok_iff] HoldFlush_def scr_ok_iff)

lemma resetMode_safe: "wf s \<Longrightarrow> safe (resetMode mode s) s"
proof -
  assume w: "wf s"
  have x: "scr.ok s (dropDrained (exitAltScreen mode s))"
    using exitAltScreen_ok [OF w] scr.ok_trans drained_ok(1) scr.ok_inv by blast
  show ?thesis
    unfolding resetMode_def Let_def
    by (intro scr.ok_if safe_after [OF track_ok(1) setColumnMode_safe] w)
       (simp_all add: w origin_ok [unfolded scr_ok_iff] track_ok [unfolded scr_ok_iff] x [unfolded scr_ok_iff]
          margins_off_ok [unfolded scr_ok_iff] restoreCursor_ok [unfolded scr_ok_iff] ReleaseFlush_def scr_ok_iff)
qed

lemma ansiMode_ok: "wf s \<Longrightarrow> scr.ok s (ansiMode b m s)"
  by (simp add: ansiMode_def trackANSIMode_def scr_ok_iff)

lemma modes_safe:
  assumes "wf s" "params_ok s"
  shows "safe (applyModes b s) s" "safe (xtSaveModes s) s" "safe (xtRestoreModes s) s"
proof -
  show "safe (applyModes b s) s"
    unfolding applyModes_def
    by (intro scr.ok_if paramLoop_safe assms)
       (simp_all add: setMode_safe resetMode_safe ansiMode_ok scr.ok_refl assms)
  show "safe (xtSaveModes s) s"
    unfolding xtSaveModes_def by (rule paramLoop_safe [OF assms]) (simp add: scr_ok_iff)
  show "safe (xtRestoreModes s) s"
    unfolding xtRestoreModes_def
    by (rule paramLoop_safe [OF assms]) (simp add: setMode_safe resetMode_safe)
qed

lemma softReset_ok: "wf s \<Longrightarrow> scr.ok s (softReset s)"
  by (simp add: softReset_def resetCharsets_def ok_defs slot_ok_def zeroSaved_def)

end
