(* ===== verification/Osc.thy ===== *)
theory Osc
  imports Reports
begin

text \<open>
  Operating system commands (\<^verbatim>\<open>src/vt/osc.go\<close> and the handler of
  \<^verbatim>\<open>src/vt/osc7501.go\<close>): the dispatch on the command number, titles, the palette and the
  dynamic and special colors with their X11 color syntax, hyperlinks, the clipboard,
  notifications and progress, and the program status reports. No command of this file can
  panic. The contract lemmas show that none touches the grid, the cursor or the parser.
\<close>

section \<open>Notifications and progress\<close>

definition maxNotificationLen :: nat where "maxNotificationLen = 256"

definition nextStatusSeq :: "screen \<Rightarrow> nat" where
  "nextStatusSeq s = max (NotificationSeq s) (ps_seq (program s)) + 1"

text \<open>The loop keeps the runes that are not unsafe until it has \<open>maxNotificationLen\<close> of them.\<close>

fun keepSafe :: "(rune \<Rightarrow> bool) \<Rightarrow> nat \<Rightarrow> rune list \<Rightarrow> rune list" where
  "keepSafe unsafe n [] = []"
| "keepSafe unsafe n (r # rs) = (if n \<ge> maxNotificationLen then []
     else if unsafe r then keepSafe unsafe n rs else r # keepSafe unsafe (n + 1) rs)"

definition sanitizeNotification :: "(rune \<Rightarrow> bool) \<Rightarrow> byte list \<Rightarrow> byte list" where
  "sanitizeNotification unsafe dt = encodeRunes (keepSafe unsafe 0 (runesOf dt))"

definition progressStateClear :: int where "progressStateClear = 0"
definition progressStateError :: int where "progressStateError = 2"
definition progressStateIndeterminate :: int where "progressStateIndeterminate = 3"
definition progressStateWarning :: int where "progressStateWarning = 4"

definition progressPercent :: "int \<Rightarrow> byte list list \<Rightarrow> int \<times> bool" where
  "progressPercent st fs = (
     if st = progressStateClear \<or> st = progressStateIndeterminate then (progressAbsent, True)
     else case fs of
       _ # pr # _ \<Rightarrow> (case atoi pr of None \<Rightarrow> (0, False)
         | Some pr \<Rightarrow> (min (max pr 0) progressPercentMax, True))
     | _ \<Rightarrow> (progressAbsent, st = progressStateError))"

definition setProgress :: "byte list \<Rightarrow> bool \<Rightarrow> screen \<Rightarrow> screen" where
  "setProgress rest hasFields s = (
     if \<not> hasFields then s\<lparr>Progress := progressStateClear, ProgressValue := progressAbsent\<rparr>
     else let fs = splitOn (chr CHR '';'') rest in
       case atoi (hd fs) of None \<Rightarrow> s
       | Some st \<Rightarrow>
           if st < progressStateClear \<or> st > progressStateWarning then s
           else case progressPercent st fs of (v, ok) \<Rightarrow>
             if \<not> ok then s else s\<lparr>Progress := st, ProgressValue := v\<rparr>)"

definition handleOsc9 :: "byte list \<Rightarrow> screen \<Rightarrow> screen" where
  "handleOsc9 dt s = (if dt = [] then s
     else case cutAt (chr CHR '';'') dt of (head, rest, hasFields) \<Rightarrow>
       if isAllDigits head then (if head = str ''4'' then setProgress rest hasFields s else s)
       else let msg = sanitizeNotification (unsafeSingleLine (env s)) dt in
         if msg = [] then s else s\<lparr>Notification := msg, NotificationSeq := nextStatusSeq s\<rparr>)"

section \<open>Color syntax\<close>

definition scaleHexTo8 :: "byte list \<Rightarrow> byte option" where
  "scaleHexTo8 h = (if length h < 1 \<or> length h > 4 then None
     else case parseHex h of None \<Rightarrow> None
     | Some v \<Rightarrow> let maxv = 2 ^ (4 * length h) - 1 in Some (word_of_int ((v * 255 + maxv div 2) div maxv)))"

definition leftJustifyHexTo8 :: "byte list \<Rightarrow> byte option" where
  "leftJustifyHexTo8 h = (if length h < 1 \<or> length h > 4 then None
     else case parseHex h of None \<Rightarrow> None
     | Some v \<Rightarrow> let v16 = v * 2 ^ (16 - 4 * length h) in Some (word_of_int (v16 div 256 mod 256)))"

text \<open>Three channels, packed as they are parsed; one that does not parse fails the whole.\<close>

definition packChannels :: "(byte list \<Rightarrow> byte option) \<Rightarrow> byte list list \<Rightarrow> int option" where
  "packChannels parse comps = foldM (\<lambda>c out. do { v \<leftarrow> parse c; Some (out * 256 + uint v) }) comps 0"

definition parseXColor :: "byte list \<Rightarrow> int option" where
  "parseXColor spec = (
     if hasPrefix spec (str ''rgb:'') then
       (let comps = splitOn (chr CHR ''/'') (drop 4 spec) in
        if length comps \<noteq> 3 then None else packChannels scaleHexTo8 comps)
     else if hasPrefix spec (str ''#'') then
       (let h = drop 1 spec; n = length h div 3 in
        if h = [] \<or> length h > 12 \<or> length h mod 3 \<noteq> 0 then None
        else packChannels leftJustifyHexTo8 [take n h, take n (drop n h), take n (drop (2 * n) h)])
     else None)"

definition rgbChannels :: "int \<Rightarrow> byte \<times> byte \<times> byte" where
  "rgbChannels rgb = (word_of_int (rgb div 65536), word_of_int (rgb div 256), word_of_int rgb)"

text \<open>\<^verbatim>\<open>rgb:%02x%02x/%02x%02x/%02x%02x\<close>, each channel doubled to 16 bits.\<close>

definition rgbSpec :: "int \<Rightarrow> byte list" where
  "rgbSpec rgb = (case rgbChannels rgb of (r, g, b) \<Rightarrow> str ''rgb:'' @ hex2 r @ hex2 r @ str ''/''
     @ hex2 g @ hex2 g @ str ''/'' @ hex2 b @ hex2 b)"

section \<open>Palette, special and dynamic colors\<close>

definition specialColorBase :: int where "specialColorBase = 256"
definition maxSpecialColorIndex :: int where "maxSpecialColorIndex = 263"

definition specialColorRGB :: "int \<Rightarrow> screen \<Rightarrow> int" where
  "specialColorRGB idx s = (case map_of (specialColors s) idx of Some c \<Rightarrow> c | None \<Rightarrow> 0)"

definition setOrQuerySpecialColor :: "int \<Rightarrow> int \<Rightarrow> int \<Rightarrow> byte list \<Rightarrow> screen \<Rightarrow> screen" where
  "setOrQuerySpecialColor osc num idx spec s = (
     if spec = str ''?'' then
       respond (oscReply (itoa osc @ str '';'' @ itoa num @ str '';'' @ rgbSpec (specialColorRGB idx s))) s
     else case parseXColor spec of None \<Rightarrow> s
       | Some rgb \<Rightarrow> s\<lparr>specialColors := AList.update idx rgb (specialColors s)\<rparr>)"

text \<open>One \<open>index ; spec\<close> pair of OSC 4, and the loop over the pairs.\<close>

definition palettePair :: "byte list \<Rightarrow> byte list \<Rightarrow> screen \<Rightarrow> screen" where
  "palettePair key spec s = (case atoi key of None \<Rightarrow> s
     | Some idx \<Rightarrow>
         if idx < 0 \<or> idx > maxSpecialColorIndex then s
         else if idx \<ge> specialColorBase then setOrQuerySpecialColor 4 idx idx spec s
         else if spec = str ''?'' then
           respond (oscReply (str ''4;'' @ itoa idx @ str '';''
             @ rgbSpec (colorToWire s (noColor\<lparr>cType := 2, cVal := word_of_int idx\<rparr>)))) s
         else case parseXColor spec of None \<Rightarrow> s
           | Some rgb \<Rightarrow> s\<lparr>paletteOverride := Some (AList.update (word_of_int idx) rgb
               (case paletteOverride s of None \<Rightarrow> [] | Some m \<Rightarrow> m)), paletteChanged := True\<rparr>)"

fun eachPair :: "(byte list \<Rightarrow> byte list \<Rightarrow> screen \<Rightarrow> screen) \<Rightarrow> byte list list \<Rightarrow> screen \<Rightarrow> screen" where
  "eachPair f (k # v # r) s = eachPair f r (f k v s)"
| "eachPair f _ s = s"

definition handleOscPalette :: "byte list \<Rightarrow> screen \<Rightarrow> screen" where
  "handleOscPalette dt s = eachPair palettePair (splitOn (chr CHR '';'') dt) s"

definition specialPair :: "byte list \<Rightarrow> byte list \<Rightarrow> screen \<Rightarrow> screen" where
  "specialPair key spec s = (case atoi key of None \<Rightarrow> s
     | Some k \<Rightarrow> if k < 0 \<or> k > maxSpecialColorIndex - specialColorBase then s
         else setOrQuerySpecialColor 5 k (specialColorBase + k) spec s)"

definition handleOscSpecialColor :: "byte list \<Rightarrow> screen \<Rightarrow> screen" where
  "handleOscSpecialColor dt s = eachPair specialPair (splitOn (chr CHR '';'') dt) s"

definition handleSpecialColorReset :: "byte list \<Rightarrow> screen \<Rightarrow> screen" where
  "handleSpecialColorReset dt s = (
     if dt = [] then s\<lparr>specialColors := []\<rparr>
     else fold (\<lambda>p s. case atoi p of None \<Rightarrow> s
       | Some k \<Rightarrow> if k < 0 \<or> k > maxSpecialColorIndex - specialColorBase then s
           else s\<lparr>specialColors := AList.delete (specialColorBase + k) (specialColors s)\<rparr>)
       (splitOn (chr CHR '';'') dt) s)"

definition handleOscPaletteReset :: "byte list \<Rightarrow> screen \<Rightarrow> screen" where
  "handleOscPaletteReset dt s = (
     if paletteOverride s = None then s
     else if dt = [] then s\<lparr>paletteOverride := None, paletteChanged := True\<rparr>
     else fold (\<lambda>p s. case atoi p of None \<Rightarrow> s
       | Some idx \<Rightarrow> if idx < 0 \<or> idx > 255 then s
           else case paletteOverride s of None \<Rightarrow> s
           | Some m \<Rightarrow> if map_of m (word_of_int idx) = None then s
               else s\<lparr>paletteOverride := Some (AList.delete (word_of_int idx) m), paletteChanged := True\<rparr>)
       (splitOn (chr CHR '';'') dt) s)"

definition dynColor :: "int \<Rightarrow> screen \<Rightarrow> int" where
  "dynColor slot s = (case map_of (dynColors s) slot of Some c \<Rightarrow> c
     | None \<Rightarrow> if slot = 11 \<or> slot = 14 \<or> slot = 16 \<or> slot = 17 then Background (theme s)
         else if slot = 12 then CursorColor (theme s) else Foreground (theme s))"

text \<open>One spec per slot, from slot \<open>id\<close> on; the loop stops after slot 19.\<close>

fun colorSlots :: "int \<Rightarrow> byte list list \<Rightarrow> screen \<Rightarrow> screen" where
  "colorSlots slot [] s = s"
| "colorSlots slot (spec # specs) s = (if slot > 19 then s
     else colorSlots (slot + 1) specs (
       if spec = str ''?'' then
         respond (oscReply (itoa slot @ str '';'' @ rgbSpec (dynColor slot s))) s
       else case parseXColor spec of None \<Rightarrow> s
         | Some rgb \<Rightarrow> s\<lparr>dynColors := AList.update slot rgb (dynColors s)\<rparr>))"

definition handleOscColor :: "int \<Rightarrow> byte list \<Rightarrow> screen \<Rightarrow> screen" where
  "handleOscColor slot dt s = colorSlots slot (splitOn (chr CHR '';'') dt) s"


section \<open>Hyperlink, clipboard, program status\<close>

definition handleOsc8 :: "byte list \<Rightarrow> screen \<Rightarrow> screen" where
  "handleOsc8 dt s = (case cutAt (chr CHR '';'') dt of (_, uri, ok) \<Rightarrow>
     if \<not> ok then s else s\<lparr>hyperlink := uri\<rparr>)"

definition b64Alphabet :: "byte \<Rightarrow> bool" where
  "b64Alphabet c \<longleftrightarrow> (chr CHR ''A'' \<le> c \<and> c \<le> chr CHR ''Z'') \<or> (chr CHR ''a'' \<le> c \<and> c \<le> chr CHR ''z'')
     \<or> (chr CHR ''0'' \<le> c \<and> c \<le> chr CHR ''9'') \<or> c = chr CHR ''+'' \<or> c = chr CHR ''/'' \<or> c = padByte"

definition trimPad :: "byte list \<Rightarrow> byte list" where
  "trimPad s = rev (dropWhile (\<lambda>c. c = padByte) (rev s))"

definition decodeBase64Lenient :: "byte list \<Rightarrow> byte list option" where
  "decodeBase64Lenient payload = (let cleaned = filter b64Alphabet payload in
     case b64DecodeStd cleaned of Some d \<Rightarrow> Some d
     | None \<Rightarrow> b64DecodeRaw (trimPad cleaned))"

definition handleOsc52 :: "byte list \<Rightarrow> screen \<Rightarrow> screen" where
  "handleOsc52 dt s = (case cutAt (chr CHR '';'') dt of (targets, payload, ok) \<Rightarrow>
     if \<not> ok then s
     else if payload = str ''?'' then
       (if \<not> AllowScreenReport s then s
        else let targets = (if targets = [] then str ''s0'' else targets) in
          respond (oscReply (str ''52;'' @ stripControlRunes targets @ str '';'' @ b64Encode (selectionData s))) s)
     else case decodeBase64Lenient payload of
       Some d \<Rightarrow> if d \<noteq> [] then s\<lparr>selectionData := d, pendingClipboard := d\<rparr> else s\<lparr>selectionData := []\<rparr>
     | None \<Rightarrow> s\<lparr>selectionData := []\<rparr>)"

definition programStatusReply :: "byte list" where
  "programStatusReply = oscReply
     (str ''7501;?:states=idle,working,done,blocked,error:kinds=permission,question,auth'')"

text \<open>An event without a report: its other fields are zero.\<close>

definition plainEvent :: "programEvent \<Rightarrow> programChange" where
  "plainEvent e = \<lparr>pc_id = [], pc_rec = zeroRecord, pc_seq = 0, pc_event = e\<rparr>"

definition handleOsc7501 :: "byte list \<Rightarrow> screen \<Rightarrow> screen" where
  "handleOsc7501 dt s = (if dt = str ''?'' then respond programStatusReply s
     else case parseProgramReport dt of None \<Rightarrow> s
     | Some (k, r) \<Rightarrow> s\<lparr>program := ps_apply \<lparr>pc_id = k, pc_rec = r, pc_seq = nextStatusSeq s,
         pc_event = programEventReport\<rparr> (program s)\<rparr>)"

definition ProgramExited :: "screen \<Rightarrow> screen" where
  "ProgramExited s = s\<lparr>program := ps_apply (plainEvent programEventExit) (program s)\<rparr>"

section \<open>Dispatch\<close>

text \<open>The command number; \<open>None\<close> where the dispatch returns without running anything.\<close>

definition oscCommand :: "byte list \<Rightarrow> bool \<Rightarrow> int option" where
  "oscCommand cmd hasSep = (if cmd \<noteq> [] \<or> \<not> hasSep then parseUint10 cmd 31 else Some 0)"

definition runOsc :: "int \<Rightarrow> byte list \<Rightarrow> screen \<Rightarrow> screen" where
  "runOsc n dt s = (
     if n = 0 then (let title = decodeTitle dt s in s\<lparr>Title := title, iconTitle := title\<rparr>)
     else if n = 2 then s\<lparr>Title := decodeTitle dt s\<rparr>
     else if n = 1 then s\<lparr>iconTitle := decodeTitle dt s\<rparr>
     else if n = 8 then handleOsc8 dt s
     else if n = 4 then handleOscPalette dt s
     else if n = 5 then handleOscSpecialColor dt s
     else if 10 \<le> n \<and> n \<le> 19 then handleOscColor n dt s
     else if n = 9 then handleOsc9 dt s
     else if n = 52 then handleOsc52 dt s
     else if n = 104 then handleOscPaletteReset dt s
     else if n = 105 then handleSpecialColorReset dt s
     else if n = 133 then
       (if fst (cutAt (chr CHR '';'') dt) = str ''A''
        then s\<lparr>program := ps_apply (plainEvent programEventPrompt) (program s)\<rparr> else s)
     else if n = 7501 then handleOsc7501 dt s
     else if 110 \<le> n \<and> n \<le> 119 then s\<lparr>dynColors := AList.delete (n - 100) (dynColors s)\<rparr>
     else s)"

definition dispatchOsc :: "screen \<Rightarrow> screen" where
  "dispatchOsc s0 = (let payload = oscBuf s0; s = s0\<lparr>oscBuf := []\<rparr> in
     if oscOverflow s then s
     else case cutAt (chr CHR '';'') payload of (cmd, rest, hasSep) \<Rightarrow>
       (case oscCommand cmd hasSep of None \<Rightarrow> s | Some n \<Rightarrow> runOsc n rest s))"

section \<open>Contracts\<close>

lemma nextStatusSeq_gt: "ps_seq (program s) < nextStatusSeq s" "NotificationSeq s < nextStatusSeq s"
  by (simp_all add: nextStatusSeq_def)

lemma wf_program_ok: "wf s \<Longrightarrow> program_ok (program s)"
  by (simp add: wf_def limits_ok_def)

lemma eachPair_ok: "(\<And>k v t. wf t \<Longrightarrow> scr.ok t (f k v t)) \<Longrightarrow> wf s \<Longrightarrow> scr.ok s (eachPair f ps s)"
proof (induction f ps s rule: eachPair.induct)
  case (1 f k v r s)
  then have step: "scr.ok s (f k v s)" by simp
  then have "wf (f k v s)" by (rule scr.ok_inv)
  with 1 have "scr.ok (f k v s) (eachPair f r (f k v s))" by simp
  with step show ?case using scr.ok_trans by simp
qed (simp_all add: scr_ok_iff)

lemma fold_ok: "(\<And>p t. wf t \<Longrightarrow> scr.ok t (f p t)) \<Longrightarrow> wf s \<Longrightarrow> scr.ok s (fold f ps s)"
proof (induction ps arbitrary: s)
  case (Cons p ps)
  then have step: "scr.ok s (f p s)" by simp
  then have "wf (f p s)" by (rule scr.ok_inv)
  with Cons have "scr.ok (f p s) (fold f ps (f p s))" by simp
  with step show ?case using scr.ok_trans by simp
qed (simp add: scr_ok_iff)

lemma colorSlots_ok: "wf s \<Longrightarrow> scr.ok s (colorSlots slot specs s)"
proof (induction slot specs s rule: colorSlots.induct)
  case (2 slot spec specs s)
  let ?t = "if spec = str ''?'' then
         respond (oscReply (itoa slot @ str '';'' @ rgbSpec (dynColor slot s))) s
       else case parseXColor spec of None \<Rightarrow> s
         | Some rgb \<Rightarrow> s\<lparr>dynColors := AList.update slot rgb (dynColors s)\<rparr>"
  have t: "scr.ok s ?t" using 2 by (simp add: scr_ok_iff split: option.split)
  show ?case
  proof (cases "slot > 19")
    case False
    have "wf ?t" using t by (rule scr.ok_inv)
    from scr.ok_trans [OF t 2(1) [OF False this]] False show ?thesis by simp
  qed (use 2 in \<open>simp add: scr_ok_iff\<close>)
qed (simp add: scr_ok_iff)

lemma special_ok: "wf s \<Longrightarrow> scr.ok s (setOrQuerySpecialColor osc n i spec s)"
  by (simp add: setOrQuerySpecialColor_def scr_ok_iff split: option.split)

lemma pair_ok: "wf s \<Longrightarrow> scr.ok s (palettePair k v s)" "wf s \<Longrightarrow> scr.ok s (specialPair k v s)"
  using special_ok by (simp_all add: palettePair_def specialPair_def scr_ok_iff split: option.split)

lemma osc_colors_ok:
  assumes "wf s"
  shows "scr.ok s (handleOscPalette dt s)" "scr.ok s (handleOscSpecialColor dt s)"
    "scr.ok s (handleOscColor n dt s)" "scr.ok s (handleSpecialColorReset dt s)"
    "scr.ok s (handleOscPaletteReset dt s)"
proof -
  show "scr.ok s (handleOscPalette dt s)" "scr.ok s (handleOscSpecialColor dt s)"
    unfolding handleOscPalette_def handleOscSpecialColor_def
    by (rule eachPair_ok; use assms pair_ok in blast)+
  show "scr.ok s (handleOscColor n dt s)"
    unfolding handleOscColor_def by (rule colorSlots_ok [OF assms])
  show "scr.ok s (handleSpecialColorReset dt s)"
    unfolding handleSpecialColorReset_def
    using assms by (auto simp: scr_ok_iff split: option.split intro!: fold_ok [unfolded scr_ok_iff])
  show "scr.ok s (handleOscPaletteReset dt s)"
    unfolding handleOscPaletteReset_def
    using assms by (auto simp: scr_ok_iff split: option.split intro!: fold_ok [unfolded scr_ok_iff])
qed


lemma osc9_ok: "wf s \<Longrightarrow> scr.ok s (handleOsc9 dt s)"
  by (simp add: handleOsc9_def setProgress_def scr_ok_iff Let_def split: option.split prod.split)

lemma osc7501_ok: "wf s \<Longrightarrow> scr.ok s (handleOsc7501 dt s)"
proof -
  assume w: "wf s"
  have "wf (s\<lparr>program := ps_apply \<lparr>pc_id = k, pc_rec = r, pc_seq = nextStatusSeq s,
      pc_event = programEventReport\<rparr> (program s)\<rparr>)" if "parseProgramReport dt = Some (k, r)" for k r
    by (rule wf_program [OF w ps_apply_ok [OF wf_program_ok [OF w]]])
       (use parseProgramReport_valid [OF that] nextStatusSeq_gt in \<open>simp add: change_ok_def record_valid_def\<close>)
  with w show ?thesis
    by (simp add: handleOsc7501_def scr_ok_iff split: option.split prod.split)
qed

lemma plainEvent_ok: "wf s \<Longrightarrow> e \<noteq> programEventReport \<Longrightarrow>
    scr.ok s (s\<lparr>program := ps_apply (plainEvent e) (program s)\<rparr>)"
  by (simp add: scr_ok_iff wf_program ps_apply_ok wf_program_ok change_ok_def plainEvent_def)

lemma ProgramExited_ok: "wf s \<Longrightarrow> scr.ok s (ProgramExited s)"
  unfolding ProgramExited_def by (rule plainEvent_ok) simp_all

lemma if_ok: "(b \<Longrightarrow> scr.ok s x) \<Longrightarrow> (\<not> b \<Longrightarrow> scr.ok s y) \<Longrightarrow> scr.ok s (if b then x else y)"
  by simp

lemma runOsc_ok:
  assumes "wf s"
  shows "scr.ok s (runOsc n dt s)"
proof -
  have simple: "scr.ok s (s\<lparr>Title := a\<rparr>)" "scr.ok s (s\<lparr>iconTitle := a\<rparr>)"
    "scr.ok s (s\<lparr>Title := a, iconTitle := b\<rparr>)" "scr.ok s (s\<lparr>dynColors := d\<rparr>)" "scr.ok s s" for a b d
    using assms by (simp_all add: scr_ok_iff)
  have h: "scr.ok s (handleOsc8 dt s)" "scr.ok s (handleOsc52 dt s)"
    using assms by (simp_all add: handleOsc8_def handleOsc52_def scr_ok_iff Let_def split: option.split prod.split)
  have p: "scr.ok s (s\<lparr>program := ps_apply (plainEvent programEventPrompt) (program s)\<rparr>)"
    by (rule plainEvent_ok [OF assms]) simp
  note all = simple h p osc9_ok [OF assms] osc7501_ok [OF assms] osc_colors_ok [OF assms]
  show ?thesis unfolding runOsc_def Let_def by (intro if_ok all)
qed

lemma dispatchOsc_ok: "wf s \<Longrightarrow> scr.ok s (dispatchOsc s)"
proof -
  assume "wf s"
  then have b: "scr.ok s (s\<lparr>oscBuf := []\<rparr>)" by (simp add: ok_defs)
  then have "scr.ok s (runOsc n dt (s\<lparr>oscBuf := []\<rparr>))" for n dt
    using scr.ok_trans [OF b runOsc_ok] scr.ok_inv by blast
  with b show ?thesis
    by (simp add: dispatchOsc_def Let_def split: option.split prod.split)
qed


section \<open>Color specifications\<close>

lemma hex2_values: "hexValue (hexDigitL (uint (b :: byte) div 16)) = Some (uint b div 16)"
    "hexValue (hexDigitL (uint b mod 16)) = Some (uint b mod 16)"
  using hexValue_digit(1) [OF uint_div_16 [of b]] hexValue_digit(1) [of "uint b mod 16"] by simp_all

lemma parseHex_double: "parseHex (hex2 b @ hex2 b) = Some (uint b * 257)"
proof -
  have "uint b div 16 * 16 + uint b mod 16 = uint b" by simp
  then show ?thesis by (simp add: parseHex_def hex2_def hex2_values)
qed

lemma scale_double: "scaleHexTo8 (hex2 b @ hex2 b) = Some b"
proof -
  have "(uint b * 257 * 255 + 32767) div 65535 = uint b" by simp
  then show ?thesis
    by (simp add: scaleHexTo8_def parseHex_double Let_def) (simp add: hex2_def)
qed

lemma hex2_no_slash: "chr CHR ''/'' \<notin> set (hex2 b)"
  using hexDigitL_range [OF uint_div_16 [of b]] hexDigitL_range [of "uint b mod 16"]
  by (auto simp: hex2_def)

lemma rgb_bytes:
  assumes "0 \<le> c" "c < 16777216"
  shows "(uint (word_of_int (c div 65536) :: byte) * 256 + uint (word_of_int (c div 256) :: byte)) * 256
    + uint (word_of_int c :: byte) = c"
proof -
  have "uint (word_of_int (c div 65536) :: byte) = c div 65536"
    using assms by (intro uint_byte_of_int) auto
  moreover have "uint (word_of_int (c div 256) :: byte) = c div 256 mod 256"
    "uint (word_of_int c :: byte) = c mod 256"
    by (simp_all add: unsigned_of_int take_bit_eq_mod)
  moreover have "c div 65536 = c div 256 div 256" using zdiv_zmult2_eq [of 256 c 256] by simp
  moreover have "c div 256 div 256 * 256 + c div 256 mod 256 = c div 256" "c div 256 * 256 + c mod 256 = c"
    by simp_all
  ultimately show ?thesis by (simp only:)
qed

text \<open>The reply format of every color query is a specification of the reported color.\<close>

lemma parse_rgbSpec:
  assumes "0 \<le> c" "c < 16777216"
  shows "parseXColor (rgbSpec c) = Some c"
proof -
  obtain r g b where rgb: "rgbChannels c = (r, g, b)" by (cases "rgbChannels c") auto
  have spec: "rgbSpec c = str ''rgb:'' @ joinWith (chr CHR ''/'') [hex2 r @ hex2 r, hex2 g @ hex2 g, hex2 b @ hex2 b]"
    by (simp add: rgbSpec_def rgb str_def)
  have split: "splitOn (chr CHR ''/'') (joinWith (chr CHR ''/'') [hex2 r @ hex2 r, hex2 g @ hex2 g, hex2 b @ hex2 b])
      = [hex2 r @ hex2 r, hex2 g @ hex2 g, hex2 b @ hex2 b]"
    by (rule splitOn_join) (use hex2_no_slash in auto)
  have len: "length (str ''rgb:'') = 4" by (simp add: str_def)
  have "packChannels scaleHexTo8 [hex2 r @ hex2 r, hex2 g @ hex2 g, hex2 b @ hex2 b] = Some c"
    using rgb_bytes [OF assms] rgb by (simp add: packChannels_def scale_double rgbChannels_def)
  then show ?thesis
    unfolding parseXColor_def spec using split len by (simp add: hasPrefix_def)
qed

lemma packChannels_range: "length comps = 3 \<Longrightarrow> packChannels f comps = Some c \<Longrightarrow> 0 \<le> c \<and> c < 16777216"
proof -
  assume l: "length comps = 3" and p: "packChannels f comps = Some c"
  obtain x y z where "comps = [x, y, z]" using l by (auto simp: length_Suc_conv numeral_3_eq_3)
  with p obtain u v w where "c = (uint (u :: byte) * 256 + uint (v :: byte)) * 256 + uint (w :: byte)"
    by (auto simp: packChannels_def bind_eq_Some_conv)
  then show ?thesis using uint_lt2p [of u] uint_lt2p [of v] uint_lt2p [of w] by simp
qed

lemma parseXColor_range: "parseXColor spec = Some c \<Longrightarrow> 0 \<le> c \<and> c < 16777216"
proof -
  have three: "packChannels f [x, y, z] = Some c \<Longrightarrow> 0 \<le> c \<and> c < 16777216" for f x y z
    by (rule packChannels_range [of "[x, y, z]"]) simp_all
  assume "parseXColor spec = Some c"
  then show ?thesis
    unfolding parseXColor_def Let_def
    by (simp split: if_splits) (use packChannels_range three in blast)+
qed

text \<open>
  A palette entry set with any valid X11 color specification and then queried (OSC 4) is
  answered with a specification of exactly the color that was set: the reply parses back to it,
  and the override is the color the renderer resolves the entry to.
\<close>

theorem palette_set_query:
  assumes "parseXColor spec = Some c" "chr CHR '';'' \<notin> set spec" "0 \<le> idx" "idx \<le> 255"
  shows "response (handleOscPalette (joinWith (chr CHR '';'') [itoa idx, spec, itoa idx, str ''?'']) s)
      = response s @ oscReply (str ''4;'' @ itoa idx @ str '';'' @ rgbSpec c)
    \<and> parseXColor (rgbSpec c) = Some c
    \<and> colorToWire (handleOscPalette (joinWith (chr CHR '';'') [itoa idx, spec]) s)
      (noColor\<lparr>cType := 2, cVal := word_of_int idx\<rparr>) = c"
proof -
  have q: "spec \<noteq> str ''?''" using assms(1) by (auto simp: parseXColor_def hasPrefix_def str_def)
  have a: "atoi (itoa idx) = Some idx" using assms by (intro atoi_itoa) simp_all
  have clean: "chr CHR '';'' \<notin> set (itoa idx)" "chr CHR '';'' \<notin> set (str ''?'')"
    using itoa_clean [OF assms(3)] by (simp_all add: str_def)
  have split: "splitOn (chr CHR '';'') (joinWith (chr CHR '';'') [itoa idx, spec, itoa idx, str ''?''])
      = [itoa idx, spec, itoa idx, str ''?'']"
    "splitOn (chr CHR '';'') (joinWith (chr CHR '';'') [itoa idx, spec]) = [itoa idx, spec]"
    using clean assms(2) by (simp_all add: splitOn_join del: joinWith.simps)
  let ?t = "palettePair (itoa idx) spec s"
  have t: "paletteOverride ?t = Some (AList.update (word_of_int idx) c
      (case paletteOverride s of None \<Rightarrow> [] | Some m \<Rightarrow> m))" "response ?t = response s"
    using assms q a by (simp_all add: palettePair_def specialColorBase_def maxSpecialColorIndex_def)
  have wire: "colorToWire ?t (noColor\<lparr>cType := 2, cVal := word_of_int idx\<rparr>) = c"
    using t by (simp add: colorToWire_def overrideOr_def update_conv')
  have "response (handleOscPalette (joinWith (chr CHR '';'') [itoa idx, spec, itoa idx, str ''?'']) s)
      = response (palettePair (itoa idx) (str ''?'') ?t)"
    unfolding handleOscPalette_def split by simp
  also have "\<dots> = response s @ oscReply (str ''4;'' @ itoa idx @ str '';'' @ rgbSpec c)"
    using a assms(3,4) t(2) wire
    by (simp add: palettePair_def [of "itoa idx" "str ''?''" ?t] specialColorBase_def
        maxSpecialColorIndex_def respond_def)
  finally have reply: "response (handleOscPalette (joinWith (chr CHR '';'') [itoa idx, spec, itoa idx, str ''?'']) s)
      = response s @ oscReply (str ''4;'' @ itoa idx @ str '';'' @ rgbSpec c)" .
  have "colorToWire (handleOscPalette (joinWith (chr CHR '';'') [itoa idx, spec]) s)
      (noColor\<lparr>cType := 2, cVal := word_of_int idx\<rparr>) = c"
    unfolding handleOscPalette_def split by (simp add: wire)
  with reply parseXColor_range [OF assms(1)] parse_rgbSpec show ?thesis by blast
qed


lemma palette_set_query_witness:
  "parseXColor (rgbSpec 0xF08000) = Some 0xF08000
   \<and> response (handleOscPalette (joinWith (chr CHR '';'') [itoa 5, str ''#f80'', itoa 5, str ''?'']) demoScreen)
      = response demoScreen @ oscReply (str ''4;'' @ itoa 5 @ str '';'' @ rgbSpec 0xF08000)"
proof -
  have "parseXColor (str ''#f80'') = Some 0xF08000" by code_simp
  moreover have "chr CHR '';'' \<notin> set (str ''#f80'')" by (simp add: str_def)
  ultimately show ?thesis using palette_set_query [of "str ''#f80''" "0xF08000" 5 demoScreen] by simp
qed

section \<open>Clipboard\<close>

lemma b64Char_alphabet: "0 \<le> v \<Longrightarrow> v < 64 \<Longrightarrow> b64Alphabet (b64Char v)"
  by (auto simp: b64Alphabet_def b64Char_def word_le_def uint_byte_of_int simp del: of_int_add of_int_diff)

lemma b64Encode_alphabet: "\<forall>c \<in> set (b64Encode d). b64Alphabet c"
proof (induction d rule: b64Encode.induct)
  case (2 a)
  have "b64Alphabet padByte" by (simp add: b64Alphabet_def)
  then show ?case by (simp add: b64Char_alphabet byte_digits)
next
  case (3 a b)
  have "b64Alphabet padByte" by (simp add: b64Alphabet_def)
  then show ?case by (simp add: b64Char_alphabet byte_digits)
next
  case (4 a b c r)
  then show ?case by (simp add: b64Char_alphabet byte_digits)
qed simp

lemma filter_b64Encode: "filter b64Alphabet (b64Encode d) = b64Encode d"
  using b64Encode_alphabet by simp

text \<open>
  A clipboard write (OSC 52) delivers exactly the text it encodes: for a payload that is the
  base64 form of a text, with any bytes outside the base64 alphabet mixed into it (line breaks, a
  stray quote), both the selection buffer and the pending browser clipboard become that text, and
  nothing else of the screen changes.
\<close>

theorem clipboard_write:
  assumes "chr CHR '';'' \<notin> set targets" "filter b64Alphabet payload = b64Encode content" "content \<noteq> []"
  shows "handleOsc52 (targets @ chr CHR '';'' # payload) s = s\<lparr>selectionData := content, pendingClipboard := content\<rparr>"
proof -
  have q: "payload \<noteq> str ''?''"
  proof
    assume "payload = str ''?''"
    then have "filter b64Alphabet payload = []" by (simp add: str_def b64Alphabet_def padByte_def word_le_def)
    with assms(2,3) show False by (cases content rule: b64Encode.cases) simp_all
  qed
  have "decodeBase64Lenient payload = Some content"
    by (simp add: decodeBase64Lenient_def assms(2) b64_roundtrip)
  with q assms(3) cutAt_append [OF assms(1), of payload] show ?thesis by (simp add: handleOsc52_def)
qed

lemma clipboard_write_witness:
  "handleOsc52 (str ''c'' @ chr CHR '';'' # b64Encode (str ''hi'') @ str ''!'') demoScreen
   = demoScreen\<lparr>selectionData := str ''hi'', pendingClipboard := str ''hi''\<rparr>"
proof -
  have "filter b64Alphabet (b64Encode (str ''hi'') @ str ''!'') = b64Encode (str ''hi'')"
    by (simp add: filter_b64Encode) (simp add: str_def b64Alphabet_def padByte_def word_le_def)
  moreover have "str ''hi'' \<noteq> []" "chr CHR '';'' \<notin> set (str ''c'')" by (simp_all add: str_def)
  ultimately show ?thesis by (intro clipboard_write) simp_all
qed

text \<open>
  The clipboard cannot be read back by the program unless screen reports are allowed: without
  the permission no OSC 52 payload of any form produces a reply.
\<close>

theorem clipboard_read_gated:
  "\<not> AllowScreenReport s \<Longrightarrow> response (handleOsc52 dt s) = response s"
  by (simp add: handleOsc52_def split: prod.split option.split)

lemma clipboard_read_gated_witness: "response (handleOsc52 (str ''c;?'') demoScreen) = []"
proof -
  have "\<not> AllowScreenReport demoScreen" "response demoScreen = []"
    by (simp_all add: demoScreen_def New_def Let_def capDimension_def maxDimension_def)
  then show ?thesis using clipboard_read_gated [of demoScreen "str ''c;?''"] by simp
qed

section \<open>Notifications and progress\<close>

lemma keepSafe_eq: "keepSafe unsafe n rs = take (maxNotificationLen - n) (filter (\<lambda>r. \<not> unsafe r) rs)"
proof (induction unsafe n rs rule: keepSafe.induct)
  case (2 unsafe n r rs)
  show ?case
  proof (cases "n \<ge> maxNotificationLen")
    case False
    then have "maxNotificationLen - n = Suc (maxNotificationLen - (n + 1))" by simp
    with 2 False show ?thesis by simp
  qed simp
qed simp

lemma sanitized_runes: "runesOf (sanitizeNotification unsafe dt)
    = take maxNotificationLen (filter (\<lambda>r. \<not> unsafe r) (runesOf dt))"
  unfolding sanitizeNotification_def keepSafe_eq
  by (simp add: runesOf_encode) (rule runesOf_encode, auto dest!: in_set_takeD dest: runesOf_valid [THEN bspec])

text \<open>
  Whatever an OSC 9 payload is, the stored notification is either untouched or replaced by the
  first 256 safe runes of the payload, in order and free of every unsafe rune, and then its
  sequence number exceeds every number given out before, of a program report too.
\<close>

theorem notification_safe:
  "let s' = handleOsc9 dt s in
     (Notification s' = Notification s \<and> NotificationSeq s' = NotificationSeq s)
   \<or> (runesOf (Notification s') = take 256 (filter (\<lambda>r. \<not> unsafeSingleLine (env s) r) (runesOf dt))
      \<and> Notification s' \<noteq> []
      \<and> NotificationSeq s < NotificationSeq s' \<and> ps_seq (program s) < NotificationSeq s')"
  using nextStatusSeq_gt [of s] sanitized_runes [of "unsafeSingleLine (env s)" dt]
  by (simp add: handleOsc9_def setProgress_def Let_def maxNotificationLen_def split: option.split prod.split)

definition progress_valid :: "screen \<Rightarrow> bool" where
  "progress_valid s \<longleftrightarrow> Progress s = -1 \<and> ProgressValue s = -1
     \<or> 0 \<le> Progress s \<and> Progress s \<le> 4 \<and> -1 \<le> ProgressValue s \<and> ProgressValue s \<le> 100
       \<and> (Progress s = 0 \<or> Progress s = 3 \<longrightarrow> ProgressValue s = -1)
       \<and> (Progress s = 1 \<or> Progress s = 4 \<longrightarrow> 0 \<le> ProgressValue s)"

text \<open>
  No OSC 9 payload, malformed ones included, leaves an invalid progress state: the state is
  one of the five of the protocol (or none was seen), the percentage is absent or within 0 to 100,
  absent for the states that have none and present for the states that require one.
\<close>

theorem progress_stays_valid: "progress_valid s \<Longrightarrow> progress_valid (handleOsc9 dt s)"
proof -
  assume p: "progress_valid s"
  have "progress_valid (setProgress rest h s)" for rest h
  proof (cases "h \<and> atoi (hd (splitOn (chr CHR '';'') rest)) \<noteq> None")
    case False
    with p show ?thesis
      by (auto simp: setProgress_def progressStateClear_def progressAbsent_def progress_valid_def Let_def)
  next
    case True
    then obtain st where st: "atoi (hd (splitOn (chr CHR '';'') rest)) = Some st" by auto
    obtain v ok where v: "progressPercent st (splitOn (chr CHR '';'') rest) = (v, ok)" by fastforce
    have "ok \<Longrightarrow> -1 \<le> v \<and> v \<le> 100 \<and> (st = 0 \<or> st = 3 \<longrightarrow> v = -1) \<and> (0 \<le> v \<or> st = 0 \<or> st = 2 \<or> st = 3)"
      using v by (auto simp: progressPercent_def progressStateClear_def progressStateError_def
          progressStateIndeterminate_def progressAbsent_def progressPercentMax_def split: list.splits option.splits if_splits)
    with p True st v show ?thesis
      by (auto simp: setProgress_def Let_def progressStateClear_def progressStateWarning_def progress_valid_def)
  qed
  with p show ?thesis
    by (simp add: handleOsc9_def Let_def split: prod.split) (simp add: progress_valid_def)
qed

lemma progress_stays_valid_witness: "progress_valid (handleOsc9 (str ''4;1;250'') demoScreen)"
proof (rule progress_stays_valid)
  show "progress_valid demoScreen"
    by (simp add: demoScreen_def New_def Let_def capDimension_def maxDimension_def progress_valid_def progressAbsent_def)
qed

end
