(* ===== verification/Dispatch.thy ===== *)
theory Dispatch
  imports Modes Osc
begin

text \<open>
  The CSI dispatch of \<^verbatim>\<open>src/vt/csi.go\<close>: the table of final bytes, the table of
  intermediates, and the rule that a known intermediate consumes its sequence. Every sequence
  meets the contract of the screen.
\<close>

section \<open>The main table\<close>

definition csiCUP :: "screen \<Rightarrow> screen option" where
  "csiCUP s = do { y \<leftarrow> paramVal 0 1 s; x \<leftarrow> paramVal 1 1 s; Some (cursorPosition (y - 1) (x - 1) s) }"

definition csiCHA :: "screen \<Rightarrow> screen option" where
  "csiCHA s = do { x \<leftarrow> paramVal 0 1 s; Some (s\<lparr>curX := originCol (x - 1) s\<rparr>) }"

definition csiClearsWrap :: "byte \<Rightarrow> bool" where
  "csiClearsWrap b \<longleftrightarrow> b \<in> set (str ''ABCDEFGHfde`aIZu'')"

definition versionReply :: "byte list" where
  "versionReply = dcsReply (str ''>|web-terminal-engine'')"

text \<open>An absent entry of the table is logged and changes nothing.\<close>

definition csiMain :: "byte \<Rightarrow> screen \<Rightarrow> screen option" where
  "csiMain c s = (
     if c = chr CHR ''A'' then do { n \<leftarrow> paramVal 0 1 s; Some (cursorUp n s) }
     else if c = chr CHR ''B'' then do { n \<leftarrow> paramVal 0 1 s; Some (cursorDown n s) }
     else if c = chr CHR ''C'' then do { n \<leftarrow> paramVal 0 1 s; Some (cursorRight n s) }
     else if c = chr CHR ''D'' then do { n \<leftarrow> paramVal 0 1 s; Some (cursorLeft n s) }
     else if c = chr CHR ''E'' then do {
       n \<leftarrow> paramVal 0 1 s; Some (let s = cursorDown n s in s\<lparr>curX := leftBound s\<rparr>) }
     else if c = chr CHR ''F'' then do {
       n \<leftarrow> paramVal 0 1 s; Some (let s = cursorUp n s in s\<lparr>curX := leftBound s\<rparr>) }
     else if c = chr CHR ''G'' then csiCHA s
     else if c = chr CHR ''H'' then csiCUP s
     else if c = chr CHR ''f'' then csiCUP s
     else if c = chr CHR ''J'' then do { n \<leftarrow> paramVal 0 0 s; eraseInDisplay n (privateMarker s = chr CHR ''?'') s }
     else if c = chr CHR ''K'' then do { n \<leftarrow> paramVal 0 0 s; eraseInLine n (privateMarker s = chr CHR ''?'') s }
     else if c = chr CHR ''@'' then do { n \<leftarrow> paramVal 0 1 s; insertChars n s }
     else if c = chr CHR ''L'' then do { n \<leftarrow> paramVal 0 1 s; insertLines n s }
     else if c = chr CHR ''M'' then do { n \<leftarrow> paramVal 0 1 s; deleteLines n s }
     else if c = chr CHR ''P'' then do { n \<leftarrow> paramVal 0 1 s; deleteChars n s }
     else if c = chr CHR ''S'' then do { n \<leftarrow> paramVal 0 1 s; scrollUp n s }
     else if c = chr CHR ''T'' then
       (if privateMarker s = chr CHR ''>'' then setTitleModes False s
        else do { n \<leftarrow> paramVal 0 1 s; scrollDown n s })
     else if c = chr CHR ''^'' then do { n \<leftarrow> paramVal 0 1 s; scrollDown n s }
     else if c = chr CHR ''X'' then do { n \<leftarrow> paramVal 0 1 s; eraseChars n s }
     else if c = chr CHR ''I'' then do { n \<leftarrow> paramVal 0 1 s; cursorTabForward n s }
     else if c = chr CHR ''Z'' then do { n \<leftarrow> paramVal 0 1 s; cursorTabBackward n s }
     else if c = chr CHR 0x60 then csiCHA s
     else if c = chr CHR ''a'' then do { n \<leftarrow> paramVal 0 1 s; Some (clampCursor (s\<lparr>curX := curX s + n\<rparr>)) }
     else if c = chr CHR ''d'' then do { n \<leftarrow> paramVal 0 1 s; Some (s\<lparr>curY := originRow (n - 1) s\<rparr>) }
     else if c = chr CHR ''e'' then do { n \<leftarrow> paramVal 0 1 s; Some (cursorDown n s) }
     else if c = chr CHR ''b'' then do { n \<leftarrow> paramVal 0 1 s; repeatLastChar n s }
     else if c = chr CHR ''c'' then deviceAttributes s
     else if c = chr CHR ''g'' then do { n \<leftarrow> paramVal 0 0 s; tabClear n s }
     else if c = chr CHR ''r'' then
       (if privateMarker s = 0 then setScrollRegion s
        else if privateMarker s = chr CHR ''?'' then xtRestoreModes s else Some s)
     else if c = chr CHR ''m'' then (if privateMarker s = 0 then applySGR s else Some s)
     else if c = chr CHR ''s'' then
       (if privateMarker s = 0 then (if LRMarginMode s then setLeftRightMargins s else Some (saveCursor s))
        else if privateMarker s = chr CHR ''?'' then xtSaveModes s else Some s)
     else if c = chr CHR ''u'' then
       (if privateMarker s = 0 then Some (restoreCursor s)
        else if privateMarker s = chr CHR ''?'' then Some (reportKeyboardFlags s)
        else if privateMarker s = chr CHR ''>'' then do { f \<leftarrow> paramVal 0 0 s; Some (pushKeyboardFlags f s) }
        else if privateMarker s = chr CHR ''<'' then do { n \<leftarrow> paramVal 0 1 s; Some (popKeyboardFlags n s) }
        else if privateMarker s = chr CHR ''='' then do {
          f \<leftarrow> paramVal 0 0 s; m \<leftarrow> paramVal 1 1 s; Some (setKeyboardFlags f m s) }
        else Some s)
     else if c = chr CHR ''q'' then
       Some (if privateMarker s = chr CHR ''>'' then respond versionReply s else s)
     else if c = chr CHR ''h'' then applyModes True s
     else if c = chr CHR ''l'' then applyModes False s
     else if c = chr CHR ''t'' then
       (if privateMarker s = chr CHR ''>'' then setTitleModes True s else windowManipulation s)
     else if c = chr CHR ''n'' then deviceStatusReport s
     else Some s)"

section \<open>Sequences with an intermediate byte\<close>

definition cursorStyle :: "screen \<Rightarrow> screen option" where
  "cursorStyle s = do {
     v \<leftarrow> paramVal 0 0 s;
     Some (if v \<le> 6 then s\<lparr>CursorStyle := v, CursorBlink := (v = 0 \<or> v mod 2 = 1)\<rparr> else s) }"

text \<open>An entry of the table, \<open>None\<close> inside where there is none.\<close>

definition csiIntermediate :: "byte \<Rightarrow> byte \<Rightarrow> screen \<Rightarrow> screen option option" where
  "csiIntermediate i c s = (
     if i = chr CHR '' '' then
       (if c = chr CHR ''@'' then Some (do { n \<leftarrow> paramVal 0 1 s; shiftLeft n s })
        else if c = chr CHR ''A'' then Some (do { n \<leftarrow> paramVal 0 1 s; shiftRight n s })
        else if c = chr CHR ''q'' then Some (cursorStyle s)
        else None)
     else if i = chr CHR ''!'' then (if c = chr CHR ''p'' then Some (Some (softReset s)) else None)
     else if i = chr CHR ''$'' then
       (if c = chr CHR ''p'' then Some (handleDECRQM s)
        else if c = chr CHR ''x'' then Some (fillRect s)
        else if c = chr CHR ''z'' then Some (eraseRect False s)
        else if c = chr CHR ''{'' then Some (eraseRect True s)
        else if c = chr CHR ''v'' then Some (copyRect s)
        else None)
     else if i = chr CHR 0x22 then
       (if c = chr CHR ''q'' then Some (do { v \<leftarrow> paramVal 0 0 s; Some (s\<lparr>curProtected := (v = 1)\<rparr>) })
        else if c = chr CHR ''p'' then Some (do { v \<leftarrow> paramVal 0 65 s; Some (s\<lparr>conformanceLevel := v\<rparr>) })
        else None)
     else if i = chr CHR 0x27 then
       (if c = chr CHR ''}'' then Some (do { n \<leftarrow> paramVal 0 1 s; insertColumns n s })
        else if c = chr CHR ''~'' then Some (do { n \<leftarrow> paramVal 0 1 s; deleteColumns n s })
        else None)
     else if i = chr CHR ''*'' then
       (if c = chr CHR ''y'' then Some (reportRectChecksum s)
        else if c = chr CHR ''x'' then Some (Some s)
        else if c = chr CHR ''|'' then Some (do { v \<leftarrow> paramVal 0 0 s; Some (s\<lparr>linesPerScreen := v\<rparr>) })
        else None)
     else None)"

definition knownPrefix :: "byte \<Rightarrow> bool" where
  "knownPrefix i \<longleftrightarrow> i = chr CHR '' '' \<or> i = chr CHR ''!'' \<or> i = chr CHR ''$'' \<or> i = chr CHR 0x22
     \<or> i = chr CHR 0x27 \<or> i = chr CHR ''*''"

text \<open>The state and whether the sequence was consumed; the log line reads a parameter.\<close>

definition dispatchCSIIntermediate :: "byte \<Rightarrow> screen \<Rightarrow> (screen \<times> bool) option" where
  "dispatchCSIIntermediate c s = do {
     i \<leftarrow> get_at (pIntermed s) 0;
     (case csiIntermediate i c s of
        Some h \<Rightarrow> do { s \<leftarrow> h; Some (s, True) }
      | None \<Rightarrow>
          if i = chr CHR '' '' then do { _ \<leftarrow> paramVal 0 0 s; Some (s, True) }
          else Some (s, knownPrefix i)) }"

definition dispatchCSI :: "byte \<Rightarrow> screen \<Rightarrow> screen option" where
  "dispatchCSI c s0 = (let s = (if csiClearsWrap c then s0\<lparr>pendingWrap := False\<rparr> else s0) in do {
     (s, consumed) \<leftarrow> (if numInterm s > 0 then dispatchCSIIntermediate c s else Some (s, False));
     if consumed then Some s else csiMain c s })"

section \<open>Contracts\<close>

lemma applySGR_safe: "wf s \<Longrightarrow> params_ok s \<Longrightarrow> safe (applySGR s) s"
  by (simp add: applySGR_eq scr_ok_iff)

lemma next_line_ok: "wf s \<Longrightarrow> scr.ok s (let s = cursorDown n s in s\<lparr>curX := leftBound s\<rparr>)"
    "wf s \<Longrightarrow> scr.ok s (let s = cursorUp n s in s\<lparr>curX := leftBound s\<rparr>)"
proof -
  have x: "scr.ok s (t\<lparr>curX := leftBound t\<rparr>)" if "scr.ok s t" for t
  proof -
    have t: "wf t" using that by (rule scr.ok_inv)
    note b = bounds_range [OF wf_box [OF t]]
    have "scr.ok t (t\<lparr>curX := leftBound t\<rparr>)" using b by (intro move_ok(2) [OF t]) simp_all
    with that show ?thesis by (rule scr.ok_trans)
  qed
  assume "wf s"
  then show "scr.ok s (let s = cursorDown n s in s\<lparr>curX := leftBound s\<rparr>)"
    "scr.ok s (let s = cursorUp n s in s\<lparr>curX := leftBound s\<rparr>)"
    unfolding Let_def by (simp_all add: x cursor_ops_ok)
qed

lemma csi_cursor_safe:
  assumes "wf s" "params_ok s"
  shows "safe (csiCUP s) s" "safe (csiCHA s) s"
    "safe (do { n \<leftarrow> paramVal 0 1 s; Some (s\<lparr>curY := originRow (n - 1) s\<rparr>) }) s"
proof -
  show "safe (csiCUP s) s" "safe (csiCHA s) s"
    "safe (do { n \<leftarrow> paramVal 0 1 s; Some (s\<lparr>curY := originRow (n - 1) s\<rparr>) }) s"
    using originCol_range [OF assms(1)] originRow_range [OF assms(1)]
    by (simp_all add: csiCUP_def csiCHA_def paramVal_eq assms(2) cursorPosition_ok [OF assms(1)]
        move_ok [OF assms(1)])
qed

lemma param1: "params_ok s \<Longrightarrow> (\<And>n. 1 \<le> n \<Longrightarrow> n \<le> 65535 \<Longrightarrow> safe (f n) s) \<Longrightarrow>
    safe (do { n \<leftarrow> paramVal 0 1 s; f n }) s"
  using paramSpecVal_range [of 1 0 "groupsOf s"] by (simp add: paramVal_eq)

lemma param0: "params_ok s \<Longrightarrow> 0 \<le> d \<Longrightarrow> d \<le> 65535 \<Longrightarrow> 0 \<le> k \<Longrightarrow>
    (\<And>n. 0 \<le> n \<Longrightarrow> n \<le> 65535 \<Longrightarrow> safe (f n) s) \<Longrightarrow> safe (do { n \<leftarrow> paramVal k d s; f n }) s"
  using paramSpecVal_range [of d k "groupsOf s"] by (simp add: paramVal_eq)

lemma safe_Some: "scr.ok s t \<Longrightarrow> safe (Some t) s"
  by simp

lemma csiMain_safe:
  assumes w: "wf s" and p: "params_ok s"
  shows "safe (csiMain c s) s"
proof -
  have chars: "1 \<le> n \<Longrightarrow> safe (insertChars n s) s" "1 \<le> n \<Longrightarrow> safe (deleteChars n s) s" for n
    using grid_ops_safe [OF w] by simp_all
  have version: "scr.ok s (respond versionReply s)" using w by (simp add: scr_ok_iff)
  show ?thesis
    unfolding csiMain_def
    by (intro scr.ok_if csi_cursor_safe [OF w p] report_safe [OF w p] margins_safe [OF w p]
        modes_safe [OF w p] applySGR_safe [OF w p] setTitleModes_safe [OF w p]
        param1 [OF p] param0 [OF p] erase_safe [OF w] chars tab_ops_safe [OF w]
        insertLines_safe [OF w] deleteLines_safe [OF w] scrollUp_safe [OF w] scrollDown_safe [OF w]
        repeatLastChar_safe [OF w] safe_Some if_ok cursor_ops_ok [OF w] cursorLeft_ok [OF w]
        next_line_ok [OF w] clampCursor_ok [OF w] saveCursor_ok [OF w] restoreCursor_ok [OF w]
        kbd_ok [OF w] version scr.ok_refl [OF w] order_refl zero_le_one zero_le_numeral one_le_numeral)
      assumption+
qed

lemma pred_option_rules:
  "(b \<Longrightarrow> pred_option P x) \<Longrightarrow> (\<not> b \<Longrightarrow> pred_option P y) \<Longrightarrow> pred_option P (if b then x else y)"
  "P v \<Longrightarrow> pred_option P (Some v)" "pred_option P None"
  by simp_all

lemma csiIntermediate_safe:
  assumes w: "wf s" and p: "params_ok s" and h: "csiIntermediate i c s = Some h"
  shows "safe h s"
proof -
  have cs: "safe (cursorStyle s) s"
    using w by (simp add: cursorStyle_def paramVal_eq p scr_ok_iff)
  have sh: "1 \<le> n \<Longrightarrow> safe (shiftLeft n s) s" "1 \<le> n \<Longrightarrow> safe (shiftRight n s) s" for n
    using grid_ops_safe [OF w] by simp_all
  have fields: "scr.ok s (s\<lparr>curProtected := b\<rparr>)" "scr.ok s (s\<lparr>conformanceLevel := v\<rparr>)"
    "scr.ok s (s\<lparr>linesPerScreen := v\<rparr>)" for b v
    using w by (simp_all add: scr_ok_iff)
  have lv: "(65 :: int) \<le> 65535" "(0 :: int) \<le> 65535" by simp_all
  have "pred_option (\<lambda>h. safe h s) (csiIntermediate i c s)"
    unfolding csiIntermediate_def
    by (intro pred_option_rules cs fields softReset_ok [OF w] report_safe(4) [OF w p] fillRect_safe [OF w p]
        eraseRect_safe [OF w p] copyRect_safe [OF w p] reportRectChecksum_safe [OF w p] scr.ok_refl [OF w]
        param1 [OF p] param0 [OF p] sh grid_ops_safe(3,4) [OF w] safe_Some order_refl zero_le_numeral lv)
      assumption+
  with h show ?thesis by simp
qed

lemma dispatchCSI_safe:
  assumes w: "wf s" and p: "params_ok s"
  shows "safe (dispatchCSI c s) s"
proof -
  let ?s = "if csiClearsWrap c then s\<lparr>pendingWrap := False\<rparr> else s"
  have ok: "scr.ok s ?s" using w by (simp add: scr_ok_iff)
  then have w': "wf ?s" by (rule scr.ok_inv)
  have p': "params_ok ?s" using params_ok_same [of s ?s] ok p by (simp add: scr_ok_iff)
  have "ensures (dispatchCSIIntermediate c ?s) (\<lambda>(t, _). scr.ok ?s t)"
  proof -
    have "length (pIntermed ?s) = 2" using w' by (simp add: wf_def parser_wf_def)
    then obtain i where i: "get_at (pIntermed ?s) 0 = Some i" by (simp add: get_at_Some)
    show ?thesis
    proof (cases "csiIntermediate i c ?s")
      case None
      then show ?thesis using scr.ok_refl [OF w'] p' unfolding dispatchCSIIntermediate_def i
        by (simp add: paramVal_eq)
    next
      case (Some h)
      from csiIntermediate_safe [OF w' p' Some] show ?thesis
        unfolding dispatchCSIIntermediate_def i by (simp add: Some)
    qed
  qed
  then have step: "ensures (if numInterm ?s > 0 then dispatchCSIIntermediate c ?s else Some (?s, False))
      (\<lambda>(t, _). scr.ok ?s t)"
    using scr.ok_refl [OF w'] by simp
  have "ensures (if numInterm ?s > 0 then dispatchCSIIntermediate c ?s else Some (?s, False))
      (\<lambda>x. safe (case x of (t, consumed) \<Rightarrow> if consumed then Some t else csiMain c t) ?s)"
  proof (rule ensures_mono [OF step])
    fix x :: "screen \<times> bool" assume "case x of (t, _) \<Rightarrow> scr.ok ?s t"
    then obtain t b where x: "x = (t, b)" "scr.ok ?s t" by (cases x) auto
    have "wf t" using x(2) by (rule scr.ok_inv)
    moreover have "params_ok t" using params_ok_same [of ?s t] x(2) p' unfolding scr_ok_iff by blast
    ultimately have "safe (csiMain c t) t" by (rule csiMain_safe)
    with x show "safe (case x of (t, consumed) \<Rightarrow> if consumed then Some t else csiMain c t) ?s"
      using scr.after by simp
  qed
  then have "safe (dispatchCSI c s) ?s" unfolding dispatchCSI_def Let_def ensures_bind .
  with ok show ?thesis by (rule scr.after)
qed

end
