(* ===== verification/Engine.thy ===== *)
theory Engine
  imports Dispatch Osc ParserTable
begin

text \<open>
  The engine (\<^verbatim>\<open>src/vt/parse.go\<close>): the C0 and ESC dispatch, the UTF-8 assembly, and
  \<open>feed\<close>, which runs one byte through the transition table with its exit, transition and entry
  actions. The headline theorem is that no byte stream panics the engine and that the screen
  invariant holds between any two bytes.
\<close>

section \<open>C0 and ESC\<close>

definition tabControl :: "screen \<Rightarrow> screen option" where
  "tabControl s = (
     if \<not> pendingWrap s then do { (s, _) \<leftarrow> tabOnce s; Some s }
     else if moreFix s then do {
       s \<leftarrow> wrapLine (s\<lparr>pendingWrap := False\<rparr>);
       (s, _) \<leftarrow> tabOnce s;
       Some s }
     else Some s)"

definition execControl :: "byte \<Rightarrow> screen \<Rightarrow> screen option" where
  "execControl b s = (
     if b = 0x07 then Some (s\<lparr>bellRing := True\<rparr>)
     else if b = 0x08 then Some (backspace s)
     else if b = 0x0A \<or> b = 0x0B \<or> b = 0x0C then
       (let s = s\<lparr>pendingWrap := False\<rparr>;
            s = (if LineFeedNewLine s then s\<lparr>curX := 0\<rparr> else s)
        in lineDown s)
     else if b = 0x0D then Some ((carriageReturn s)\<lparr>pendingWrap := False\<rparr>)
     else if b = 0x09 then tabControl s
     else if b = 0x0E then Some (s\<lparr>gl := 1\<rparr>)
     else if b = 0x0F then Some (s\<lparr>gl := 0\<rparr>)
     else if b = 0x96 then Some (s\<lparr>curIsoProtected := True\<rparr>)
     else if b = 0x97 then Some (s\<lparr>curIsoProtected := False\<rparr>)
     else Some s)"

text \<open>DECALN fills every cell; the other line-size finals are no-ops.\<close>

definition decLineSize :: "byte \<Rightarrow> screen \<Rightarrow> screen" where
  "decLineSize c s = (if c \<noteq> chr CHR ''8'' then s
     else s\<lparr>Cells := map (map (\<lambda>_. plainCell 0x45 noStyle)) (Cells s),
       scrollTop := 0, scrollBottom := Height s - 1, LRMarginMode := False, leftMargin := 0,
       rightMargin := Width s - 1, curY := 0, curX := 0, pendingWrap := False\<rparr>)"

definition hardReset :: "screen \<Rightarrow> screen option" where
  "hardReset s0 = (let s = softReset s0 in do {
     s \<leftarrow> eraseRegion 0 0 (Height s - 1) (Width s - 1) s;
     let s = clearWrapState (dropDrained (s\<lparr>curY := 0, curX := 0, pendingWrap := False\<rparr>));
     let s = s\<lparr>scrollbackCleared := True, InAltScreen := False, savedMainCells := None,
       savedMainWrapped := [], altCells := None, mainKbd := zeroKbd, altKbd := zeroKbd,
       specialColors := [], BracketedPaste := False, AppCursorKeys := False, AppKeypad := False,
       CursorHidden := False, CursorStyle := 0, ReverseVideo := False, tabStops := None,
       titleSetHex := False, titleQueryHex := False\<rparr>;
     Some (s\<lparr>program := ps_apply (plainEvent programEventReset) (program s)\<rparr>) })"

definition escFinal :: "byte \<Rightarrow> screen \<Rightarrow> screen option" where
  "escFinal b s = (
     if b = chr CHR ''7'' then Some (saveCursor s)
     else if b = chr CHR ''8'' then Some (restoreCursor s)
     else if b = chr CHR ''H'' then setTabStop (curX s) s
     else if b = chr CHR ''D'' then lineDown (s\<lparr>pendingWrap := False\<rparr>)
     else if b = chr CHR ''E'' then do { s \<leftarrow> lineDown (s\<lparr>pendingWrap := False\<rparr>); Some (carriageReturn s) }
     else if b = chr CHR ''V'' then Some (s\<lparr>curIsoProtected := True\<rparr>)
     else if b = chr CHR ''W'' then Some (s\<lparr>curIsoProtected := False\<rparr>)
     else if b = chr CHR ''Z'' then deviceAttributes s
     else if b = chr CHR ''M'' then reverseIndex s
     else if b = chr CHR ''6'' then decBackIndex s
     else if b = chr CHR ''9'' then decForwardIndex s
     else if b = chr CHR ''='' then Some (s\<lparr>AppKeypad := True\<rparr>)
     else if b = chr CHR ''>'' then Some (s\<lparr>AppKeypad := False\<rparr>)
     else if b = chr CHR ''N'' then Some (s\<lparr>singleShft := 2\<rparr>)
     else if b = chr CHR ''O'' then Some (s\<lparr>singleShft := 3\<rparr>)
     else if b = chr CHR ''c'' then hardReset s
     else Some s)"

definition dispatchEsc :: "byte \<Rightarrow> screen \<Rightarrow> screen option" where
  "dispatchEsc b s = (if numInterm s > 0 then do {
       i \<leftarrow> get_at (pIntermed s) 0;
       if i = chr CHR ''#'' then Some (decLineSize b s) else designateCharset i b s }
     else escFinal b s)"

section \<open>The byte loop\<close>

definition startRune :: "byte \<Rightarrow> int \<Rightarrow> screen \<Rightarrow> screen option" where
  "startRune b n s = do {
     buf \<leftarrow> set_at (utf8Buf s) 0 b;
     Some (s\<lparr>utf8Buf := buf, utf8Len := n, utf8Got := 1\<rparr>) }"

definition handlePrint :: "byte \<Rightarrow> screen \<Rightarrow> screen option" where
  "handlePrint b s = (
     if b < 0x80 then do { (r, s) \<leftarrow> translateChar b s; put r s }
     else if b \<ge> 0x80 \<and> b < 0xC0 then put 0xFFFD s
     else if b \<ge> 0xC0 \<and> b < 0xE0 then startRune b 2 s
     else if b \<ge> 0xE0 \<and> b < 0xF0 then startRune b 3 s
     else if b \<ge> 0xF0 \<and> b < 0xF8 then startRune b 4 s
     else put 0xFFFD s)"

fun doAction :: "action \<Rightarrow> byte \<Rightarrow> screen \<Rightarrow> screen option" where
  "doAction actPrint b s = handlePrint b s"
| "doAction actExecute b s = execControl b s"
| "doAction actClear b s = parserClear s"
| "doAction actCollect b s = (if numInterm s < maxIntermed then do {
       I \<leftarrow> set_at (pIntermed s) (numInterm s) b;
       Some (s\<lparr>pIntermed := I, numInterm := numInterm s + 1\<rparr>) }
     else Some s)"
| "doAction actParam b s = handleParam b s"
| "doAction actSubparam b s = handleSubparam s"
| "doAction actMarker b s = Some (s\<lparr>privateMarker := b\<rparr>)"
| "doAction actEscDispatch b s = dispatchEsc b s"
| "doAction actCsiDispatch b s = do { s \<leftarrow> finalizeParams s; dispatchCSI b s }"
| "doAction actHook b s = do { s \<leftarrow> finalizeParams s; dcsHook b s }"
| "doAction actPut b s = Some (dcsPut b s)"
| "doAction actUnhook b s = Some (dcsUnhook s)"
| "doAction actOscStart b s = Some (s\<lparr>oscBuf := [], oscOverflow := False\<rparr>)"
| "doAction actOscPut b s = Some (if length (oscBuf s) < maxOSCLen
     then s\<lparr>oscBuf := oscBuf s @ [b]\<rparr> else s\<lparr>oscOverflow := True\<rparr>)"
| "doAction actOscEnd b s = Some (dispatchOsc s)"
| "doAction actIgnore b s = Some s"
| "doAction actNone b s = Some s"

text \<open>A continuation byte of a pending UTF-8 sequence; the flag says the byte was consumed.\<close>

definition continueRune :: "byte \<Rightarrow> screen \<Rightarrow> (screen \<times> bool) option" where
  "continueRune b s = (
     if utf8Len s > 0 then
       (if b AND 0xC0 = 0x80 then do {
          buf \<leftarrow> set_at (utf8Buf s) (utf8Got s) b;
          s \<leftarrow> Some (s\<lparr>utf8Buf := buf, utf8Got := utf8Got s + 1\<rparr>);
          if utf8Got s = utf8Len s then do {
            r \<leftarrow> Some (decodeUTF8Bytes (utf8Buf s) (utf8Len s));
            s \<leftarrow> put r (s\<lparr>utf8Len := 0\<rparr>);
            Some (s, True) }
          else Some (s, True) }
        else do { s \<leftarrow> put 0xFFFD (s\<lparr>utf8Len := 0\<rparr>); Some (s, False) })
     else Some (s, False))"

definition isCancelByte :: "byte \<Rightarrow> bool" where
  "isCancelByte b \<longleftrightarrow> b = 0x18 \<or> b = 0x1A"

definition stepTable :: "byte \<Rightarrow> screen \<Rightarrow> screen option" where
  "stepTable b s = (case stateTable (pState s) b of (act, next) \<Rightarrow> do {
     s \<leftarrow> (if next \<noteq> pState s \<and> \<not> isCancelByte b \<and> exitAction (pState s) \<noteq> actNone
           then doAction (exitAction (pState s)) b s else Some s);
     s \<leftarrow> (if act \<noteq> actNone then doAction act b s else Some s);
     if next \<noteq> pState s then
       (let s = s\<lparr>pState := next\<rparr> in
        if entryAction next \<noteq> actNone then doAction (entryAction next) b s else Some s)
     else Some s })"

definition feed :: "byte \<Rightarrow> screen \<Rightarrow> screen option" where
  "feed b s = do {
     (s, consumed) \<leftarrow> continueRune b s;
     if consumed then Some s else stepTable b s }"

definition Write :: "byte list \<Rightarrow> screen \<Rightarrow> screen option" where
  "Write dt s = foldM feed dt s"

section \<open>Draining the outputs\<close>

definition TakeResponse :: "screen \<Rightarrow> byte list \<times> screen" where
  "TakeResponse s = (response s, s\<lparr>response := []\<rparr>)"

definition TakeClipboard :: "screen \<Rightarrow> byte list \<times> screen" where
  "TakeClipboard s = (pendingClipboard s, s\<lparr>pendingClipboard := []\<rparr>)"

definition TakeBell :: "screen \<Rightarrow> bool \<times> screen" where
  "TakeBell s = (bellRing s, s\<lparr>bellRing := False\<rparr>)"

definition TakeScrollbackCleared :: "screen \<Rightarrow> bool \<times> screen" where
  "TakeScrollbackCleared s = (scrollbackCleared s, s\<lparr>scrollbackCleared := False\<rparr>)"

definition TakePaletteChanged :: "screen \<Rightarrow> bool \<times> screen" where
  "TakePaletteChanged s = (paletteChanged s, s\<lparr>paletteChanged := False\<rparr>)"

definition DrainScrollback :: "screen \<Rightarrow> wire_run list list \<times> screen" where
  "DrainScrollback s = (Drained s, dropDrained s)"

definition DrainedWrapped :: "screen \<Rightarrow> bool list" where
  "DrainedWrapped s = go_copy (replicate (length (Drained s)) False) (drainedWrapped s)"

definition CursorPos :: "screen \<Rightarrow> int \<times> int" where
  "CursorPos s = (curY s, curX s)"

definition ProgramReportSeq :: "screen \<Rightarrow> nat" where
  "ProgramReportSeq s = ps_seq (program s)"

definition ProgramReported :: "screen \<Rightarrow> bool" where
  "ProgramReported s = ps_reported (program s)"

text \<open>The screen as ANSI text: a style sequence wherever the pen changes, a reset after each row.\<close>

fun renderCells :: "sgr_style option \<Rightarrow> cell list \<Rightarrow> byte list" where
  "renderCells prev [] = []"
| "renderCells prev (c # cs) = (if prev \<noteq> Some (Style c) then sgrSequence (Style c) else [])
     @ encodeRune (if Ch c = 0 then 0x20 else Ch c) @ renderCells (Some (Style c)) cs"

fun renderRows :: "cell list list \<Rightarrow> byte list" where
  "renderRows [] = []"
| "renderRows (r # rs) = renderCells None r @ 0x1B # str ''[0m''
     @ (if rs = [] then [] else [0x0D, 0x0A]) @ renderRows rs"

definition RenderViewport :: "screen \<Rightarrow> byte list" where
  "RenderViewport s = renderRows (Cells s)"

section \<open>No byte panics the engine\<close>

lemma safe_step: "scr.ok s t \<Longrightarrow> (wf t \<Longrightarrow> safe m t) \<Longrightarrow> safe m s"
  by (rule safe_after)

lemma pen_ok: "wf s \<Longrightarrow> scr.ok s (s\<lparr>pendingWrap := False\<rparr>)"
  by (simp add: scr_ok_iff)

lemma tabOnce_fst: "wf s \<Longrightarrow> safe (do { (s, _) \<leftarrow> tabOnce s; Some s }) s"
  using tabOnce_safe [of s] by (auto elim!: ensures_mono)

lemma tabControl_safe: "wf s \<Longrightarrow> safe (tabControl s) s"
  unfolding tabControl_def
proof (intro scr.ok_if)
  assume w: "wf s"
  show "safe (do { (s, _) \<leftarrow> tabOnce s; Some s }) s" by (rule tabOnce_fst [OF w])
  have "safe (wrapLine (s\<lparr>pendingWrap := False\<rparr>)) s"
    by (rule safe_step [OF pen_ok [OF w]], rule wrapLine_safe)
  then show "safe (do { s \<leftarrow> wrapLine (s\<lparr>pendingWrap := False\<rparr>); (s, _) \<leftarrow> tabOnce s; Some s }) s"
    by (rule scr.seq) (rule tabOnce_fst, erule scr.ok_inv)
qed (simp add: scr.ok_refl)

lemma execControl_safe: "wf s \<Longrightarrow> safe (execControl b s) s"
proof -
  assume w: "wf s"
  let ?t = "s\<lparr>pendingWrap := False\<rparr>"
  have lf: "scr.ok s (if LineFeedNewLine ?t then ?t\<lparr>curX := 0\<rparr> else ?t)"
    using move_ok(3) [OF w, of 0 False] wf_width [OF w] w by (simp add: scr_ok_iff)
  have nl: "safe (let s = ?t; s = (if LineFeedNewLine s then s\<lparr>curX := 0\<rparr> else s) in lineDown s) s"
    unfolding Let_def by (rule safe_step [OF lf], rule lineDown_safe)
  have cr: "scr.ok s ((carriageReturn s)\<lparr>pendingWrap := False\<rparr>)"
    using carriageReturn_ok [OF w] by (simp add: scr_ok_iff)
  have flags: "scr.ok s (s\<lparr>bellRing := True\<rparr>)" "scr.ok s (s\<lparr>gl := 1\<rparr>)" "scr.ok s (s\<lparr>gl := 0\<rparr>)"
    "scr.ok s (s\<lparr>curIsoProtected := True\<rparr>)" "scr.ok s (s\<lparr>curIsoProtected := False\<rparr>)"
    using w wf_gl [OF w] by (simp_all add: scr_ok_iff)
  show ?thesis
    unfolding execControl_def
    by (intro scr.ok_if nl safe_Some cr flags backspace_ok [OF w] tabControl_safe [OF w] scr.ok_refl [OF w])
qed

lemma decLineSize_ok: "wf s \<Longrightarrow> scr.ok s (decLineSize c s)"
  by (simp add: decLineSize_def ok_defs rect_def)

lemma cleared_ok: "wf s \<Longrightarrow> scr.ok s (clearWrapState (dropDrained (s\<lparr>curY := 0, curX := 0, pendingWrap := False\<rparr>)))"
  by (simp add: clearWrapState_def dropDrained_def ok_defs maxAutolinkRows_def)

lemma reset_fields_ok: "wf s \<Longrightarrow> scr.ok s (s\<lparr>scrollbackCleared := True, InAltScreen := False,
       savedMainCells := None, savedMainWrapped := [], altCells := None, mainKbd := zeroKbd, altKbd := zeroKbd,
       specialColors := [], BracketedPaste := False, AppCursorKeys := False, AppKeypad := False,
       CursorHidden := False, CursorStyle := 0, ReverseVideo := False, tabStops := None,
       titleSetHex := False, titleQueryHex := False\<rparr>)"
  by (simp add: ok_defs zeroKbd_def)

lemma hardReset_safe: "wf s \<Longrightarrow> safe (hardReset s) s"
  unfolding hardReset_def Let_def
proof (rule safe_step [OF softReset_ok], assumption, rule scr.seq)
  assume "wf (softReset s)"
  then show "safe (eraseRegion 0 0 (Height (softReset s) - 1) (Width (softReset s) - 1) (softReset s)) (softReset s)"
    by (rule grid_ops_safe)
next
  fix t assume "scr.ok (softReset s) t"
  then have "wf t" by (rule scr.ok_inv)
  note a = cleared_ok [OF this]
  note b = scr.ok_trans [OF a reset_fields_ok [OF scr.ok_inv [OF a]]]
  have e: "programEventReset \<noteq> programEventReport" by simp
  show "safe (Some (clearWrapState (dropDrained (t\<lparr>curY := 0, curX := 0, pendingWrap := False\<rparr>))
      \<lparr>scrollbackCleared := True, InAltScreen := False,
       savedMainCells := None, savedMainWrapped := [], altCells := None, mainKbd := zeroKbd, altKbd := zeroKbd,
       specialColors := [], BracketedPaste := False, AppCursorKeys := False, AppKeypad := False,
       CursorHidden := False, CursorStyle := 0, ReverseVideo := False, tabStops := None,
       titleSetHex := False, titleQueryHex := False,
       program := ps_apply (plainEvent programEventReset) (program (clearWrapState (dropDrained
         (t\<lparr>curY := 0, curX := 0, pendingWrap := False\<rparr>))
      \<lparr>scrollbackCleared := True, InAltScreen := False,
       savedMainCells := None, savedMainWrapped := [], altCells := None, mainKbd := zeroKbd, altKbd := zeroKbd,
       specialColors := [], BracketedPaste := False, AppCursorKeys := False, AppKeypad := False,
       CursorHidden := False, CursorStyle := 0, ReverseVideo := False, tabStops := None,
       titleSetHex := False, titleQueryHex := False\<rparr>))\<rparr>)) t"
    by (rule safe_Some, rule scr.ok_trans [OF b plainEvent_ok [OF scr.ok_inv [OF b] e]])
qed

lemma escFinal_safe:
  assumes w: "wf s" and p: "params_ok s"
  shows "safe (escFinal b s) s"
proof -
  have ind: "safe (lineDown (s\<lparr>pendingWrap := False\<rparr>)) s"
    by (rule safe_step [OF pen_ok [OF w]], rule lineDown_safe)
  have nel: "safe (do { s \<leftarrow> lineDown (s\<lparr>pendingWrap := False\<rparr>); Some (carriageReturn s) }) s"
    by (rule safe_map [OF ind carriageReturn_ok])
  have flags: "scr.ok s (s\<lparr>AppKeypad := b\<rparr>)" "scr.ok s (s\<lparr>curIsoProtected := b\<rparr>)"
    "scr.ok s (s\<lparr>singleShft := 2\<rparr>)" "scr.ok s (s\<lparr>singleShft := 3\<rparr>)" for b
    using w by (simp_all add: ok_defs)
  show ?thesis
    unfolding escFinal_def
    by (intro scr.ok_if ind nel safe_Some flags saveCursor_ok [OF w] restoreCursor_ok [OF w]
        tab_ops_safe [OF w] report_safe [OF w p] index_safe [OF w] hardReset_safe [OF w] scr.ok_refl [OF w])
qed

lemma wf_gsets: "wf s \<Longrightarrow> charset_ok (s\<lparr>gsets := g\<rparr>) \<Longrightarrow> scr.ok s (s\<lparr>gsets := g\<rparr>)"
  by (simp add: ok_defs)

lemma dispatchEsc_safe:
  assumes w: "wf s" and p: "params_ok s"
  shows "safe (dispatchEsc b s) s"
proof -
  have len: "length (pIntermed s) = 2" "charset_ok s" using w by (simp_all add: wf_def parser_wf_def)
  have "safe (designateCharset i b s) s" for i
    by (rule ensures_mono [OF designateCharset_ok [OF len(2)]]) (use wf_gsets [OF w] in auto)
  with w len show ?thesis
    unfolding dispatchEsc_def
    by (intro scr.ok_if escFinal_safe [OF w p]) (simp add: get_at_Some decLineSize_ok)
qed

lemma handlePrint_safe:
  assumes w: "wf s"
  shows "safe (handlePrint b s) s"
proof -
  have c: "charset_ok s" "length (utf8Buf s) = 4" using w by (simp_all add: wf_def parser_wf_def)
  have t: "scr.ok s (if 2 \<le> singleShft s then s\<lparr>singleShft := -1\<rparr> else s)"
    using w by (simp add: ok_defs)
  have tr: "safe (do { (r, s) \<leftarrow> translateChar b s; put r s }) s"
    unfolding translateChar_eq [OF c(1)] bind.bind_lunit prod.case
    by (rule safe_step [OF t], rule put_safe)
  have st: "safe (startRune b n s) s" if "2 \<le> n" "n \<le> 4" for n
    using w c that by (simp add: startRune_def set_at_Some ok_defs)
  show ?thesis
    unfolding handlePrint_def
    by (intro scr.ok_if tr put_safe [OF w] st) simp_all
qed

text \<open>
  An action leaves the parser in its state; the actions that read the parameters are only reached
  with well-formed ones.
\<close>

definition acts :: "screen \<Rightarrow> screen \<Rightarrow> bool" where
  "acts s t \<longleftrightarrow> wf t \<and> pState t = pState s"

lemma ok_acts: "scr.ok s t \<Longrightarrow> acts s t"
  by (simp add: acts_def scr_ok_iff same_parser_def)

lemma safe_acts: "safe m s \<Longrightarrow> ensures m (acts s)"
  by (erule ensures_mono) (rule ok_acts)

lemma acts_trans: "acts s t \<Longrightarrow> acts t u \<Longrightarrow> acts s u"
  by (simp add: acts_def)

lemma wf_new_params:
  assumes "wf s"
    and "params_ok (s\<lparr>pParams := a, pGroupLen := l, numParams := n, numGroups := g, curParam := c, ignoring := i\<rparr>)"
  shows "acts s (s\<lparr>pParams := a, pGroupLen := l, numParams := n, numGroups := g, curParam := c, ignoring := i\<rparr>)"
  using assms by (simp add: acts_def wf_defs params_rep_def)

lemma params_acts:
  assumes "wf s" "params_ok t" "params_only s t"
  shows "acts s t"
proof -
  obtain a l n g c i where "t = s\<lparr>pParams := a, pGroupLen := l, numParams := n, numGroups := g, curParam := c, ignoring := i\<rparr>"
    using assms(3) unfolding params_only_def by blast
  with wf_new_params [OF assms(1)] assms(2) show ?thesis by blast
qed

lemma params_op_acts:
  "wf s \<Longrightarrow> ensures m (\<lambda>t. params_ok t \<and> params_only s t) \<Longrightarrow> ensures m (\<lambda>t. acts s t \<and> params_ok t)"
  "wf s \<Longrightarrow> ensures m (\<lambda>t. params_ok t \<and> params_only s t) \<Longrightarrow> ensures m (acts s)"
  by (erule ensures_mono, use params_acts in auto)+

lemma finalize_acts:
  assumes "wf s" "params_ok s" "\<And>t. wf t \<Longrightarrow> params_ok t \<Longrightarrow> safe (f t) t"
  shows "ensures (do { t \<leftarrow> finalizeParams s; f t }) (acts s)"
proof -
  have "ensures (finalizeParams s) (\<lambda>t. acts s t \<and> params_ok t)"
    by (rule params_op_acts(1) [OF assms(1) finalizeParams_ok [OF assms(2)]])
  then have "ensures (finalizeParams s) (\<lambda>t. ensures (f t) (acts s))"
    by (rule ensures_mono) (rule ensures_mono [OF safe_acts [OF assms(3)]], auto simp: acts_def)
  then show ?thesis by simp
qed

lemma parserClear_acts:
  assumes "wf (s\<lparr>pState := stGround\<rparr>)"
  shows "ensures (parserClear s) (\<lambda>t. wf t \<and> pState t = pState s)"
proof -
  have l: "length (pParams s) = 32" "length (pGroupLen s) = 32"
    using assms by (simp_all add: wf_def parser_wf_def)
  have "params_ok (parserClear_result s)" by (rule parserClear_ok [OF l])
  then have "wf (parserClear_result s)"
    using assms by (simp add: wf_defs parserClear_result_def params_rep_def)
  then show ?thesis by (simp add: parserClear_eq [OF l(2)]) (simp add: parserClear_result_def)
qed

definition readsParams :: "action \<Rightarrow> bool" where
  "readsParams act \<longleftrightarrow> act = actParam \<or> act = actSubparam \<or> act = actEscDispatch \<or> act = actCsiDispatch \<or> act = actHook"

lemma wf_ground: "wf s \<Longrightarrow> wf (s\<lparr>pState := stGround\<rparr>)"
  by (simp add: wf_def parser_wf_def charset_ok_def box_ok_def cursor_ok_def grid_ok_def alt_ok_def tabs_ok_def limits_ok_def)

lemma doAction_safe:
  assumes w: "wf s" and p: "readsParams act \<Longrightarrow> params_ok s"
  shows "ensures (doAction act b s) (acts s)"
proof (cases act)
  case actCollect
  then show ?thesis using w by (auto simp: maxIntermed_def acts_def wf_defs)
next
  case actClear
  then show ?thesis using parserClear_acts [OF wf_ground [OF w]] by (simp add: acts_def [abs_def])
next
  case actParam
  with p have "params_ok s" by (simp add: readsParams_def)
  from params_op_acts(2) [OF w handleParam_ok [OF this]] actParam show ?thesis by simp
next
  case actSubparam
  with p have "params_ok s" by (simp add: readsParams_def)
  from params_op_acts(2) [OF w handleSubparam_ok [OF this]] actSubparam show ?thesis by simp
next
  case actMarker
  then show ?thesis using w by (simp add: acts_def wf_defs)
next
  case actOscStart
  then show ?thesis using w by (simp add: acts_def wf_defs)
next
  case actOscPut
  then show ?thesis using w by (simp add: acts_def wf_defs)
next
  case actCsiDispatch
  with p finalize_acts [OF w _ dispatchCSI_safe] show ?thesis by (simp add: readsParams_def)
next
  case actHook
  with p finalize_acts [OF w _ dcs_ok(1)] show ?thesis by (simp add: readsParams_def)
next
  case actEscDispatch
  with p safe_acts [OF dispatchEsc_safe [OF w]] show ?thesis by (simp add: readsParams_def)
qed (use w ok_acts [OF scr.ok_refl] ok_acts [OF dispatchOsc_ok] ok_acts [OF dcs_ok(2)] ok_acts [OF dcs_ok(3)]
      safe_acts [OF handlePrint_safe] safe_acts [OF execControl_safe] in simp_all)

text \<open>What the transition table guarantees about a state without parameters, which is Ground.\<close>

lemma ground_row: "specTransition stGround i = (act, next) \<Longrightarrow>
    \<not> readsParams act \<and> (next = stGround \<or> next = stEscape)"
  by (auto simp: specTransition_def readsParams_def split: if_splits)

lemma entry_reads: "readsParams (entryAction q) \<Longrightarrow> q = stDcsPassthrough"
  by (auto simp: entryAction_def readsParams_def split: if_splits)

lemma exit_reads: "\<not> readsParams (exitAction q)"
  by (simp add: exitAction_def readsParams_def)

lemma wf_state: "wf s \<Longrightarrow> q = stGround \<or> params_ok s \<Longrightarrow> wf (s\<lparr>pState := q\<rparr>)"
  by (simp add: wf_def parser_wf_def charset_ok_def box_ok_def cursor_ok_def grid_ok_def alt_ok_def
      tabs_ok_def limits_ok_def params_ok_def)

lemma enter_safe:
  assumes w: "wf s" and q: "q = stGround \<or> params_ok s \<or> q = stEscape"
  shows "ensures (if entryAction q \<noteq> actNone then doAction (entryAction q) b (s\<lparr>pState := q\<rparr>)
      else Some (s\<lparr>pState := q\<rparr>)) wf"
proof (cases "entryAction q = actClear")
  case True
  have "wf (s\<lparr>pState := q, pState := stGround\<rparr>)" using wf_ground [OF w] by simp
  from parserClear_acts [OF this] True show ?thesis by (auto elim: ensures_mono)
next
  case False
  then have q': "q = stGround \<or> params_ok s" using q by (auto simp: entryAction_def)
  note w' = wf_state [OF w q']
  have "readsParams (entryAction q) \<Longrightarrow> params_ok (s\<lparr>pState := q\<rparr>)"
    using entry_reads [of q] q' by (auto simp: params_ok_def)
  then have "ensures (doAction (entryAction q) b (s\<lparr>pState := q\<rparr>)) (acts (s\<lparr>pState := q\<rparr>))"
    by (rule doAction_safe [OF w'])
  then have "ensures (doAction (entryAction q) b (s\<lparr>pState := q\<rparr>)) wf"
    by (rule ensures_mono) (simp add: acts_def)
  with w' show ?thesis by simp
qed

lemma stepTable_safe:
  assumes w: "wf s"
  shows "ensures (stepTable b s) wf"
proof -
  obtain act q where t: "stateTable (pState s) b = (act, q)" by fastforce
  have row: "pState s = stGround \<Longrightarrow> \<not> readsParams act \<and> (q = stGround \<or> q = stEscape)"
    using ground_row [of "uint b" act q] t by simp
  have pok: "params_ok u" if "acts s u" "pState s \<noteq> stGround" for u
    using that wf_params [of u] by (simp add: acts_def)
  have refl: "acts s s" using w by (simp add: acts_def)
  have one: "ensures (if q \<noteq> pState s \<and> \<not> isCancelByte b \<and> exitAction (pState s) \<noteq> actNone
      then doAction (exitAction (pState s)) b s else Some s) (acts s)"
    using doAction_safe [OF w, of "exitAction (pState s)" b] exit_reads refl by simp
  have two: "ensures (if act \<noteq> actNone then doAction act b u else Some u) (acts s)" if u: "acts s u" for u
  proof -
    have wu: "wf u" using u by (simp add: acts_def)
    have "readsParams act \<Longrightarrow> params_ok u" using row pok [OF u] by blast
    then have "ensures (doAction act b u) (acts u)" by (rule doAction_safe [OF wu])
    then have "ensures (doAction act b u) (acts s)" by (rule ensures_mono) (rule acts_trans [OF u])
    with u show ?thesis by simp
  qed
  have three: "ensures (if q \<noteq> pState u then (let s = u\<lparr>pState := q\<rparr> in
        if entryAction q \<noteq> actNone then doAction (entryAction q) b s else Some s) else Some u) wf"
    if u: "acts s u" for u
  proof -
    have wu: "wf u" using u by (simp add: acts_def)
    have "q = stGround \<or> params_ok u \<or> q = stEscape" using row pok [OF u] by blast
    from enter_safe [OF wu this, of b] wu show ?thesis by simp
  qed
  show ?thesis
    unfolding stepTable_def t prod.case ensures_bind
    by (rule ensures_mono [OF one], rule ensures_mono [OF two], assumption, rule three)
qed

lemma utf8_updates:
  "wf s \<Longrightarrow> utf8Len s > 0 \<Longrightarrow> length buf = 4 \<Longrightarrow> utf8Got s + 1 = utf8Len s \<or> utf8Got s + 1 < utf8Len s \<Longrightarrow>
     wf (s\<lparr>utf8Buf := buf, utf8Got := utf8Got s + 1, utf8Len := (if utf8Got s + 1 = utf8Len s then 0 else utf8Len s)\<rparr>)"
  "wf s \<Longrightarrow> wf (s\<lparr>utf8Len := 0\<rparr>)"
  by (auto simp: wf_defs)

lemma continueRune_safe:
  assumes w: "wf s"
  shows "ensures (continueRune b s) (\<lambda>(t, _). wf t)"
proof (cases "utf8Len s > 0")
  case False
  with w show ?thesis by (simp add: continueRune_def)
next
  case True
  then have u: "2 \<le> utf8Len s" "utf8Len s \<le> 4" "1 \<le> utf8Got s" "utf8Got s < utf8Len s" "length (utf8Buf s) = 4"
    using w by (auto simp: wf_def parser_wf_def)
  have put: "ensures (put r t) wf" if "wf t" for r t
    by (rule ensures_mono [OF put_safe [OF that]]) (rule scr.ok_inv)
  let ?buf = "(utf8Buf s)[nat (utf8Got s) := b]"
  have buf: "set_at (utf8Buf s) (utf8Got s) b = Some ?buf" using u by (simp add: set_at_Some)
  show ?thesis
  proof (cases "b AND 0xC0 = 0x80")
    case False
    with True put [OF utf8_updates(2) [OF w]] show ?thesis by (simp add: continueRune_def)
  next
    case cont: True
    have upd: "wf (s\<lparr>utf8Buf := ?buf, utf8Got := utf8Got s + 1,
        utf8Len := (if utf8Got s + 1 = utf8Len s then 0 else utf8Len s)\<rparr>)"
      by (rule utf8_updates(1) [OF w True]) (use u in auto)
    show ?thesis
    proof (cases "utf8Got s + 1 = utf8Len s")
      case full: True
      with upd have "wf (s\<lparr>utf8Buf := ?buf, utf8Got := utf8Got s + 1, utf8Len := 0\<rparr>)" by simp
      with put True cont full buf show ?thesis by (simp add: continueRune_def)
    next
      case more: False
      then have "wf (s\<lparr>utf8Buf := ?buf, utf8Got := utf8Got s + 1\<rparr>)" using upd by simp
      with True cont more buf show ?thesis by (simp add: continueRune_def)
    qed
  qed
qed

lemma feed_safe: "wf s \<Longrightarrow> ensures (feed b s) wf"
  unfolding feed_def ensures_bind
  by (rule ensures_mono [OF continueRune_safe]) (auto simp: stepTable_safe)

lemma Write_safe: "wf s \<Longrightarrow> ensures (Write bs s) wf"
  unfolding Write_def by (rule ensures_foldM) (simp_all add: feed_safe)

end
