(* ===== verification/Behaviour.thy ===== *)
theory Behaviour
  imports Engine AltScreen
begin

text \<open>
  The engine seen from its callers (\<^verbatim>\<open>Write\<close>, \<^verbatim>\<open>Resize\<close> and the drains of \<^verbatim>\<open>src/vt\<close>): the states
  a screen can reach and that none of them panics, and what the byte stream means from end to
  end: a UTF-8 sequence is one rune however it is cut, an OSC string is delivered whole or
  dropped whole, and a CSI sequence runs its handler on the parameters its text denotes.
\<close>

declare stateTable_spec [code]

section \<open>Reachable screens\<close>

text \<open>
  The resize rule carries the condition under which the code keeps its own invariant: while the
  alternate screen is shown, the saved top margin of the main screen must still be a row.
\<close>

definition resizeKeepsMargins :: "int \<Rightarrow> screen \<Rightarrow> bool" where
  "resizeKeepsMargins rows s \<longleftrightarrow> (InAltScreen s \<longrightarrow> savedMainScrollTop s < capDimension (max rows 1))"

inductive reach :: "screen \<Rightarrow> bool" where
  reach_new: "1 \<le> rows \<Longrightarrow> 1 \<le> cols \<Longrightarrow> New e th rows cols = Some s \<Longrightarrow> reach s"
| reach_write: "reach s \<Longrightarrow> Write bs s = Some t \<Longrightarrow> reach t"
| reach_resize: "reach s \<Longrightarrow> resizeKeepsMargins rows s \<Longrightarrow> Resize rows cols s = Some t \<Longrightarrow> reach t"
| reach_response: "reach s \<Longrightarrow> reach (snd (TakeResponse s))"
| reach_clipboard: "reach s \<Longrightarrow> reach (snd (TakeClipboard s))"
| reach_bell: "reach s \<Longrightarrow> reach (snd (TakeBell s))"
| reach_cleared: "reach s \<Longrightarrow> reach (snd (TakeScrollbackCleared s))"
| reach_palette: "reach s \<Longrightarrow> reach (snd (TakePaletteChanged s))"
| reach_drain: "reach s \<Longrightarrow> reach (snd (DrainScrollback s))"
| reach_exited: "reach s \<Longrightarrow> reach (ProgramExited s)"
| reach_clock: "reach s \<Longrightarrow> reach (s\<lparr>env := e\<rparr>)"
| reach_release: "reach s \<Longrightarrow> reach (ReleaseFlush s)"

lemma wf_env: "wf s \<Longrightarrow> wf (s\<lparr>env := e\<rparr>)"
  by (simp add: wf_defs)

lemma takes_wf:
  "wf s \<Longrightarrow> wf (snd (TakeResponse s))" "wf s \<Longrightarrow> wf (snd (TakeClipboard s))"
  "wf s \<Longrightarrow> wf (snd (TakeBell s))" "wf s \<Longrightarrow> wf (snd (TakeScrollbackCleared s))"
  "wf s \<Longrightarrow> wf (snd (TakePaletteChanged s))" "wf s \<Longrightarrow> wf (snd (DrainScrollback s))"
  "wf s \<Longrightarrow> wf (ReleaseFlush s)"
  by (simp_all add: TakeResponse_def TakeClipboard_def TakeBell_def TakeScrollbackCleared_def
      TakePaletteChanged_def DrainScrollback_def ReleaseFlush_def wf_env drained_ok [THEN scr.ok_inv])

lemma reach_wf: "reach s \<Longrightarrow> wf s"
proof (induction rule: reach.induct)
  case (reach_new rows cols e th s)
  with New_wf [of rows cols e th] show ?case by simp
next
  case (reach_write s bs t)
  with Write_safe [of s bs] show ?case by simp
next
  case (reach_resize s rows cols t)
  with Resize_safe [of s rows cols] show ?case by (simp add: resizeKeepsMargins_def scr.ok_def)
qed (simp_all add: takes_wf wf_env ProgramExited_ok [THEN scr.ok_inv])

text \<open>
  C1: in a state the terminal can reach from a new screen by writing bytes, resizing under the
  condition above, draining and reading, no byte string panics the engine, and the screen
  satisfies the invariant (rectangular grid, cursor and margins inside it, bounded buffers and
  stacks) after it.
\<close>

theorem engine_never_panics: "reach s \<Longrightarrow> \<exists>t. Write bs s = Some t \<and> wf t"
  using Write_safe [OF reach_wf, of s bs] by (simp add: ensures_iff)

lemma demoScreen_reach: "reach demoScreen"
  by (rule reach_new [OF _ _ demoScreen_eq]) simp_all

lemma engine_never_panics_witness:
  "\<exists>t. Write (0x1B # str ''[2;99999999999H'' @ 0x1B # str ''[2M'' @ [0xFF, 0xE2, 0x82]) demoScreen = Some t \<and> wf t"
  by (rule engine_never_panics [OF demoScreen_reach])


section \<open>The parser between sequences\<close>

definition idle :: "screen \<Rightarrow> bool" where
  "idle s \<longleftrightarrow> wf s \<and> pState s = stGround \<and> utf8Len s = 0"

lemma idle_wf: "idle s \<Longrightarrow> wf s" and idle_ground: "idle s \<Longrightarrow> pState s = stGround"
  and idle_utf8: "idle s \<Longrightarrow> utf8Len s = 0"
  by (simp_all add: idle_def)

lemma demoScreen_idle: "idle demoScreen"
  using demoScreen_wf by (simp add: idle_def demoScreen_def New_def Let_def capDimension_def maxDimension_def)

lemma Write_Cons: "Write (b # bs) s = feed b s \<bind> Write bs"
  by (simp add: Write_def [abs_def])

lemma Write_Nil [simp]: "Write [] s = Some s"
  by (simp add: Write_def)

lemma Write_one: "Write [b] s = feed b s"
  by (cases "feed b s") (simp_all add: Write_Cons)

lemma bind_Write_Nil [simp]: "m \<bind> Write [] = m"
  by (cases m) simp_all

lemma Write_append: "Write (a @ b) s = Write a s \<bind> Write b"
  by (simp add: Write_def [abs_def] foldM_append)

lemma feed_table: "utf8Len s = 0 \<Longrightarrow> feed b s = stepTable b s"
  by (simp add: feed_def continueRune_def)

lemma pState_same: "pState t = q \<Longrightarrow> t\<lparr>pState := q\<rparr> = t"
  by (cases t) simp

text \<open>A table step without an exit or entry action runs its action and enters the next state.\<close>

lemma step_quiet:
  assumes "specTransition (pState s) (uint b) = (act, q)" "q = pState s \<or> exitAction (pState s) = actNone"
    "q = pState t \<or> entryAction q = actNone" "act \<noteq> actNone" "doAction act b s = Some t"
  shows "stepTable b s = Some (t\<lparr>pState := q\<rparr>)"
  using assms pState_same [of t q] by (auto simp: stepTable_def)

lemma feed_escape: "idle s \<Longrightarrow> feed 0x1B s = Some (parserClear_result (s\<lparr>pState := stEscape\<rparr>))"
  using parserClear_eq [of "s\<lparr>pState := stEscape\<rparr>"]
  by (simp add: idle_def feed_table stepTable_def specTransition_def entryAction_def exitAction_def
      wf_def parser_wf_def)

section \<open>OSC strings are delivered whole\<close>

text \<open>The bytes that do not end an OSC string.\<close>

definition oscByte :: "byte \<Rightarrow> bool" where
  "oscByte b \<longleftrightarrow> b \<noteq> 0x07 \<and> b \<noteq> 0x18 \<and> b \<noteq> 0x1A \<and> b \<noteq> 0x1B"

lemma oscByte_row: "oscByte b \<Longrightarrow> specTransition stOscString (uint b) = (actOscPut, stOscString)"
  by (auto simp: oscByte_def specTransition_def isStringState_def word_uint_eq_iff)

lemma osc_collect:
  assumes "pState s = stOscString" "utf8Len s = 0" "length (oscBuf s) \<le> maxOSCLen" "\<forall>b \<in> set body. oscByte b"
  shows "Write body s = Some (s\<lparr>oscBuf := oscBuf s @ take (maxOSCLen - length (oscBuf s)) body,
     oscOverflow := (oscOverflow s \<or> maxOSCLen < length (oscBuf s) + length body)\<rparr>)"
  using assms
proof (induction body arbitrary: s)
  case Nil
  then show ?case by simp
next
  case (Cons b body)
  let ?t = "if length (oscBuf s) < maxOSCLen then s\<lparr>oscBuf := oscBuf s @ [b]\<rparr> else s\<lparr>oscOverflow := True\<rparr>"
  have "feed b s = Some ?t"
    using Cons.prems oscByte_row [of b] by (simp add: feed_table stepTable_def)
  moreover have "Write body ?t = Some (s\<lparr>oscBuf := oscBuf s @ take (maxOSCLen - length (oscBuf s)) (b # body),
     oscOverflow := (oscOverflow s \<or> maxOSCLen < length (oscBuf s) + length (b # body))\<rparr>)"
    using Cons.IH [of ?t] Cons.prems
    by (auto simp: take_Cons' Suc_diff_Suc)
  ultimately show ?case by (simp only: Write_Cons bind.bind_lunit)
qed

definition oscStart :: "screen \<Rightarrow> screen" where
  "oscStart s = (parserClear_result (s\<lparr>pState := stEscape\<rparr>))
     \<lparr>pState := stOscString, oscBuf := [], oscOverflow := False\<rparr>"

lemma feed_osc:
  assumes "idle s"
  shows "Write (0x1B # chr CHR '']'' # bs) s = Write bs (oscStart s)"
proof -
  have "feed (chr CHR '']'') (parserClear_result (s\<lparr>pState := stEscape\<rparr>)) = Some (oscStart s)"
    using idle_utf8 [OF assms]
    by (simp add: feed_table stepTable_def specTransition_def escSpec_def entryAction_def exitAction_def
        parserClear_result_def oscStart_def)
  then show ?thesis by (simp only: Write_Cons feed_escape [OF assms] bind.bind_lunit)
qed

lemma osc_end: "pState s = stOscString \<Longrightarrow> utf8Len s = 0 \<Longrightarrow> wf s \<Longrightarrow>
    feed 0x07 s = Some ((dispatchOsc s)\<lparr>pState := stGround\<rparr>)"
  using dispatchOsc_ok [of s]
  by (simp add: feed_table stepTable_def specTransition_def isStringState_def isCancelByte_def
      entryAction_def exitAction_def scr_ok_iff same_parser_def)

lemma wf_osc: "wf s \<Longrightarrow> length b \<le> maxOSCLen \<Longrightarrow> wf (s\<lparr>oscBuf := b, oscOverflow := c\<rparr>)"
  by (simp add: wf_defs)

text \<open>The state after ESC: the parameters are cleared.\<close>

lemma escape_ok:
  assumes "idle s"
  shows "wf (parserClear_result (s\<lparr>pState := stEscape\<rparr>))"
    and "params_ok (parserClear_result (s\<lparr>pState := stEscape\<rparr>))"
proof -
  let ?s = "s\<lparr>pState := stEscape\<rparr>"
  have l: "length (pParams ?s) = 32" "length (pGroupLen ?s) = 32"
    using assms by (simp_all add: idle_def wf_def parser_wf_def)
  show "params_ok (parserClear_result ?s)" by (rule parserClear_ok [OF l])
  have "wf (?s\<lparr>pState := stGround\<rparr>)" using wf_ground [OF idle_wf [OF assms]] by simp
  from parserClear_acts [OF this] show "wf (parserClear_result ?s)" using parserClear_eq [OF l(2)] by simp
qed

lemma oscStart_wf: "idle s \<Longrightarrow> wf (oscStart s)"
  unfolding oscStart_def by (rule wf_osc [OF wf_state]) (simp_all add: escape_ok)

text \<open>
  C4: an OSC string sent from the ground state and ended by BEL runs its handler exactly once,
  on the string as it was sent, and returns the parser to the ground state; the string may
  contain any byte but BEL, ESC, CAN and SUB (a C1 byte is text there). A string longer than the
  buffer is dropped whole: no prefix of it is interpreted.
\<close>

theorem osc_delivered_whole:
  assumes "idle s" "\<forall>b \<in> set body. oscByte b"
  shows "Write (0x1B # chr CHR '']'' # body @ [0x07]) s
    = Some ((if length body \<le> maxOSCLen then dispatchOsc ((oscStart s)\<lparr>oscBuf := body\<rparr>)
             else (oscStart s)\<lparr>oscOverflow := True\<rparr>)\<lparr>pState := stGround\<rparr>)"
proof -
  let ?t = "(oscStart s)\<lparr>oscBuf := take maxOSCLen body, oscOverflow := maxOSCLen < length body\<rparr>"
  have "Write body (oscStart s) = Some ?t"
    using osc_collect [of "oscStart s" body] assms idle_utf8
    by (simp add: oscStart_def parserClear_result_def)
  moreover have "wf ?t" by (rule wf_osc [OF oscStart_wf [OF assms(1)]]) simp
  moreover have "pState ?t = stOscString" "utf8Len ?t = 0"
    using assms(1) by (simp_all add: oscStart_def parserClear_result_def idle_def)
  ultimately have "Write (0x1B # chr CHR '']'' # body @ [0x07]) s = Some ((dispatchOsc ?t)\<lparr>pState := stGround\<rparr>)"
    unfolding feed_osc [OF assms(1)] Write_append by (simp add: Write_Cons osc_end)
  then show ?thesis by (simp add: dispatchOsc_def oscStart_def)
qed

lemma osc_delivered_whole_witness:
  "Write (0x1B # chr CHR '']'' # str ''2;hi'' @ [0x07]) demoScreen
   = Some ((dispatchOsc ((oscStart demoScreen)\<lparr>oscBuf := str ''2;hi''\<rparr>))\<lparr>pState := stGround\<rparr>)"
  using osc_delivered_whole [OF demoScreen_idle, of "str ''2;hi''"]
  by (simp add: str_def oscByte_def maxOSCLen_def)

section \<open>CSI sequences run on the parameters their text denotes\<close>

definition paramByte :: "byte \<Rightarrow> bool" where
  "paramByte b \<longleftrightarrow> 0x30 \<le> b \<and> b \<le> 0x3B"

lemma paramByte_range: "paramByte b \<Longrightarrow> 0x30 \<le> uint b \<and> uint b \<le> 0x3B"
  by (simp add: paramByte_def word_le_def)

lemma param_row: "paramByte b \<Longrightarrow> q = stCsiEntry \<or> q = stCsiParam \<Longrightarrow>
    specTransition q (uint b) = (if b = chr CHR '':'' then actSubparam else actParam, stCsiParam)"
  using paramByte_range [of b]
  by (auto simp: specTransition_def paramSpec_def word_uint_eq_iff)

text \<open>What the parameter bytes leave: everything outside the parser, and the sequence's prefix.\<close>

definition same_rest :: "screen \<Rightarrow> screen \<Rightarrow> bool" where
  "same_rest s t \<longleftrightarrow> parser_state.more t = parser_state.more s \<and> numInterm t = numInterm s
     \<and> privateMarker t = privateMarker s \<and> utf8Len t = utf8Len s"

lemma params_only_rest: "params_only s t \<Longrightarrow> same_rest s t"
  unfolding params_only_def same_rest_def by (erule ssubst) simp

lemma same_rest_trans: "same_rest s t \<Longrightarrow> same_rest t u \<Longrightarrow> same_rest s u"
  by (simp add: same_rest_def)

lemma same_rest_state [simp]: "same_rest s (t\<lparr>pState := q\<rparr>) = same_rest s t"
  by (simp add: same_rest_def)

lemma collected_state [simp]: "collected cs (t\<lparr>pState := q\<rparr>) = collected cs t"
  by (simp add: collected_def params_ok_def abs_params_def groupsOf_def)

text \<open>Between the opening of a CSI sequence and its final byte.\<close>

definition collecting :: "byte list \<Rightarrow> screen \<Rightarrow> bool" where
  "collecting cs s \<longleftrightarrow> (pState s = stCsiEntry \<or> pState s = stCsiParam) \<and> utf8Len s = 0 \<and> wf s \<and> collected cs s"

lemma collecting_step:
  assumes s: "collecting cs s" and b: "paramByte b" and n: "separators (cs @ [b]) \<le> 31"
  shows "ensures (feed b s) (\<lambda>t. collecting (cs @ [b]) t \<and> same_rest s t)"
proof -
  from s have c: "collected cs s" "params_ok s" "wf s" "utf8Len s = 0"
    and q: "pState s = stCsiEntry \<or> pState s = stCsiParam"
    by (simp_all add: collecting_def collected_def)
  have act: "doAction (if b = chr CHR '':'' then actSubparam else actParam) b s = feedParam b s"
    by (simp add: feedParam_def)
  obtain t where t: "feedParam b s = Some t" "collected (cs @ [b]) t" "params_only s t"
    using collected_feed [OF c(1) n] by (cases "feedParam b s") auto
  have "stepTable b s = Some (t\<lparr>pState := stCsiParam\<rparr>)"
    by (rule step_quiet [OF param_row [OF b q]])
      (use q t act in \<open>auto simp: exitAction_def entryAction_def\<close>)
  moreover have "wf t" using params_acts [OF c(3) _ t(3)] t(2) by (simp add: acts_def collected_def)
  then have "wf (t\<lparr>pState := stCsiParam\<rparr>)" using wf_state t(2) by (simp add: collected_def)
  moreover have "same_rest s t" by (rule params_only_rest [OF t(3)])
  ultimately show ?thesis
    using t(2) c(4) by (simp add: feed_table collecting_def same_rest_def)
qed

lemma collecting_params:
  "collecting cs s \<Longrightarrow> \<forall>b \<in> set ds. paramByte b \<Longrightarrow> separators (cs @ ds) \<le> 31 \<Longrightarrow>
   ensures (Write ds s) (\<lambda>t. collecting (cs @ ds) t \<and> same_rest s t)"
proof (induction ds arbitrary: cs s)
  case Nil
  then show ?case by (simp add: same_rest_def)
next
  case (Cons b ds)
  have "separators (cs @ [b]) \<le> 31" using Cons.prems(3) by (simp add: separators_def split: if_splits)
  from collecting_step [OF Cons.prems(1) _ this] Cons.prems(2) obtain t
    where t: "feed b s = Some t" "collecting (cs @ [b]) t" "same_rest s t" by (auto simp: ensures_iff)
  from Cons.IH [OF t(2)] Cons.prems(2,3) have "ensures (Write ds t) (\<lambda>u. collecting (cs @ b # ds) u \<and> same_rest t u)"
    by simp
  then show ?case unfolding Write_Cons t(1) bind.bind_lunit
    by (rule ensures_mono) (use same_rest_trans [OF t(3)] in simp)
qed

definition csiStart :: "screen \<Rightarrow> screen" where
  "csiStart s = parserClear_result ((parserClear_result (s\<lparr>pState := stEscape\<rparr>))\<lparr>pState := stCsiEntry\<rparr>)"

lemma csiStart_ok:
  assumes "idle s"
  shows "Write (0x1B # chr CHR ''['' # bs) s = Write bs (csiStart s)" "collecting [] (csiStart s)"
proof -
  let ?t = "parserClear_result (s\<lparr>pState := stEscape\<rparr>)"
  let ?u = "?t\<lparr>pState := stCsiEntry\<rparr>"
  have l: "length (pParams ?u) = 32" "length (pGroupLen ?u) = 32"
    using assms by (simp_all add: idle_def wf_def parser_wf_def parserClear_result_def)
  have "feed (chr CHR ''['') ?t = Some (csiStart s)"
    using idle_utf8 [OF assms] parserClear_eq [OF l(2)]
    by (simp add: feed_table stepTable_def specTransition_def escSpec_def entryAction_def exitAction_def
        parserClear_result_def csiStart_def)
  then show "Write (0x1B # chr CHR ''['' # bs) s = Write bs (csiStart s)"
    by (simp only: Write_Cons feed_escape [OF assms] bind.bind_lunit)
  have "wf (?u\<lparr>pState := stGround\<rparr>)" using wf_ground [OF escape_ok(1) [OF assms]] by simp
  from parserClear_acts [OF this] have "wf (csiStart s)"
    unfolding csiStart_def using parserClear_eq [OF l(2)] by simp
  moreover have "collected [] (csiStart s)" unfolding csiStart_def by (rule collected_clear [OF l])
  ultimately show "collecting [] (csiStart s)"
    using assms by (simp add: collecting_def idle_def csiStart_def parserClear_result_def)
qed

lemma csi_end:
  assumes t: "collecting cs t" and f: "0x40 \<le> f" "f \<le> 0x7E"
  shows "feed f t = map_option (\<lambda>u. u\<lparr>pState := stGround\<rparr>) (finalizeParams t \<bind> dispatchCSI f)"
proof -
  have q: "pState t = stCsiEntry \<or> pState t = stCsiParam" and c: "wf t" "params_ok t" "utf8Len t = 0"
    using t by (simp_all add: collecting_def collected_def)
  have "0x40 \<le> uint f" "uint f \<le> 0x7E" using f by (simp_all add: word_le_def)
  then have row: "specTransition (pState t) (uint f) = (actCsiDispatch, stGround)"
    using q by (auto simp: specTransition_def)
  obtain u where u: "finalizeParams t \<bind> dispatchCSI f = Some u"
    using finalize_acts [OF c(1,2), of "dispatchCSI f", OF dispatchCSI_safe] by (auto simp: ensures_iff)
  have "stepTable f t = Some (u\<lparr>pState := stGround\<rparr>)"
    by (rule step_quiet [OF row]) (use q u in \<open>auto simp: exitAction_def entryAction_def\<close>)
  then show ?thesis using u c(3) by (simp add: feed_table)
qed

lemma csi_dispatched_on:
  assumes "idle s" "\<forall>b \<in> set cs. paramByte b" "separators cs \<le> 31" "0x40 \<le> f" "f \<le> 0x7E"
  shows "\<exists>t. params_ok t \<and> groupsOf t = textGroups cs \<and> numInterm t = 0 \<and> privateMarker t = 0 \<and> utf8Len t = 0
     \<and> parser_state.more t = parser_state.more s
     \<and> Write (0x1B # chr CHR ''['' # cs @ [f]) s
        = map_option (\<lambda>u. u\<lparr>pState := stGround\<rparr>) (dispatchCSI f t)"
proof -
  obtain t where t: "Write cs (csiStart s) = Some t" "collecting cs t" "same_rest (csiStart s) t"
    using collecting_params [OF csiStart_ok(2) [OF assms(1)] assms(2)] assms(3) by (auto simp: ensures_iff)
  have "collected cs t" using t(2) by (simp add: collecting_def)
  from collected_finalize [OF this assms(3)] obtain u where u: "finalizeParams t = Some u" "params_ok u"
    "params_only t u" "groupsOf u = textGroups cs" by (auto simp: ensures_iff)
  have "same_rest (csiStart s) u" by (rule same_rest_trans [OF t(3) params_only_rest [OF u(3)]])
  then have "numInterm u = 0 \<and> privateMarker u = 0 \<and> utf8Len u = 0 \<and> parser_state.more u = parser_state.more s"
    using idle_utf8 [OF assms(1)] by (simp add: same_rest_def csiStart_def parserClear_result_def)
  moreover have "Write (0x1B # chr CHR ''['' # cs @ [f]) s
      = map_option (\<lambda>u. u\<lparr>pState := stGround\<rparr>) (dispatchCSI f u)"
    unfolding csiStart_ok(1) [OF assms(1)] Write_append t(1) bind.bind_lunit Write_one
      csi_end [OF t(2) assms(4,5)] u(1)
    by (cases "dispatchCSI f u") simp_all
  ultimately show ?thesis using u(2,4) by blast
qed

text \<open>
  C5: a CSI sequence sent from the ground state, with a parameter text of digits, semicolons and
  colons (at most 31 separators) and a final byte, runs its handler once, on a state that holds
  exactly the parameter groups the text denotes, no intermediate and no private marker, and that
  agrees with the state before the sequence on everything outside the parser; the parser is then
  back in the ground state.
\<close>

theorem csi_dispatched:
  assumes "idle s" "\<forall>b \<in> set cs. paramByte b" "separators cs \<le> 31" "0x40 \<le> f" "f \<le> 0x7E"
  shows "\<exists>t. groupsOf t = textGroups cs \<and> numInterm t = 0 \<and> privateMarker t = 0
     \<and> parser_state.more t = parser_state.more s
     \<and> Write (0x1B # chr CHR ''['' # cs @ [f]) s
        = map_option (\<lambda>u. u\<lparr>pState := stGround\<rparr>) (dispatchCSI f t)"
  using csi_dispatched_on [OF assms] by blast

lemma csi_dispatched_witness:
  "\<exists>t. groupsOf t = textGroups (str ''2;4'') \<and> numInterm t = 0 \<and> privateMarker t = 0
     \<and> parser_state.more t = parser_state.more demoScreen
     \<and> Write (0x1B # chr CHR ''['' # str ''2;4'' @ [chr CHR ''H'']) demoScreen
        = map_option (\<lambda>u. u\<lparr>pState := stGround\<rparr>) (dispatchCSI (chr CHR ''H'') t)"
  by (rule csi_dispatched [OF demoScreen_idle]) (simp_all add: str_def paramByte_def separators_def)

text \<open>The fields of the screen outside the parser.\<close>

lemma more_fields:
  "parser_state.more t = parser_state.more (s :: screen) \<Longrightarrow> curX t = curX s"
  "parser_state.more t = parser_state.more (s :: screen) \<Longrightarrow> curY t = curY s"
  "parser_state.more t = parser_state.more (s :: screen) \<Longrightarrow> Height t = Height s"
  "parser_state.more t = parser_state.more (s :: screen) \<Longrightarrow> Width t = Width s"
  "parser_state.more t = parser_state.more (s :: screen) \<Longrightarrow> Cells t = Cells s"
  "parser_state.more t = parser_state.more (s :: screen) \<Longrightarrow> OriginMode t = OriginMode s"
  by (cases s; cases t; simp)+

lemma itoa_paramBytes: "0 \<le> n \<Longrightarrow> b \<in> set (itoa n) \<Longrightarrow> paramByte b \<and> b \<noteq> chr CHR '';'' \<and> b \<noteq> chr CHR '':''"
  using natDigits_digits [of "nat n"]
  by (force simp: itoa_def isDigit_def paramByte_def word_le_def)

lemma separators_itoa: "0 \<le> n \<Longrightarrow> separators (itoa n) = 0"
  using itoa_paramBytes [of n] by (auto simp: separators_def filter_empty_conv)

lemma u16_int: "0 \<le> n \<Longrightarrow> n \<le> 65535 \<Longrightarrow> uint (word_of_int n :: u16) = n"
  by (simp add: uint_word_of_int take_bit_int_eq_self)

definition cupText :: "int \<Rightarrow> int \<Rightarrow> byte list" where
  "cupText r c = joinWith (chr CHR '';'') (map itoa [r, c])"

lemma cupText_params:
  assumes "0 \<le> r" "0 \<le> c"
  shows "\<forall>b \<in> set (cupText r c). paramByte b" "separators (cupText r c) \<le> 31"
  using assms itoa_paramBytes separators_itoa [of r] separators_itoa [of c]
  by (auto simp: cupText_def paramByte_def separators_def)

text \<open>
  Cursor position, end to end: ESC [ row ; column H with both numbers in decimal moves the
  cursor to that row and column counted from one, with zero read as one and both clamped to the
  screen, and changes no cell, whenever origin mode is off.
\<close>

theorem cursor_position_sequence:
  assumes "idle s" "\<not> OriginMode s" "0 \<le> r" "r \<le> 65535" "0 \<le> c" "c \<le> 65535"
  shows "\<exists>t. Write (0x1B # chr CHR ''['' # cupText r c @ [chr CHR ''H'']) s = Some t
     \<and> curY t = min (max r 1 - 1) (Height s - 1) \<and> curX t = min (max c 1 - 1) (Width s - 1)
     \<and> Cells t = Cells s \<and> idle t"
proof -
  have g: "textGroups (cupText r c) = [[word_of_int r], [word_of_int c]]"
    unfolding cupText_def using textGroups_join [of "[r, c]"] assms by simp
  have H: "(0x40 :: byte) \<le> chr CHR ''H''" "chr CHR ''H'' \<le> (0x7E :: byte)" by simp_all
  obtain t where t: "params_ok t" "groupsOf t = textGroups (cupText r c)" "numInterm t = 0" "utf8Len t = 0"
    "parser_state.more t = parser_state.more s"
    "Write (0x1B # chr CHR ''['' # cupText r c @ [chr CHR ''H'']) s
       = map_option (\<lambda>u. u\<lparr>pState := stGround\<rparr>) (dispatchCSI (chr CHR ''H'') t)"
    using csi_dispatched_on [OF assms(1) cupText_params [OF assms(3,5)] H] by auto
  let ?p = "t\<lparr>pendingWrap := False\<rparr>"
  have p: "params_ok ?p" "groupsOf ?p = groupsOf t" using t(1) by (simp_all add: params_ok_def groupsOf_def)
  have v: "paramVal 0 1 ?p = Some (max r 1)" "paramVal 1 1 ?p = Some (max c 1)"
    using assms t(2) g u16_int [of r] u16_int [of c] p(2)
    by (auto simp: paramVal_eq [OF p(1)] paramSpecVal_def Let_def)
  let ?u = "cursorPosition (max r 1 - 1) (max c 1 - 1) ?p"
  have "dispatchCSI (chr CHR ''H'') t = Some ?u"
    using t(3) v by (simp add: dispatchCSI_def csiClearsWrap_def csiMain_def csiCUP_def str_def Let_def)
  then have w: "Write (0x1B # chr CHR ''['' # cupText r c @ [chr CHR ''H'']) s = Some (?u\<lparr>pState := stGround\<rparr>)"
    using t(6) by simp
  with Write_safe [OF idle_wf [OF assms(1)]] have "wf (?u\<lparr>pState := stGround\<rparr>)" by (metis ensures_Some)
  with w t(4) more_fields [OF t(5)] assms(2) show ?thesis
    by (simp add: idle_def cursorPosition_def originRow_def originCol_def Let_def)
qed

lemma cursor_position_sequence_witness:
  "\<exists>t. Write (0x1B # chr CHR ''['' # cupText 3 99 @ [chr CHR ''H'']) demoScreen = Some t
     \<and> curY t = 2 \<and> curX t = 5 \<and> Cells t = Cells demoScreen \<and> idle t"
  using cursor_position_sequence [OF demoScreen_idle, of 3 99]
  by (simp add: demoScreen_def New_def Let_def capDimension_def maxDimension_def)

section \<open>A UTF-8 sequence is one rune however it is cut\<close>

lemma cont_table: "list_all (\<lambda>i. (word_of_int i AND 0xC0 = (0x80 :: byte)) = (128 \<le> i \<and> i < 192)) [0..255]"
  by code_simp

lemma cont_byte: "(b AND 0xC0 = (0x80 :: byte)) = (128 \<le> uint b \<and> uint b < 192)"
  using cont_table [unfolded list_all_iff, THEN bspec, OF byte_in_range, of b] by simp

lemma feed_cont:
  assumes "0 < utf8Len s" "b AND 0xC0 = 0x80" "0 \<le> utf8Got s" "utf8Got s < int (length (utf8Buf s))"
  shows "feed b s = (let u = s\<lparr>utf8Buf := (utf8Buf s)[nat (utf8Got s) := b], utf8Got := utf8Got s + 1\<rparr> in
     if utf8Got s + 1 = utf8Len s then put (decodeUTF8Bytes (utf8Buf u) (utf8Len s)) (u\<lparr>utf8Len := 0\<rparr>) else Some u)"
  using assms by (simp add: feed_def continueRune_def set_at_Some Let_def)

lemma utf8_swap: "(s :: screen)\<lparr>utf8Len := n, utf8Buf := b, utf8Got := g\<rparr> = s\<lparr>utf8Buf := b, utf8Len := n, utf8Got := g\<rparr>"
  by (cases s) simp

lemma Write_cont:
  assumes "0 < g" "length buf = 4" "cs \<noteq> []" "g + length cs \<le> 4" "\<forall>b \<in> set cs. b AND 0xC0 = 0x80"
  shows "Write cs (s\<lparr>utf8Buf := buf, utf8Len := int (g + length cs), utf8Got := int g\<rparr>)
    = (let u = take g buf @ cs @ drop (g + length cs) buf in
       put (decodeUTF8Bytes u (int (g + length cs)))
         (s\<lparr>utf8Buf := u, utf8Got := int (g + length cs), utf8Len := 0\<rparr>))"
  using assms
proof (induction cs arbitrary: g buf)
  case Nil
  then show ?case by simp
next
  case (Cons b cs)
  let ?s = "s\<lparr>utf8Buf := buf, utf8Len := int (g + length (b # cs)), utf8Got := int g\<rparr>"
  have split: "buf[g := b] = take g buf @ b # drop (Suc g) buf"
    using Cons.prems by (simp add: upd_conv_take_nth_drop)
  have f: "feed b ?s = (let u = ?s\<lparr>utf8Buf := buf[g := b], utf8Got := int g + 1\<rparr> in
     if cs = [] then put (decodeUTF8Bytes (utf8Buf u) (utf8Len ?s)) (u\<lparr>utf8Len := 0\<rparr>) else Some u)"
    using feed_cont [of ?s b] Cons.prems by (auto simp: Let_def)
  show ?case
  proof (cases cs)
    case Nil
    then show ?thesis using f split Cons.prems by (simp add: Write_one Let_def add.commute)
  next
    case (Cons c ds)
    have "Write cs (s\<lparr>utf8Buf := buf[g := b], utf8Len := int (Suc g + length cs), utf8Got := int (Suc g)\<rparr>)
      = (let u = take (Suc g) (buf[g := b]) @ cs @ drop (Suc g + length cs) (buf[g := b]) in
         put (decodeUTF8Bytes u (int (Suc g + length cs)))
           (s\<lparr>utf8Buf := u, utf8Got := int (Suc g + length cs), utf8Len := 0\<rparr>))"
      by (rule Cons.IH) (use Cons.prems Cons in auto)
    moreover have "take (Suc g) (buf[g := b]) = take g buf @ [b]" "drop (Suc g + n) (buf[g := b]) = drop (Suc g + n) buf" for n
      using Cons.prems split by (simp_all add: add.commute)
    ultimately show ?thesis using f Cons by (simp add: Write_Cons [of b] Let_def algebra_simps utf8_swap)
  qed
qed

lemma feed_lead:
  assumes "pState s = stGround" "utf8Len s = 0" "length (utf8Buf s) = 4" "192 \<le> uint b" "uint b < 248"
  shows "feed b s = Some (s\<lparr>utf8Buf := (utf8Buf s)[0 := b],
     utf8Len := (if uint b < 224 then 2 else if uint b < 240 then 3 else 4), utf8Got := 1\<rparr>)"
    (is "_ = Some ?t")
proof -
  have row: "specTransition (pState s) (uint b) = (actPrint, stGround)"
    using assms by (simp add: specTransition_def)
  have "doAction actPrint b s = Some ?t"
    using assms by (simp add: handlePrint_def startRune_def set_at_Some word_less_def word_le_def)
  from step_quiet [OF row _ _ _ this] assms pState_same [of ?t stGround] show ?thesis
    by (simp add: feed_table exitAction_def)
qed

lemma decode_prefix: "(\<And>i. i < n \<Longrightarrow> buf ! i = buf' ! i) \<Longrightarrow> n = 2 \<or> n = 3 \<or> n = 4 \<Longrightarrow>
    decodeUTF8Bytes buf (int n) = decodeUTF8Bytes buf' (int n)"
  by (auto simp: decodeUTF8Bytes_def)

text \<open>The shape of an encoding of several bytes.\<close>

lemma cont_of: "uint b = 128 + x mod 64 \<Longrightarrow> b AND 0xC0 = (0x80 :: byte)"
  using cont_byte [of b] pos_mod_bound [of 64 x] pos_mod_sign [of 64 x] by linarith

lemma lead_of:
  "uint (b :: byte) = 192 + q \<Longrightarrow> 0 \<le> q \<Longrightarrow> q < 32 \<Longrightarrow> 192 \<le> uint b \<and> uint b < 248 \<and> uint b < 224"
  "uint b = 224 + q \<Longrightarrow> 0 \<le> q \<Longrightarrow> q < 16 \<Longrightarrow> 192 \<le> uint b \<and> uint b < 248 \<and> \<not> uint b < 224 \<and> uint b < 240"
  "uint b = 240 + q \<Longrightarrow> 0 \<le> q \<Longrightarrow> q < 8 \<Longrightarrow> 192 \<le> uint b \<and> uint b < 248 \<and> \<not> uint b < 224 \<and> \<not> uint b < 240"
  by linarith+

lemma encodeRune_shape:
  assumes "validRune r" "0x80 \<le> r"
  obtains b cs where "encodeRune r = b # cs" "192 \<le> uint b" "uint b < 248" "cs \<noteq> []" "length cs \<le> 3"
    "\<forall>c \<in> set cs. c AND 0xC0 = 0x80"
    "int (Suc (length cs)) = (if uint b < 224 then 2 else if uint b < 240 then 3 else 4)"
proof -
  have b: "0 \<le> r" "r \<le> 0x10FFFF" using assms by (auto simp: validRune_def)
  consider "r < 0x800" | "0x800 \<le> r" "r < 0x10000" | "0x10000 \<le> r" by linarith
  then show thesis
  proof cases
    case 1
    have q: "0 \<le> r div 64" "r div 64 < 32" using 1 b by auto
    obtain b0 b1 where e: "encodeRune r = [b0, b1]" "uint b0 = 192 + r div 64" "uint b1 = 128 + r mod 64"
      using encodeRune_bytes(1) [OF assms 1] by auto
    show thesis by (rule that [OF e(1)]) (use lead_of(1) [OF e(2) q] cont_of [OF e(3)] in simp_all)
  next
    case 2
    have q: "0 \<le> r div 4096" "r div 4096 < 16" using 2 b by auto
    obtain b0 b1 b2 where e: "encodeRune r = [b0, b1, b2]" "uint b0 = 224 + r div 4096"
      "uint b1 = 128 + r div 64 mod 64" "uint b2 = 128 + r mod 64"
      using encodeRune_bytes(2) [OF assms 2] by auto
    show thesis
      by (rule that [OF e(1)]) (use lead_of(2) [OF e(2) q] cont_of [OF e(3)] cont_of [OF e(4)] in simp_all)
  next
    case 3
    have q: "0 \<le> r div 262144" "r div 262144 < 8" using 3 b by auto
    obtain b0 b1 b2 b3 where e: "encodeRune r = [b0, b1, b2, b3]" "uint b0 = 240 + r div 262144"
      "uint b1 = 128 + r div 4096 mod 64" "uint b2 = 128 + r div 64 mod 64" "uint b3 = 128 + r mod 64"
      using encodeRune_bytes(3) [OF assms 3] by auto
    show thesis
      by (rule that [OF e(1)])
        (use lead_of(3) [OF e(2) q] cont_of [OF e(3)] cont_of [OF e(4)] cont_of [OF e(5)] in simp_all)
  qed
qed

text \<open>
  C6: the UTF-8 encoding of a rune of more than one byte, written in the ground state, prints
  that rune and nothing else: for every scalar value from U+0080 on except U+FFFF (the marker of
  a wide cell's spacer, which the decoder refuses), the bytes are collected over any number of
  calls, decoded to the rune they encode, and put on the screen once.
\<close>

theorem utf8_written_once:
  assumes "idle s" "validRune r" "0x80 \<le> r" "r \<noteq> 0xFFFF"
  shows "\<exists>buf got. length buf = 4 \<and>
     Write (encodeRune r) s = put r (s\<lparr>utf8Buf := buf, utf8Got := got, utf8Len := 0\<rparr>)"
proof -
  obtain b cs where e: "encodeRune r = b # cs" "192 \<le> uint b" "uint b < 248" "cs \<noteq> []" "length cs \<le> 3"
    "\<forall>c \<in> set cs. c AND 0xC0 = 0x80"
    "int (Suc (length cs)) = (if uint b < 224 then 2 else if uint b < 240 then 3 else 4)"
    using encodeRune_shape [OF assms(2,3)] .
  have s: "pState s = stGround" "utf8Len s = 0" "length (utf8Buf s) = 4"
    using assms(1) by (simp_all add: idle_def wf_def parser_wf_def)
  let ?n = "Suc (length cs)"
  define buf where "buf = take 1 ((utf8Buf s)[0 := b]) @ cs @ drop ?n ((utf8Buf s)[0 := b])"
  have buf: "buf = encodeRune r @ drop ?n (utf8Buf s)"
    using s(3) e(1) by (cases "utf8Buf s") (simp_all add: buf_def)
  have "Write cs (s\<lparr>utf8Buf := (utf8Buf s)[0 := b], utf8Len := int (1 + length cs), utf8Got := int 1\<rparr>)
    = put (decodeUTF8Bytes buf (int ?n)) (s\<lparr>utf8Buf := buf, utf8Got := int ?n, utf8Len := 0\<rparr>)"
    using Write_cont [of 1 "(utf8Buf s)[0 := b]" cs s] s(3) e by (simp add: buf_def Let_def)
  moreover have "Write (encodeRune r) s
    = Write cs (s\<lparr>utf8Buf := (utf8Buf s)[0 := b], utf8Len := int (1 + length cs), utf8Got := int 1\<rparr>)"
    using feed_lead [OF s e(2,3)] e(1,7) by (simp add: Write_Cons)
  moreover have "decodeUTF8Bytes buf (int ?n) = r"
  proof -
    have len: "length (encodeRune r) = ?n" by (simp add: e(1))
    have "decodeUTF8Bytes buf (int ?n) = decodeUTF8Bytes (padBuf (encodeRune r)) (int ?n)"
      by (rule decode_prefix) (use len e(7) in \<open>auto simp: buf padBuf_def nth_append split: if_splits\<close>)
    with decode_encode [OF assms(2-4)] e(1) show ?thesis by simp
  qed
  moreover have "length buf = 4" using buf e(1,5) s(3) by simp
  ultimately show ?thesis by auto
qed

lemma utf8_written_once_witness:
  "\<exists>buf got. length buf = 4 \<and> Write [0xE4, 0xBD, 0xA0] demoScreen
     = put 0x4F60 (demoScreen\<lparr>utf8Buf := buf, utf8Got := got, utf8Len := 0\<rparr>)"
  using utf8_written_once [OF demoScreen_idle, of "0x4F60"] by (simp add: validRune_def encodeRune_def)

text \<open>
  A sequence cut short by another byte prints one replacement character and the other byte
  keeps its meaning: it is interpreted as if it came on its own.
\<close>

theorem utf8_cut_short:
  assumes "idle s" "192 \<le> uint b" "uint b < 248" "c AND 0xC0 \<noteq> 0x80"
  shows "\<exists>buf got. length buf = 4 \<and>
     Write [b, c] s = put 0xFFFD (s\<lparr>utf8Buf := buf, utf8Got := got, utf8Len := 0\<rparr>) \<bind> stepTable c"
proof -
  have s: "pState s = stGround" "utf8Len s = 0" "length (utf8Buf s) = 4"
    using assms(1) by (simp_all add: idle_def wf_def parser_wf_def)
  define n where "n = (if uint b < 224 then 2 else if uint b < 240 then 3 else (4 :: int))"
  then have "0 < n" by simp
  have "Write [b, c] s = put 0xFFFD (s\<lparr>utf8Buf := (utf8Buf s)[0 := b], utf8Got := 1, utf8Len := 0\<rparr>) \<bind> stepTable c"
    using feed_lead [OF s assms(2,3)] assms(4) s(2) \<open>0 < n\<close>
    by (simp add: Write_Cons feed_def continueRune_def flip: n_def)
  with s(3) show ?thesis by (metis length_list_update)
qed
lemma utf8_cut_short_witness:
  "\<exists>buf got. length buf = 4 \<and> Write [0xE4, 0x41] demoScreen
     = put 0xFFFD (demoScreen\<lparr>utf8Buf := buf, utf8Got := got, utf8Len := 0\<rparr>) \<bind> stepTable 0x41"
  using utf8_cut_short [OF demoScreen_idle, of "0xE4" "0x41"] by simp

end
