(* ===== verification/Pong.thy ===== *)
theory Pong
  imports Complex_Main GoPrelude
begin

text \<open>
  \<open>src/terminal/pingstat.go\<close> and \<open>src/terminal/ping.go\<close>: the adaptive pong timeout of one
  WebSocket connection and the loop that declares a connection dead.  A \<open>time.Duration\<close> is a
  signed 64-bit count of nanoseconds: it is an \<open>int\<close> here, and every addition, subtraction and
  multiplication of the source goes through \<open>i64\<close>, which wraps the result.  What a ping
  returns (a round-trip time, an error, a cancelled context) is an input of the model, and so is
  the choice of the \<open>select\<close> between the ticker and the cancelled context.

  The lemmas give the bounds of the timeout, the absence of overflow for plausible round trips,
  the distance between the integer estimator and the exact one of RFC 6298, and the condition
  on which the loop closes the connection.
\<close>

section \<open>Durations\<close>

type_synonym duration = int

definition i64 :: "int \<Rightarrow> duration" where
  "i64 z = (z + 2 ^ 63) mod 2 ^ 64 - 2 ^ 63"

definition second :: duration where
  "second = 1000000000"

text \<open>\<open>Duration.Abs\<close>: the least value, whose negation does not exist, becomes the greatest.\<close>

definition dur_abs :: "duration \<Rightarrow> duration" where
  "dur_abs d = (if 0 \<le> d then d else if d = - (2 ^ 63) then 2 ^ 63 - 1 else - d)"

lemma i64_id: "- (2 ^ 63) \<le> z \<Longrightarrow> z < 2 ^ 63 \<Longrightarrow> i64 z = z"
  by (simp add: i64_def)

section \<open>The estimator\<close>

definition minPongTimeout :: duration where
  "minPongTimeout = 3 * second"

definition maxPongTimeout :: duration where
  "maxPongTimeout = 15 * second"

definition bootstrapPongTimeout :: duration where
  "bootstrapPongTimeout = 8 * second"

definition alphaShift :: nat where
  "alphaShift = 3"

definition betaShift :: nat where
  "betaShift = 2"

definition rtoFactor :: int where
  "rtoFactor = 4"

definition maxConsecutiveFailures :: int where
  "maxConsecutiveFailures = 3"

record pingStat =
  srtt :: duration
  rttvar :: duration
  rto :: duration
  samples :: int

definition newPingStat :: pingStat where
  "newPingStat = \<lparr>srtt = 0, rttvar = 0, rto = bootstrapPongTimeout, samples = 0\<rparr>"

definition clampRTO :: "duration \<Rightarrow> duration" where
  "clampRTO r = min (max r minPongTimeout) maxPongTimeout"

definition RecordRTT :: "duration \<Rightarrow> pingStat \<Rightarrow> pingStat" where
  "RecordRTT rtt p =
    (if rtt < 0 then p
     else
       let p1 = (if samples p = 0 then p\<lparr>srtt := rtt, rttvar := rtt div 2\<rparr>
                 else let dev = dur_abs (i64 (srtt p - rtt)) in
                   p\<lparr>rttvar := i64 (i64 (rttvar p - drop_bit betaShift (rttvar p)) + drop_bit betaShift dev),
                     srtt := i64 (i64 (srtt p - drop_bit alphaShift (srtt p)) + drop_bit alphaShift rtt)\<rparr>)
       in p1\<lparr>samples := i64 (samples p1 + 1),
             rto := clampRTO (i64 (srtt p1 + i64 (rtoFactor * rttvar p1)))\<rparr>)"

definition Backoff :: "pingStat \<Rightarrow> duration \<times> pingStat" where
  "Backoff p = (let p1 = p\<lparr>rto := clampRTO (i64 (rto p * 2))\<rparr> in (rto p1, p1))"

definition Timeout :: "pingStat \<Rightarrow> duration \<times> bool" where
  "Timeout p = (rto p, maxPongTimeout \<le> rto p)"

definition ping_Stats :: "pingStat \<Rightarrow> duration \<times> duration" where
  "ping_Stats p = (srtt p, rttvar p)"

section \<open>The ping loop\<close>

text \<open>
  One tick of the loop sends a ping bounded by the current timeout.  The outcome is what
  \<open>ws.Ping\<close> returned and, on success, the time it took.
\<close>

datatype pingOutcome = Pong duration | PingFailed | PingCanceled

record pinger =
  pstat :: pingStat
  consecFails :: int

definition newPinger :: pinger where
  "newPinger = \<lparr>pstat = newPingStat, consecFails = 0\<rparr>"

text \<open>Both return whether the loop stops and whether \<open>cancel()\<close> was called.\<close>

definition handlePingFailure :: "bool \<Rightarrow> pinger \<Rightarrow> (bool \<times> bool) \<times> pinger" where
  "handlePingFailure canceled p =
    (if canceled then ((True, False), p)
     else let p1 = p\<lparr>pstat := snd (Backoff (pstat p)), consecFails := i64 (consecFails p + 1)\<rparr> in
       if maxConsecutiveFailures \<le> consecFails p1 then ((True, True), p1) else ((False, False), p1))"

fun tick :: "pingOutcome \<Rightarrow> pinger \<Rightarrow> (bool \<times> bool) \<times> pinger" where
  "tick (Pong rtt) p = ((False, False), p\<lparr>consecFails := 0, pstat := RecordRTT rtt (pstat p)\<rparr>)"
| "tick PingFailed p = handlePingFailure False p"
| "tick PingCanceled p = handlePingFailure True p"

text \<open>
  The \<open>select\<close> of the loop sees the context's end or the ticker.  The events seen so far decide
  whether the loop still runs (\<open>None\<close>) or has returned (\<open>Some c\<close>, with \<open>c\<close> saying whether it
  cancelled the connection itself).
\<close>

datatype pingEvent = CtxDone | Tick pingOutcome

fun pingLoop :: "pingEvent list \<Rightarrow> pinger \<Rightarrow> bool option \<times> pinger" where
  "pingLoop [] p = (None, p)"
| "pingLoop (CtxDone # es) p = (Some False, p)"
| "pingLoop (Tick out # es) p =
    (case tick out p of ((stop, cancel), p1) \<Rightarrow> if stop then (Some cancel, p1) else pingLoop es p1)"

section \<open>Bounds of the timeout\<close>

lemmas pong_consts = minPongTimeout_def maxPongTimeout_def bootstrapPongTimeout_def second_def
  alphaShift_def betaShift_def rtoFactor_def maxConsecutiveFailures_def

datatype statOp = Sample duration | Missed

fun stat_step :: "statOp \<Rightarrow> pingStat \<Rightarrow> pingStat" where
  "stat_step (Sample r) p = RecordRTT r p"
| "stat_step Missed p = snd (Backoff p)"

definition rto_ok :: "pingStat \<Rightarrow> bool" where
  "rto_ok p \<longleftrightarrow> minPongTimeout \<le> rto p \<and> rto p \<le> maxPongTimeout"

lemma clampRTO_bounds: "minPongTimeout \<le> clampRTO r" "clampRTO r \<le> maxPongTimeout"
  by (simp_all add: clampRTO_def pong_consts)

lemma stat_step_rto_ok: "rto_ok p \<Longrightarrow> rto_ok (stat_step op p)"
  by (cases op) (auto simp: rto_ok_def RecordRTT_def Backoff_def Let_def clampRTO_bounds)

lemma new_rto_ok: "rto_ok newPingStat"
  by (simp add: rto_ok_def newPingStat_def pong_consts)

lemma fold_rto_ok: "rto_ok p \<Longrightarrow> rto_ok (fold stat_step ops p)"
  by (induction ops arbitrary: p) (simp_all add: stat_step_rto_ok)

text \<open>Within the bounds doubling never wraps, so a missed pong really doubles the timeout.\<close>

lemma backoff_doubles:
  "rto_ok p \<Longrightarrow> Backoff p = (min (2 * rto p) maxPongTimeout, p\<lparr>rto := min (2 * rto p) maxPongTimeout\<rparr>)"
  by (simp add: rto_ok_def Backoff_def Let_def clampRTO_def i64_id pong_consts)

section \<open>The estimate against RFC 6298\<close>

text \<open>
  The exact estimator of RFC 6298, section 2, over the reals: \<open>None\<close> before the first
  measurement.
\<close>

fun rfc_sample :: "real \<Rightarrow> (real \<times> real) option \<Rightarrow> (real \<times> real) option" where
  "rfc_sample r None = Some (r, r / 2)"
| "rfc_sample r (Some (s, v)) = Some (7 / 8 * s + r / 8, 3 / 4 * v + \<bar>s - r\<bar> / 4)"

text \<open>The rounding of the two shifts costs at most 7 ns in the mean and 10 ns in the deviation.\<close>

definition estimates :: "duration \<Rightarrow> nat \<Rightarrow> pingStat \<Rightarrow> (real \<times> real) option \<Rightarrow> bool" where
  "estimates hi n p e \<longleftrightarrow>
    (case e of
      None \<Rightarrow> n = 0 \<and> samples p = 0
    | Some (s, v) \<Rightarrow> 0 < n \<and> samples p = int n \<and> \<bar>real_of_int (srtt p) - s\<bar> \<le> 7 \<and> \<bar>real_of_int (rttvar p) - v\<bar> \<le> 10
        \<and> 0 \<le> srtt p \<and> srtt p \<le> hi \<and> 0 \<le> rttvar p \<and> rttvar p \<le> hi
        \<and> 0 \<le> s \<and> s \<le> real_of_int hi)"

lemma div_real: "\<exists>e. 0 \<le> e \<and> e \<le> real_of_int (d - 1) / real_of_int d
    \<and> real_of_int (x div d) = real_of_int x / real_of_int d - e" if "0 < d" for x d :: int
proof -
  have "x = d * (x div d) + x mod d"
    by simp
  then have "real_of_int x = real_of_int d * real_of_int (x div d) + real_of_int (x mod d)"
    by (metis of_int_add of_int_mult)
  then have "real_of_int (x div d) = real_of_int x / real_of_int d - real_of_int (x mod d) / real_of_int d"
    using that by (simp add: field_simps)
  moreover have "0 \<le> real_of_int (x mod d) / real_of_int d"
    using that by simp
  moreover have "x mod d \<le> d - 1"
    using that by (simp add: pos_mod_bound)
  then have "real_of_int (x mod d) \<le> real_of_int (d - 1)"
    by (rule of_int_le_iff [THEN iffD2])
  then have "real_of_int (x mod d) / real_of_int d \<le> real_of_int (d - 1) / real_of_int d"
    using that by (simp add: divide_right_mono)
  ultimately show ?thesis
    by blast
qed

lemma ema_bound: "0 \<le> x \<Longrightarrow> x \<le> hi \<Longrightarrow> 0 \<le> y \<Longrightarrow> y \<le> hi \<Longrightarrow> 0 < d
    \<Longrightarrow> 0 \<le> x - x div d + y div d \<and> x - x div d + y div d \<le> hi" for x y hi d :: int
proof -
  assume a: "0 \<le> x" "x \<le> hi" "0 \<le> y" "y \<le> hi" "0 < d"
  have mono: "(n + 1) div d \<le> n div d + 1" for n
    using a(5) by (smt (verit) div_add_self1 zdiv_mono1)
  have "x - x div d \<le> hi - hi div d"
    using a(2)
  proof (induction "nat (hi - x)" arbitrary: x)
    case (Suc k)
    then have "x + 1 - (x + 1) div d \<le> hi - hi div d"
      by (intro Suc(1)) auto
    then show ?case
      using mono [of x] by linarith
  qed simp
  moreover have "y div d \<le> hi div d"
    using a by (simp add: zdiv_mono1)
  moreover have "x div d \<le> x" "0 \<le> y div d"
    using a zdiv_mono2 [of x 1 d] by (auto simp: pos_imp_zdiv_nonneg_iff)
  ultimately show ?thesis
    using a by linarith
qed

text \<open>A later sample, once overflow is excluded: the source's formulas with nothing wrapped.\<close>

lemma record_later:
  assumes "0 \<le> r" "r \<le> hi" "0 \<le> srtt p" "srtt p \<le> hi" "0 \<le> rttvar p" "rttvar p \<le> hi"
    and "5 * hi < 2 ^ 63" "samples p \<noteq> 0"
  shows "srtt (RecordRTT r p) = srtt p - srtt p div 8 + r div 8"
    and "rttvar (RecordRTT r p) = rttvar p - rttvar p div 4 + \<bar>srtt p - r\<bar> div 4"
    and "rto (RecordRTT r p) = clampRTO (srtt (RecordRTT r p) + 4 * rttvar (RecordRTT r p))"
    and "samples (RecordRTT r p) = i64 (samples p + 1)"
proof -
  have dev: "dur_abs (i64 (srtt p - r)) = \<bar>srtt p - r\<bar>"
    using assms by (simp add: i64_id dur_abs_def)
  have d: "0 \<le> \<bar>srtt p - r\<bar>" "\<bar>srtt p - r\<bar> \<le> hi"
    using assms by auto
  note v = ema_bound [OF assms(5,6) d, of 4] ema_bound [OF assms(3,4,1,2), of 8]
  have w: "i64 (i64 (rttvar p - drop_bit betaShift (rttvar p)) + drop_bit betaShift \<bar>srtt p - r\<bar>)
      = rttvar p - rttvar p div 4 + \<bar>srtt p - r\<bar> div 4"
    "i64 (i64 (srtt p - drop_bit alphaShift (srtt p)) + drop_bit alphaShift r)
      = srtt p - srtt p div 8 + r div 8"
    using v assms ema_bound [of "rttvar p" hi 0 4] ema_bound [of "srtt p" hi 0 8]
    by (auto simp: i64_id drop_bit_eq_div betaShift_def alphaShift_def)
  show g: "srtt (RecordRTT r p) = srtt p - srtt p div 8 + r div 8"
    "rttvar (RecordRTT r p) = rttvar p - rttvar p div 4 + \<bar>srtt p - r\<bar> div 4"
    "samples (RecordRTT r p) = i64 (samples p + 1)"
    using assms w dev by (simp_all add: RecordRTT_def Let_def)
  have wide: "i64 (a + i64 (rtoFactor * b)) = a + 4 * b" if "0 \<le> a \<and> a \<le> hi" "0 \<le> b \<and> b \<le> hi" for a b
    using that assms(7) by (simp add: i64_id rtoFactor_def)
  have "rto (RecordRTT r p) = clampRTO (i64 (srtt (RecordRTT r p) + i64 (rtoFactor * rttvar (RecordRTT r p))))"
    using assms by (simp add: RecordRTT_def Let_def)
  then show "rto (RecordRTT r p) = clampRTO (srtt (RecordRTT r p) + 4 * rttvar (RecordRTT r p))"
    unfolding g by (simp only: wide [OF v(2,1)])
qed

lemma estimates_first:
  assumes "estimates hi n p None" "0 \<le> r" "r \<le> hi" "5 * hi < 2 ^ 63"
  shows "estimates hi 1 (RecordRTT r p) (rfc_sample (real_of_int r) None)
    \<and> rto (RecordRTT r p) = clampRTO (srtt (RecordRTT r p) + 4 * rttvar (RecordRTT r p))"
  using assms div_real [of 2 r]
  by (auto simp: estimates_def RecordRTT_def Let_def rtoFactor_def i64_id abs_le_iff)

lemma mean_error:
  "\<bar>x - s\<bar> \<le> 7 \<Longrightarrow> 0 \<le> a \<Longrightarrow> a \<le> 7 / 8 \<Longrightarrow> 0 \<le> b \<Longrightarrow> b \<le> 7 / 8
    \<Longrightarrow> \<bar>(x - (x / 8 - a) + (r / 8 - b)) - (7 / 8 * s + r / 8)\<bar> \<le> 7" for x s a b r :: real
  by (simp add: abs_le_iff)

lemma deviation_error:
  "\<bar>x - v\<bar> \<le> 10 \<Longrightarrow> \<bar>y - z\<bar> \<le> 7 \<Longrightarrow> 0 \<le> a \<Longrightarrow> a \<le> 3 / 4 \<Longrightarrow> 0 \<le> b \<Longrightarrow> b \<le> 3 / 4
    \<Longrightarrow> \<bar>(x - (x / 4 - a) + (y / 4 - b)) - (3 / 4 * v + z / 4)\<bar> \<le> 10" for x v y z a b :: real
  by (simp add: abs_le_iff)

lemma estimates_next:
  assumes "estimates hi n p (Some (s, v))" "0 \<le> r" "r \<le> hi" "5 * hi < 2 ^ 63" "n < 2 ^ 62"
  shows "estimates hi (Suc n) (RecordRTT r p) (rfc_sample (real_of_int r) (Some (s, v)))
    \<and> rto (RecordRTT r p) = clampRTO (srtt (RecordRTT r p) + 4 * rttvar (RecordRTT r p))"
proof -
  note e = assms(1) [unfolded estimates_def, simplified]
  have nz: "samples p \<noteq> 0"
    using e by simp
  note g = record_later [OF assms(2,3) _ _ _ _ assms(4) nz]
  have n: "i64 (samples p + 1) = int (Suc n)"
    using e assms(5) by (simp add: i64_id)
  have d: "0 \<le> \<bar>srtt p - r\<bar>" "\<bar>srtt p - r\<bar> \<le> hi"
    using e assms by auto
  obtain a b where ab: "0 \<le> a" "a \<le> 7 / 8" "0 \<le> b" "b \<le> 7 / 8"
    "real_of_int (srtt p div 8) = real_of_int (srtt p) / 8 - a" "real_of_int (r div 8) = real_of_int r / 8 - b"
    using div_real [of 8 "srtt p"] div_real [of 8 r] by auto
  obtain f g where fg: "0 \<le> f" "f \<le> 3 / 4" "0 \<le> g" "g \<le> 3 / 4"
    "real_of_int (rttvar p div 4) = real_of_int (rttvar p) / 4 - f"
    "real_of_int (\<bar>srtt p - r\<bar> div 4) = \<bar>real_of_int (srtt p) - real_of_int r\<bar> / 4 - g"
    using div_real [of 4 "rttvar p"] div_real [of 4 "\<bar>srtt p - r\<bar>"] by auto
  have "\<bar>real_of_int (srtt p) - s\<bar> \<le> 7"
    using e by simp
  then have dd: "\<bar>\<bar>real_of_int (srtt p) - real_of_int r\<bar> - \<bar>s - real_of_int r\<bar>\<bar> \<le> 7"
    by (simp add: abs_le_iff) argo
  have "\<bar>real_of_int (srtt p - srtt p div 8 + r div 8) - (7 / 8 * s + real_of_int r / 8)\<bar> \<le> 7"
    using mean_error [OF _ ab(1-4), of "real_of_int (srtt p)" s "real_of_int r"] e ab(5,6) by simp
  moreover have "\<bar>real_of_int (rttvar p - rttvar p div 4 + \<bar>srtt p - r\<bar> div 4)
      - (3 / 4 * v + \<bar>s - real_of_int r\<bar> / 4)\<bar> \<le> 10"
    using deviation_error [OF _ dd fg(1-4), of "real_of_int (rttvar p)" v] e fg(5,6) by simp
  moreover have "0 \<le> 7 / 8 * s + real_of_int r / 8" "7 / 8 * s + real_of_int r / 8 \<le> real_of_int hi"
    using e assms by (simp_all add: of_int_le_iff [symmetric] del: of_int_le_iff)
  ultimately have "estimates hi (Suc n) (RecordRTT r p) (rfc_sample (real_of_int r) (Some (s, v)))"
    using e n ema_bound [OF _ _ assms(2,3), of "srtt p" 8] ema_bound [OF _ _ d, of "rttvar p" 4]
    by (simp only: estimates_def rfc_sample.simps option.case prod.case g) simp
  then show ?thesis
    using g(3) e by simp
qed

fun op_samples :: "statOp list \<Rightarrow> duration list" where
  "op_samples [] = []"
| "op_samples (Sample r # ops) = r # op_samples ops"
| "op_samples (Missed # ops) = op_samples ops"

lemma op_samples_append [simp]: "op_samples (a @ b) = op_samples a @ op_samples b"
  by (induction a rule: op_samples.induct) simp_all

lemma length_op_samples: "length (op_samples ops) \<le> length ops"
  by (induction ops rule: op_samples.induct) simp_all

definition rfc_estimate :: "duration list \<Rightarrow> (real \<times> real) option" where
  "rfc_estimate rs = fold (\<lambda>r. rfc_sample (real_of_int r)) rs None"

lemma rfc_estimate_snoc: "rfc_estimate (rs @ [r]) = rfc_sample (real_of_int r) (rfc_estimate rs)"
  by (simp add: rfc_estimate_def)

lemma estimates_missed: "estimates hi n p e \<Longrightarrow> estimates hi n (snd (Backoff p)) e"
  by (auto simp: estimates_def Backoff_def Let_def split: option.splits)

lemma estimates_fold:
  assumes "\<forall>r\<in>set (op_samples ops). 0 \<le> r \<and> r \<le> hi" "5 * hi < 2 ^ 63" "length ops < 2 ^ 62"
  shows "estimates hi (length (op_samples ops)) (fold stat_step ops newPingStat)
    (rfc_estimate (op_samples ops))"
  using assms(1,3)
proof (induction ops rule: rev_induct)
  case Nil
  show ?case
    by (simp add: estimates_def newPingStat_def rfc_estimate_def)
next
  case (snoc op ops)
  have n: "length (op_samples ops) < 2 ^ 62"
    using snoc(3) length_op_samples [of ops] by simp
  show ?case
  proof (cases op)
    case (Sample r)
    show ?thesis
    proof (cases "rfc_estimate (op_samples ops)")
      case None
      then show ?thesis
        using snoc Sample estimates_first [OF _ _ _ assms(2), of "length (op_samples ops)" "fold stat_step ops newPingStat" r]
        by (simp add: rfc_estimate_snoc) (simp add: estimates_def)
    next
      case (Some sv)
      then show ?thesis
        using snoc Sample n
          estimates_next [OF _ _ _ assms(2), of "length (op_samples ops)" "fold stat_step ops newPingStat" "fst sv" "snd sv" r]
        by (simp add: rfc_estimate_snoc)
    qed
  qed (use snoc estimates_missed in simp)
qed

definition clamp_real :: "real \<Rightarrow> real" where
  "clamp_real r = min (max r 3000000000) 15000000000"

lemma clampRTO_near:
  "\<bar>real_of_int a - b\<bar> \<le> e \<Longrightarrow> \<bar>real_of_int (clampRTO a) - clamp_real b\<bar> \<le> e"
  unfolding clampRTO_def clamp_real_def pong_consts by (auto simp: min_def max_def)

text \<open>C14.  After a sample, with any samples and missed pongs before it, the mean, the deviation
  and the timeout are within 7 ns, 10 ns and 47 ns of the exact estimator of RFC 6298 clamped to
  the same bounds: the shifts of the integer code lose nothing that accumulates, a missed pong
  leaves the estimate alone, and nothing overflows.\<close>

theorem pong_timeout_tracks_rfc6298:
  assumes "\<forall>q\<in>set (op_samples (ops @ [Sample r])). 0 \<le> q \<and> q \<le> hi"
    and "5 * hi < 2 ^ 63" "length ops + 1 < 2 ^ 62"
  shows "\<exists>s v. rfc_estimate (op_samples (ops @ [Sample r])) = Some (s, v)
    \<and> \<bar>real_of_int (srtt (fold stat_step (ops @ [Sample r]) newPingStat)) - s\<bar> \<le> 7
    \<and> \<bar>real_of_int (rttvar (fold stat_step (ops @ [Sample r]) newPingStat)) - v\<bar> \<le> 10
    \<and> \<bar>real_of_int (rto (fold stat_step (ops @ [Sample r]) newPingStat)) - clamp_real (s + 4 * v)\<bar> \<le> 47"
proof -
  let ?p = "fold stat_step ops newPingStat" and ?q = "fold stat_step (ops @ [Sample r]) newPingStat"
  have n: "length (op_samples ops) < 2 ^ 62"
    using assms(3) length_op_samples [of ops] by simp
  have e: "estimates hi (length (op_samples ops)) ?p (rfc_estimate (op_samples ops))"
    using estimates_fold [OF _ assms(2)] assms(1,3) by simp
  have "rto ?q = clampRTO (srtt ?q + 4 * rttvar ?q)"
    using e assms n estimates_first [OF _ _ _ assms(2), of "length (op_samples ops)" ?p r]
      estimates_next [OF _ _ _ assms(2), of "length (op_samples ops)" ?p _ _ r]
    by (cases "rfc_estimate (op_samples ops)") auto
  moreover have "rfc_sample x est \<noteq> None" for x est
    by (cases est) auto
  then obtain s v where sv: "rfc_estimate (op_samples (ops @ [Sample r])) = Some (s, v)"
    unfolding op_samples_append op_samples.simps append.simps rfc_estimate_snoc by (metis not_None_eq surj_pair)
  moreover have "\<bar>real_of_int (srtt ?q) - s\<bar> \<le> 7 \<and> \<bar>real_of_int (rttvar ?q) - v\<bar> \<le> 10"
    using estimates_fold [OF assms(1,2)] assms(3) sv by (simp add: estimates_def)
  moreover from this have "\<bar>real_of_int (srtt ?q + 4 * rttvar ?q) - (s + 4 * v)\<bar> \<le> 47"
    by auto
  ultimately show ?thesis
    using clampRTO_near by metis
qed

lemma pong_timeout_tracks_rfc6298_witness:
  "\<exists>s v. rfc_estimate [40000000, 52000001, 47000003] = Some (s, v)
    \<and> \<bar>real_of_int (rto (fold stat_step [Sample 40000000, Missed, Sample 52000001, Sample 47000003] newPingStat))
        - clamp_real (s + 4 * v)\<bar> \<le> 47"
  using pong_timeout_tracks_rfc6298 [of "[Sample 40000000, Missed, Sample 52000001]" 47000003 60000000]
  by auto

section \<open>Properties of the loop\<close>

lemma tick_rto_ok: "rto_ok (pstat p) \<Longrightarrow> rto_ok (pstat (snd (tick out p)))"
  using stat_step_rto_ok [of "pstat p" Missed]
    stat_step_rto_ok [of "pstat p" "Sample (case out of Pong r \<Rightarrow> r)"]
  by (cases out) (auto simp: handlePingFailure_def Let_def)

lemma pingLoop_rto_ok: "rto_ok (pstat p) \<Longrightarrow> rto_ok (pstat (snd (pingLoop es p)))"
proof (induction es arbitrary: p)
  case (Cons e es)
  show ?case
  proof (cases e)
    case (Tick out)
    then show ?thesis
      using tick_rto_ok [OF Cons(2), of out] Cons(1) [of "snd (tick out p)"]
      by (auto split: prod.splits)
  qed (use Cons in simp)
qed simp

text \<open>Whatever the pings return, the timeout of the next ping lies between 3 s and 15 s, and
  the warning flag is set exactly at 15 s.\<close>

theorem pong_timeout_bounded:
  "3 * second \<le> fst (Timeout (pstat (snd (pingLoop es newPinger))))
    \<and> fst (Timeout (pstat (snd (pingLoop es newPinger)))) \<le> 15 * second
    \<and> snd (Timeout (pstat (snd (pingLoop es newPinger))))
      = (fst (Timeout (pstat (snd (pingLoop es newPinger)))) = 15 * second)"
  using pingLoop_rto_ok [of newPinger es] new_rto_ok
  by (auto simp: newPinger_def rto_ok_def Timeout_def minPongTimeout_def maxPongTimeout_def)

definition three_misses :: "pingEvent list \<Rightarrow> bool" where
  "three_misses es \<longleftrightarrow> (\<exists>pre post. es = pre @ [Tick PingFailed, Tick PingFailed, Tick PingFailed] @ post
    \<and> CtxDone \<notin> set pre \<and> Tick PingCanceled \<notin> set pre)"

definition dies :: "nat \<Rightarrow> pingEvent list \<Rightarrow> bool" where
  "dies k es \<longleftrightarrow> (\<exists>post. es = replicate k (Tick PingFailed) @ post) \<or> three_misses es"

lemma three_misses_now: "three_misses (Tick PingFailed # Tick PingFailed # Tick PingFailed # post)"
  unfolding three_misses_def by (rule exI [of _ "[]"]) simp

lemma three_misses_Cons:
  "three_misses (e # es) \<longleftrightarrow>
    (\<exists>post. e # es = [Tick PingFailed, Tick PingFailed, Tick PingFailed] @ post)
    \<or> (e \<noteq> CtxDone \<and> e \<noteq> Tick PingCanceled \<and> three_misses es)" (is "?l \<longleftrightarrow> ?now \<or> ?later")
proof
  assume ?l
  then obtain pre post where p: "e # es = pre @ [Tick PingFailed, Tick PingFailed, Tick PingFailed] @ post"
    "CtxDone \<notin> set pre" "Tick PingCanceled \<notin> set pre"
    unfolding three_misses_def by blast
  then show "?now \<or> ?later"
    by (cases pre) (auto simp: three_misses_def)
next
  assume "?now \<or> ?later"
  then show ?l
  proof
    assume ?later
    then obtain pre post where p: "es = pre @ [Tick PingFailed, Tick PingFailed, Tick PingFailed] @ post"
      "CtxDone \<notin> set pre" "Tick PingCanceled \<notin> set pre" "e \<noteq> CtxDone" "e \<noteq> Tick PingCanceled"
      unfolding three_misses_def by blast
    then show ?l
      unfolding three_misses_def by (intro exI [of _ "e # pre"] exI [of _ post]) auto
  qed (auto simp: three_misses_now)
qed

lemma dies_three: "dies 3 es \<longleftrightarrow> three_misses es"
  unfolding dies_def by (auto simp: numeral_3_eq_3 three_misses_now)

lemma dies_failed: "k < 3 \<Longrightarrow> dies (Suc k) (Tick PingFailed # es) \<longleftrightarrow> dies k es"
proof -
  assume k: "k < 3"
  have "\<exists>post'. Tick PingFailed # Tick PingFailed # post = replicate k (Tick PingFailed) @ post'" for post
    using k by (cases k; cases "k - 1") (auto simp: less_Suc_eq numeral_3_eq_3)
  then show ?thesis
    unfolding dies_def three_misses_Cons [of "Tick PingFailed"] by auto
qed

lemma dies_other: "e \<noteq> Tick PingFailed \<Longrightarrow> e \<noteq> CtxDone \<Longrightarrow> e \<noteq> Tick PingCanceled
    \<Longrightarrow> dies (Suc k) (e # es) \<longleftrightarrow> dies 3 es"
  unfolding dies_three unfolding dies_def by (auto simp: three_misses_Cons)

lemma dies_end: "e = CtxDone \<or> e = Tick PingCanceled \<Longrightarrow> \<not> dies (Suc k) (e # es)"
  unfolding dies_def by (auto simp: three_misses_Cons)

lemma not_dies_Nil: "\<not> dies (Suc k) []"
  by (simp add: dies_def three_misses_def)

lemma pingLoop_dies:
  "consecFails p = 2 - int j \<Longrightarrow> j < 3 \<Longrightarrow> fst (pingLoop es p) = Some True \<longleftrightarrow> dies (Suc j) es"
proof (induction es arbitrary: p j)
  case Nil
  then show ?case
    by (simp add: not_dies_Nil)
next
  case (Cons e es)
  show ?case
  proof (cases e)
    case CtxDone
    then show ?thesis
      by (simp add: dies_end)
  next
    case (Tick out)
    show ?thesis
    proof (cases out)
      case (Pong r)
      then show ?thesis
        using Cons(1) [of "snd (tick out p)" 2] Tick dies_other [of e j es]
        by (simp add: numeral_3_eq_3)
    next
      case PingFailed
      have c: "i64 (consecFails p + 1) = 3 - int j"
        using Cons(2,3) by (simp add: i64_id)
      show ?thesis
      proof (cases j)
        case 0
        then show ?thesis
          using Tick PingFailed c dies_failed [of 0 es]
          by (simp add: handlePingFailure_def Let_def maxConsecutiveFailures_def dies_def)
      next
        case (Suc i)
        then show ?thesis
          using Tick PingFailed c Cons(1) [of "snd (tick out p)" i] Cons(3) dies_failed [of j es]
          by (simp add: handlePingFailure_def Let_def maxConsecutiveFailures_def)
      qed
    next
      case PingCanceled
      then show ?thesis
        using Tick by (simp add: handlePingFailure_def dies_end)
    qed
  qed
qed

text \<open>C15.  The loop closes the connection exactly when three pings in a row failed before the
  context ended: two failures never do, a pong in between starts the count again, and a cancelled
  context stops the loop without closing anything.\<close>

theorem ping_loop_closes:
  "fst (pingLoop es newPinger) = Some True \<longleftrightarrow>
    (\<exists>pre post. es = pre @ [Tick PingFailed, Tick PingFailed, Tick PingFailed] @ post
      \<and> CtxDone \<notin> set pre \<and> Tick PingCanceled \<notin> set pre)"
  using pingLoop_dies [of newPinger 2 es] dies_three [of es]
  by (simp add: newPinger_def three_misses_def numeral_3_eq_3)

end
