(* ===== verification/Layout.thy ===== *)
theory Layout
  imports GoText Utf8
begin

text \<open>
  The shared pane layout: \<open>PaneSide\<close>, \<open>PaneLayout\<close> and its shape rules
  (\<open>src/terminal/session_manager.go\<close>), and the index form a persisted session set carries with the
  one normalisation every derived layout passes through (\<open>src/terminal/session_set.go\<close>).  The id
  form and the index form are one record over what a side holds; a nil pointer is \<open>None\<close>.  A
  \<open>float64\<close> is its 64 bits, so that the comparisons the code makes, NaN and the negative zero
  included, are computed on the representation.

  The lemmas show that a normalised layout over a non-empty set always obeys the shape rules, shows a
  session in its selected pane and names only sessions of the set, and that the index form and
  the id form determine each other.
\<close>

section \<open>Floats\<close>

type_synonym float64 = "64 word"

definition f64_zero :: float64 where "f64_zero = 0"
definition f64_half :: float64 where "f64_half = 0x3FE0000000000000"
definition f64_one :: float64 where "f64_one = 0x3FF0000000000000"
definition f64_signBit :: float64 where "f64_signBit = 0x8000000000000000"
definition f64_inf :: float64 where "f64_inf = 0x7FF0000000000000"

text \<open>The magnitude is all but the sign bit; among numbers it is ordered like its bits.\<close>

definition f64_mag :: "float64 \<Rightarrow> int" where
  "f64_mag x = uint x mod 2 ^ 63"

definition f64_neg :: "float64 \<Rightarrow> bool" where
  "f64_neg x \<longleftrightarrow> uint f64_signBit \<le> uint x"

definition f64_isNaN :: "float64 \<Rightarrow> bool" where
  "f64_isNaN x \<longleftrightarrow> uint f64_inf < f64_mag x"

definition f64_less :: "float64 \<Rightarrow> float64 \<Rightarrow> bool" where
  "f64_less x y \<longleftrightarrow> \<not> f64_isNaN x \<and> \<not> f64_isNaN y \<and>
     (if f64_neg x \<and> \<not> f64_neg y then 0 < f64_mag x \<or> 0 < f64_mag y
      else if \<not> f64_neg x \<and> f64_neg y then False
      else if f64_neg x then f64_mag y < f64_mag x
      else f64_mag x < f64_mag y)"

section \<open>The record\<close>

type_synonym SessionID = "byte list"
type_synonym PaneSide = "byte list"

definition PaneLeft :: PaneSide where "PaneLeft = str ''left''"
definition PaneRight :: PaneSide where "PaneRight = str ''right''"

definition paneSide_valid :: "PaneSide \<Rightarrow> bool" where
  "paneSide_valid s \<longleftrightarrow> s = PaneLeft \<or> s = PaneRight"

definition paneSide_other :: "PaneSide \<Rightarrow> PaneSide" where
  "paneSide_other s = (if s = PaneLeft then PaneRight else PaneLeft)"

record 'p pane_layout =
  l_Left :: "'p option"
  l_Right :: "'p option"
  l_Selected :: PaneSide
  l_Handle :: float64
  l_Open :: bool

type_synonym PaneLayout = "SessionID pane_layout"
type_synonym SessionSetLayout = "int pane_layout"

definition defaultPaneLayout :: PaneLayout where
  "defaultPaneLayout = \<lparr>l_Left = None, l_Right = None, l_Selected = PaneLeft, l_Handle = f64_half, l_Open = False\<rparr>"

text \<open>\<open>PaneLayout.shown\<close> and \<open>SessionSetLayout.side\<close> read the same way.\<close>

definition shown :: "PaneSide \<Rightarrow> 'p pane_layout \<Rightarrow> 'p option" where
  "shown s l = (if s = PaneRight then l_Right l else l_Left l)"

datatype shape_error = badSelected | badHandle | badClosed | sameSession | emptySelected

definition invalidShape :: "'p pane_layout \<Rightarrow> shape_error option" where
  "invalidShape l =
     (if \<not> paneSide_valid (l_Selected l) then Some badSelected
      else if f64_isNaN (l_Handle l) \<or> f64_less (l_Handle l) f64_zero \<or> f64_less f64_one (l_Handle l)
        then Some badHandle
      else if \<not> l_Open l \<and> (l_Right l \<noteq> None \<or> l_Selected l \<noteq> PaneLeft) then Some badClosed
      else if l_Left l \<noteq> None \<and> l_Right l \<noteq> None \<and> l_Left l = l_Right l then Some sameSession
      else if shown (l_Selected l) l = None \<and> shown (paneSide_other (l_Selected l)) l \<noteq> None
        then Some emptySelected
      else None)"

section \<open>Index form\<close>

fun indexOf :: "'a list \<Rightarrow> 'a \<Rightarrow> int" where
  "indexOf [] x = -1"
| "indexOf (y # ys) x = (if y = x then 0 else let i = indexOf ys x in if i < 0 then -1 else i + 1)"

definition indexSide :: "SessionID list \<Rightarrow> SessionID option \<Rightarrow> int option" where
  "indexSide ids s = (case s of None \<Rightarrow> None
     | Some k \<Rightarrow> if 0 \<le> indexOf ids k then Some (indexOf ids k) else None)"

definition indexLayout :: "PaneLayout \<Rightarrow> SessionID list \<Rightarrow> SessionSetLayout" where
  "indexLayout l ids = \<lparr>l_Left = indexSide ids (l_Left l), l_Right = indexSide ids (l_Right l),
     l_Selected = l_Selected l, l_Handle = l_Handle l, l_Open = l_Open l\<rparr>"

definition idSide :: "SessionID list \<Rightarrow> int option \<Rightarrow> SessionID option" where
  "idSide ids s = (case s of None \<Rightarrow> None
     | Some i \<Rightarrow> if i < 0 \<or> int (length ids) \<le> i then None else Some (ids ! nat i))"

definition idLayout :: "SessionSetLayout \<Rightarrow> SessionID list \<Rightarrow> PaneLayout" where
  "idLayout l ids = \<lparr>l_Left = idSide ids (l_Left l), l_Right = idSide ids (l_Right l),
     l_Selected = l_Selected l, l_Handle = l_Handle l, l_Open = l_Open l\<rparr>"

definition normalizeSetLayout :: "SessionSetLayout \<Rightarrow> int \<Rightarrow> SessionSetLayout" where
  "normalizeSetLayout l n =
     (if n = 0 then \<lparr>l_Left = None, l_Right = None, l_Selected = l_Selected defaultPaneLayout,
        l_Handle = l_Handle defaultPaneLayout, l_Open = False\<rparr>
      else let
        l = (if l_Open l then l else l\<lparr>l_Right := None, l_Selected := PaneLeft, l_Handle := f64_half\<rparr>);
        other = paneSide_other (l_Selected l);
        l = (if shown (l_Selected l) l = None \<and> shown other l \<noteq> None then l\<lparr>l_Selected := other\<rparr> else l)
      in if l_Left l = None \<and> l_Right l = None
         then (if l_Selected l = PaneRight then l\<lparr>l_Right := Some 0\<rparr> else l\<lparr>l_Left := Some 0\<rparr>)
         else l)"

definition normalizePaneLayout :: "PaneLayout \<Rightarrow> SessionID list \<Rightarrow> PaneLayout" where
  "normalizePaneLayout l order = idLayout (normalizeSetLayout (indexLayout l order) (int (length order))) order"

text \<open>\<open>SessionSetLayout.invalid\<close>; \<open>asPaneLayout\<close> gives each index a stand-in id, so the shape rules
  are judged on one form.\<close>

datatype layout_error = indexOutOfRange | sameEntry | shape shape_error

definition asPaneLayout :: "SessionSetLayout \<Rightarrow> PaneLayout" where
  "asPaneLayout l = \<lparr>l_Left = map_option itoa (l_Left l), l_Right = map_option itoa (l_Right l),
     l_Selected = l_Selected l, l_Handle = l_Handle l, l_Open = l_Open l\<rparr>"

definition setLayout_invalid :: "SessionSetLayout \<Rightarrow> int \<Rightarrow> layout_error option" where
  "setLayout_invalid l n =
     (if list_ex (\<lambda>s. case s of None \<Rightarrow> False | Some i \<Rightarrow> i < 0 \<or> n \<le> i) [l_Left l, l_Right l]
        then Some indexOutOfRange
      else if l_Left l \<noteq> None \<and> l_Right l \<noteq> None \<and> l_Left l = l_Right l then Some sameEntry
      else map_option shape (invalidShape (asPaneLayout l)))"

section \<open>Facts\<close>

lemma pane_sides [simp]: "PaneLeft \<noteq> PaneRight" "PaneRight \<noteq> PaneLeft"
  by (simp_all add: PaneLeft_def PaneRight_def str_def)

lemma paneSide_facts [simp]:
  "paneSide_valid PaneLeft" "paneSide_valid PaneRight"
  "paneSide_other PaneLeft = PaneRight" "paneSide_other PaneRight = PaneLeft"
  "shown PaneLeft l = l_Left l" "shown PaneRight l = l_Right l"
  by (simp_all add: paneSide_valid_def paneSide_other_def shown_def)

lemmas f64_constants = f64_zero_def f64_half_def f64_one_def f64_signBit_def f64_inf_def

lemma f64_half_ok [simp]: "\<not> f64_isNaN f64_half" "\<not> f64_less f64_half f64_zero"
  "\<not> f64_less f64_one f64_half"
  by (simp_all add: f64_less_def f64_isNaN_def f64_neg_def f64_mag_def f64_constants)

text \<open>A handle passes exactly when it is a share from 0 to 1, or the negative zero.\<close>

definition handle_ok :: "float64 \<Rightarrow> bool" where
  "handle_ok h \<longleftrightarrow> \<not> f64_isNaN h \<and> \<not> f64_less h f64_zero \<and> \<not> f64_less f64_one h"

lemma handle_ok_half [simp]: "handle_ok f64_half"
  by (simp add: handle_ok_def)

lemma handle_ok_iff: "handle_ok h \<longleftrightarrow> uint h \<le> 0x3FF0000000000000 \<or> uint h = 0x8000000000000000"
proof -
  have b: "0 \<le> uint h" "uint h < 0x10000000000000000"
    using uint_lt2p [of h] by simp_all
  define m where "m = uint h mod 0x8000000000000000"
  have mag: "f64_mag h = m"
    by (simp add: f64_mag_def m_def)
  have c: "\<not> f64_isNaN f64_zero" "\<not> f64_neg f64_zero" "f64_mag f64_zero = 0"
    "\<not> f64_isNaN f64_one" "\<not> f64_neg f64_one" "f64_mag f64_one = 0x3FF0000000000000"
    "f64_isNaN h \<longleftrightarrow> 0x7FF0000000000000 < m" "f64_neg h \<longleftrightarrow> 0x8000000000000000 \<le> uint h"
    by (simp_all add: f64_isNaN_def f64_neg_def f64_mag_def f64_constants m_def)
  have ok: "handle_ok h \<longleftrightarrow> (if f64_neg h then m = 0 else m \<le> 0x3FF0000000000000)"
  proof -
    have "0 \<le> m" by (simp add: m_def)
    then show ?thesis
      unfolding handle_ok_def f64_less_def by (simp add: c(1-7) mag) linarith
  qed
  show ?thesis
  proof (cases "0x8000000000000000 \<le> uint h")
    case True
    define k where "k = uint h - 0x8000000000000000"
    have "m = k"
    proof -
      have "uint h = k + 0x8000000000000000" by (simp add: k_def)
      then have "m = k mod 0x8000000000000000" unfolding m_def by (simp only: mod_add_self2)
      moreover have "0 \<le> k" "k < 0x8000000000000000" using True b by (simp_all add: k_def)
      ultimately show ?thesis by simp
    qed
    with True b show ?thesis by (simp add: ok c k_def)
  next
    case False
    then have "m = uint h" unfolding m_def using b by simp
    with False b show ?thesis by (simp add: ok c)
  qed
qed

text \<open>The shape rules look at the sides only for which are empty and whether they are equal.\<close>

lemma invalidShape_cong:
  assumes "l_Selected l' = l_Selected l" "l_Handle l' = l_Handle l" "l_Open l' = l_Open l"
    "(l_Left l' = None) = (l_Left l = None)" "(l_Right l' = None) = (l_Right l = None)"
    "(l_Left l' = l_Right l') = (l_Left l = l_Right l)"
  shows "invalidShape l' = invalidShape l"
proof -
  have "(shown x l' = None) = (shown x l = None)" for x
    using assms(4,5) by (simp add: shown_def)
  with assms show ?thesis
    unfolding invalidShape_def by (simp only:)
qed

lemma invalidShape_None: "invalidShape l = None \<longleftrightarrow>
    paneSide_valid (l_Selected l) \<and> handle_ok (l_Handle l)
    \<and> (\<not> l_Open l \<longrightarrow> l_Right l = None \<and> l_Selected l = PaneLeft)
    \<and> (l_Left l = l_Right l \<longrightarrow> l_Left l = None)
    \<and> (shown (l_Selected l) l = None \<longrightarrow> l_Left l = None \<and> l_Right l = None)"
  by (auto simp: invalidShape_def handle_ok_def paneSide_valid_def)

subsection \<open>Positions\<close>

lemma indexOf_bounds: "-1 \<le> indexOf xs x \<and> indexOf xs x < int (length xs)"
  by (induction xs) (auto simp: Let_def)

lemma indexOf_member: "0 \<le> indexOf xs x \<longleftrightarrow> x \<in> set xs"
  by (induction xs) (auto simp: Let_def)

lemma indexOf_nth: "x \<in> set xs \<Longrightarrow> xs ! nat (indexOf xs x) = x"
proof (induction xs)
  case (Cons y ys)
  show ?case
  proof (cases "y = x")
    case False
    with Cons have "x \<in> set ys" by simp
    then have "0 \<le> indexOf ys x" by (simp add: indexOf_member)
    with False Cons.IH [OF \<open>x \<in> set ys\<close>] show ?thesis
      by (simp add: Let_def nat_add_distrib)
  qed simp
qed simp

lemma indexOf_distinct: "distinct xs \<Longrightarrow> i < length xs \<Longrightarrow> indexOf xs (xs ! i) = int i"
proof (induction xs arbitrary: i)
  case (Cons y ys)
  show ?case
  proof (cases i)
    case (Suc j)
    with Cons have "indexOf ys (ys ! j) = int j" "ys ! j \<in> set ys" by simp_all
    with Cons.prems(1) Suc show ?thesis by (auto simp: Let_def)
  qed simp
qed simp

text \<open>The sides of a layout after a trip through the index form: what the set does not hold is gone.\<close>

definition held :: "'a list \<Rightarrow> 'a option \<Rightarrow> 'a option" where
  "held ids s = (case s of None \<Rightarrow> None | Some k \<Rightarrow> if k \<in> set ids then Some k else None)"

lemma held_simps [simp]: "held ids None = None" "held ids (Some k) = (if k \<in> set ids then Some k else None)"
  by (simp_all add: held_def)

lemma idSide_indexSide: "idSide ids (indexSide ids s) = held ids s"
proof (cases s)
  case (Some k)
  show ?thesis
  proof (cases "k \<in> set ids")
    case True
    then have "0 \<le> indexOf ids k" by (simp add: indexOf_member)
    with Some True indexOf_bounds [of ids k] indexOf_nth [OF True] show ?thesis
      by (simp add: idSide_def indexSide_def)
  next
    case False
    then have "\<not> 0 \<le> indexOf ids k" by (simp add: indexOf_member)
    with Some False show ?thesis
      by (simp add: idSide_def indexSide_def)
  qed
qed (simp add: idSide_def indexSide_def)

lemma idLayout_indexLayout: "idLayout (indexLayout l ids) ids
    = l\<lparr>l_Left := held ids (l_Left l), l_Right := held ids (l_Right l)\<rparr>"
  by (simp add: idLayout_def indexLayout_def idSide_indexSide)

definition sideIn :: "int \<Rightarrow> int option \<Rightarrow> bool" where
  "sideIn n s = (case s of None \<Rightarrow> True | Some i \<Rightarrow> 0 \<le> i \<and> i < n)"

definition inRange :: "int \<Rightarrow> SessionSetLayout \<Rightarrow> bool" where
  "inRange n l \<longleftrightarrow> sideIn n (l_Left l) \<and> sideIn n (l_Right l)"

lemma sideIn_simps [simp]: "sideIn n None" "sideIn n (Some i) \<longleftrightarrow> 0 \<le> i \<and> i < n"
  by (simp_all add: sideIn_def)

lemma indexSide_idSide:
  "distinct ids \<Longrightarrow> sideIn (int (length ids)) s \<Longrightarrow> indexSide ids (idSide ids s) = s"
  by (cases s) (auto simp: indexSide_def idSide_def indexOf_distinct)

lemma indexLayout_idLayout:
  "distinct ids \<Longrightarrow> inRange (int (length ids)) l \<Longrightarrow> indexLayout (idLayout l ids) ids = l"
  by (simp add: idLayout_def indexLayout_def inRange_def indexSide_idSide)

lemma sideIn_indexSide: "sideIn (int (length ids)) (indexSide ids s)"
  using indexOf_bounds [of ids] by (cases s) (auto simp: indexSide_def)

lemma inRange_indexLayout: "inRange (int (length ids)) (indexLayout l ids)"
  by (simp add: inRange_def indexLayout_def sideIn_indexSide)

lemma indexSide_eq: "indexSide ids s = indexSide ids t \<longleftrightarrow> held ids s = held ids t"
proof
  assume "indexSide ids s = indexSide ids t"
  then have "idSide ids (indexSide ids s) = idSide ids (indexSide ids t)" by simp
  then show "held ids s = held ids t" by (simp add: idSide_indexSide)
next
  have "indexSide ids s = (case held ids s of None \<Rightarrow> None | Some k \<Rightarrow> Some (indexOf ids k))" for s
    by (simp add: indexSide_def held_def indexOf_member split: option.splits)
  then show "held ids s = held ids t \<Longrightarrow> indexSide ids s = indexSide ids t" by simp
qed

lemma idSide_None: "sideIn (int (length ids)) s \<Longrightarrow> idSide ids s = None \<longleftrightarrow> s = None"
  by (cases s) (auto simp: idSide_def)

lemma idSide_eq: "distinct ids \<Longrightarrow> sideIn (int (length ids)) s \<Longrightarrow> sideIn (int (length ids)) t
    \<Longrightarrow> idSide ids s = idSide ids t \<longleftrightarrow> s = t"
  by (metis indexSide_idSide)

lemma held_idSide: "held ids (idSide ids s) = idSide ids s"
  by (cases s) (auto simp: idSide_def held_def not_less not_le nat_less_iff)

subsection \<open>Normalisation\<close>

text \<open>What \<open>normalizeSetLayout\<close> asks of its argument besides the range of the indices.\<close>

definition sides_ok :: "'p pane_layout \<Rightarrow> bool" where
  "sides_ok l \<longleftrightarrow> paneSide_valid (l_Selected l) \<and> handle_ok (l_Handle l) \<and> (l_Left l = l_Right l \<longrightarrow> l_Left l = None)"

lemma normalize_valid:
  assumes "0 < n" "inRange n l" "sides_ok l"
  defines "l' \<equiv> normalizeSetLayout l n"
  shows "invalidShape l' = None" "inRange n l'" "shown (l_Selected l') l' \<noteq> None"
    "\<not> l_Open l' \<longrightarrow> l_Handle l' = f64_half"
proof -
  have n: "n \<noteq> 0" using assms(1) by simp
  have s: "l_Selected l = PaneLeft \<or> l_Selected l = PaneRight"
    using assms(3) by (simp add: sides_ok_def paneSide_valid_def)
  show "invalidShape l' = None"
    using assms(1,3) s unfolding l'_def
    by (auto simp: normalizeSetLayout_def n Let_def invalidShape_None sides_ok_def)
  show "inRange n l'"
    using assms(1,2) s unfolding l'_def
    by (auto simp: normalizeSetLayout_def n Let_def inRange_def split: option.splits)
  show "shown (l_Selected l') l' \<noteq> None" "\<not> l_Open l' \<longrightarrow> l_Handle l' = f64_half"
    using s unfolding l'_def by (auto simp: normalizeSetLayout_def n Let_def)
qed

text \<open>A layout that is already in order is left as it is.\<close>

definition settled :: "'p pane_layout \<Rightarrow> bool" where
  "settled l \<longleftrightarrow> invalidShape l = None \<and> shown (l_Selected l) l \<noteq> None \<and> (\<not> l_Open l \<longrightarrow> l_Handle l = f64_half)"

lemma normalize_settled:
  assumes "n \<noteq> 0" "settled l"
  shows "normalizeSetLayout l n = l"
proof -
  have u: "(if l_Open l then l else l\<lparr>l_Right := None, l_Selected := PaneLeft, l_Handle := f64_half\<rparr>) = l"
  proof (cases "l_Open l")
    case False
    with assms(2) have "l_Right l = None" "l_Selected l = PaneLeft" "l_Handle l = f64_half"
      by (simp_all add: settled_def invalidShape_None)
    with False show ?thesis by simp
  qed simp
  have s: "(shown (l_Selected l) l = None) = False"
    using assms(2) by (simp add: settled_def)
  then have "(l_Left l = None \<and> l_Right l = None) = False"
    by (cases "l_Selected l = PaneRight") (auto simp: shown_def)
  then show ?thesis
    using assms(1) unfolding normalizeSetLayout_def u Let_def s by (simp only: if_False simp_thms)
qed

lemma itoa_inj:
  assumes "0 \<le> i" "i < 2 ^ 63" "0 \<le> j" "j < 2 ^ 63"
  shows "itoa i = itoa j \<longleftrightarrow> i = j"
proof
  have m: "- (2 ^ 63) \<le> (0 :: int)" by simp
  have "atoi (itoa i) = Some i"
    by (rule atoi_itoa [OF order_trans [OF m assms(1)] assms(2)])
  moreover have "atoi (itoa j) = Some j"
    by (rule atoi_itoa [OF order_trans [OF m assms(3)] assms(4)])
  moreover assume "itoa i = itoa j"
  ultimately show "i = j" by (metis option.inject)
qed simp

lemma itoa_side_inj: "sideIn n s \<Longrightarrow> sideIn n t \<Longrightarrow> n < 2 ^ 63 \<Longrightarrow>
    map_option itoa s = map_option itoa t \<longleftrightarrow> s = t"
  by (cases s; cases t) (simp_all add: itoa_inj)

lemma asPaneLayout_shape: "inRange n l \<Longrightarrow> n < 2 ^ 63 \<Longrightarrow> invalidShape (asPaneLayout l) = invalidShape l"
  by (rule invalidShape_cong) (simp_all add: asPaneLayout_def inRange_def itoa_side_inj [of n])

lemma setLayout_invalid_None: "n < 2 ^ 63 \<Longrightarrow> setLayout_invalid l n = None \<longleftrightarrow> inRange n l \<and> invalidShape l = None"
proof -
  assume n: "n < 2 ^ 63"
  have r: "list_ex (\<lambda>s. case s of None \<Rightarrow> False | Some i \<Rightarrow> i < 0 \<or> n \<le> i) [l_Left l, l_Right l] \<longleftrightarrow> \<not> inRange n l"
    by (auto simp: inRange_def sideIn_def split: option.splits)
  have "l_Left l = l_Right l \<Longrightarrow> invalidShape l = None \<Longrightarrow> l_Left l = None"
    by (simp add: invalidShape_None)
  then show ?thesis
    unfolding setLayout_invalid_def r using asPaneLayout_shape [OF _ n, of l]
    by (cases "inRange n l"; cases "invalidShape l") auto
qed

section \<open>The record over a session set\<close>

text \<open>What the shared record promises its viewers about the live set: it obeys the shape rules, its sides are
  live, a closed split sits at one half, and some session is shown whenever one is live.\<close>

definition layout_over :: "SessionID list \<Rightarrow> PaneLayout \<Rightarrow> bool" where
  "layout_over order l \<longleftrightarrow> invalidShape l = None \<and> held order (l_Left l) = l_Left l \<and> held order (l_Right l) = l_Right l
     \<and> (\<not> l_Open l \<longrightarrow> l_Handle l = f64_half) \<and> (order \<noteq> [] \<longrightarrow> shown (l_Selected l) l \<noteq> None)"

lemma default_layout_over: "layout_over [] defaultPaneLayout"
  by (simp add: layout_over_def defaultPaneLayout_def invalidShape_None)

lemma idLayout_shape: "distinct ids \<Longrightarrow> inRange (int (length ids)) l \<Longrightarrow> invalidShape (idLayout l ids) = invalidShape l"
  by (rule invalidShape_cong) (simp_all add: idLayout_def inRange_def idSide_None idSide_eq)

lemma held_same: "held ids s = held ids t \<Longrightarrow> held ids s \<noteq> None \<Longrightarrow> s = t"
  by (auto simp: held_def split: option.splits if_splits)

lemma indexLayout_sides_ok: "sides_ok l \<Longrightarrow> sides_ok (indexLayout l ids)"
proof -
  assume s: "sides_ok l"
  have "held ids (l_Left l) = None" if "held ids (l_Left l) = held ids (l_Right l)"
    using held_same [OF that] s by (cases "held ids (l_Left l)") (auto simp: sides_ok_def)
  then have "indexSide ids (l_Left l) = None" if "indexSide ids (l_Left l) = indexSide ids (l_Right l)"
    using that indexSide_eq [of ids "l_Left l" None] indexSide_eq [of ids "l_Left l" "l_Right l"]
    by (simp add: indexSide_def)
  with s show ?thesis
    by (simp add: sides_ok_def indexLayout_def)
qed

lemma normalizePaneLayout_over:
  assumes "distinct order" "sides_ok l"
  shows "layout_over order (normalizePaneLayout l order)"
proof (cases "order = []")
  case True
  then show ?thesis
    by (simp add: normalizePaneLayout_def normalizeSetLayout_def idLayout_def idSide_def layout_over_def
        defaultPaneLayout_def invalidShape_None)
next
  case False
  let ?n = "int (length order)"
  let ?s = "normalizeSetLayout (indexLayout l order) ?n"
  have n: "0 < ?n" using False by simp
  note v = normalize_valid [OF n inRange_indexLayout indexLayout_sides_ok [OF assms(2)]]
  have shape: "invalidShape (idLayout ?s order) = None"
    using idLayout_shape [OF assms(1) v(2)] v(1) by simp
  have g: "shown x (idLayout ?s order) = None \<longleftrightarrow> shown x ?s = None" for x
    using v(2) by (simp add: shown_def idLayout_def inRange_def idSide_None)
  have u: "l_Selected (idLayout ?s order) = l_Selected ?s" "l_Handle (idLayout ?s order) = l_Handle ?s"
    "l_Open (idLayout ?s order) = l_Open ?s" "held order (l_Left (idLayout ?s order)) = l_Left (idLayout ?s order)"
    "held order (l_Right (idLayout ?s order)) = l_Right (idLayout ?s order)"
    by (simp_all add: idLayout_def held_idSide)
  show ?thesis
    unfolding normalizePaneLayout_def layout_over_def g u using shape v(3,4) by simp
qed

end
