(* ===== verification/Sessions.thy ===== *)
theory Sessions
  imports Layout ProgramStatus "HOL-Library.Product_Lexorder" "HOL-Library.List_Lexorder"
begin

text \<open>
  The session manager (\<open>src/terminal/session_manager.go\<close>): the session set, its display order, the
  shared pane layout, the public names and titles, and the operations the REST routes and the
  idle reaper call.  Each operation is one hold of the manager's lock; creating a session takes the
  lock twice, with the fork between the two holds, so it is two operations here.  A Go map is an
  association list whose order stands for the unspecified iteration order.  A session's process is
  behind its handler, which is an identity here; what starting it and the random source return are
  arguments.  The record the status sweep keeps per session is declared here because enumerations
  read it; the sweep itself is in \<open>Status\<close>.

  The lemmas show that every operation keeps the manager's invariant (the order lists
  exactly the live sessions, the layout is valid over them, names are unique and well formed), that
  an enumeration is in display order, and that a reorder is accepted exactly when it is a permutation.
\<close>

section \<open>Text\<close>

definition maxClientTitleRunes :: nat where "maxClientTitleRunes = 512"
definition maxPinnedTitleRunes :: nat where "maxPinnedTitleRunes = 128"

fun sanitizeRunes :: "nat \<Rightarrow> rune list \<Rightarrow> rune list" where
  "sanitizeRunes n [] = []"
| "sanitizeRunes n (r # rs) = (if n = 0 then []
     else if r < 0x20 \<or> r = 0x7F then sanitizeRunes n rs
     else r # sanitizeRunes (n - 1) rs)"

definition sanitizeTitle :: "byte list \<Rightarrow> nat \<Rightarrow> byte list" where
  "sanitizeTitle s maxRunes = encodeRunes (sanitizeRunes maxRunes (runesOf s))"

definition maxSessionAliasLen :: nat where "maxSessionAliasLen = 64"

definition isAliasByte :: "byte \<Rightarrow> bool" where
  "isAliasByte c \<longleftrightarrow> (97 \<le> uint c \<and> uint c \<le> 122) \<or> (65 \<le> uint c \<and> uint c \<le> 90)
     \<or> (48 \<le> uint c \<and> uint c \<le> 57) \<or> uint c = 95 \<or> uint c = 45"

definition validSessionAlias :: "byte list \<Rightarrow> bool" where
  "validSessionAlias s \<longleftrightarrow> s \<noteq> [] \<and> length s \<le> maxSessionAliasLen \<and> list_all isAliasByte s"

text \<open>The eight characters of \<open>aliasEncoding\<close> for five bytes, and the hexadecimal session id.\<close>

definition base32Char :: "int \<Rightarrow> byte" where
  "base32Char v = (if v < 26 then word_of_int (97 + v) else word_of_int (24 + v))"

definition aliasOf :: "byte list \<Rightarrow> byte list" where
  "aliasOf b = (let v = foldl (\<lambda>v x. v * 256 + uint x) 0 b in
     map (\<lambda>i. base32Char (v div 32 ^ (7 - i) mod 32)) [0..<8])"

definition newSessionID :: "byte list option \<Rightarrow> SessionID option" where
  "newSessionID b = map_option hexEncode b"

definition logIDPrefixBytes :: nat where "logIDPrefixBytes = 8"

definition runeStart :: "byte \<Rightarrow> bool" where
  "runeStart b \<longleftrightarrow> uint b AND 0xC0 \<noteq> (0x80 :: int)"

fun logCut :: "SessionID \<Rightarrow> nat \<Rightarrow> nat" where
  "logCut s 0 = 0"
| "logCut s (Suc n) = (if runeStart (s ! Suc n) then Suc n else logCut s n)"

text \<open>\<open>clean\<close> is \<^verbatim>\<open>textsafe.SanitizeSingleLine\<close>, a dependency of the module.\<close>

definition LogID :: "(byte list \<Rightarrow> byte list) \<Rightarrow> SessionID \<Rightarrow> byte list" where
  "LogID clean s = (if length s \<le> logIDPrefixBytes then clean s
     else clean (take (logCut s logIDPrefixBytes) s) @ encodeRune 0x2026)"

section \<open>State\<close>

record tab =
  createdAt :: int
  t_handler :: nat
  t_id :: SessionID
  t_alias :: "byte list"
  clientTitle :: "byte list"
  pinnedTitle :: "byte list"
  autoTitle :: "byte list"

record statusTracker =
  candidateSince :: int
  lastStatus :: "byte list"
  lastTitle :: "byte list"
  lastClientTitle :: "byte list"
  lastPinnedTitle :: "byte list"
  lastAlias :: "byte list"
  latched :: "byte list"
  lastActivity :: "byte list"
  lastOSCTitle :: "byte list"
  notifSeen :: nat
  latchSeq :: nat
  programOccurrence :: nat
  statusSeq :: nat
  seenSeq :: nat
  lastSeenSeq :: nat
  notifDelivered :: nat
  candidatePGID :: int
  lastProgressValue :: int
  lastOrder :: int
  lastActivityCount :: int
  lastReports :: bool

definition newTracker :: statusTracker where
  "newTracker = \<lparr>candidateSince = 0, lastStatus = [], lastTitle = [], lastClientTitle = [],
     lastPinnedTitle = [], lastAlias = [], latched = [], lastActivity = [], lastOSCTitle = [],
     notifSeen = 0, latchSeq = 0, programOccurrence = 0, statusSeq = 0, seenSeq = 0, lastSeenSeq = 0,
     notifDelivered = 0, candidatePGID = 0, lastProgressValue = 0, lastOrder = 0,
     lastActivityCount = 0, lastReports = False\<rparr>"

record manager =
  m_sessions :: "(SessionID \<times> tab) list"
  m_trackers :: "(SessionID \<times> statusTracker) list"
  m_order :: "SessionID list"
  m_layout :: PaneLayout
  idleSince :: int
  m_idleWindow :: int
  activeClients :: int
  orderGen :: nat
  layoutGen :: nat
  m_closed :: bool
  restoring :: bool

definition StatusWorking :: "byte list" where "StatusWorking = str ''working''"
definition StatusIdle :: "byte list" where "StatusIdle = str ''idle''"
definition StatusInput :: "byte list" where "StatusInput = str ''input''"
definition StatusDone :: "byte list" where "StatusDone = str ''done''"
definition StatusExited :: "byte list" where "StatusExited = str ''exited''"
definition StatusCrashed :: "byte list" where "StatusCrashed = str ''crashed''"
definition StatusFailed :: "byte list" where "StatusFailed = str ''failed''"
definition StatusWarning :: "byte list" where "StatusWarning = str ''warning''"

lemmas status_values = StatusWorking_def StatusIdle_def StatusInput_def StatusDone_def
  StatusExited_def StatusCrashed_def StatusFailed_def StatusWarning_def

definition NewSessionManager :: "int \<Rightarrow> int \<Rightarrow> manager" where
  "NewSessionManager now window = \<lparr>m_sessions = [], m_trackers = [], m_order = [],
     m_layout = defaultPaneLayout, idleSince = now, m_idleWindow = window, activeClients = 0,
     orderGen = 0, layoutGen = 0, m_closed = False, restoring = False\<rparr>"

definition live :: "manager \<Rightarrow> SessionID \<Rightarrow> bool" where
  "live m k \<longleftrightarrow> map_of (m_sessions m) k \<noteq> None"

definition set_tab :: "SessionID \<Rightarrow> (tab \<Rightarrow> tab) \<Rightarrow> manager \<Rightarrow> manager" where
  "set_tab k f m = m\<lparr>m_sessions := map (\<lambda>(k', s). (k', if k' = k then f s else s)) (m_sessions m)\<rparr>"

definition set_tracker :: "SessionID \<Rightarrow> (statusTracker \<Rightarrow> statusTracker) \<Rightarrow> manager \<Rightarrow> manager" where
  "set_tracker k f m = m\<lparr>m_trackers := map (\<lambda>(k', s). (k', if k' = k then f s else s)) (m_trackers m)\<rparr>"

section \<open>Enumeration\<close>

record titleSources =
  pinned :: "byte list"
  osc :: "byte list"
  client :: "byte list"
  auto_title :: "byte list"

definition effectiveTitle :: "titleSources \<Rightarrow> byte list" where
  "effectiveTitle src = (if pinned src \<noteq> [] then pinned src
     else if osc src \<noteq> [] then osc src
     else if client src \<noteq> [] then client src
     else auto_title src)"

record committedRecord =
  c_status :: "byte list"
  c_activity :: "byte list"
  c_oscTitle :: "byte list"
  c_statusSeq :: nat
  c_seenSeq :: nat
  c_activityCount :: int
  c_progressValue :: int
  c_reports :: bool

definition committedOf :: "statusTracker option \<Rightarrow> committedRecord" where
  "committedOf t = (case t of
     Some tr \<Rightarrow> if lastStatus tr = []
       then \<lparr>c_status = StatusIdle, c_activity = [], c_oscTitle = [], c_statusSeq = 0, c_seenSeq = 0,
         c_activityCount = 0, c_progressValue = progressAbsent, c_reports = False\<rparr>
       else \<lparr>c_status = lastStatus tr, c_activity = lastActivity tr, c_oscTitle = lastOSCTitle tr,
         c_statusSeq = statusSeq tr, c_seenSeq = seenSeq tr, c_activityCount = lastActivityCount tr,
         c_progressValue = lastProgressValue tr, c_reports = lastReports tr\<rparr>
   | None \<Rightarrow> \<lparr>c_status = StatusIdle, c_activity = [], c_oscTitle = [], c_statusSeq = 0, c_seenSeq = 0,
         c_activityCount = 0, c_progressValue = progressAbsent, c_reports = False\<rparr>)"

record sessionOrder =
  so_createdAt :: int
  so_id :: SessionID
  so_rank :: int

definition cmpCompare :: "'a :: linorder \<Rightarrow> 'a \<Rightarrow> int" where
  "cmpCompare a b = (if a < b then -1 else if b < a then 1 else 0)"

definition compareSessionOrder :: "sessionOrder \<Rightarrow> sessionOrder \<Rightarrow> int" where
  "compareSessionOrder a b = (if so_rank a \<noteq> so_rank b then cmpCompare (so_rank a) (so_rank b)
     else let c = cmpCompare (so_createdAt a) (so_createdAt b) in
       if c \<noteq> 0 then c else cmpCompare (so_id a) (so_id b))"

definition rankOf :: "manager \<Rightarrow> SessionID \<Rightarrow> int" where
  "rankOf m k = (let i = indexOf (m_order m) k in if 0 \<le> i then i else int (length (m_order m)))"

record SessionInfo =
  CreatedAt :: int
  ID :: SessionID
  Title :: "byte list"
  Alias :: "byte list"
  ClientTitle :: "byte list"
  PinnedTitle :: "byte list"
  Status :: "byte list"
  Activity :: "byte list"
  Order :: int
  ActivityCount :: int
  StatusSeq :: nat
  SeenSeq :: nat
  ReportsActivity :: bool

definition tabTitle :: "tab \<Rightarrow> byte list \<Rightarrow> byte list" where
  "tabTitle s oscTitle = effectiveTitle \<lparr>pinned = pinnedTitle s, osc = oscTitle, client = clientTitle s,
     auto_title = autoTitle s\<rparr>"

definition listItem :: "manager \<Rightarrow> SessionID \<times> tab \<Rightarrow> SessionInfo" where
  "listItem m ks = (case ks of (k, s) \<Rightarrow> let rec = committedOf (map_of (m_trackers m) (t_id s)) in
     \<lparr>CreatedAt = createdAt s, ID = t_id s, Title = tabTitle s (c_oscTitle rec), Alias = t_alias s,
      ClientTitle = clientTitle s, PinnedTitle = pinnedTitle s, Status = c_status rec,
      Activity = c_activity rec, Order = 0, ActivityCount = c_activityCount rec,
      StatusSeq = c_statusSeq rec, SeenSeq = c_seenSeq rec, ReportsActivity = c_reports rec\<rparr>)"

text \<open>\<open>slices.SortFunc\<close> with \<open>compareSessionOrder\<close>, which is the order of these keys
  (\<open>compareSessionOrder_key\<close>).\<close>

definition orderKey :: "sessionOrder \<Rightarrow> int \<times> int \<times> SessionID" where
  "orderKey a = (so_rank a, so_createdAt a, so_id a)"

definition infoKey :: "manager \<Rightarrow> SessionInfo \<Rightarrow> int \<times> int \<times> SessionID" where
  "infoKey m i = orderKey \<lparr>so_createdAt = CreatedAt i, so_id = ID i, so_rank = rankOf m (ID i)\<rparr>"

definition number_from :: "int \<Rightarrow> SessionInfo list \<Rightarrow> SessionInfo list" where
  "number_from n is = map (\<lambda>(j, i). i\<lparr>Order := j\<rparr>) (zip [n..n + int (length is) - 1] is)"

definition sm_List :: "manager \<Rightarrow> SessionInfo list" where
  "sm_List m = number_from 0 (sort_key (infoKey m) (map (listItem m) (m_sessions m)))"

section \<open>Creating and closing\<close>

datatype create_error = ErrManagerClosed | startFailed

record CreateSpec =
  spec_Alias :: "byte list"
  spec_PinnedTitle :: "byte list"

definition aliasHeldLocked :: "byte list \<Rightarrow> manager \<Rightarrow> bool" where
  "aliasHeldLocked a m = list_ex (\<lambda>(_, s). t_alias s = a) (m_sessions m)"

text \<open>The loop of \<open>mintAliasLocked\<close>: \<open>rand i\<close> is what the \<open>i\<close>-th read of the random source
  returns.  It has no bound of its own, so that it returns is a theorem (\<open>mint_returns\<close>).\<close>

partial_function (option) mintFrom :: "(nat \<Rightarrow> byte list) \<Rightarrow> manager \<Rightarrow> nat \<Rightarrow> byte list option" where
  "mintFrom rand m i = (if \<not> aliasHeldLocked (aliasOf (rand i)) m then Some (aliasOf (rand i))
     else mintFrom rand m (i + 1))"

definition mintAliasLocked :: "(nat \<Rightarrow> byte list) \<Rightarrow> manager \<Rightarrow> byte list option" where
  "mintAliasLocked rand m = mintFrom rand m 0"

text \<open>\<open>createWith\<close> up to the fork, and from the second lock on; \<open>None\<close> in the second is a mint that
  never returns.\<close>

definition createBegin :: "byte list option \<Rightarrow> manager \<Rightarrow> create_error + SessionID" where
  "createBegin bytes m = (if m_closed m then Inl ErrManagerClosed
     else case newSessionID bytes of None \<Rightarrow> Inl startFailed | Some k \<Rightarrow> Inr k)"

definition chooseAlias :: "byte list \<Rightarrow> (nat \<Rightarrow> byte list) \<Rightarrow> manager \<Rightarrow> byte list option" where
  "chooseAlias a rand m = (if validSessionAlias a \<and> \<not> aliasHeldLocked a m then Some a
     else mintAliasLocked rand m)"

definition insertSession :: "CreateSpec \<Rightarrow> SessionID \<Rightarrow> nat \<Rightarrow> byte list \<Rightarrow> byte list \<Rightarrow> int
    \<Rightarrow> manager \<Rightarrow> SessionInfo \<times> manager" where
  "insertSession spec k h a cmdBase now m = (let
     pin = sanitizeTitle (spec_PinnedTitle spec) maxPinnedTitleRunes;
     m = m\<lparr>m_sessions := AList.update k \<lparr>createdAt = now, t_handler = h, t_id = k, t_alias = a,
       clientTitle = [], pinnedTitle = pin, autoTitle = cmdBase\<rparr> (m_sessions m),
       m_order := m_order m @ [k]\<rparr>;
     order = int (length (m_order m)) - 1;
     m = (if l_Left (m_layout m) = None \<and> l_Right (m_layout m) = None
       then m\<lparr>m_layout := (m_layout m)\<lparr>l_Left := Some k, l_Selected := PaneLeft\<rparr>\<rparr> else m)
   in (\<lparr>CreatedAt = now, ID = k, Title = pin, Alias = a, ClientTitle = [], PinnedTitle = pin,
        Status = StatusIdle, Activity = [], Order = order, ActivityCount = 0, StatusSeq = 0,
        SeenSeq = 0, ReportsActivity = False\<rparr>, m))"

definition createFinish :: "CreateSpec \<Rightarrow> SessionID \<Rightarrow> nat \<Rightarrow> byte list \<Rightarrow> int \<Rightarrow> (nat \<Rightarrow> byte list)
    \<Rightarrow> manager \<Rightarrow> ((create_error + SessionInfo) \<times> manager) option" where
  "createFinish spec k h cmdBase now rand m =
     (if m_closed m then Some (Inl ErrManagerClosed, m)
      else let m = m\<lparr>idleSince := now\<rparr> in chooseAlias (spec_Alias spec) rand m \<bind> (\<lambda>a.
        case insertSession spec k h a cmdBase now m of (info, m) \<Rightarrow> Some (Inr info, m)))"

definition createWith :: "CreateSpec \<Rightarrow> byte list option \<Rightarrow> bool \<Rightarrow> nat \<Rightarrow> byte list \<Rightarrow> int
    \<Rightarrow> (nat \<Rightarrow> byte list) \<Rightarrow> manager \<Rightarrow> ((create_error + SessionInfo) \<times> manager) option" where
  "createWith spec bytes started h cmdBase now rand m = (case createBegin bytes m of
     Inl e \<Rightarrow> Some (Inl e, m)
   | Inr k \<Rightarrow> if started then createFinish spec k h cmdBase now rand m else Some (Inl startFailed, m))"

definition dropFromOrderLocked :: "SessionID \<Rightarrow> manager \<Rightarrow> manager" where
  "dropFromOrderLocked k m = m\<lparr>m_order := remove1 k (m_order m)\<rparr>"

definition dropFromLayoutLocked :: "SessionID \<Rightarrow> manager \<Rightarrow> manager" where
  "dropFromLayoutLocked k m = (let
     l = m_layout m;
     l = (if l_Left l = Some k then l\<lparr>l_Left := None\<rparr> else l);
     l = (if l_Right l = Some k then l\<lparr>l_Right := None\<rparr> else l)
   in m\<lparr>m_layout := normalizePaneLayout l (m_order m)\<rparr>)"

text \<open>\<open>Close\<close>: the handler that is then closed outside the lock, or \<open>None\<close> for an unknown id.\<close>

definition sm_Close :: "SessionID \<Rightarrow> manager \<Rightarrow> nat option \<times> manager" where
  "sm_Close k m = (case map_of (m_sessions m) k of
     None \<Rightarrow> (None, m)
   | Some s \<Rightarrow> (Some (t_handler s), dropFromLayoutLocked k (dropFromOrderLocked k
       (m\<lparr>m_sessions := AList.delete k (m_sessions m)\<rparr>))))"

definition emptySet :: "manager \<Rightarrow> nat list \<times> manager" where
  "emptySet m = (map (\<lambda>(_, s). t_handler s) (m_sessions m),
     m\<lparr>m_sessions := [], m_order := [], m_layout := defaultPaneLayout\<rparr>)"

definition maybeReap :: "int \<Rightarrow> manager \<Rightarrow> nat list \<times> manager" where
  "maybeReap now m = (if activeClients m > 0 \<or> m_sessions m = [] \<or> now - idleSince m < m_idleWindow m
     then ([], m) else emptySet m)"

definition sm_Shutdown :: "manager \<Rightarrow> nat list \<times> manager" where
  "sm_Shutdown m = (case emptySet m of (victims, m) \<Rightarrow> (victims, m\<lparr>m_closed := True\<rparr>))"

section \<open>Order, layout, names\<close>

text \<open>The loop over \<open>ids\<close> with the set of ids seen so far.\<close>

fun orderScan :: "SessionID list \<Rightarrow> SessionID list \<Rightarrow> manager \<Rightarrow> bool" where
  "orderScan seen [] m = True"
| "orderScan seen (k # ks) m = (if \<not> live m k then False else if k \<in> set seen then False
     else orderScan (k # seen) ks m)"

definition SetSessionOrder :: "SessionID list \<Rightarrow> manager \<Rightarrow> bool \<times> manager" where
  "SetSessionOrder ids m = (if length ids \<noteq> length (m_sessions m) then (False, m)
     else if \<not> orderScan [] ids m then (False, m)
     else (True, m\<lparr>m_order := ids, orderGen := orderGen m + 1\<rparr>))"

datatype layout_reason = shapeRule shape_error | emptySelection | notLive
datatype LayoutVerdict = LayoutOK | LayoutInvalid layout_reason | LayoutStale layout_reason

definition SetPaneLayout :: "PaneLayout \<Rightarrow> manager \<Rightarrow> LayoutVerdict \<times> manager" where
  "SetPaneLayout l m = (case invalidShape l of
     Some e \<Rightarrow> (LayoutInvalid (shapeRule e), m)
   | None \<Rightarrow>
     if m_sessions m \<noteq> [] \<and> shown (l_Selected l) l = None then (LayoutInvalid emptySelection, m)
     else if list_ex (\<lambda>s. case s of None \<Rightarrow> False | Some k \<Rightarrow> \<not> live m k) [l_Left l, l_Right l]
       then (LayoutStale notLive, m)
     else let l = (if \<not> l_Open l then l\<lparr>l_Handle := f64_half\<rparr> else l) in
       (LayoutOK, m\<lparr>m_layout := l, layoutGen := layoutGen m + 1\<rparr>))"

definition SetSessionTitle :: "SessionID \<Rightarrow> byte list \<Rightarrow> manager \<Rightarrow> bool \<times> manager" where
  "SetSessionTitle k title m = (if \<not> live m k then (False, m)
     else (True, set_tab k (clientTitle_update (\<lambda>_. sanitizeTitle title maxClientTitleRunes)) m))"

definition SetSessionPinnedTitle :: "SessionID \<Rightarrow> byte list \<Rightarrow> manager \<Rightarrow> bool \<times> manager" where
  "SetSessionPinnedTitle k title m = (if \<not> live m k then (False, m)
     else (True, set_tab k (pinnedTitle_update (\<lambda>_. sanitizeTitle title maxPinnedTitleRunes)) m))"

definition ClearSessionPinnedTitle :: "SessionID \<Rightarrow> manager \<Rightarrow> bool \<times> manager" where
  "ClearSessionPinnedTitle k m = SetSessionPinnedTitle k [] m"

definition SetSessionAlias :: "SessionID \<Rightarrow> byte list \<Rightarrow> manager \<Rightarrow> bool \<times> manager" where
  "SetSessionAlias k a m = (if \<not> validSessionAlias a then (False, m)
     else case map_of (m_sessions m) k of None \<Rightarrow> (False, m)
       | Some s \<Rightarrow> if t_alias s \<noteq> a \<and> aliasHeldLocked a m then (False, m)
           else (True, set_tab k (t_alias_update (\<lambda>_. a)) m))"

definition StatusLatch :: "SessionID \<Rightarrow> manager \<Rightarrow> byte list \<times> nat \<times> bool" where
  "StatusLatch k m = (case map_of (m_trackers m) k of
     None \<Rightarrow> ([], 0, False)
   | Some tr \<Rightarrow> if latched tr = [] then ([], 0, True) else (latched tr, latchSeq tr, True))"

definition WithdrawStatusLatch :: "SessionID \<Rightarrow> byte list \<Rightarrow> nat \<Rightarrow> manager \<Rightarrow> bool \<times> manager" where
  "WithdrawStatusLatch k want seq m = (if want \<noteq> StatusInput \<and> want \<noteq> StatusDone then (False, m)
     else case map_of (m_trackers m) k of None \<Rightarrow> (False, m)
       | Some tr \<Rightarrow> if latched tr \<noteq> want \<or> latchSeq tr \<noteq> seq then (False, m)
           else (True, set_tracker k (latched_update (\<lambda>_. [])) m))"

definition markSessionSeen :: "SessionID \<Rightarrow> nat \<Rightarrow> manager \<Rightarrow> bool \<times> manager" where
  "markSessionSeen k seq m = (if \<not> live m k then (False, m)
     else (True, set_tracker k (\<lambda>tr. tr\<lparr>seenSeq := max (seenSeq tr) (min seq (statusSeq tr))\<rparr>) m))"

definition clientConnected :: "manager \<Rightarrow> manager" where
  "clientConnected m = m\<lparr>activeClients := activeClients m + 1\<rparr>"

definition clientDisconnected :: "int \<Rightarrow> manager \<Rightarrow> manager" where
  "clientDisconnected now m = (let n = activeClients m - 1 in
     if n \<le> 0 then m\<lparr>activeClients := 0, idleSince := now\<rparr> else m\<lparr>activeClients := n\<rparr>)"

text \<open>The lookup of \<open>WebSocketHandler\<close>: a known id counts its client in the same hold.\<close>

definition wsLookup :: "SessionID \<Rightarrow> manager \<Rightarrow> nat option \<times> manager" where
  "wsLookup k m = (case map_of (m_sessions m) k of None \<Rightarrow> (None, m)
     | Some s \<Rightarrow> (Some (t_handler s), clientConnected m))"

section \<open>Routes\<close>

text \<open>The status code each route answers, and its effect.  The decoded body is an argument; a body the
  decoder refused (\<open>None\<close>) was already answered 400.\<close>

definition unicodeSpace :: "rune \<Rightarrow> bool" where
  "unicodeSpace r \<longleftrightarrow> r \<in> {9, 10, 11, 12, 13, 0x20, 0x85, 0xA0, 0x1680, 0x2028, 0x2029, 0x202F, 0x205F, 0x3000}
     \<or> (0x2000 \<le> r \<and> r \<le> 0x200A)"

definition handleCreate :: "byte list option \<Rightarrow> bool \<Rightarrow> nat \<Rightarrow> byte list \<Rightarrow> int \<Rightarrow> (nat \<Rightarrow> byte list)
    \<Rightarrow> manager \<Rightarrow> (int \<times> SessionInfo option \<times> manager) option" where
  "handleCreate bytes started h cmdBase now rand m = (if restoring m then Some (503, None, m)
     else createWith \<lparr>spec_Alias = [], spec_PinnedTitle = []\<rparr> bytes started h cmdBase now rand m \<bind> (\<lambda>(res, m).
       Some (case res of Inl ErrManagerClosed \<Rightarrow> (503, None, m) | Inl startFailed \<Rightarrow> (500, None, m)
         | Inr info \<Rightarrow> (201, Some info, m))))"

definition handleSetOrder :: "SessionID list option \<Rightarrow> manager \<Rightarrow> int \<times> manager" where
  "handleSetOrder body m = (case body of None \<Rightarrow> (400, m)
     | Some ids \<Rightarrow> (case SetSessionOrder ids m of (ok, m) \<Rightarrow> (if ok then 204 else 409, m)))"

definition handleGetLayout :: "manager \<Rightarrow> int \<times> PaneLayout option" where
  "handleGetLayout m = (if restoring m then (503, None) else (200, Some (m_layout m)))"

definition handleSetLayout :: "PaneLayout option \<Rightarrow> manager \<Rightarrow> int \<times> manager" where
  "handleSetLayout body m = (case body of None \<Rightarrow> (400, m)
     | Some l \<Rightarrow> (case SetPaneLayout l m of (v, m) \<Rightarrow>
         (case v of LayoutOK \<Rightarrow> 204 | LayoutStale _ \<Rightarrow> 409 | LayoutInvalid _ \<Rightarrow> 400, m)))"

definition handleDelete :: "SessionID \<Rightarrow> manager \<Rightarrow> int \<times> manager" where
  "handleDelete k m = (case sm_Close k m of (h, m) \<Rightarrow> (if h \<noteq> None then 204 else 404, m))"

definition handleSetTitle :: "SessionID \<Rightarrow> byte list option \<Rightarrow> manager \<Rightarrow> int \<times> manager" where
  "handleSetTitle k body m = (case body of None \<Rightarrow> (400, m)
     | Some title \<Rightarrow> (case SetSessionTitle k title m of (ok, m) \<Rightarrow> (if ok then 204 else 404, m)))"

definition handleSetPinnedTitle :: "SessionID \<Rightarrow> byte list option \<Rightarrow> manager \<Rightarrow> int \<times> manager" where
  "handleSetPinnedTitle k body m = (case body of None \<Rightarrow> (400, m)
     | Some title \<Rightarrow> let clean = sanitizeTitle title maxPinnedTitleRunes in
         if list_all unicodeSpace (runesOf clean) then (400, m)
         else (case SetSessionPinnedTitle k clean m of (ok, m) \<Rightarrow> (if ok then 204 else 404, m)))"

definition handleClearPinnedTitle :: "SessionID \<Rightarrow> manager \<Rightarrow> int \<times> manager" where
  "handleClearPinnedTitle k m = (case ClearSessionPinnedTitle k m of (ok, m) \<Rightarrow> (if ok then 204 else 404, m))"

definition handleSetSeen :: "SessionID \<Rightarrow> nat option \<Rightarrow> manager \<Rightarrow> int \<times> manager" where
  "handleSetSeen k body m = (case body of None \<Rightarrow> (400, m)
     | Some seq \<Rightarrow> (case markSessionSeen k seq m of (ok, m) \<Rightarrow> (if ok then 204 else 404, m)))"

section \<open>Titles and names\<close>

lemma sanitizeRunes_eq: "sanitizeRunes n rs = take n (filter (\<lambda>r. \<not> (r < 0x20 \<or> r = 0x7F)) rs)"
proof (induction n rs rule: sanitizeRunes.induct)
  case (2 n r rs)
  then show ?case by (cases n) auto
qed simp

lemma runesOf_sanitize: "runesOf (sanitizeTitle s n) = sanitizeRunes n (runesOf s)"
  unfolding sanitizeTitle_def
  by (rule runesOf_encode) (auto simp: sanitizeRunes_eq dest!: in_set_takeD dest: runesOf_valid [THEN bspec])

lemma sanitize_idem: "sanitizeTitle (sanitizeTitle s n) n = sanitizeTitle s n"
proof -
  have "filter P (take n (filter P rs)) = take n (filter P rs)" for P and rs :: "rune list"
    by (auto simp: filter_id_conv dest: in_set_takeD)
  then show ?thesis
    unfolding sanitizeTitle_def [of "sanitizeTitle s n"] runesOf_sanitize
    by (simp add: sanitizeRunes_eq sanitizeTitle_def)
qed

lemma sanitize_nil [simp]: "sanitizeTitle [] n = []"
  by (simp add: sanitizeTitle_def runesOf.simps encodeRunes_def)

lemma base32_alias: "0 \<le> v \<Longrightarrow> v < 32 \<Longrightarrow> isAliasByte (base32Char v)"
  by (simp add: base32Char_def isAliasByte_def uint_byte_of_int del: of_int_add)

lemma aliasOf_valid: "validSessionAlias (aliasOf b) \<and> length (aliasOf b) = 8"
  by (auto simp: aliasOf_def validSessionAlias_def maxSessionAliasLen_def list_all_iff Let_def base32_alias)

lemma mintFrom_returns:
  assumes "\<not> aliasHeldLocked (aliasOf (rand j)) m" "i \<le> j"
  shows "\<exists>a. mintFrom rand m i = Some a \<and> \<not> aliasHeldLocked a m \<and> a \<in> aliasOf ` rand ` {i..j}"
  using assms(2)
proof (induction "j - i" arbitrary: i)
  case 0
  then have "i = j" by simp
  with assms(1) show ?case by (subst mintFrom.simps) simp
next
  case (Suc d)
  show ?case
  proof (cases "aliasHeldLocked (aliasOf (rand i)) m")
    case True
    from Suc.hyps(2) have d: "d = j - (i + 1)" "i + 1 \<le> j" by simp_all
    from Suc.hyps(1) [OF d] obtain a where a: "mintFrom rand m (i + 1) = Some a" "\<not> aliasHeldLocked a m"
      "a \<in> aliasOf ` rand ` {i + 1..j}" by blast
    have "{i + 1..j} \<subseteq> {i..j}" by simp
    with a(3) have "a \<in> aliasOf ` rand ` {i..j}" by blast
    with a(1,2) True show ?thesis by (subst mintFrom.simps) simp
  next
    case False
    with Suc.prems show ?thesis by (subst mintFrom.simps) simp
  qed
qed

lemma mintFrom_sound: "mintFrom rand m i = Some a \<Longrightarrow> validSessionAlias a \<and> \<not> aliasHeldLocked a m"
  by (rule mintFrom.raw_induct [where P = "\<lambda>rand m i a. validSessionAlias a \<and> \<not> aliasHeldLocked a m"])
    (auto simp: aliasOf_valid split: if_splits)

text \<open>Whatever the random source does, one more distinct draw than there are sessions is enough.\<close>

lemma aliasHeld_iff: "aliasHeldLocked a m \<longleftrightarrow> a \<in> (t_alias \<circ> snd) ` set (m_sessions m)"
  by (force simp: aliasHeldLocked_def list_ex_iff image_iff)

lemma free_draw:
  assumes "length (m_sessions m) < card (aliasOf ` rand ` {i..j})"
  shows "\<exists>k \<in> {i..j}. \<not> aliasHeldLocked (aliasOf (rand k)) m"
proof (rule ccontr)
  assume "\<not> ?thesis"
  then have "aliasOf ` rand ` {i..j} \<subseteq> (t_alias \<circ> snd) ` set (m_sessions m)"
    by (auto simp: aliasHeld_iff)
  then have "card (aliasOf ` rand ` {i..j}) \<le> card ((t_alias \<circ> snd) ` set (m_sessions m))"
    by (simp add: card_mono)
  also have "\<dots> \<le> length (m_sessions m)"
    by (meson List.finite_set card_image_le card_length le_trans)
  finally show False using assms by simp
qed

section \<open>The manager's invariant\<close>

definition tab_ok :: "SessionID \<Rightarrow> tab \<Rightarrow> bool" where
  "tab_ok k s \<longleftrightarrow> t_id s = k \<and> k \<noteq> [] \<and> validSessionAlias (t_alias s)
     \<and> sanitizeTitle (clientTitle s) maxClientTitleRunes = clientTitle s
     \<and> sanitizeTitle (pinnedTitle s) maxPinnedTitleRunes = pinnedTitle s"

definition tabset_ok :: "(SessionID \<times> tab) list \<Rightarrow> bool" where
  "tabset_ok ss \<longleftrightarrow> distinct (map fst ss) \<and> distinct (map (t_alias \<circ> snd) ss) \<and> (\<forall>(k, s) \<in> set ss. tab_ok k s)"

definition trackers_ok :: "(SessionID \<times> statusTracker) list \<Rightarrow> bool" where
  "trackers_ok ts \<longleftrightarrow> distinct (map fst ts) \<and> (\<forall>(k, tr) \<in> set ts. seenSeq tr \<le> statusSeq tr)"

definition order_ok :: "manager \<Rightarrow> bool" where
  "order_ok m \<longleftrightarrow> distinct (m_order m) \<and> set (m_order m) = set (map fst (m_sessions m))"

definition mgr_ok :: "manager \<Rightarrow> bool" where
  "mgr_ok m \<longleftrightarrow> tabset_ok (m_sessions m) \<and> trackers_ok (m_trackers m) \<and> order_ok m
     \<and> layout_over (m_order m) (m_layout m) \<and> (m_closed m \<longrightarrow> m_sessions m = [])"

lemma new_manager_ok: "mgr_ok (NewSessionManager now w)"
  by (simp add: mgr_ok_def NewSessionManager_def tabset_ok_def trackers_ok_def order_ok_def default_layout_over)

lemma live_iff: "live m k \<longleftrightarrow> k \<in> set (map fst (m_sessions m))"
  by (simp add: live_def map_of_eq_None_iff)

lemma held_set: "set xs = set ys \<Longrightarrow> held xs s = held ys s"
  by (cases s) simp_all

lemma layout_over_set: "set xs = set ys \<Longrightarrow> layout_over xs l \<longleftrightarrow> layout_over ys l"
  by (simp add: layout_over_def held_set [of xs ys]) (metis set_empty)

text \<open>An operation on one session's names keeps every other part of the state.\<close>

lemma map_fst_case: "map fst (map (\<lambda>(k', s). (k', g k' s)) xs) = map fst xs"
  by (induction xs) auto

lemma map_of_upd: "map_of (map (\<lambda>(k', s). (k', if k' = k then f s else s)) xs) j
    = (if j = k then map_option f (map_of xs k) else map_of xs j)"
  by (induction xs) auto

lemma tabset_ok_upd:
  assumes "tabset_ok ss" "\<And>s. (k, s) \<in> set ss \<Longrightarrow> tab_ok k s \<Longrightarrow> tab_ok k (f s)"
    "\<And>s j s'. (k, s) \<in> set ss \<Longrightarrow> (j, s') \<in> set ss \<Longrightarrow> j \<noteq> k \<Longrightarrow> t_alias (f s) \<noteq> t_alias s'"
  shows "tabset_ok (map (\<lambda>(k', s). (k', if k' = k then f s else s)) ss)"
proof -
  let ?u = "\<lambda>(k', s). (k', if k' = k then f s else s)"
  have d: "distinct (map fst ss)" "distinct (map (t_alias \<circ> snd) ss)"
    using assms(1) by (simp_all add: tabset_ok_def)
  have "inj_on (t_alias \<circ> snd \<circ> ?u) (set ss)"
  proof (rule inj_onI)
    fix x y assume xy: "x \<in> set ss" "y \<in> set ss" "(t_alias \<circ> snd \<circ> ?u) x = (t_alias \<circ> snd \<circ> ?u) y"
    obtain a s where x: "x = (a, s)" by (cases x)
    obtain b s' where y: "y = (b, s')" by (cases y)
    have same: "a = b \<Longrightarrow> s = s'"
      using xy(1,2) d(1) unfolding x y by (metis map_of_eq_Some_iff option.inject)
    have "t_alias s = t_alias s' \<Longrightarrow> x = y"
      using d(2) xy(1,2) inj_onD [of "t_alias \<circ> snd" "set ss" x y] by (simp add: distinct_map x y)
    with xy same assms(3) [of s b s'] assms(3) [of s' a s] show "x = y"
      unfolding x y by (auto split: if_splits)
  qed
  moreover have "distinct ss" using d(1) by (simp add: distinct_map)
  ultimately have "distinct (map (t_alias \<circ> snd) (map ?u ss))"
    by (simp add: distinct_map comp_assoc)
  moreover have "tab_ok a s" if "(a, s) \<in> set ss" for a s
    using assms(1) that by (auto simp: tabset_ok_def)
  then have "tab_ok a s" if "(a, s) \<in> set (map ?u ss)" for a s
    using that assms(2) by (auto split: if_splits)
  ultimately show ?thesis
    using d(1) unfolding tabset_ok_def map_fst_case by blast
qed

lemma set_tab_fields [simp]:
  "m_trackers (set_tab k f m) = m_trackers m" "m_order (set_tab k f m) = m_order m"
  "m_layout (set_tab k f m) = m_layout m" "m_closed (set_tab k f m) = m_closed m"
  "map fst (m_sessions (set_tab k f m)) = map fst (m_sessions m)"
  by (simp_all add: set_tab_def map_fst_case del: map_map)

lemma set_tracker_fields [simp]:
  "m_sessions (set_tracker k f m) = m_sessions m" "m_order (set_tracker k f m) = m_order m"
  "m_layout (set_tracker k f m) = m_layout m" "m_closed (set_tracker k f m) = m_closed m"
  by (simp_all add: set_tracker_def)

lemma set_tab_ok:
  assumes "mgr_ok m" "\<And>s. (k, s) \<in> set (m_sessions m) \<Longrightarrow> tab_ok k s \<Longrightarrow> tab_ok k (f s)"
    "\<And>s j s'. (k, s) \<in> set (m_sessions m) \<Longrightarrow> (j, s') \<in> set (m_sessions m) \<Longrightarrow> j \<noteq> k \<Longrightarrow> t_alias (f s) \<noteq> t_alias s'"
  shows "mgr_ok (set_tab k f m)"
proof -
  have "tabset_ok (m_sessions (set_tab k f m))"
    using tabset_ok_upd [of "m_sessions m" k f] assms by (simp add: mgr_ok_def set_tab_def)
  moreover have "m_sessions (set_tab k f m) = [] \<longleftrightarrow> m_sessions m = []"
    by (simp add: set_tab_def)
  ultimately show ?thesis
    using assms(1) unfolding mgr_ok_def order_ok_def by simp
qed

lemma set_tracker_ok:
  assumes "mgr_ok m" "\<And>tr. seenSeq tr \<le> statusSeq tr \<Longrightarrow> seenSeq (f tr) \<le> statusSeq (f tr)"
  shows "mgr_ok (set_tracker k f m)"
proof -
  have "trackers_ok (m_trackers (set_tracker k f m))"
    using assms by (auto simp: mgr_ok_def trackers_ok_def set_tracker_def map_fst_case simp del: map_map split: if_splits)
  with assms(1) show ?thesis unfolding mgr_ok_def order_ok_def by simp
qed

section \<open>Every operation keeps the invariant\<close>

lemma createFinish_fields:
  assumes "createFinish spec k h c now rand m = Some (Inr info, m')"
  shows "validSessionAlias (Alias info)" "\<not> aliasHeldLocked (Alias info) m" "\<not> m_closed m"
    "m_trackers m' = m_trackers m" "m_closed m' = m_closed m"
    "m_sessions m' = AList.update k \<lparr>createdAt = now, t_handler = h, t_id = k, t_alias = Alias info,
           clientTitle = [], pinnedTitle = sanitizeTitle (spec_PinnedTitle spec) maxPinnedTitleRunes,
           autoTitle = c\<rparr> (m_sessions m)"
    "m_order m' = m_order m @ [k]"
    "m_layout m' = (if l_Left (m_layout m) = None \<and> l_Right (m_layout m) = None
       then (m_layout m)\<lparr>l_Left := Some k, l_Selected := PaneLeft\<rparr> else m_layout m)"
    "ID info = k" "Order info = int (length (m_order m))"
proof -
  let ?m = "m\<lparr>idleSince := now\<rparr>"
  have closed: "\<not> m_closed m"
    using assms by (auto simp: createFinish_def)
  from assms closed obtain a where a: "chooseAlias (spec_Alias spec) rand ?m = Some a"
    "insertSession spec k h a c now ?m = (info, m')"
    by (cases "chooseAlias (spec_Alias spec) rand ?m") (auto simp: createFinish_def split: prod.splits)
  have "aliasHeldLocked b ?m = aliasHeldLocked b m" for b
    by (simp add: aliasHeldLocked_def)
  with a(1) have ok: "validSessionAlias a \<and> \<not> aliasHeldLocked a m"
    by (auto simp: chooseAlias_def mintAliasLocked_def dest!: mintFrom_sound split: if_splits)
  have i: "Alias info = a" "ID info = k" "Order info = int (length (m_order m))"
    using a(2) by (auto simp: insertSession_def Let_def split: if_splits)
  show "validSessionAlias (Alias info)" "\<not> aliasHeldLocked (Alias info) m" "\<not> m_closed m"
    "ID info = k" "Order info = int (length (m_order m))"
    using ok closed i by simp_all
  show "m_trackers m' = m_trackers m" "m_closed m' = m_closed m" "m_order m' = m_order m @ [k]"
    "m_layout m' = (if l_Left (m_layout m) = None \<and> l_Right (m_layout m) = None
       then (m_layout m)\<lparr>l_Left := Some k, l_Selected := PaneLeft\<rparr> else m_layout m)"
    using a(2) by (auto simp: insertSession_def Let_def split: if_splits)
  show "m_sessions m' = AList.update k \<lparr>createdAt = now, t_handler = h, t_id = k, t_alias = Alias info,
           clientTitle = [], pinnedTitle = sanitizeTitle (spec_PinnedTitle spec) maxPinnedTitleRunes,
           autoTitle = c\<rparr> (m_sessions m)"
    unfolding i(1) using a(2) by (auto simp: insertSession_def Let_def split: if_splits)
qed

lemma createFinish_error: "createFinish spec k h c now rand m = Some (Inl e, m') \<Longrightarrow> m' = m"
  by (auto simp: createFinish_def Let_def bind_eq_Some_conv split: if_splits prod.splits)

lemma tabset_ok_snoc:
  assumes "tabset_ok ss" "tab_ok k s" "k \<notin> set (map fst ss)" "t_alias s \<notin> (t_alias \<circ> snd) ` set ss"
  shows "tabset_ok (AList.update k s ss)"
proof -
  have "AList.update k s ss = ss @ [(k, s)]"
    using assms(3) by (induction ss) auto
  with assms show ?thesis by (auto simp: tabset_ok_def)
qed

lemma layout_over_snoc: "layout_over ks l \<Longrightarrow> ks \<noteq> [] \<Longrightarrow> layout_over (ks @ [k]) l"
  by (cases "l_Left l"; cases "l_Right l") (auto simp: layout_over_def split: if_splits)

lemma createFinish_ok:
  assumes "mgr_ok m" "createFinish spec k h c now rand m = Some (res, m')" "k \<noteq> []" "\<not> live m k"
  shows "mgr_ok m'"
proof (cases res)
  case (Inl e)
  with assms(2) have "m' = m" using createFinish_error by blast
  with assms(1) show ?thesis by simp
next
  case (Inr info)
  note f = createFinish_fields [OF assms(2) [unfolded Inr]]
  have k: "k \<notin> set (map fst (m_sessions m))"
    using assms(4) by (simp add: live_iff)
  have tabs: "tabset_ok (m_sessions m')"
    unfolding f(6)
    by (rule tabset_ok_snoc [OF _ _ k])
      (use assms(1,3) f(1,2) in \<open>simp_all add: mgr_ok_def tab_ok_def sanitize_idem aliasHeld_iff\<close>)
  have order: "order_ok m'"
    using assms(1) k unfolding order_ok_def f(6,7) mgr_ok_def by (auto simp: dom_update order_ok_def)
  have layout: "layout_over (m_order m') (m_layout m')"
  proof (cases "m_order m = []")
    case True
    then show ?thesis
      using assms(1) unfolding f(7,8) by (auto simp: mgr_ok_def layout_over_def invalidShape_None held_def split: option.splits)
  next
    case False
    then have "\<not> (l_Left (m_layout m) = None \<and> l_Right (m_layout m) = None)"
      using assms(1) by (auto simp: mgr_ok_def layout_over_def shown_def split: if_splits)
    with False assms(1) show ?thesis
      unfolding f(7,8) by (auto simp: mgr_ok_def layout_over_snoc)
  qed
  from tabs order layout assms(1) show ?thesis
    using f(3,4,5) by (simp add: mgr_ok_def)
qed

lemma tabset_ok_delete: "tabset_ok ss \<Longrightarrow> tabset_ok (AList.delete k ss)"
  unfolding tabset_ok_def AList.delete_eq
  by (auto simp: distinct_map intro: inj_on_subset)

lemma sm_Close_ok:
  assumes "mgr_ok m"
  shows "mgr_ok (snd (sm_Close k m))"
proof (cases "map_of (m_sessions m) k")
  case None
  with assms show ?thesis by (simp add: sm_Close_def)
next
  case (Some s)
  let ?m = "dropFromOrderLocked k (m\<lparr>m_sessions := AList.delete k (m_sessions m)\<rparr>)"
  let ?l = "\<lambda>l. if l_Right l = Some k then l\<lparr>l_Right := None\<rparr> else l"
  let ?l' = "?l (if l_Left (m_layout m) = Some k then (m_layout m)\<lparr>l_Left := None\<rparr> else m_layout m)"
  have o: "order_ok m" "tabset_ok (m_sessions m)" using assms by (simp_all add: mgr_ok_def)
  have "sides_ok ?l'"
    using assms by (auto simp: mgr_ok_def layout_over_def invalidShape_None sides_ok_def)
  moreover have d: "distinct (m_order ?m)"
    using o(1) by (simp add: dropFromOrderLocked_def order_ok_def)
  ultimately have "layout_over (m_order ?m) (normalizePaneLayout ?l' (m_order ?m))"
    by (rule normalizePaneLayout_over [rotated])
  moreover have "set (m_order ?m) = set (map fst (m_sessions ?m))"
    using o(1) by (auto simp: dropFromOrderLocked_def order_ok_def set_remove1_eq delete_keys)
  moreover have "m_sessions m \<noteq> []" using Some by auto
  ultimately show ?thesis
    using assms d Some tabset_ok_delete [OF o(2), of k]
    by (simp add: sm_Close_def dropFromLayoutLocked_def Let_def mgr_ok_def order_ok_def dropFromOrderLocked_def)
qed

lemma emptySet_ok: "mgr_ok m \<Longrightarrow> mgr_ok (snd (emptySet m))"
  by (simp add: emptySet_def mgr_ok_def tabset_ok_def order_ok_def default_layout_over)

lemma maybeReap_ok: "mgr_ok m \<Longrightarrow> mgr_ok (snd (maybeReap now m))"
  by (simp add: maybeReap_def emptySet_ok)

lemma sm_Shutdown_ok: "mgr_ok m \<Longrightarrow> mgr_ok (snd (sm_Shutdown m))"
  by (simp add: sm_Shutdown_def emptySet_def mgr_ok_def tabset_ok_def order_ok_def default_layout_over)

lemma orderScan_iff: "orderScan seen ks m \<longleftrightarrow> (\<forall>k \<in> set ks. live m k) \<and> distinct ks \<and> set ks \<inter> set seen = {}"
  by (induction seen ks m rule: orderScan.induct) auto

lemma SetSessionOrder_iff:
  assumes "mgr_ok m"
  shows "fst (SetSessionOrder ids m) \<longleftrightarrow> mset ids = mset (m_order m)"
proof -
  have o: "distinct (m_order m)" "set (m_order m) = set (map fst (m_sessions m))" "distinct (map fst (m_sessions m))"
    using assms by (simp_all add: mgr_ok_def order_ok_def tabset_ok_def)
  have len: "length (m_order m) = length (m_sessions m)"
    using o by (metis distinct_card length_map)
  have "fst (SetSessionOrder ids m) \<longleftrightarrow> length ids = length (m_order m) \<and> set ids \<subseteq> set (m_order m) \<and> distinct ids"
    using o(2) by (auto simp: SetSessionOrder_def orderScan_iff live_iff len)
  also have "\<dots> \<longleftrightarrow> distinct ids \<and> set ids = set (m_order m)"
    using o(1) by (metis card_subset_eq List.finite_set distinct_card order_refl)
  also have "\<dots> \<longleftrightarrow> mset ids = mset (m_order m)"
    using o(1) by (metis mset_eq_imp_distinct_iff mset_eq_setD set_eq_iff_mset_eq_distinct)
  finally show ?thesis .
qed

lemma SetSessionOrder_state: "snd (SetSessionOrder ids m) = (if fst (SetSessionOrder ids m)
    then m\<lparr>m_order := ids, orderGen := orderGen m + 1\<rparr> else m)"
  by (simp add: SetSessionOrder_def)

lemma SetSessionOrder_ok: "mgr_ok m \<Longrightarrow> mgr_ok (snd (SetSessionOrder ids m))"
proof -
  assume m: "mgr_ok m"
  show ?thesis
  proof (cases "fst (SetSessionOrder ids m)")
    case True
    then have e: "mset ids = mset (m_order m)" using SetSessionOrder_iff [OF m] by simp
    then have "set ids = set (m_order m)" "distinct ids = distinct (m_order m)"
      by (rule mset_eq_setD, rule mset_eq_imp_distinct_iff)
    with m layout_over_set [of ids "m_order m"] True show ?thesis
      by (simp add: SetSessionOrder_state mgr_ok_def order_ok_def)
  next
    case False
    with m show ?thesis by (simp add: SetSessionOrder_state)
  qed
qed

lemma SetPaneLayout_ok:
  assumes "mgr_ok m"
  shows "mgr_ok (snd (SetPaneLayout l m))"
proof (cases "fst (SetPaneLayout l m) = LayoutOK")
  case False
  then have "snd (SetPaneLayout l m) = m"
    by (auto simp: SetPaneLayout_def Let_def split: option.splits if_splits)
  with assms show ?thesis by simp
next
  case True
  let ?l = "if \<not> l_Open l then l\<lparr>l_Handle := f64_half\<rparr> else l"
  from True have ok: "invalidShape l = None" "m_sessions m = [] \<or> shown (l_Selected l) l \<noteq> None"
    "\<And>k. l_Left l = Some k \<Longrightarrow> live m k" "\<And>k. l_Right l = Some k \<Longrightarrow> live m k"
    and st: "snd (SetPaneLayout l m) = m\<lparr>m_layout := ?l, layoutGen := layoutGen m + 1\<rparr>"
    by (auto simp: SetPaneLayout_def Let_def split: option.splits if_splits)
  have o: "set (m_order m) = set (map fst (m_sessions m))" using assms by (simp add: mgr_ok_def order_ok_def)
  have h: "held (m_order m) (l_Left l) = l_Left l" "held (m_order m) (l_Right l) = l_Right l"
    using ok(3,4) o unfolding live_iff by (auto simp: held_def split: option.splits)
  have "invalidShape ?l = None"
    using ok(1) by (auto simp: invalidShape_None shown_def)
  with ok(2) h o have "layout_over (m_order m) ?l"
    by (auto simp: layout_over_def shown_def)
  with assms show ?thesis
    unfolding st by (simp add: mgr_ok_def order_ok_def)
qed

lemma tabs_alias: "tabset_ok ss \<Longrightarrow> (k, s) \<in> set ss \<Longrightarrow> (j, s') \<in> set ss \<Longrightarrow> t_alias s = t_alias s' \<Longrightarrow> k = j"
  using inj_onD [of "t_alias \<circ> snd" "set ss" "(k, s)" "(j, s')"] by (simp add: tabset_ok_def distinct_map)

lemma set_title_ok:
  assumes "mgr_ok m" "\<And>s. tab_ok k s \<Longrightarrow> tab_ok k (f s)" "\<And>s. t_alias (f s) = t_alias s"
  shows "mgr_ok (set_tab k f m)"
proof (rule set_tab_ok [OF assms(1)])
  have t: "tabset_ok (m_sessions m)" using assms(1) by (simp add: mgr_ok_def)
  show "t_alias (f s) \<noteq> t_alias s'"
    if "(k, s) \<in> set (m_sessions m)" "(j, s') \<in> set (m_sessions m)" "j \<noteq> k" for s j s'
    using tabs_alias [OF t that(1,2)] that(3) assms(3) by auto
qed (use assms(2) in blast)

lemma SetSessionTitle_ok: "mgr_ok m \<Longrightarrow> mgr_ok (snd (SetSessionTitle k title m))"
  and SetSessionPinnedTitle_ok: "mgr_ok m \<Longrightarrow> mgr_ok (snd (SetSessionPinnedTitle k title m))"
  by (auto simp: SetSessionTitle_def SetSessionPinnedTitle_def tab_ok_def sanitize_idem intro!: set_title_ok)

lemma SetSessionAlias_ok:
  assumes "mgr_ok m"
  shows "mgr_ok (snd (SetSessionAlias k a m))"
proof (cases "fst (SetSessionAlias k a m)")
  case True
  then obtain s0 where s0: "validSessionAlias a" "map_of (m_sessions m) k = Some s0"
    "t_alias s0 = a \<or> \<not> aliasHeldLocked a m"
    and st: "snd (SetSessionAlias k a m) = set_tab k (t_alias_update (\<lambda>_. a)) m"
    by (auto simp: SetSessionAlias_def split: option.splits if_splits)
  have t: "tabset_ok (m_sessions m)" using assms by (simp add: mgr_ok_def)
  have k: "(k, s0) \<in> set (m_sessions m)" using s0(2) by (rule map_of_SomeD)
  show ?thesis
    unfolding st
  proof (rule set_tab_ok [OF assms])
    show "tab_ok k (s\<lparr>t_alias := a\<rparr>)" if "tab_ok k s" for s
      using that s0(1) by (simp add: tab_ok_def)
    show "t_alias (s\<lparr>t_alias := a\<rparr>) \<noteq> t_alias s'"
      if "(j, s') \<in> set (m_sessions m)" "j \<noteq> k" for s j s'
      using s0(3) tabs_alias [OF t k that(1)] that by (force simp: aliasHeld_iff)
  qed
next
  case False
  then have "snd (SetSessionAlias k a m) = m"
    by (auto simp: SetSessionAlias_def split: option.splits if_splits)
  with assms show ?thesis by simp
qed

lemma markSessionSeen_ok: "mgr_ok m \<Longrightarrow> mgr_ok (snd (markSessionSeen k seq m))"
  by (auto simp: markSessionSeen_def intro!: set_tracker_ok)

lemma WithdrawStatusLatch_ok: "mgr_ok m \<Longrightarrow> mgr_ok (snd (WithdrawStatusLatch k want seq m))"
  by (auto simp: WithdrawStatusLatch_def intro!: set_tracker_ok split: option.split)

lemma clients_ok: "mgr_ok m \<Longrightarrow> mgr_ok (clientConnected m)" "mgr_ok m \<Longrightarrow> mgr_ok (clientDisconnected now m)"
  "mgr_ok m \<Longrightarrow> mgr_ok (snd (wsLookup k m))"
  by (auto simp: clientConnected_def clientDisconnected_def wsLookup_def mgr_ok_def order_ok_def Let_def split: option.split)

lemmas ops_ok = createFinish_ok sm_Close_ok maybeReap_ok sm_Shutdown_ok SetSessionOrder_ok SetPaneLayout_ok
  SetSessionTitle_ok SetSessionPinnedTitle_ok SetSessionAlias_ok markSessionSeen_ok WithdrawStatusLatch_ok clients_ok

section \<open>Enumeration in display order\<close>

lemma compareSessionOrder_key:
  "compareSessionOrder a b < 0 \<longleftrightarrow> orderKey a < orderKey b"
  "compareSessionOrder a b = 0 \<longleftrightarrow> orderKey a = orderKey b"
  by (auto simp: compareSessionOrder_def orderKey_def cmpCompare_def Let_def)

definition entry :: "manager \<Rightarrow> SessionID \<Rightarrow> SessionInfo" where
  "entry m k = listItem m (k, the (map_of (m_sessions m) k))"

lemma mset_order: "mgr_ok m \<Longrightarrow> mset (m_order m) = mset (map fst (m_sessions m))"
  using set_eq_iff_mset_eq_distinct [of "m_order m" "map fst (m_sessions m)"]
  by (simp add: mgr_ok_def order_ok_def tabset_ok_def)

lemma entry_id: "mgr_ok m \<Longrightarrow> k \<in> set (m_order m) \<Longrightarrow> ID (entry m k) = k"
proof -
  assume m: "mgr_ok m" and k: "k \<in> set (m_order m)"
  then obtain s where s: "map_of (m_sessions m) k = Some s"
    by (metis live_def live_iff mgr_ok_def not_None_eq order_ok_def)
  then have "tab_ok k s" using m by (auto simp: mgr_ok_def tabset_ok_def dest: map_of_SomeD)
  with s show ?thesis by (simp add: entry_def listItem_def tab_ok_def Let_def)
qed

lemma sorted_entries:
  assumes "mgr_ok m"
  shows "sort_key (infoKey m) (map (listItem m) (m_sessions m)) = map (entry m) (m_order m)"
proof (rule sort_key_inj_key_eq)
  have d: "distinct (m_order m)" "distinct (map fst (m_sessions m))"
    using assms by (simp_all add: mgr_ok_def order_ok_def tabset_ok_def)
  have "map (listItem m) (m_sessions m) = map (entry m) (map fst (m_sessions m))"
    using d(2) by (auto simp: entry_def)
  then show "mset (map (listItem m) (m_sessions m)) = mset (map (entry m) (m_order m))"
    using mset_order [OF assms] by (simp only: mset_map)
  then have set: "set (map (listItem m) (m_sessions m)) = set (map (entry m) (m_order m))"
    by (rule mset_eq_setD)
  show "inj_on (infoKey m) (set (map (listItem m) (m_sessions m)))"
    unfolding set by (rule inj_onI) (auto simp: infoKey_def orderKey_def entry_id [OF assms])
  have rank: "rankOf m (m_order m ! i) = int i" if "i < length (m_order m)" for i
    using that indexOf_distinct [OF d(1) that] by (simp add: rankOf_def Let_def)
  show "sorted (map (infoKey m) (map (entry m) (m_order m)))"
    unfolding sorted_iff_nth_mono_less
    using rank by (auto simp: infoKey_def orderKey_def entry_id [OF assms] less_eq_prod_def)
qed

lemma number_from_nth: "i < length is \<Longrightarrow> number_from 0 is ! i = (is ! i)\<lparr>Order := int i\<rparr>"
  by (simp add: number_from_def nth_upto)

lemma length_number_from [simp]: "length (number_from n is) = length is"
  by (simp add: number_from_def)

lemma sm_List_eq: "mgr_ok m \<Longrightarrow> sm_List m = number_from 0 (map (entry m) (m_order m))"
  by (simp add: sm_List_def sorted_entries)

lemma sm_List_nth:
  assumes "mgr_ok m" "i < length (m_order m)"
  shows "sm_List m ! i = (entry m (m_order m ! i))\<lparr>Order := int i\<rparr>"
  using assms by (simp add: sm_List_eq number_from_nth)

lemma listItem_sessions: "listItem (m\<lparr>m_sessions := ss\<rparr>) = listItem m"
  by (rule ext) (simp add: listItem_def)

text \<open>An enumeration does not depend on the order in which the session map is ranged over.\<close>

lemma list_order_independent:
  assumes "mgr_ok m" "mset ss = mset (m_sessions m)"
  shows "sm_List (m\<lparr>m_sessions := ss\<rparr>) = sm_List m"
proof -
  have "infoKey (m\<lparr>m_sessions := ss\<rparr>) = infoKey m"
    by (rule ext) (simp add: infoKey_def rankOf_def cong: if_cong)
  moreover have "inj_on (infoKey m) (set (map (listItem m) ss))"
  proof -
    have "set (map (listItem m) ss) = set (map (entry m) (m_order m))"
      using assms(2) sorted_entries [OF assms(1)] by (metis mset_eq_setD mset_map set_sort)
    then show ?thesis by (auto simp: infoKey_def orderKey_def entry_id [OF assms(1)] inj_on_def)
  qed
  moreover have "mset (map (listItem m) ss) = mset (map (listItem m) (m_sessions m))"
    using assms(2) by simp
  ultimately show ?thesis
    unfolding sm_List_def listItem_sessions
    using sort_key_inj_key_eq [of "map (listItem m) ss" "sort_key (infoKey m) (map (listItem m) (m_sessions m))" "infoKey m"]
    by simp
qed


text \<open>
  C17: minting a public name terminates: whatever the random source returns, once it has produced more
  distinct names than there are live sessions the loop has returned, with a well-formed name no live
  session holds.
\<close>

theorem alias_mint_terminates:
  assumes "length (m_sessions m) < card (aliasOf ` rand ` {0..n})"
  shows "\<exists>a. mintAliasLocked rand m = Some a \<and> validSessionAlias a \<and> length a = 8
    \<and> \<not> aliasHeldLocked a m \<and> a \<in> aliasOf ` rand ` {0..n}"
proof -
  from free_draw [OF assms] obtain j where j: "j \<le> n" "\<not> aliasHeldLocked (aliasOf (rand j)) m"
    by auto
  from mintFrom_returns [of rand j m 0] j obtain a where
    a: "mintFrom rand m 0 = Some a" "\<not> aliasHeldLocked a m" "a \<in> aliasOf ` rand ` {0..j}" by auto
  have "{0..j} \<subseteq> {0..n}" using j(1) by simp
  with a aliasOf_valid show ?thesis
    unfolding mintAliasLocked_def by blast
qed

section \<open>A concrete manager\<close>

definition demoCreate :: "SessionID \<Rightarrow> byte list \<Rightarrow> manager \<Rightarrow> manager" where
  "demoCreate k a m = (case createFinish \<lparr>spec_Alias = a, spec_PinnedTitle = []\<rparr> k 0 (str ''sh'') 7 (\<lambda>i. str ''abcde'') m of
     Some (_, m') \<Rightarrow> m' | None \<Rightarrow> m)"

lemma demoCreate_ok: "mgr_ok m \<Longrightarrow> k \<noteq> [] \<Longrightarrow> \<not> live m k \<Longrightarrow> mgr_ok (demoCreate k a m)"
  using createFinish_ok [of m "\<lparr>spec_Alias = a, spec_PinnedTitle = []\<rparr>" k 0 "str ''sh''" 7 "\<lambda>i. str ''abcde''"]
  by (auto simp: demoCreate_def split: option.splits prod.splits)

definition demoOne :: manager where "demoOne = demoCreate (str ''s1'') (str ''one'') (NewSessionManager 0 60)"
definition demoTwo :: manager where "demoTwo = demoCreate (str ''s2'') (str ''two'') demoOne"

lemma demoTwo_ok: "mgr_ok demoTwo"
proof -
  have "mgr_ok demoOne"
    unfolding demoOne_def
    by (rule demoCreate_ok [OF new_manager_ok]) (simp_all add: str_def live_def NewSessionManager_def)
  moreover have "\<not> live demoOne (str ''s2'')" by code_simp
  ultimately show ?thesis
    unfolding demoTwo_def by (intro demoCreate_ok) (simp_all add: str_def)
qed


definition demoBytes :: "nat \<Rightarrow> byte list" where
  "demoBytes i = (if i = 0 then str ''aaaaa'' else if i = 1 then str ''bbbbb'' else str ''ccccc'')"

lemma alias_mint_terminates_witness: "\<exists>a. mintAliasLocked demoBytes demoTwo = Some a \<and> length a = 8"
proof -
  have "length (m_sessions demoTwo) < card (set (map (aliasOf \<circ> demoBytes) [0, 1, 2]))"
    by code_simp
  moreover have "{0..2} = {0, 1, 2 :: nat}" by auto
  then have "set (map (aliasOf \<circ> demoBytes) [0, 1, 2]) = aliasOf ` demoBytes ` {0..2}" by simp
  ultimately show ?thesis
    using alias_mint_terminates [of demoTwo demoBytes 2] by auto
qed

end
