(* ===== verification/Scrollback.thy ===== *)
theory Scrollback
  imports Wire
begin

text \<open>
  The scrollback ring (\<^verbatim>\<open>src/terminal/scrollback.go\<close>): a bounded buffer of the lines that left the
  screen, addressed by an absolute index that is never reused. The invariant relates the ring to
  the list of its retained lines, oldest first; the locale at the end states what a replay client
  relies on and is interpreted on the ring.
\<close>

section \<open>Definitions\<close>

record scrollbackRing =
  sbBuf :: "wire_run list list"
  sbWrap :: "bool list"
  sbCapacity :: int
  sbStart :: int
  sbCount :: int
  sbCommitted :: u64

definition newScrollbackRing :: "int \<Rightarrow> scrollbackRing" where
  "newScrollbackRing capacity = \<lparr>sbBuf = [], sbWrap = [], sbCapacity = max capacity 0, sbStart = 0,
     sbCount = 0, sbCommitted = 0\<rparr>"

definition appendLine :: "wire_run list \<times> bool \<Rightarrow> scrollbackRing \<Rightarrow> scrollbackRing option" where
  "appendLine lw r = (case lw of (line, w) \<Rightarrow> do {
     r \<leftarrow> (if int (length (sbBuf r)) < sbCapacity r
          then Some (r\<lparr>sbBuf := sbBuf r @ [line], sbWrap := sbWrap r @ [w], sbCount := sbCount r + 1\<rparr>)
          else do {
            B \<leftarrow> set_at (sbBuf r) (sbStart r) line;
            W \<leftarrow> set_at (sbWrap r) (sbStart r) w;
            Some (r\<lparr>sbBuf := B, sbWrap := W, sbStart := (sbStart r + 1) mod sbCapacity r\<rparr>) });
     Some (r\<lparr>sbCommitted := sbCommitted r + 1\<rparr>) })"

text \<open>\<^verbatim>\<open>i < len(wrapped) && wrapped[i]\<close> for each line.\<close>

definition wrapFlags :: "nat \<Rightarrow> bool list \<Rightarrow> bool list" where
  "wrapFlags n ws = map (\<lambda>i. i < length ws \<and> ws ! i) [0..<n]"

definition Append :: "wire_run list list \<Rightarrow> bool list \<Rightarrow> scrollbackRing \<Rightarrow> scrollbackRing option" where
  "Append ls ws r = (if sbCapacity r = 0 then Some (r\<lparr>sbCommitted := sbCommitted r + of_nat (length ls)\<rparr>)
     else foldM appendLine (zip ls (wrapFlags (length ls) ws)) r)"

definition ring_at :: "int \<Rightarrow> scrollbackRing \<Rightarrow> (wire_run list \<times> bool) option" where
  "ring_at i r = (let j = (sbStart r + i) mod int (length (sbBuf r)) in do {
     l \<leftarrow> get_at (sbBuf r) j;
     w \<leftarrow> get_at (sbWrap r) j;
     Some (l, w) })"

definition Committed :: "scrollbackRing \<Rightarrow> u64" where
  "Committed r = sbCommitted r"

definition OldestIndex :: "scrollbackRing \<Rightarrow> u64" where
  "OldestIndex r = sbCommitted r - word_of_int (sbCount r)"

definition ringLines :: "int \<Rightarrow> int \<Rightarrow> scrollbackRing \<Rightarrow> wire_run list list option" where
  "ringLines lo hi r = mapM (\<lambda>i. get_at (sbBuf r) ((sbStart r + i) mod int (length (sbBuf r)))) [lo..hi - 1]"

definition LinesFrom :: "u64 \<Rightarrow> scrollbackRing \<Rightarrow> (u64 \<times> wire_run list list) option" where
  "LinesFrom a r = (if sbCount r = 0 \<or> a \<ge> sbCommitted r then Some (sbCommitted r, [])
     else do {
       let oldest = OldestIndex r;
       let start = max a oldest;
       let skip = uint (start - oldest);
       out \<leftarrow> ringLines skip (sbCount r) r;
       Some (start, out) })"

definition LinesRange :: "u64 \<Rightarrow> int \<Rightarrow> scrollbackRing \<Rightarrow> (u64 \<times> wire_run list list) option" where
  "LinesRange a maxLines r = (if sbCount r = 0 \<or> a \<ge> sbCommitted r \<or> maxLines \<le> 0
     then Some (sbCommitted r, [])
     else do {
       let oldest = OldestIndex r;
       let start = max a oldest;
       let skip = uint (start - oldest);
       let avail = sbCount r - skip;
       let take = min avail maxLines;
       out \<leftarrow> ringLines skip (skip + take) r;
       Some (start, out) })"

definition Lines :: "scrollbackRing \<Rightarrow> wire_run list list option" where
  "Lines r = (if sbCount r = 0 then Some [] else ringLines 0 (sbCount r) r)"

definition ring_clear :: "scrollbackRing \<Rightarrow> scrollbackRing" where
  "ring_clear r = r\<lparr>sbBuf := [], sbWrap := [], sbStart := 0, sbCount := 0\<rparr>"

definition ring_len :: "scrollbackRing \<Rightarrow> int" where
  "ring_len r = sbCount r"

section \<open>The retained lines\<close>

definition ring_ok :: "scrollbackRing \<Rightarrow> bool" where
  "ring_ok r \<longleftrightarrow> 0 \<le> sbCapacity r \<and> int (length (sbBuf r)) \<le> sbCapacity r
     \<and> length (sbWrap r) = length (sbBuf r) \<and> sbCount r = int (length (sbBuf r))
     \<and> 0 \<le> sbStart r \<and> (sbBuf r = [] \<longrightarrow> sbStart r = 0) \<and> (sbBuf r \<noteq> [] \<longrightarrow> sbStart r < sbCount r)
     \<and> (sbCount r < sbCapacity r \<longrightarrow> sbStart r = 0) \<and> length (sbBuf r) \<le> unat (sbCommitted r)"

definition retained :: "scrollbackRing \<Rightarrow> (wire_run list \<times> bool) list" where
  "retained r = (let z = zip (sbBuf r) (sbWrap r); k = nat (sbStart r) in drop k z @ take k z)"

text \<open>The newest lines of a list, as many as the capacity holds.\<close>

definition newest :: "int \<Rightarrow> 'a list \<Rightarrow> 'a list" where
  "newest c xs = drop (length xs - nat c) xs"

lemma newest_snoc: "0 < c \<Longrightarrow> length xs \<le> nat c \<Longrightarrow>
    newest c (xs @ [x]) = (if int (length xs) < c then xs @ [x] else tl xs @ [x])"
  by (cases xs) (auto simp: newest_def Suc_diff_le)

lemma newest_append: "newest c (newest c xs @ ys) = newest c (xs @ ys)"
proof (cases "nat c \<le> length xs")
  case True
  then show ?thesis by (cases "length ys \<le> nat c") (auto simp: newest_def add.commute)
next
  case False
  then show ?thesis by (simp add: newest_def)
qed

lemma length_retained: "ring_ok r \<Longrightarrow> length (retained r) = length (sbBuf r)"
  by (auto simp: retained_def ring_ok_def Let_def)

lemma new_ok: "ring_ok (newScrollbackRing c)" "retained (newScrollbackRing c) = []"
  by (simp_all add: newScrollbackRing_def ring_ok_def retained_def)

lemma clear_ok: "ring_ok r \<Longrightarrow> ring_ok (ring_clear r)" "retained (ring_clear r) = []"
  by (simp_all add: ring_clear_def ring_ok_def retained_def)

lemma rotate_step:
  assumes "k < length z"
  shows "drop (Suc k mod length z) (z[k := x]) @ take (Suc k mod length z) (z[k := x]) = tl (drop k z @ take k z) @ [x]"
proof (cases "Suc k < length z")
  case True
  have "drop k z = z ! k # drop (Suc k) z" using assms by (simp add: Cons_nth_drop_Suc)
  moreover have "take (Suc k) (z[k := x]) = take k z @ [x]" using assms by (simp add: take_Suc_conv_app_nth)
  ultimately show ?thesis using True by simp
next
  case False
  with assms have l: "length z = Suc k" by simp
  then have "drop k z = [z ! k]" "z[k := x] = take k z @ [x]"
    using Cons_nth_drop_Suc [OF assms] upd_conv_take_nth_drop [OF assms] by simp_all
  then show ?thesis using l by simp
qed

lemma zip_update: "length b = length a \<Longrightarrow> zip (a[k := x]) (b[k := y]) = (zip a b)[k := (x, y)]"
  by (simp add: update_zip)

text \<open>Appending one line keeps the invariant and the newest lines.\<close>

lemma appendLine_ok:
  assumes "ring_ok r" "0 < sbCapacity r" "unat (sbCommitted r) < 2 ^ 64 - 1"
  shows "ensures (appendLine lw r) (\<lambda>q. ring_ok q \<and> retained q = newest (sbCapacity r) (retained r @ [lw])
     \<and> sbCapacity q = sbCapacity r \<and> sbCommitted q = sbCommitted r + 1)"
proof (cases lw)
  case (Pair line w)
  have c: "unat (sbCommitted r + 1) = Suc (unat (sbCommitted r))"
    using assms(3) by (simp add: unat_word_ariths)
  have n: "length (retained r) \<le> nat (sbCapacity r)"
    using length_retained [OF assms(1)] assms(1) by (simp add: ring_ok_def nat_le_iff [symmetric] le_nat_iff)
  show ?thesis
  proof (cases "int (length (sbBuf r)) < sbCapacity r")
    case True
    with assms(1) have "sbStart r = 0" by (simp add: ring_ok_def)
    with True assms(1) c n newest_snoc [OF assms(2) n, of lw] show ?thesis
      by (auto simp: appendLine_def Pair ring_ok_def retained_def)
  next
    case False
    let ?k = "nat (sbStart r)" and ?z = "zip (sbBuf r) (sbWrap r)"
    have full: "int (length (sbBuf r)) = sbCapacity r" "sbBuf r \<noteq> []" "length (sbWrap r) = length (sbBuf r)"
      "0 \<le> sbStart r" "sbStart r < sbCapacity r"
      using False assms by (auto simp: ring_ok_def)
    have k: "?k < length ?z" "nat ((sbStart r + 1) mod sbCapacity r) = Suc ?k mod length ?z"
      using full by (simp_all add: nat_mod_distrib Suc_nat_eq_nat_zadd1 add.commute flip: full(1))
    let ?q = "r\<lparr>sbBuf := (sbBuf r)[?k := line], sbWrap := (sbWrap r)[?k := w],
       sbStart := (sbStart r + 1) mod sbCapacity r, sbCommitted := sbCommitted r + 1\<rparr>"
    have "appendLine lw r = Some ?q"
      using full False by (simp add: appendLine_def Pair set_at_Some)
    moreover have "retained ?q = tl (retained r) @ [lw]"
      using rotate_step [OF k(1), of "(line, w)"] full(3)
      by (simp add: retained_def Let_def Pair zip_update k(2))
    moreover have "ring_ok ?q" using assms(1,2) full c by (auto simp: ring_ok_def)
    ultimately show ?thesis
      using newest_snoc [OF assms(2) n, of lw] length_retained [OF assms(1)] full(1) by simp
  qed
qed

lemma appendLines_ok:
  assumes "ring_ok r" "0 < sbCapacity r" "unat (sbCommitted r) + length xs < 2 ^ 64"
  shows "ensures (foldM appendLine xs r) (\<lambda>q. ring_ok q \<and> retained q = newest (sbCapacity r) (retained r @ xs)
     \<and> sbCapacity q = sbCapacity r \<and> unat (sbCommitted q) = unat (sbCommitted r) + length xs)"
  using assms
proof (induction xs arbitrary: r)
  case Nil
  have "length (retained r) \<le> nat (sbCapacity r)"
    using length_retained [OF Nil(1)] Nil(1) by (simp add: ring_ok_def le_nat_iff)
  with Nil show ?case by (simp add: newest_def)
next
  case (Cons x xs)
  have "unat (sbCommitted r) < 2 ^ 64 - 1" using Cons.prems(3) by simp
  from appendLine_ok [OF Cons.prems(1,2) this, of x] obtain q where q: "appendLine x r = Some q" "ring_ok q"
    "retained q = newest (sbCapacity r) (retained r @ [x])" "sbCapacity q = sbCapacity r"
    "sbCommitted q = sbCommitted r + 1" by (auto simp: ensures_iff)
  have c: "unat (sbCommitted q) = Suc (unat (sbCommitted r))"
    using Cons.prems(3) q(5) by (simp add: unat_word_ariths)
  have "ensures (foldM appendLine xs q) (\<lambda>u. ring_ok u \<and> retained u = newest (sbCapacity q) (retained q @ xs)
     \<and> sbCapacity u = sbCapacity q \<and> unat (sbCommitted u) = unat (sbCommitted q) + length xs)"
    by (rule Cons.IH) (use q c Cons.prems in simp_all)
  then have "ensures (foldM appendLine xs q) (\<lambda>u. ring_ok u
     \<and> retained u = newest (sbCapacity r) (retained r @ x # xs)
     \<and> sbCapacity u = sbCapacity r \<and> unat (sbCommitted u) = unat (sbCommitted r) + length (x # xs))"
    by (rule ensures_mono) (simp add: q newest_append c [unfolded q(5)])
  with q(1) show ?case by simp
qed

lemma Append_ok:
  assumes "ring_ok r" "unat (sbCommitted r) + length ls < 2 ^ 64"
  shows "ensures (Append ls ws r) (\<lambda>q. ring_ok q
     \<and> retained q = newest (sbCapacity r) (retained r @ zip ls (wrapFlags (length ls) ws))
     \<and> sbCapacity q = sbCapacity r \<and> unat (sbCommitted q) = unat (sbCommitted r) + length ls)"
proof (cases "sbCapacity r = 0")
  case True
  then have "retained r = []" using length_retained [OF assms(1)] assms(1) by (simp add: ring_ok_def)
  moreover have "unat (sbCommitted r + of_nat (length ls)) = unat (sbCommitted r) + length ls"
    using assms(2) by (simp add: unat_word_ariths unat_of_nat)
  ultimately show ?thesis
    using True assms(1) by (simp add: Append_def newest_def ring_ok_def retained_def)
next
  case False
  then have "0 < sbCapacity r" using assms(1) by (simp add: ring_ok_def)
  from appendLines_ok [OF assms(1) this, of "zip ls (wrapFlags (length ls) ws)"] assms(2) False show ?thesis
    by (simp add: Append_def wrapFlags_def)
qed

section \<open>Reading\<close>

lemma nth_rotated: "k < length z \<Longrightarrow> i < length z \<Longrightarrow> (drop k z @ take k z) ! i = z ! ((k + i) mod length z)"
  by (auto simp: nth_append mod_if add.commute)

lemma ring_index:
  assumes "ring_ok r" "0 \<le> i" "i < sbCount r"
  shows "(sbStart r + i) mod int (length (sbBuf r)) = int ((nat (sbStart r) + nat i) mod length (sbBuf r))"
  using assms by (simp add: ring_ok_def zmod_int)

lemma ring_at_eq:
  assumes "ring_ok r" "0 \<le> i" "i < sbCount r"
  shows "ring_at i r = Some (retained r ! nat i)"
proof -
  let ?z = "zip (sbBuf r) (sbWrap r)" and ?k = "nat (sbStart r)"
  have l: "length (sbWrap r) = length (sbBuf r)" "nat i < length (sbBuf r)" "?k < length (sbBuf r)"
    using assms by (auto simp: ring_ok_def)
  have m: "(?k + nat i) mod length (sbBuf r) < length (sbBuf r)" using l(2) by (intro mod_less_divisor) linarith
  have "retained r ! nat i = ?z ! ((?k + nat i) mod length ?z)"
    unfolding retained_def Let_def by (rule nth_rotated) (use l in simp_all)
  with m l show ?thesis by (simp add: ring_at_def Let_def ring_index [OF assms] get_at_Some)
qed

lemma mapM_map: "(\<And>x. x \<in> set xs \<Longrightarrow> f x = Some (g x)) \<Longrightarrow> mapM f xs = Some (map g xs)"
  by (induction xs) simp_all

lemma map_upto_nth: "0 \<le> lo \<Longrightarrow> hi \<le> int (length xs) \<Longrightarrow>
    map (\<lambda>i. xs ! nat i) [lo..hi - 1] = take (nat (hi - lo)) (drop (nat lo) xs)"
  by (rule nth_equalityI) (auto simp: upto_nth nat_add_distrib)

lemma ringLines_eq:
  assumes "ring_ok r" "0 \<le> lo" "hi \<le> sbCount r"
  shows "ringLines lo hi r = Some (take (nat (hi - lo)) (drop (nat lo) (map fst (retained r))))"
proof -
  have "get_at (sbBuf r) ((sbStart r + i) mod int (length (sbBuf r))) = Some (map fst (retained r) ! nat i)"
    if "i \<in> set [lo..hi - 1]" for i
  proof -
    have i: "0 \<le> i" "i < sbCount r" using that assms by auto
    have "nat i < length (retained r)" using i assms(1) length_retained [OF assms(1)] by (auto simp: ring_ok_def)
    with ring_at_eq [OF assms(1) i] show ?thesis
      by (auto simp: ring_at_def Let_def split: bind_splits dest: sym)
  qed
  then have "ringLines lo hi r = Some (map (\<lambda>i. map fst (retained r) ! nat i) [lo..hi - 1])"
    unfolding ringLines_def by (rule mapM_map)
  moreover have "hi \<le> int (length (map fst (retained r)))"
    using assms length_retained [OF assms(1)] by (simp add: ring_ok_def)
  ultimately show ?thesis using map_upto_nth [OF assms(2)] by metis
qed

section \<open>What a replaying client relies on\<close>

text \<open>
  The ring against the list of every line ever committed: it holds the newest of them (fewer
  after a clear), under their absolute indices.
\<close>

definition ring_holds :: "scrollbackRing \<Rightarrow> wire_run list list \<Rightarrow> bool" where
  "ring_holds r H \<longleftrightarrow> ring_ok r \<and> unat (sbCommitted r) = length H
     \<and> map fst (retained r) = drop (length H - length (sbBuf r)) H"

definition ring_push :: "wire_run list list \<Rightarrow> scrollbackRing \<Rightarrow> scrollbackRing option" where
  "ring_push ls r = Append ls [] r"

definition ring_read :: "nat \<Rightarrow> scrollbackRing \<Rightarrow> (nat \<times> wire_run list list) option" where
  "ring_read a r = map_option (\<lambda>(first, ls). (unat first, ls)) (LinesFrom (of_nat a) r)"

text \<open>The client's store: a map from absolute index to line, written idempotently.\<close>

definition deliver :: "nat \<times> 'l list \<Rightarrow> (nat \<Rightarrow> 'l option) \<Rightarrow> nat \<Rightarrow> 'l option" where
  "deliver f m i = (case f of (first, ls) \<Rightarrow>
     if first \<le> i \<and> i < first + length ls then Some (ls ! (i - first)) else m i)"

definition agrees :: "(nat \<Rightarrow> 'l option) \<Rightarrow> 'l list \<Rightarrow> bool" where
  "agrees m H \<longleftrightarrow> (\<forall>i l. m i = Some l \<longrightarrow> i < length H \<and> H ! i = l)"

lemma agrees_push: "agrees m H \<Longrightarrow> agrees m (H @ ls)"
  by (fastforce simp: agrees_def nth_append)

lemma deliver_tail: "agrees m H \<Longrightarrow> first \<le> length H \<Longrightarrow> agrees (deliver (first, drop first H) m) H"
  by (auto simp: agrees_def deliver_def split: if_splits)

lemma deliver_again: "deliver f (deliver f m) = deliver f m"
  by (rule ext) (simp add: deliver_def split: prod.split)

text \<open>
  The contract: \<open>holds s H\<close> relates a log to the list of all lines pushed so far. A read from an
  index returns the tail of that list from an index that is no smaller, and from that index
  itself when nothing from there on was dropped.
\<close>

locale line_log =
  fixes holds :: "'s \<Rightarrow> 'l list \<Rightarrow> bool" and push :: "'l list \<Rightarrow> 's \<Rightarrow> 's option"
    and clear :: "'s \<Rightarrow> 's" and read :: "nat \<Rightarrow> 's \<Rightarrow> (nat \<times> 'l list) option" and limit :: nat
  assumes push: "holds s H \<Longrightarrow> length H + length ls < limit \<Longrightarrow> ensures (push ls s) (\<lambda>t. holds t (H @ ls))"
    and clear: "holds s H \<Longrightarrow> holds (clear s) H"
    and read: "holds s H \<Longrightarrow> a < limit \<Longrightarrow>
      ensures (read a s) (\<lambda>(first, ls). first \<le> length H \<and> (a \<le> length H \<longrightarrow> a \<le> first) \<and> ls = drop first H)"
begin

text \<open>A reply read from the log keeps the store right and fills it up to the newest line.\<close>

lemma replay:
  assumes "holds s H" "a < limit" "agrees m H"
  shows "ensures (read a s) (\<lambda>f. agrees (deliver f m) H
     \<and> (\<forall>i. fst f \<le> i \<and> i < length H \<longrightarrow> deliver f m i = Some (H ! i)))"
  by (rule ensures_mono [OF read [OF assms(1,2)]])
    (use deliver_tail [OF assms(3)] in \<open>auto simp: deliver_def\<close>)

end

lemma ring_holds_length: "ring_holds r H \<Longrightarrow> length (sbBuf r) \<le> length H"
  by (simp add: ring_holds_def ring_ok_def)

lemma drop_own: "drop (length X - length (drop m X)) X = drop m X"
  by (cases "m \<le> length X") simp_all

lemma newest_drop:
  assumes "k \<le> length H"
  shows "newest c (drop k H @ ls) = drop (length (H @ ls) - length (newest c (drop k H @ ls))) (H @ ls)"
proof -
  have "drop k H @ ls = drop k (H @ ls)" using assms by simp
  then have "newest c (drop k H @ ls) = drop (length (drop k H @ ls) - nat c + k) (H @ ls)"
    unfolding newest_def by (metis drop_drop)
  then show ?thesis using drop_own [of "H @ ls"] by simp
qed

lemma map_newest: "map f (newest c xs) = newest c (map f xs)"
  by (simp add: newest_def drop_map)

lemma map_fst_flags: "map fst (zip ls (wrapFlags (length ls) ws)) = ls"
  by (simp add: wrapFlags_def)

lemma ring_push_holds:
  assumes "ring_holds r H" "length H + length ls < 2 ^ 64"
  shows "ensures (Append ls ws r) (\<lambda>q. ring_holds q (H @ ls))"
proof -
  have r: "ring_ok r" "unat (sbCommitted r) + length ls < 2 ^ 64" "unat (sbCommitted r) = length H"
    "map fst (retained r) = drop (length H - length (sbBuf r)) H"
    using assms by (simp_all add: ring_holds_def)
  show ?thesis
  proof (rule ensures_mono [OF Append_ok [OF r(1,2)]])
    fix q assume q: "ring_ok q \<and> retained q = newest (sbCapacity r) (retained r @ zip ls (wrapFlags (length ls) ws))
       \<and> sbCapacity q = sbCapacity r \<and> unat (sbCommitted q) = unat (sbCommitted r) + length ls"
    have m: "map fst (retained q) = newest (sbCapacity r) (drop (length H - length (sbBuf r)) H @ ls)"
      using q r(4) by (simp add: map_newest map_fst_flags)
    have "length (sbBuf q) = length (newest (sbCapacity r) (drop (length H - length (sbBuf r)) H @ ls))"
      using arg_cong [OF m, of length] length_retained [of q] q by simp
    with m q r(3) newest_drop [of "length H - length (sbBuf r)" H "sbCapacity r" ls]
    show "ring_holds q (H @ ls)" by (simp add: ring_holds_def)
  qed
qed

lemma ring_clear_holds: "ring_holds r H \<Longrightarrow> ring_holds (ring_clear r) H"
  using clear_ok by (auto simp: ring_holds_def ring_clear_def)

lemma oldest_eq:
  assumes "ring_holds r H"
  shows "unat (OldestIndex r) = length H - length (sbBuf r)"
proof -
  have c: "sbCount r = int (length (sbBuf r))" "length (sbBuf r) \<le> length H" "unat (sbCommitted r) = length H"
    using assms by (simp_all add: ring_holds_def ring_ok_def)
  have H: "length H < 2 ^ 64" using c(3) u64_bound [of "sbCommitted r"] by simp
  have "OldestIndex r = of_nat (length H) - of_nat (length (sbBuf r))"
    using c(1) by (simp add: OldestIndex_def flip: c(3))
  also have "\<dots> = of_nat (length H - length (sbBuf r))" using c(2) by (simp add: of_nat_diff)
  finally show ?thesis using H by (simp add: unat_of_nat)
qed

lemma linesFrom_eq:
  assumes "ring_holds r H"
  shows "\<exists>first. LinesFrom a r = Some (first, drop (unat first) H)
     \<and> unat first = (if sbBuf r = [] \<or> unat a \<ge> length H then length H
          else max (unat a) (length H - length (sbBuf r)))"
proof (cases "sbCount r = 0 \<or> a \<ge> sbCommitted r")
  case True
  with assms show ?thesis
    by (auto simp: LinesFrom_def ring_holds_def ring_ok_def word_le_nat_alt)
next
  case False
  have c: "ring_ok r" "sbCount r = int (length (sbBuf r))" "length (sbBuf r) \<le> length H" "unat (sbCommitted r) = length H"
    "map fst (retained r) = drop (length H - length (sbBuf r)) H"
    using assms by (simp_all add: ring_holds_def) (simp_all add: ring_ok_def)
  let ?o = "OldestIndex r" let ?s = "max a ?o"
  note o = oldest_eq [OF assms]
  have s: "unat ?s = max (unat a) (length H - length (sbBuf r))"
    using o by (auto simp: max_def word_le_nat_alt)
  have a: "unat a < length H" using False c(4) by (simp add: word_le_nat_alt not_le word_less_nat_alt)
  have k: "uint (?s - ?o) = int (unat ?s - unat ?o)"
    using unat_sub [of ?o ?s] by (simp only: max.cobounded2 uint_nat)
  have "ringLines (uint (?s - ?o)) (sbCount r) r
      = Some (drop (unat ?s - unat ?o) (map fst (retained r)))"
    using ringLines_eq [OF c(1), of "uint (?s - ?o)" "sbCount r"] length_retained [OF c(1)] c(2) k by simp
  also have "drop (unat ?s - unat ?o) (map fst (retained r)) = drop (unat ?s) H"
    using c(5) s o by (simp add: add.commute)
  finally have "LinesFrom a r = Some (?s, drop (unat ?s) H)"
    using False by (simp add: LinesFrom_def Let_def)
  moreover have "sbBuf r \<noteq> []" using False c(2) by auto
  ultimately show ?thesis using s a by auto
qed

interpretation ring: line_log ring_holds ring_push ring_clear ring_read "2 ^ 64"
proof
  fix r H and ls :: "wire_run list list"
  assume "ring_holds r H" "length H + length ls < 2 ^ 64"
  then show "ensures (ring_push ls r) (\<lambda>t. ring_holds t (H @ ls))"
    unfolding ring_push_def by (rule ring_push_holds)
next
  fix r H assume "ring_holds r H"
  then show "ring_holds (ring_clear r) H" by (rule ring_clear_holds)
next
  fix r H and a :: nat
  assume h: "ring_holds r H" and a: "a < 2 ^ 64"
  obtain first where "LinesFrom (of_nat a) r = Some (first, drop (unat first) H)"
    "unat first = (if sbBuf r = [] \<or> unat (of_nat a :: u64) \<ge> length H then length H
        else max (unat (of_nat a :: u64)) (length H - length (sbBuf r)))"
    using linesFrom_eq [OF h, of "of_nat a"] by blast
  with a show "ensures (ring_read a r) (\<lambda>(first, ls). first \<le> length H \<and> (a \<le> length H \<longrightarrow> a \<le> first) \<and> ls = drop first H)"
    by (auto simp: ring_read_def unat_of_nat)
qed

section \<open>Properties\<close>

definition demoRun :: "wire_run" where
  "demoRun = \<lparr>wT = [0x41], wU = [], wF = -1, wB = -1, wUc = -1, wA = 0\<rparr>"

definition demoRing :: scrollbackRing where
  "demoRing = \<lparr>sbBuf = [[demoRun], []], sbWrap = [False, True], sbCapacity = 2, sbStart = 1, sbCount = 2,
     sbCommitted = 3\<rparr>"

lemma new_holds: "ring_holds (newScrollbackRing c) []"
  using new_ok [of c] by (simp add: ring_holds_def newScrollbackRing_def retained_def)

definition appendAll :: "(wire_run list list \<times> bool list) list \<Rightarrow> scrollbackRing \<Rightarrow> scrollbackRing option" where
  "appendAll = foldM (\<lambda>(ls, ws). Append ls ws)"

lemma newest_idem: "newest c (newest c xs) = newest c xs"
  using newest_append [of c xs "[]"] by simp

lemma appendAll_ok:
  assumes "ring_ok r" "unat (sbCommitted r) + length (concat (map fst bs)) < 2 ^ 64"
  shows "ensures (appendAll bs r) (\<lambda>q. ring_ok q \<and> sbCapacity q = sbCapacity r
     \<and> map fst (retained q) = newest (sbCapacity r) (map fst (retained r) @ concat (map fst bs))
     \<and> unat (sbCommitted q) = unat (sbCommitted r) + length (concat (map fst bs)))"
  using assms
proof (induction bs arbitrary: r)
  case Nil
  have "length (retained r) \<le> nat (sbCapacity r)"
    using length_retained [OF Nil(1)] Nil(1) by (simp add: ring_ok_def le_nat_iff)
  with Nil show ?case by (simp add: appendAll_def newest_def)
next
  case (Cons b bs)
  obtain ls ws where b: "b = (ls, ws)" by (cases b)
  have n: "unat (sbCommitted r) + length ls < 2 ^ 64" using Cons.prems(2) b by simp
  from Append_ok [OF Cons.prems(1) n, of ws] obtain q where q: "Append ls ws r = Some q" "ring_ok q"
    "retained q = newest (sbCapacity r) (retained r @ zip ls (wrapFlags (length ls) ws))"
    "sbCapacity q = sbCapacity r" "unat (sbCommitted q) = unat (sbCommitted r) + length ls"
    by (auto simp: ensures_iff)
  have m: "map fst (retained q) = newest (sbCapacity r) (map fst (retained r) @ ls)"
    using q(3) by (simp add: map_newest map_fst_flags)
  have "ensures (appendAll bs q) (\<lambda>u. ring_ok u \<and> sbCapacity u = sbCapacity q
     \<and> map fst (retained u) = newest (sbCapacity q) (map fst (retained q) @ concat (map fst bs))
     \<and> unat (sbCommitted u) = unat (sbCommitted q) + length (concat (map fst bs)))"
    by (rule Cons.IH) (use q b Cons.prems in simp_all)
  with q m b show ?case by (simp add: appendAll_def newest_append add.assoc)
qed

text \<open>
  C11: a scrollback ring of capacity c, after any sequence of appends, retains exactly the newest c
  lines of everything appended, in order; the committed count is the number of lines ever
  appended, evicted ones included, and no append panics.
\<close>

theorem ring_keeps_newest:
  assumes "length (concat (map fst bs)) < 2 ^ 64"
  shows "\<exists>r. appendAll bs (newScrollbackRing c) = Some r
     \<and> Lines r = Some (newest (max c 0) (concat (map fst bs)))
     \<and> unat (Committed r) = length (concat (map fst bs))"
proof -
  have "unat (sbCommitted (newScrollbackRing c)) + length (concat (map fst bs)) < 2 ^ 64"
    using assms by (simp add: newScrollbackRing_def)
  from appendAll_ok [OF new_ok(1) this] obtain r where r: "appendAll bs (newScrollbackRing c) = Some r" "ring_ok r"
    "map fst (retained r) = newest (max c 0) (concat (map fst bs))"
    "unat (sbCommitted r) = length (concat (map fst bs))"
    by (auto simp: ensures_iff new_ok(2)) (simp add: newScrollbackRing_def)
  have c: "sbCount r = int (length (map fst (retained r)))"
    using r(2) length_retained [OF r(2)] by (simp add: ring_ok_def)
  have "Lines r = Some (map fst (retained r))"
    using ringLines_eq [OF r(2), of 0 "sbCount r"] c by (simp add: Lines_def)
  with r show ?thesis by (simp add: Committed_def)
qed

lemma ring_keeps_newest_witness:
  "\<exists>r. appendAll [([[], [demoRun]], []), ([[demoRun, demoRun]], [True])] (newScrollbackRing 2) = Some r
     \<and> Lines r = Some [[demoRun], [demoRun, demoRun]]
     \<and> unat (Committed r) = 3"
  using ring_keeps_newest [of "[([[], [demoRun]], []), ([[demoRun, demoRun]], [True])]" 2] by (simp add: newest_def numeral_3_eq_3)

text \<open>
  Resuming from an index is safe and complete: the reply to a resume, applied to a client store
  that agrees with the history, leaves it in agreement and holding every line from the reply's
  first index up to the newest; the first index is never below the one asked for, and applying a
  reply a second time changes nothing.
\<close>

theorem replay_completes_store:
  assumes "ring_holds r H" "agrees m H" "unat a \<le> length H"
  shows "\<exists>first ls. LinesFrom a r = Some (first, ls) \<and> a \<le> first
     \<and> agrees (deliver (unat first, ls) m) H
     \<and> (\<forall>i. unat first \<le> i \<longrightarrow> i < length H \<longrightarrow> deliver (unat first, ls) m i = Some (H ! i))
     \<and> deliver (unat first, ls) (deliver (unat first, ls) m) = deliver (unat first, ls) m"
proof -
  obtain first where f: "LinesFrom a r = Some (first, drop (unat first) H)" "unat a \<le> unat first"
    using linesFrom_eq [OF assms(1), of a] assms(3) by (auto split: if_splits)
  have "ring_read (unat a) r = Some (unat first, drop (unat first) H)"
    using f(1) by (simp add: ring_read_def)
  with ring.replay [OF assms(1) u64_bound assms(2), of a]
  show ?thesis using f deliver_again by (auto simp: word_le_nat_alt)
qed

lemma demoRing_holds: "ring_holds demoRing [[], [], [demoRun]]"
  by (simp add: ring_holds_def demoRing_def ring_ok_def retained_def)

lemma replay_completes_store_witness:
  "\<exists>first ls. LinesFrom 0 demoRing = Some (first, ls) \<and> agrees (deliver (unat first, ls) (\<lambda>_. None)) [[], [], [demoRun]]"
  using replay_completes_store [OF demoRing_holds, of "\<lambda>_. None" 0] by (auto simp: agrees_def)

text \<open>
  A history page is the beginning of the full reply: asking for at most n lines from an index
  returns the first n of the lines a resume from that index would return, under the same first
  index.
\<close>

lemma page_is_prefix:
  assumes "ring_ok r" "0 < n"
  shows "LinesRange a n r = map_option (\<lambda>(first, ls). (first, take (nat n) ls)) (LinesFrom a r)"
proof (cases "sbCount r = 0 \<or> a \<ge> sbCommitted r")
  case True
  then show ?thesis by (auto simp: LinesRange_def LinesFrom_def)
next
  case False
  define p where "p = uint (max a (OldestIndex r) - OldestIndex r)"
  define X where "X = drop (nat p) (map fst (retained r))"
  have p: "0 \<le> p" "p + min (sbCount r - p) n \<le> sbCount r" by (simp_all add: p_def)
  have lf: "LinesFrom a r = Some (max a (OldestIndex r), take (nat (sbCount r - p)) X)"
    using False ringLines_eq [OF assms(1) p(1), of "sbCount r"]
    by (simp add: LinesFrom_def Let_def X_def flip: p_def)
  have "LinesRange a n r = Some (max a (OldestIndex r), take (nat (min (sbCount r - p) n)) X)"
    using False assms(2) ringLines_eq [OF assms(1) p]
    by (simp add: LinesRange_def Let_def X_def flip: p_def)
  moreover have "nat (min (sbCount r - p) n) = min (nat n) (nat (sbCount r - p))" by simp
  ultimately show ?thesis by (simp only: lf take_take option.map prod.case)
qed

lemma page_is_prefix_witness:
  "LinesRange 1 1 demoRing = map_option (\<lambda>(first, ls). (first, take 1 ls)) (LinesFrom 1 demoRing)"
  using page_is_prefix [of demoRing 1 1] by (simp add: demoRing_def ring_ok_def)

end
