(* ===== verification/Frames.thy ===== *)
theory Frames
  imports Scrollback Utf8
begin

text \<open>
  The binary frames of the server (\<^verbatim>\<open>src/terminal/wire_binary.go\<close>). The encoders are translated as
  they are written; a decoder is written here from the byte layout of the protocol document, as
  the specification the encoders are proved against. A run's text is a Go string, the UTF-8
  encoding of its runes.
\<close>

section \<open>Little-endian fields\<close>

fun leBytes :: "nat \<Rightarrow> nat \<Rightarrow> byte list" where
  "leBytes 0 v = []"
| "leBytes (Suc n) v = of_nat v # leBytes n (v div 256)"

fun leValue :: "byte list \<Rightarrow> nat" where
  "leValue [] = 0"
| "leValue (b # bs) = unat b + 256 * leValue bs"

lemma length_leBytes [simp]: "length (leBytes n v) = n"
  by (induction n arbitrary: v) simp_all

lemma leValue_leBytes: "leValue (leBytes n v) = v mod 256 ^ n"
  by (induction n arbitrary: v) (simp_all add: unat_of_nat mod_mult2_eq)

definition appendU16 :: "byte list \<Rightarrow> u16 \<Rightarrow> byte list" where
  "appendU16 buf v = buf @ leBytes 2 (unat v)"

definition appendU32 :: "byte list \<Rightarrow> 32 word \<Rightarrow> byte list" where
  "appendU32 buf v = buf @ leBytes 4 (unat v)"

definition appendU64 :: "byte list \<Rightarrow> u64 \<Rightarrow> byte list" where
  "appendU64 buf v = buf @ leBytes 8 (unat v)"

section \<open>Message types and flags\<close>

definition wireMsgScreen :: byte where "wireMsgScreen = 0"
definition wireMsgScroll :: byte where "wireMsgScroll = 1"
definition wireMsgResumeAck :: byte where "wireMsgResumeAck = 2"
definition wireMsgModes :: byte where "wireMsgModes = 3"
definition wireMsgTitle :: byte where "wireMsgTitle = 4"
definition wireMsgPong :: byte where "wireMsgPong = 5"
definition wireMsgClipboard :: byte where "wireMsgClipboard = 6"
definition wireMsgAckOnly :: byte where "wireMsgAckOnly = 7"
definition WireProtocolVersion :: int where "WireProtocolVersion = 4"
definition MinSupportedClientWireVersion :: int where "MinSupportedClientWireVersion = 3"
definition wireAckOffset :: nat where "wireAckOffset = 1"
definition wireAckSize :: nat where "wireAckSize = 8"

record resumeAckFlags =
  LedgerLost :: bool
  HistoryPaging :: bool
  ServerFocus :: bool
  EphemeralInput :: bool

definition flagBit :: "nat \<Rightarrow> bool \<Rightarrow> byte" where
  "flagBit k b = (if b then push_bit k 1 else 0)"

definition flagBits :: "resumeAckFlags \<Rightarrow> byte" where
  "flagBits f = or (or (or (flagBit 0 (LedgerLost f)) (flagBit 1 (HistoryPaging f)))
     (flagBit 2 (ServerFocus f))) (flagBit 3 (EphemeralInput f))"

section \<open>Strings and rows\<close>

definition clampU16 :: "int \<Rightarrow> u16" where
  "clampU16 n = (if n < 0 then 0 else if n > 0xFFFF then 0xFFFF else word_of_int n)"

function trimValid :: "byte list \<Rightarrow> byte list" where
  "trimValid t = (if t \<noteq> [] \<and> \<not> validUtf8 t then trimValid (butlast t) else t)"
  by pat_completeness auto
termination
  by (relation "measure length") auto

declare trimValid.simps [simp del]

definition truncateUTF8 :: "byte list \<Rightarrow> nat \<Rightarrow> byte list" where
  "truncateUTF8 s maxBytes = (if length s \<le> maxBytes then s else trimValid (take maxBytes s))"

definition encodedRowCountSize :: nat where "encodedRowCountSize = 2"
definition encodedRunFixedSize :: nat where "encodedRunFixedSize = 18"
definition encodedScrollHeaderSize :: nat where "encodedScrollHeaderSize = 19"
definition pageByteBudget :: nat where "pageByteBudget = 256 * 1024"
definition rowByteCeiling :: nat where "rowByteCeiling = pageByteBudget - encodedScrollHeaderSize"

definition runText :: "wire_run \<Rightarrow> byte list" where
  "runText run = encodeRunes (wT run)"

definition encodedRowSize :: "wire_run list \<Rightarrow> nat" where
  "encodedRowSize runs = foldl (\<lambda>size run. size + encodedRunFixedSize
     + length (truncateUTF8 (runText run) 0xFFFF) + length (truncateUTF8 (wU run) 0xFFFF))
     encodedRowCountSize runs"

definition stripRowURIs :: "wire_run list \<Rightarrow> wire_run list" where
  "stripRowURIs runs = map (\<lambda>r. r\<lparr>wU := [], wA := and (wA r) (not AttrAutolink)\<rparr>) runs"

definition capRowRuns :: "wire_run list \<Rightarrow> wire_run list" where
  "capRowRuns runs = (if encodedRowSize runs \<le> rowByteCeiling then runs else stripRowURIs runs)"

definition appendRun :: "byte list \<Rightarrow> wire_run \<Rightarrow> byte list" where
  "appendRun buf run = (let
     txt = truncateUTF8 (runText run) 0xFFFF;
     buf = appendU16 buf (clampU16 (int (length txt)));
     buf = buf @ txt;
     buf = appendU32 buf (word_of_int (wF run));
     buf = appendU32 buf (word_of_int (wB run));
     buf = appendU16 buf (wA run);
     buf = appendU32 buf (word_of_int (wUc run));
     url = truncateUTF8 (wU run) 0xFFFF;
     buf = appendU16 buf (clampU16 (int (length url)))
   in buf @ url)"

definition appendRowRuns :: "byte list \<Rightarrow> wire_run list \<Rightarrow> byte list" where
  "appendRowRuns buf runs0 = (let runs = capRowRuns runs0
   in foldl appendRun (appendU16 buf (clampU16 (int (length runs)))) runs)"

section \<open>Frames\<close>

definition encodeScreenMsg :: "u64 \<Rightarrow> int \<Rightarrow> int \<Rightarrow> int \<Rightarrow> u64 \<Rightarrow> int list \<Rightarrow> wire_run list list \<Rightarrow> byte
    \<Rightarrow> bool \<Rightarrow> bool \<Rightarrow> bool \<Rightarrow> bool \<Rightarrow> bool \<Rightarrow> byte list" where
  "encodeScreenMsg base screenHeight curRow curCol ack changed rows cursorStyle cursorHidden cursorBlink
     bell altActive cleared = (let
     buf = [wireMsgScreen];
     buf = appendU64 buf ack;
     buf = appendU64 buf base;
     buf = appendU16 buf (clampU16 curRow);
     buf = appendU16 buf (clampU16 curCol);
     buf = appendU16 buf (clampU16 screenHeight);
     buf = appendU16 buf (clampU16 (int (length changed)));
     buf = buf @ [cursorStyle];
     cursorFlags = or (or (or (or (flagBit 0 cursorHidden) (flagBit 1 bell)) (flagBit 2 cursorBlink))
       (flagBit 3 altActive)) (flagBit 4 cleared);
     buf = buf @ [cursorFlags]
   in foldl (\<lambda>buf idx. let buf = appendU16 buf (clampU16 idx) in
        if idx \<ge> 0 \<and> idx < int (length rows) then appendRowRuns buf (rows ! nat idx)
        else appendU16 buf 0) buf changed)"

definition encodeScrollMsg :: "u64 \<Rightarrow> u64 \<Rightarrow> wire_run list list \<Rightarrow> byte list" where
  "encodeScrollMsg ack firstIndex ls = (let
     buf = [wireMsgScroll];
     buf = appendU64 buf ack;
     buf = appendU64 buf firstIndex;
     buf = appendU16 buf (clampU16 (int (length ls)))
   in foldl appendRowRuns buf ls)"

definition encodeResumeAck :: "u64 \<Rightarrow> int \<Rightarrow> u64 \<Rightarrow> u64 \<Rightarrow> resumeAckFlags \<Rightarrow> byte list" where
  "encodeResumeAck ack epochNanos committed oldestIndex flags = (let
     buf = [wireMsgResumeAck];
     buf = appendU64 buf ack;
     buf = appendU64 buf (word_of_int epochNanos);
     buf = appendU64 buf committed;
     buf = appendU64 buf oldestIndex
   in buf @ [word_of_int WireProtocolVersion, flagBits flags])"

definition encodeAckOnly :: "u64 \<Rightarrow> byte list" where
  "encodeAckOnly ack = appendU64 [wireMsgAckOnly] ack"

definition encodeModesMsg :: "bool \<Rightarrow> bool \<Rightarrow> bool \<Rightarrow> bool \<Rightarrow> bool \<Rightarrow> bool \<Rightarrow> bool \<Rightarrow> u16 \<Rightarrow> byte \<Rightarrow> byte list" where
  "encodeModesMsg bracketedPaste appCursorKeys mouseSGR focusReporting appKeypad reverseVideo mousePixels
     mouseMode kbdFlags = (let
     buf = appendU64 [wireMsgModes] 0;
     flags = or (or (or (or (or (or (flagBit 0 bracketedPaste) (flagBit 1 appCursorKeys)) (flagBit 2 mouseSGR))
       (flagBit 3 focusReporting)) (flagBit 4 appKeypad)) (flagBit 5 reverseVideo)) (flagBit 6 mousePixels);
     buf = buf @ [flags];
     buf = appendU16 buf mouseMode
   in buf @ [kbdFlags])"

definition encodePongMsg :: "byte list" where
  "encodePongMsg = appendU64 [wireMsgPong] 0"

definition encodeTitleMsg :: "byte list \<Rightarrow> byte list" where
  "encodeTitleMsg title0 = (let title = truncateUTF8 title0 0xFFFF;
     buf = appendU64 [wireMsgTitle] 0;
     buf = appendU16 buf (clampU16 (int (length title)))
   in buf @ title)"

definition encodeClipboardMsg :: "byte list \<Rightarrow> byte list" where
  "encodeClipboardMsg content = (let
     body = (if length content > 0xFFFF then take 0xFFFF content else content);
     buf = appendU64 [wireMsgClipboard] 0;
     buf = appendU16 buf (clampU16 (int (length body)))
   in buf @ body)"

definition withClientAck :: "byte list \<Rightarrow> u64 \<Rightarrow> byte list" where
  "withClientAck template ack = (if length template \<ge> wireAckOffset + wireAckSize
     then take wireAckOffset template @ leBytes wireAckSize (unat ack) @ drop (wireAckOffset + wireAckSize) template
     else template)"

section \<open>Compatibility of a server and a client\<close>

record WireEnd =
  Rev :: int
  MinPeer :: int

text \<open>The reason, and the numbers that its text quotes.\<close>

datatype incompatibility = serverUnreadable | clientUnreadable | serverInconsistent | clientInconsistent
  | serverBehind | clientBehind

definition WirePairIncompatibility :: "WireEnd \<Rightarrow> WireEnd \<Rightarrow> (incompatibility \<times> int \<times> int) option" where
  "WirePairIncompatibility server client = (
     if Rev server \<le> 0 \<or> MinPeer server \<le> 0 then Some (serverUnreadable, Rev server, MinPeer server)
     else if Rev client \<le> 0 \<or> MinPeer client \<le> 0 then Some (clientUnreadable, Rev client, MinPeer client)
     else if MinPeer server > Rev server then Some (serverInconsistent, MinPeer server, Rev server)
     else if MinPeer client > Rev client then Some (clientInconsistent, MinPeer client, Rev client)
     else if Rev server < MinPeer client then Some (serverBehind, Rev server, MinPeer client)
     else if Rev client < MinPeer server then Some (clientBehind, Rev client, MinPeer server)
     else None)"

section \<open>Encoders append\<close>

lemma foldl_append: "(\<And>b x. f b x = b @ f [] x) \<Longrightarrow> foldl f buf xs = buf @ concat (map (f []) xs)"
proof (induction xs arbitrary: buf)
  case Nil
  show ?case by simp
next
  case (Cons x xs)
  show ?case using Cons.IH [OF Cons.prems, of "f buf x"] Cons.prems [of buf x] by simp
qed

lemma append_fields [simp]:
  "appendU16 buf v = buf @ leBytes 2 (unat v)" "appendU32 buf w = buf @ leBytes 4 (unat w)"
  "appendU64 buf a = buf @ leBytes 8 (unat a)"
  by (simp_all add: appendU16_def appendU32_def appendU64_def)

lemma appendRun_append: "appendRun buf run = buf @ appendRun [] run"
  by (simp add: appendRun_def Let_def)

definition rowBytes :: "wire_run list \<Rightarrow> byte list" where
  "rowBytes runs = leBytes 2 (unat (clampU16 (int (length runs)))) @ concat (map (appendRun []) runs)"

lemma appendRowRuns_eq: "appendRowRuns buf runs = buf @ rowBytes (capRowRuns runs)"
  by (simp add: appendRowRuns_def Let_def foldl_append [of appendRun, OF appendRun_append] rowBytes_def)

lemma encodeScrollMsg_eq: "encodeScrollMsg ack first ls = [wireMsgScroll] @ leBytes 8 (unat ack)
    @ leBytes 8 (unat first) @ leBytes 2 (unat (clampU16 (int (length ls)))) @ concat (map (rowBytes \<circ> capRowRuns) ls)"
proof -
  have f: "appendRowRuns b r = b @ appendRowRuns [] r" for b r by (simp add: appendRowRuns_eq)
  have "appendRowRuns [] = rowBytes \<circ> capRowRuns" by (rule ext) (simp add: appendRowRuns_eq)
  with foldl_append [of appendRowRuns, OF f] show ?thesis by (simp add: encodeScrollMsg_def Let_def)
qed

section \<open>The decoder of the protocol document\<close>

definition getBytes :: "nat \<Rightarrow> byte list \<Rightarrow> (byte list \<times> byte list) option" where
  "getBytes n bs = (if length bs < n then None else Some (take n bs, drop n bs))"

definition getLE :: "nat \<Rightarrow> byte list \<Rightarrow> (nat \<times> byte list) option" where
  "getLE n bs = map_option (\<lambda>(x, rest). (leValue x, rest)) (getBytes n bs)"

record row_run =
  rrText :: "byte list"
  rrURL :: "byte list"
  rrF :: nat
  rrB :: nat
  rrUc :: nat
  rrA :: nat

definition decodeRun :: "byte list \<Rightarrow> (row_run \<times> byte list) option" where
  "decodeRun bs = do {
     (n, bs) \<leftarrow> getLE 2 bs;
     (t, bs) \<leftarrow> getBytes n bs;
     (f, bs) \<leftarrow> getLE 4 bs;
     (b, bs) \<leftarrow> getLE 4 bs;
     (a, bs) \<leftarrow> getLE 2 bs;
     (uc, bs) \<leftarrow> getLE 4 bs;
     (n, bs) \<leftarrow> getLE 2 bs;
     (u, bs) \<leftarrow> getBytes n bs;
     Some (\<lparr>rrText = t, rrURL = u, rrF = f, rrB = b, rrUc = uc, rrA = a\<rparr>, bs) }"

fun decodeMany :: "(byte list \<Rightarrow> ('a \<times> byte list) option) \<Rightarrow> nat \<Rightarrow> byte list \<Rightarrow> ('a list \<times> byte list) option" where
  "decodeMany d 0 bs = Some ([], bs)"
| "decodeMany d (Suc n) bs = do { (x, bs) \<leftarrow> d bs; (xs, bs) \<leftarrow> decodeMany d n bs; Some (x # xs, bs) }"

definition decodeRow :: "byte list \<Rightarrow> (row_run list \<times> byte list) option" where
  "decodeRow bs = do { (n, bs) \<leftarrow> getLE 2 bs; decodeMany decodeRun n bs }"

definition decodeScroll :: "byte list \<Rightarrow> (nat \<times> nat \<times> row_run list list) option" where
  "decodeScroll bs = do {
     (ty, bs) \<leftarrow> getLE 1 bs;
     if ty \<noteq> 1 then None else do {
       (ack, bs) \<leftarrow> getLE 8 bs;
       (first, bs) \<leftarrow> getLE 8 bs;
       (n, bs) \<leftarrow> getLE 2 bs;
       (rows, bs) \<leftarrow> decodeMany decodeRow n bs;
       if bs \<noteq> [] then None else Some (ack, first, rows) } }"

text \<open>What a run carries on the wire.\<close>

definition onWire :: "wire_run \<Rightarrow> row_run" where
  "onWire r = \<lparr>rrText = truncateUTF8 (runText r) 0xFFFF, rrURL = truncateUTF8 (wU r) 0xFFFF,
     rrF = unat (word_of_int (wF r) :: 32 word), rrB = unat (word_of_int (wB r) :: 32 word),
     rrUc = unat (word_of_int (wUc r) :: 32 word), rrA = unat (wA r)\<rparr>"

lemma getBytes_append [simp]: "length a = n \<Longrightarrow> getBytes n (a @ rest) = Some (a, rest)"
  by (auto simp: getBytes_def)

lemma getLE_append: "v < 256 ^ n \<Longrightarrow> getLE n (leBytes n v @ rest) = Some (v, rest)"
  by (simp add: getLE_def leValue_leBytes)

lemma word_fields:
  "unat (a :: u16) < 256 ^ 2" "unat (b :: 32 word) < 256 ^ 4" "unat (c :: u64) < 256 ^ 8"
proof -
  have "unat a < 2 ^ LENGTH(16)" "unat b < 2 ^ LENGTH(32)" "unat c < 2 ^ LENGTH(64)" by (rule unsigned_less)+
  then show "unat a < 256 ^ 2" "unat b < 256 ^ 4" "unat c < 256 ^ 8" by simp_all
qed

lemmas get_fields = getLE_append [OF word_fields(1)] getLE_append [OF word_fields(2)] getLE_append [OF word_fields(3)]

lemma clampU16_nat: "n \<le> 0xFFFF \<Longrightarrow> unat (clampU16 (int n)) = n"
  by (simp add: clampU16_def unat_of_nat)

lemma trimValid_length: "length (trimValid t) \<le> length t"
  by (induction t rule: trimValid.induct) (subst trimValid.simps, auto)

lemma truncate_length: "length (truncateUTF8 s n) \<le> n"
  using trimValid_length [of "take n s"] by (simp add: truncateUTF8_def)

lemma decodeRun_append: "decodeRun (appendRun [] r @ rest) = Some (onWire r, rest)"
  using truncate_length [of "runText r" "0xFFFF"] truncate_length [of "wU r" "0xFFFF"]
  by (simp add: decodeRun_def appendRun_def Let_def get_fields getLE_append clampU16_nat onWire_def)

lemma decodeMany_append: "(\<And>x rest. x \<in> set xs \<Longrightarrow> d (e x @ rest) = Some (f x, rest)) \<Longrightarrow>
    decodeMany d (length xs) (concat (map e xs) @ rest) = Some (map f xs, rest)"
  by (induction xs) simp_all

lemma decodeRow_append: "length runs \<le> 0xFFFF \<Longrightarrow> decodeRow (rowBytes runs @ rest) = Some (map onWire runs, rest)"
  using decodeMany_append [of runs decodeRun "appendRun []" onWire, OF decodeRun_append]
  by (simp add: decodeRow_def rowBytes_def getLE_append clampU16_nat)

section \<open>Round trip\<close>

text \<open>
  C12: a scroll frame decodes, by the byte layout of the protocol document, to what was encoded: the
  ack, the absolute index of the first line, and every line's runs with their text, link, colors
  and attributes, after the encoder's own truncation and stripping of oversized rows; nothing is
  left over.
\<close>

theorem scroll_frame_roundtrip:
  assumes "length ls \<le> 0xFFFF" "\<forall>l \<in> set ls. length l \<le> 0xFFFF"
  shows "decodeScroll (encodeScrollMsg ack first ls)
     = Some (unat ack, unat first, map (map onWire \<circ> capRowRuns) ls)"
proof -
  have cap: "length (capRowRuns l) = length l" for l by (simp add: capRowRuns_def stripRowURIs_def)
  have rows: "decodeMany decodeRow (length ls) (concat (map (rowBytes \<circ> capRowRuns) ls) @ [])
      = Some (map (map onWire \<circ> capRowRuns) ls, [])"
    by (rule decodeMany_append) (use assms(2) decodeRow_append cap in simp)
  have "leBytes 1 1 = [wireMsgScroll]" by (simp add: wireMsgScroll_def)
  then have ty: "getLE 1 ([wireMsgScroll] @ bs) = Some (1, bs)" for bs
    using getLE_append [of 1 1 bs] by simp
  have "getLE 8 (leBytes 8 (unat (a :: u64)) @ bs) = Some (unat a, bs)" for a bs by (rule get_fields)
  moreover have "getLE 2 (leBytes 2 (length ls) @ bs) = Some (length ls, bs)" for bs
    by (rule getLE_append) (use assms(1) in simp)
  ultimately show ?thesis
    using rows assms(1) by (simp add: decodeScroll_def encodeScrollMsg_eq ty [simplified] clampU16_nat)
qed

definition linkRun :: wire_run where
  "linkRun = \<lparr>wT = [0x68, 0xE9], wU = str ''http://x.y'', wF = 0xFF, wB = -1, wUc = -1, wA = 1024\<rparr>"

lemma scroll_frame_roundtrip_witness:
  "decodeScroll (encodeScrollMsg 7 42 [[linkRun, demoRun], []])
    = Some (7, 42, map (map onWire \<circ> capRowRuns) [[linkRun, demoRun], []])"
  using scroll_frame_roundtrip [of "[[linkRun, demoRun], []]" 7 42] by simp

section \<open>Sizes\<close>

lemma encodedRowSize_eq: "encodedRowSize runs = 2 + (\<Sum>r\<leftarrow>runs. 18 + length (truncateUTF8 (runText r) 0xFFFF)
    + length (truncateUTF8 (wU r) 0xFFFF))"
proof -
  have "foldl (\<lambda>size run. size + encodedRunFixedSize + length (truncateUTF8 (runText run) 0xFFFF)
      + length (truncateUTF8 (wU run) 0xFFFF)) n runs
    = n + (\<Sum>r\<leftarrow>runs. 18 + length (truncateUTF8 (runText r) 0xFFFF) + length (truncateUTF8 (wU r) 0xFFFF))" for n
    by (induction runs arbitrary: n) (simp_all add: encodedRunFixedSize_def)
  then show ?thesis by (simp add: encodedRowSize_def encodedRowCountSize_def)
qed

lemma length_appendRun: "length (appendRun [] r) = 18 + length (truncateUTF8 (runText r) 0xFFFF)
    + length (truncateUTF8 (wU r) 0xFFFF)"
  by (simp add: appendRun_def Let_def)

lemma length_rowBytes: "length (rowBytes runs) = encodedRowSize runs"
  by (simp add: rowBytes_def encodedRowSize_eq length_concat comp_def length_appendRun)

lemma length_encodeRunes: "length (encodeRunes rs) \<le> 4 * length rs"
  by (induction rs) (auto simp: encodeRunes_def encodeRune_def Let_def)

lemma truncate_shorter: "length (truncateUTF8 s n) \<le> length s"
  using trimValid_length [of "take n s"] by (simp add: truncateUTF8_def)

lemma truncate_empty [simp]: "truncateUTF8 [] n = []"
  by (simp add: truncateUTF8_def)

lemma stripped_size: "encodedRowSize (stripRowURIs runs) \<le> 2 + 18 * length runs + 4 * length (runsText runs)"
proof (induction runs)
  case Nil
  show ?case by (simp add: encodedRowSize_eq stripRowURIs_def)
next
  case (Cons r runs)
  have "length (truncateUTF8 (runText r) 0xFFFF) \<le> 4 * length (wT r)"
    using truncate_shorter [of "runText r" "0xFFFF"] length_encodeRunes [of "wT r"] by (simp add: runText_def)
  with Cons show ?case by (simp add: encodedRowSize_eq stripRowURIs_def runsText_def runText_def)
qed

section \<open>The ack is stamped into a template\<close>

lemma withClientAck_eq: "withClientAck ([ty] @ leBytes 8 a @ rest) ack = [ty] @ leBytes 8 (unat ack) @ rest"
  by (simp add: withClientAck_def wireAckOffset_def wireAckSize_def)

lemma encodeScreenMsg_eq: "\<exists>rest. \<forall>ack. encodeScreenMsg base h r c ack changed rows sty hid blink bell alt cl
    = [wireMsgScreen] @ leBytes 8 (unat ack) @ rest"
proof -
  let ?f = "\<lambda>buf idx. let buf = appendU16 buf (clampU16 idx) in
        if idx \<ge> 0 \<and> idx < int (length rows) then appendRowRuns buf (rows ! nat idx)
        else appendU16 buf 0"
  have f: "?f b x = b @ ?f [] x" for b x by (simp add: appendRowRuns_eq Let_def)
  show ?thesis
    unfolding encodeScreenMsg_def Let_def [of "[wireMsgScreen]"] foldl_append [of ?f, OF f]
    by (simp add: Let_def)
qed

text \<open>
  Encoding once and stamping each client's ack into the copy is the same as encoding the frame
  for that client: for a screen frame and a scroll frame the stamped template is the frame with
  that ack, whatever ack the template held, and every byte after the header is untouched.
\<close>

theorem stamped_template_is_frame:
  "withClientAck (encodeScreenMsg base h r c a changed rows sty hid blink bell alt cl) ack
     = encodeScreenMsg base h r c ack changed rows sty hid blink bell alt cl
   \<and> withClientAck (encodeScrollMsg a first ls) ack = encodeScrollMsg ack first ls"
proof -
  obtain rest where "\<forall>ack. encodeScreenMsg base h r c ack changed rows sty hid blink bell alt cl
    = [wireMsgScreen] @ leBytes 8 (unat ack) @ rest" using encodeScreenMsg_eq by blast
  then show ?thesis unfolding encodeScrollMsg_eq by (simp only: withClientAck_eq)
qed

section \<open>Truncation\<close>

text \<open>Where a valid string can be cut: its prefixes that are valid again are at most three bytes apart.\<close>

lemma trimValid_step: "t = [] \<or> validUtf8 t \<Longrightarrow> trimValid t = t"
  "t \<noteq> [] \<Longrightarrow> \<not> validUtf8 t \<Longrightarrow> trimValid t = trimValid (butlast t)"
  by (subst trimValid.simps, auto)+

lemma trimValid_prefix: "\<exists>rest. t = trimValid t @ rest"
proof (induction t rule: trimValid.induct)
  case (1 t)
  show ?case
  proof (cases "t \<noteq> [] \<and> \<not> validUtf8 t")
    case True
    with 1 obtain rest where "butlast t = trimValid (butlast t) @ rest" by blast
    moreover have "t = butlast t @ [last t]" "trimValid t = trimValid (butlast t)"
      using True trimValid_step(2) by simp_all
    ultimately have "t = trimValid t @ rest @ [last t]" by (metis append_assoc)
    then show ?thesis by blast
  next
    case False
    then show ?thesis using trimValid_step(1) [of t] by auto
  qed
qed

lemma trimValid_valid: "validUtf8 (trimValid t)"
proof (induction t rule: trimValid.induct)
  case (1 t)
  then show ?case
    using trimValid_step [of t] by (cases "t \<noteq> [] \<and> \<not> validUtf8 t") (auto simp: validUtf8.simps [of "[]"])
qed

text \<open>A well-formed sequence is decoded the same whatever follows it.\<close>

definition sequenceOf :: "byte list \<Rightarrow> rune \<Rightarrow> bool" where
  "sequenceOf pre r \<longleftrightarrow> 1 \<le> length pre \<and> length pre \<le> 4 \<and> (uint (hd pre) < 0x80 \<or> 2 \<le> length pre)
     \<and> (\<forall>x. nextRune (pre @ x) = Some (r, x))"

lemma nextRune_two:
  "nextRune (b # bs) = Some (r, rest) \<Longrightarrow> 0xC2 \<le> uint b \<Longrightarrow> uint b \<le> 0xDF \<Longrightarrow> length rest < length bs \<Longrightarrow>
   \<exists>b1. bs = b1 # rest \<and> sequenceOf [b, b1] r"
  by (cases bs) (auto simp: Let_def sequenceOf_def split: if_splits)

lemma nextRune_threes:
  assumes "nextRune (b # bs) = Some (r, rest)" "0xE0 \<le> uint b" "uint b \<le> 0xEF" "length rest < length bs"
  shows "\<exists>b1 b2. bs = b1 # b2 # rest \<and> sequenceOf [b, b1, b2] r"
proof -
  obtain b1 b2 r2 where bs: "bs = b1 # b2 # r2"
    using assms by (auto simp: Let_def split: list.splits)
  show ?thesis
  proof (cases "(if uint b = 0xE0 then 0xA0 else 0x80) \<le> uint b1
             \<and> uint b1 \<le> (if uint b = 0xED then 0x9F else 0xBF) \<and> isCont (uint b2)")
    case True
    with assms bs show ?thesis by (simp add: Let_def sequenceOf_def del: if_split_asm)
  next
    case False
    with assms bs show ?thesis by (auto simp: Let_def)
  qed
qed

lemma nextRune_fours:
  assumes "nextRune (b # bs) = Some (r, rest)" "0xF0 \<le> uint b" "uint b \<le> 0xF4" "length rest < length bs"
  shows "\<exists>b1 b2 b3. bs = b1 # b2 # b3 # rest \<and> sequenceOf [b, b1, b2, b3] r"
proof -
  obtain b1 b2 b3 r3 where bs: "bs = b1 # b2 # b3 # r3"
    using assms by (auto simp: Let_def split: list.splits)
  show ?thesis
  proof (cases "(if uint b = 0xF0 then 0x90 else 0x80) \<le> uint b1
             \<and> uint b1 \<le> (if uint b = 0xF4 then 0x8F else 0xBF) \<and> isCont (uint b2) \<and> isCont (uint b3)")
    case True
    with assms bs show ?thesis by (simp add: Let_def sequenceOf_def del: if_split_asm)
  next
    case False
    with assms bs show ?thesis by (auto simp: Let_def)
  qed
qed

lemma nextRune_sequence:
  assumes "nextRune bs = Some (r, rest)" "uint (hd bs) < 0x80 \<or> Suc (length rest) < length bs"
  shows "\<exists>pre. bs = pre @ rest \<and> sequenceOf pre r"
proof (cases bs)
  case (Cons b cs)
  consider "uint b < 0x80" | "0xC2 \<le> uint b" "uint b \<le> 0xDF" | "0xE0 \<le> uint b" "uint b \<le> 0xEF"
    | "0xF0 \<le> uint b" "uint b \<le> 0xF4" | "0x80 \<le> uint b" "uint b < 0xC2 \<or> 0xF4 < uint b" by linarith
  then show ?thesis
  proof cases
    case 1
    with assms Cons show ?thesis by (intro exI [of _ "[b]"]) (auto simp: Let_def sequenceOf_def)
  next
    case 2
    with assms Cons nextRune_two [of b cs r rest] show ?thesis by (intro exI [of _ "[b, hd cs]"]) auto
  next
    case 3
    with assms Cons nextRune_threes [of b cs r rest] show ?thesis by (intro exI [of _ "[b, cs ! 0, cs ! 1]"]) auto
  next
    case 4
    with assms Cons nextRune_fours [of b cs r rest] show ?thesis
      by (intro exI [of _ "[b, cs ! 0, cs ! 1, cs ! 2]"]) auto
  next
    case 5
    with assms Cons show ?thesis by (auto simp: Let_def)
  qed
qed (use assms in simp)

lemma validUtf8_sequence: "sequenceOf pre r \<Longrightarrow> validUtf8 (pre @ bs) = validUtf8 bs"
  by (subst validUtf8.simps) (cases pre, auto simp: sequenceOf_def)

text \<open>A valid string has a valid cut within three bytes below any length.\<close>

lemma valid_cut:
  "validUtf8 s \<Longrightarrow> n \<le> length s \<Longrightarrow> \<exists>m \<le> n. n \<le> m + 3 \<and> validUtf8 (take m s)"
proof (induction s arbitrary: n rule: length_induct)
  case (1 s)
  show ?case
  proof (cases "nextRune s")
    case None
    then have "s = []" by (cases s) (auto simp: Let_def split: if_splits list.splits)
    with 1 show ?thesis by simp
  next
    case (Some x)
    obtain r rest where x: "x = (r, rest)" by (cases x)
    have v: "uint (hd s) < 0x80 \<or> Suc (length rest) < length s" "validUtf8 rest"
      using 1(2) Some x by (simp_all add: validUtf8.simps [of s])
    obtain pre where pre: "s = pre @ rest" "sequenceOf pre r"
      using nextRune_sequence [of s r rest] Some x v(1) by auto
    have k: "1 \<le> length pre" "length pre \<le> 4" using pre(2) by (simp_all add: sequenceOf_def)
    show ?thesis
    proof (cases "n < length pre")
      case True
      with k show ?thesis by (intro exI [of _ 0]) (simp add: validUtf8.simps [of "[]"])
    next
      case False
      have "length rest < length s" "n - length pre \<le> length rest" using pre(1) k 1(3) by auto
      with 1(1) v(2) obtain m where m: "m \<le> n - length pre" "n - length pre \<le> m + 3" "validUtf8 (take m rest)"
        by blast
      have "take (length pre + m) s = pre @ take m rest" using pre(1) by simp
      then have "validUtf8 (take (length pre + m) s)" using validUtf8_sequence [OF pre(2)] m(3) by simp
      then show ?thesis using m False by (intro exI [of _ "length pre + m"]) auto
    qed
  qed
qed

lemma trimValid_longest: "m \<le> length t \<Longrightarrow> validUtf8 (take m t) \<Longrightarrow> m \<le> length (trimValid t)"
proof (induction t arbitrary: m rule: trimValid.induct)
  case (1 t)
  show ?case
  proof (cases "t \<noteq> [] \<and> \<not> validUtf8 t")
    case True
    with 1(2,3) have "m \<noteq> length t" by auto
    with 1(2) have m: "m \<le> length (butlast t)" by simp
    then have "take m (butlast t) = take m t" by (simp add: butlast_conv_take)
    with 1 True m trimValid_step(2) [of t] show ?thesis by simp
  next
    case False
    with 1 trimValid_step(1) [of t] show ?thesis by auto
  qed
qed

text \<open>
  Truncating a valid UTF-8 string to a byte limit never cuts a rune in two and drops no more
  than it has to: the result is a prefix of the string, valid UTF-8 within the limit, and it is the
  whole string or comes within three bytes of the limit.
\<close>

theorem truncation_keeps_runes:
  assumes "validUtf8 s"
  shows "validUtf8 (truncateUTF8 s n) \<and> length (truncateUTF8 s n) \<le> n
     \<and> (\<exists>rest. s = truncateUTF8 s n @ rest)
     \<and> (truncateUTF8 s n = s \<or> n \<le> length (truncateUTF8 s n) + 3)"
proof (cases "length s \<le> n")
  case True
  with assms show ?thesis by (simp add: truncateUTF8_def)
next
  case False
  then have t: "truncateUTF8 s n = trimValid (take n s)" by (simp add: truncateUTF8_def)
  obtain rest where "take n s = trimValid (take n s) @ rest" using trimValid_prefix by blast
  then have "s = trimValid (take n s) @ rest @ drop n s" by (metis append_assoc append_take_drop_id)
  moreover obtain m where m: "m \<le> n" "n \<le> m + 3" "validUtf8 (take m s)"
    using valid_cut [OF assms, of n] False by auto
  have "m \<le> length (trimValid (take n s))"
    by (rule trimValid_longest) (use m False in \<open>simp_all add: min_def\<close>)
  ultimately show ?thesis unfolding t using trimValid_valid truncate_length [of s n] m(2) t by auto
qed

lemma truncation_keeps_runes_witness:
  "truncateUTF8 (str ''a'' @ encodeRune 0xE9 @ encodeRune 0x20AC) 4 = str ''a'' @ encodeRune 0xE9"
proof -
  let ?s = "str ''a'' @ encodeRune 0xE9 @ encodeRune 0x20AC"
  have v: "validUtf8 ?s" by code_simp
  have "truncateUTF8 ?s 4 = str ''a'' @ encodeRune 0xE9" by code_simp
  with truncation_keeps_runes [OF v, of 4] show ?thesis by simp
qed

end
