(* ===== verification/SessionSet.thy ===== *)
theory SessionSet
  imports Sessions Frames
begin

text \<open>
  The persistable session set (\<open>src/terminal/session_set.go\<close>): capturing the live set, fitting it
  into its byte limit, the rules the parser enforces, and the restore that re-creates it under other clients'
  writes.  \<^verbatim>\<open>encoding/json\<close> is modelled as far as the size accounting depends on it: the exact
  bytes of a marshalled set; only the digits of a \<^verbatim>\<open>float64\<close> are an argument, and so is the decoder.

  The lemmas show that the running size the fitting keeps is the size of the marshalled set, that a
  captured set always fits the limit and passes every rule of the parser, and that capturing,
  restoring and capturing again yields the same arrangement.
\<close>

section \<open>The set\<close>

definition SessionSetVersion :: int where "SessionSetVersion = 1"
definition MaxSessionSetBytes :: nat where "MaxSessionSetBytes = 1048576"
definition MaxSessionSetSessions :: nat where "MaxSessionSetSessions = 512"
definition MaxResumeTokenBytes :: nat where "MaxResumeTokenBytes = 1024"

record SessionSetEntry =
  e_Alias :: "byte list"
  e_PinnedTitle :: "byte list"
  e_Resume :: "byte list"

record SessionSet =
  set_Sessions :: "SessionSetEntry list"
  set_Layout :: SessionSetLayout
  set_Version :: int

section \<open>Marshalling\<close>

text \<open>What \<^verbatim>\<open>json.Marshal\<close> writes for a string: quotes, backslashes, control characters, the HTML
  characters and the two line separators are escaped, an ill-formed byte becomes the escape of U+FFFD, and everything
  else is copied.\<close>

definition hexRune :: "int \<Rightarrow> rune" where
  "hexRune d = (if d < 10 then 48 + d else 87 + d)"

definition jsonEscape :: "rune \<Rightarrow> rune list" where
  "jsonEscape r = (if r = 0x22 then [0x5C, 0x22] else if r = 0x5C then [0x5C, 0x5C]
     else if r = 8 then [0x5C, 0x62] else if r = 12 then [0x5C, 0x66]
     else if r = 10 then [0x5C, 0x6E] else if r = 13 then [0x5C, 0x72] else if r = 9 then [0x5C, 0x74]
     else if r < 0x20 \<or> r = 0x3C \<or> r = 0x3E \<or> r = 0x26 \<or> r = 0x2028 \<or> r = 0x2029
       then [0x5C, 0x75, hexRune (r div 4096 mod 16), hexRune (r div 256 mod 16), hexRune (r div 16 mod 16), hexRune (r mod 16)]
     else [r])"

function jsonPieces :: "byte list \<Rightarrow> rune list" where
  "jsonPieces bs = (case nextRune bs of None \<Rightarrow> []
     | Some (r, rest) \<Rightarrow> (if r = 0xFFFD \<and> length bs = Suc (length rest) then [0x5C, 0x75, 0x66, 0x66, 0x66, 0x64] else jsonEscape r)
         @ jsonPieces rest)"
  by pat_completeness auto
termination
  by (relation "measure length") (auto dest: nextRune_shorter)

declare jsonPieces.simps [simp del]

definition jsonString :: "byte list \<Rightarrow> byte list" where
  "jsonString s = encodeRunes (0x22 # jsonPieces s @ [0x22])"

definition jsonInt :: "int option \<Rightarrow> byte list" where
  "jsonInt i = (case i of None \<Rightarrow> str ''null'' | Some n \<Rightarrow> itoa n)"

definition jsonBool :: "bool \<Rightarrow> byte list" where
  "jsonBool b = (if b then str ''true'' else str ''false'')"

definition jsonEntry :: "SessionSetEntry \<Rightarrow> byte list" where
  "jsonEntry e = str ''{\"alias\":'' @ jsonString (e_Alias e)
     @ (if e_PinnedTitle e = [] then [] else str '',\"pinnedTitle\":'' @ jsonString (e_PinnedTitle e))
     @ (if e_Resume e = [] then [] else str '',\"resume\":'' @ jsonString (e_Resume e)) @ str ''}''"

fun jsonEntries :: "SessionSetEntry list \<Rightarrow> byte list" where
  "jsonEntries [] = []"
| "jsonEntries [e] = jsonEntry e"
| "jsonEntries (e # es) = jsonEntry e @ str '','' @ jsonEntries es"

text \<open>\<open>fmt\<close> prints a float; a handle that is not a number has no JSON form and \<^verbatim>\<open>Marshal\<close> fails.\<close>

definition jsonLayout :: "(float64 \<Rightarrow> byte list) \<Rightarrow> SessionSetLayout \<Rightarrow> byte list" where
  "jsonLayout fmt l = str ''{\"left\":'' @ jsonInt (l_Left l) @ str '',\"right\":'' @ jsonInt (l_Right l)
     @ str '',\"selected\":'' @ jsonString (l_Selected l) @ str '',\"handle\":'' @ fmt (l_Handle l)
     @ str '',\"open\":'' @ jsonBool (l_Open l) @ str ''}''"

definition f64_finite :: "float64 \<Rightarrow> bool" where
  "f64_finite x \<longleftrightarrow> f64_mag x < uint f64_inf"

definition jsonMarshal :: "(float64 \<Rightarrow> byte list) \<Rightarrow> SessionSet \<Rightarrow> byte list option" where
  "jsonMarshal fmt s = (if \<not> f64_finite (l_Handle (set_Layout s)) then None
     else Some (str ''{\"sessions\":['' @ jsonEntries (set_Sessions s) @ str ''],\"layout\":'' @ jsonLayout fmt (set_Layout s)
       @ str '',\"version\":'' @ itoa (set_Version s) @ str ''}''))"

section \<open>Capture\<close>

fun keepLive :: "nat \<Rightarrow> SessionInfo list \<Rightarrow> bool list \<Rightarrow> SessionInfo list" where
  "keepLive n (i # is) (c # cs) = (if \<not> c \<and> n < MaxSessionSetSessions then i # keepLive (n + 1) is cs
     else keepLive n is cs)"
| "keepLive n _ _ = []"

definition captureEntry :: "(SessionInfo \<Rightarrow> byte list) \<Rightarrow> SessionInfo \<Rightarrow> SessionSetEntry" where
  "captureEntry resume info = (let token = resume info in
     \<lparr>e_Alias = Alias info, e_PinnedTitle = PinnedTitle info,
      e_Resume = (if length token > MaxResumeTokenBytes \<or> \<not> validUtf8 token then [] else token)\<rparr>)"

text \<open>The loop of \<open>fitSessionSet\<close>, from the last entry backwards.\<close>

fun fitLoop :: "int \<Rightarrow> SessionSetEntry list \<Rightarrow> SessionSetEntry list" where
  "fitLoop sz [] = []"
| "fitLoop sz (e # es) = (if sz > int MaxSessionSetBytes then
     (if e_Resume e = [] then e # fitLoop sz es
      else e\<lparr>e_Resume := []\<rparr> # fitLoop (sz - (int (length (str '',\"resume\":'')) + int (length (jsonString (e_Resume e))))) es)
     else e # es)"

definition fitSessionSet :: "(float64 \<Rightarrow> byte list) \<Rightarrow> SessionSet \<Rightarrow> SessionSet" where
  "fitSessionSet fmt s = (case jsonMarshal fmt s of None \<Rightarrow> s
     | Some data \<Rightarrow> s\<lparr>set_Sessions := rev (fitLoop (int (length data)) (rev (set_Sessions s)))\<rparr>)"

definition captureSessionSet :: "(float64 \<Rightarrow> byte list) \<Rightarrow> SessionInfo list \<Rightarrow> bool list \<Rightarrow> PaneLayout
    \<Rightarrow> (SessionInfo \<Rightarrow> byte list) \<Rightarrow> SessionSet" where
  "captureSessionSet fmt list cleanExit l resume = (let
     kept = keepLive 0 list cleanExit;
     ids = map ID kept
   in fitSessionSet fmt \<lparr>set_Sessions = map (captureEntry resume) kept,
     set_Layout = normalizeSetLayout (indexLayout l ids) (int (length ids)), set_Version = SessionSetVersion\<rparr>)"

text \<open>\<open>CaptureSessionSet\<close>: the list and the layout are read under one hold; \<open>exited\<close> is the live
  outcome of a session's process, read afterwards.\<close>

definition CaptureSessionSet :: "(float64 \<Rightarrow> byte list) \<Rightarrow> (SessionID \<Rightarrow> bool) \<Rightarrow> (SessionInfo \<Rightarrow> byte list)
    \<Rightarrow> manager \<Rightarrow> SessionSet" where
  "CaptureSessionSet fmt exited resume m = (let is = sm_List m in
     captureSessionSet fmt is (map (exited \<circ> ID) is) (m_layout m) resume)"

section \<open>Parse\<close>

datatype entry_error = badAlias nat | dupAlias nat | badPin nat | longToken nat

fun entriesScan :: "nat \<Rightarrow> byte list list \<Rightarrow> SessionSetEntry list \<Rightarrow> entry_error option" where
  "entriesScan i seen [] = None"
| "entriesScan i seen (e # es) =
     (if e_Alias e \<noteq> [] \<and> \<not> validSessionAlias (e_Alias e) then Some (badAlias i)
      else if e_Alias e \<noteq> [] \<and> e_Alias e \<in> set seen then Some (dupAlias i)
      else let seen = (if e_Alias e \<noteq> [] then e_Alias e # seen else seen) in
        if e_PinnedTitle e \<noteq> sanitizeTitle (e_PinnedTitle e) maxPinnedTitleRunes then Some (badPin i)
        else if length (e_Resume e) > MaxResumeTokenBytes then Some (longToken i)
        else entriesScan (i + 1) seen es)"

definition invalidEntries :: "SessionSetEntry list \<Rightarrow> entry_error option" where
  "invalidEntries es = entriesScan 0 [] es"

datatype set_error = tooLarge | notUtf8 | undecodable | trailingData | badVersion int | tooManySessions
  | badEntry entry_error | badLayout layout_error

text \<open>\<open>dec\<close> is the JSON decoder: the first value, and whether anything but white space follows it.\<close>

definition ParseSessionSet :: "(byte list \<Rightarrow> (SessionSet \<times> bool) option) \<Rightarrow> byte list \<Rightarrow> set_error + SessionSet" where
  "ParseSessionSet dec data =
     (if length data > MaxSessionSetBytes then Inl tooLarge
      else if \<not> validUtf8 data then Inl notUtf8
      else case dec data of None \<Rightarrow> Inl undecodable
        | Some (s, extra) \<Rightarrow>
          if extra then Inl trailingData
          else if set_Version s \<noteq> SessionSetVersion then Inl (badVersion (set_Version s))
          else if length (set_Sessions s) > MaxSessionSetSessions then Inl tooManySessions
          else case invalidEntries (set_Sessions s) of Some e \<Rightarrow> Inl (badEntry e)
            | None \<Rightarrow> (case setLayout_invalid (set_Layout s) (int (length (set_Sessions s))) of
                Some e \<Rightarrow> Inl (badLayout e) | None \<Rightarrow> Inr s))"

section \<open>Restore\<close>

definition restoredOrder :: "SessionID option list \<Rightarrow> SessionID list \<Rightarrow> SessionID list" where
  "restoredOrder ids current = (let front = concat (map (\<lambda>k. case k of None \<Rightarrow> [] | Some k \<Rightarrow> [k]) ids) in
     fold (\<lambda>k order. if k \<in> set order then order else order @ [k]) current front)"

definition liveIDs :: "SessionID option list \<Rightarrow> SessionID list" where
  "liveIDs ids = map (\<lambda>k. case k of None \<Rightarrow> [] | Some k \<Rightarrow> k) ids"

definition applyRestoredLocked :: "SessionSetLayout \<Rightarrow> SessionID option list \<Rightarrow> nat \<Rightarrow> nat \<Rightarrow> manager \<Rightarrow> manager" where
  "applyRestoredLocked stored created ogen lgen m = (let
     ids = map (\<lambda>k. case k of None \<Rightarrow> None | Some k \<Rightarrow> if live m k then Some k else None) created
   in if \<not> list_ex (\<lambda>k. k \<noteq> None) ids then m
      else let
        m = (if orderGen m = ogen then m\<lparr>m_order := restoredOrder ids (m_order m)\<rparr> else m)
      in if layoutGen m = lgen
         then m\<lparr>m_layout := normalizePaneLayout (idLayout stored (liveIDs ids)) (m_order m)\<rparr> else m)"

text \<open>
  What the restore meets at one entry: whether its context is done, what the plan answers, what the
  create draws and whether the process starts, and what every other caller does to the manager
  while the plan blocks and the process forks.
\<close>

record restoreEnv =
  ctxDone :: bool
  planned :: "CreateSpec option"
  others :: "manager \<Rightarrow> manager"
  env_id :: "byte list option"
  meanwhile :: "manager \<Rightarrow> manager"
  started :: bool
  env_handler :: nat
  env_cmd :: "byte list"
  env_now :: int
  env_rand :: "nat \<Rightarrow> byte list"

record RestoreResult =
  Restored :: "(nat \<times> SessionInfo) list"
  Skipped :: nat
  Failed :: nat

datatype restore_stop = ctxErr | managerClosed

text \<open>The loop over the entries from index \<open>i\<close> on: the result so far, the ids created so far (a nil pointer
  is \<open>None\<close>), and why it stopped early.  \<open>None\<close> is a create that never returns.\<close>

fun restoreLoop :: "nat \<Rightarrow> restoreEnv list \<Rightarrow> RestoreResult \<Rightarrow> manager
    \<Rightarrow> (RestoreResult \<times> SessionID option list \<times> restore_stop option \<times> manager) option" where
  "restoreLoop i [] res m = Some (res, [], None, m)"
| "restoreLoop i (e # es) res m =
     (if ctxDone e then Some (res\<lparr>Skipped := Skipped res + length (e # es)\<rparr>, replicate (length (e # es)) None, Some ctxErr, m)
      else case planned e of
        None \<Rightarrow> restoreLoop (i + 1) es (res\<lparr>Skipped := Skipped res + 1\<rparr>) (others e m)
          \<bind> (\<lambda>(res, created, stop, m). Some (res, None # created, stop, m))
      | Some spec \<Rightarrow>
        (let m = others e m in
         (case createBegin (env_id e) m of
            Inl err \<Rightarrow> Some (Inl err, m)
          | Inr k \<Rightarrow> let m = meanwhile e m in
              if started e then createFinish spec k (env_handler e) (env_cmd e) (env_now e) (env_rand e) m
              else Some (Inl startFailed, m)) \<bind> (\<lambda>(r, m).
         case r of
           Inl ErrManagerClosed \<Rightarrow> Some (res\<lparr>Skipped := Skipped res + length (e # es)\<rparr>,
             replicate (length (e # es)) None, Some managerClosed, m)
         | Inl startFailed \<Rightarrow> restoreLoop (i + 1) es (res\<lparr>Failed := Failed res + 1\<rparr>) m
             \<bind> (\<lambda>(res, created, stop, m). Some (res, None # created, stop, m))
         | Inr info \<Rightarrow> restoreLoop (i + 1) es (res\<lparr>Restored := Restored res @ [(i, info)]\<rparr>) m
             \<bind> (\<lambda>(res, created, stop, m). Some (res, Some (ID info) # created, stop, m)))))"

datatype restore_error = ErrRestoreRunning | stopped restore_stop

definition emptyResult :: RestoreResult where
  "emptyResult = \<lparr>Restored = [], Skipped = 0, Failed = 0\<rparr>"

definition RestoreSessionSet :: "SessionSet \<Rightarrow> restoreEnv list \<Rightarrow> manager
    \<Rightarrow> (RestoreResult \<times> restore_error option \<times> manager) option" where
  "RestoreSessionSet s envs m = (if restoring m then Some (emptyResult, Some ErrRestoreRunning, m)
     else let ogen = orderGen m; lgen = layoutGen m in
       restoreLoop 0 envs emptyResult (m\<lparr>restoring := True\<rparr>) \<bind> (\<lambda>(res, created, stop, m).
         Some (res, map_option stopped stop, (applyRestoredLocked (set_Layout s) created ogen lgen m)\<lparr>restoring := False\<rparr>)))"

section \<open>The bytes of a marshalled set\<close>

lemma validUtf8_append: "validUtf8 a \<Longrightarrow> validUtf8 (a @ b) = validUtf8 b"
proof (induction a rule: length_induct)
  case (1 a)
  show ?case
  proof (cases "nextRune a")
    case None
    then have "a = []" by (cases a) (auto simp: Let_def split: if_splits list.splits)
    then show ?thesis by simp
  next
    case (Some x)
    obtain r rest where x: "x = (r, rest)" by (cases x)
    have v: "uint (hd a) < 0x80 \<or> Suc (length rest) < length a" "validUtf8 rest"
      using 1(2) Some x by (simp_all add: validUtf8.simps [of a])
    obtain pre where pre: "a = pre @ rest" "sequenceOf pre r"
      using nextRune_sequence [of a r rest] Some x v(1) by auto
    then have "length rest < length a" by (auto simp: sequenceOf_def)
    with 1(1) v(2) have "validUtf8 (rest @ b) = validUtf8 b" by blast
    with pre validUtf8_sequence [OF pre(2)] show ?thesis by simp
  qed
qed

lemma sequenceOf_encode: "validRune r \<Longrightarrow> sequenceOf (encodeRune r) r"
  using length_encodeRune [of r] nextRune_encode [of r]
  by (auto simp: sequenceOf_def encodeRune_def validRune_def uint_byte_of_int)

lemma encodeRune_invalid: "\<not> validRune r \<Longrightarrow> encodeRune r = encodeRune 0xFFFD"
  by (auto simp: encodeRune_def validRune_def)

lemma validUtf8_encode: "validUtf8 (encodeRunes rs)"
proof (induction rs)
  case Nil
  then show ?case by (simp add: encodeRunes_def validUtf8.simps [of "[]"])
next
  case (Cons r rs)
  have "validUtf8 (encodeRune r @ encodeRunes rs)" if "validRune r" for r
    using validUtf8_sequence [OF sequenceOf_encode [OF that]] Cons by simp
  moreover have "validRune 0xFFFD" by (simp add: validRune_def)
  ultimately show ?case
    by (cases "validRune r") (simp_all add: encodeRunes_def encodeRune_invalid)
qed

lemma validUtf8_ascii: "\<forall>b \<in> set s. uint b < 0x80 \<Longrightarrow> validUtf8 s"
  by (induction s) (simp_all add: validUtf8.simps Let_def)

lemma length_encodeRune_le: "1 \<le> length (encodeRune r) \<and> length (encodeRune r) \<le> 4"
  using length_encodeRune [of r] by (cases "validRune r") (simp_all add: encodeRune_invalid encodeRune_def)

lemma length_encode_ascii: "\<forall>r \<in> set rs. 0 \<le> r \<and> r < 0x80 \<Longrightarrow> length (encodeRunes rs) = length rs"
  by (induction rs) (auto simp: encodeRunes_def encodeRune_def validRune_def)

lemma hexRune_ascii: "0 \<le> hexRune (x mod 16) \<and> hexRune (x mod 16) < 0x80"
proof -
  have "0 \<le> x mod 16" "x mod 16 < 16" by simp_all
  then show ?thesis by (simp add: hexRune_def) linarith
qed

lemma length_jsonEscape: "length (encodeRunes (jsonEscape r)) \<le> 6"
proof -
  have "length (encodeRunes [r]) \<le> 4"
    using length_encodeRune_le [of r] by (simp add: encodeRunes_def)
  then show ?thesis
    by (simp add: jsonEscape_def length_encode_ascii hexRune_ascii)
qed

lemma encodeRunes_append: "encodeRunes (xs @ ys) = encodeRunes xs @ encodeRunes ys"
  by (simp add: encodeRunes_def)

lemma length_jsonPieces: "length (encodeRunes (jsonPieces s)) \<le> 6 * length (runesOf s)"
proof (induction s rule: jsonPieces.induct)
  case (1 s)
  show ?case
  proof (cases "nextRune s")
    case None
    then show ?thesis by (simp add: jsonPieces.simps [of s] encodeRunes_def)
  next
    case (Some x)
    obtain r rest where x: "x = (r, rest)" by (cases x)
    have "length (encodeRunes (if r = 0xFFFD \<and> length s = Suc (length rest)
        then [0x5C, 0x75, 0x66, 0x66, 0x66, 0x64] else jsonEscape r)) \<le> 6"
      using length_jsonEscape [of r] by (simp add: length_encode_ascii)
    with 1 [OF Some x [symmetric]] show ?thesis
      by (simp add: jsonPieces.simps [of s] runesOf.simps [of s] Some x encodeRunes_append)
  qed
qed

lemma length_jsonString: "length (jsonString s) \<le> 2 + 6 * length (runesOf s)"
proof -
  have "length (encodeRune 0x22) = 1" by (simp add: encodeRune_def validRune_def)
  then show ?thesis
    using length_jsonPieces [of s] encodeRunes_append [of "[0x22]" "jsonPieces s @ [0x22]"]
    by (simp add: jsonString_def encodeRunes_append) (simp add: encodeRunes_def)
qed

lemma length_runesOf: "length (runesOf s) \<le> length s"
proof (induction s rule: runesOf.induct)
  case (1 s)
  show ?case
  proof (cases "nextRune s")
    case None
    then show ?thesis by (simp add: runesOf.simps [of s])
  next
    case (Some x)
    obtain r rest where x: "x = (r, rest)" by (cases x)
    from 1 [OF Some x [symmetric]] nextRune_shorter [of s r rest] Some x show ?thesis
      by (simp add: runesOf.simps [of s])
  qed
qed

text \<open>The size of a set is the sum over its entries, so dropping a token shrinks it by exactly its own field.\<close>

definition entriesTotal :: "SessionSetEntry list \<Rightarrow> int" where
  "entriesTotal es = (\<Sum>e \<leftarrow> es. int (length (jsonEntry e)))"

lemma entriesTotal_simps [simp]: "entriesTotal [] = 0" "entriesTotal (e # es) = int (length (jsonEntry e)) + entriesTotal es"
  "entriesTotal (rev es) = entriesTotal es"
  by (simp_all add: entriesTotal_def rev_map [symmetric] sum_list_rev)

lemma length_jsonEntries: "int (length (jsonEntries es)) = entriesTotal es + (if es = [] then 0 else int (length es) - 1)"
  by (induction es rule: jsonEntries.induct) (auto simp: str_def)

lemma jsonEntry_token: "e_Resume e \<noteq> [] \<Longrightarrow> int (length (jsonEntry (e\<lparr>e_Resume := []\<rparr>)))
    = int (length (jsonEntry e)) - (int (length (str '',\"resume\":'')) + int (length (jsonString (e_Resume e))))"
  by (simp add: jsonEntry_def)

definition token_dropped :: "SessionSetEntry \<Rightarrow> SessionSetEntry \<Rightarrow> bool" where
  "token_dropped e e' \<longleftrightarrow> e' = e \<or> e' = e\<lparr>e_Resume := []\<rparr>"

lemma fitLoop_spec: "list_all2 token_dropped es (fitLoop sz es)
    \<and> (sz - (entriesTotal es - entriesTotal (fitLoop sz es)) \<le> int MaxSessionSetBytes
       \<or> (\<forall>e \<in> set (fitLoop sz es). e_Resume e = []))"
proof (induction sz es rule: fitLoop.induct)
  case (2 sz e es)
  show ?case
  proof (cases "sz > int MaxSessionSetBytes")
    case False
    then show ?thesis by (simp add: list_all2_same token_dropped_def list.rel_refl)
  next
    case big: True
    show ?thesis
    proof (cases "e_Resume e = []")
      case True
      with big 2(1) [OF big True] show ?thesis by (auto simp: token_dropped_def algebra_simps)
    next
      case False
      with big 2(2) [OF big False] show ?thesis
        by (auto simp: token_dropped_def algebra_simps jsonEntry_token)
    qed
  qed
qed simp

section \<open>A captured set fits\<close>

lemma length_natDigits: "0 < k \<Longrightarrow> n < 10 ^ k \<Longrightarrow> length (natDigits n) \<le> k"
proof (induction k arbitrary: n)
  case (Suc k)
  show ?case
  proof (cases "n < 10")
    case True
    then show ?thesis by (simp add: natDigits.simps [of n])
  next
    case False
    with Suc.prems have "n div 10 < 10 ^ k" "0 < k" by (auto intro: Nat.gr0I)
    with Suc.IH [of "n div 10"] False show ?thesis by (simp add: natDigits.simps [of n])
  qed
qed simp

lemma length_jsonInt: "sideIn 512 i \<Longrightarrow> length (jsonInt i) \<le> 4"
proof (cases i)
  case (Some a)
  assume "sideIn 512 i"
  with Some have "nat a < 10 ^ 3" by (simp add: nat_less_iff)
  with length_natDigits [of 3 "nat a"] Some show ?thesis
    using \<open>sideIn 512 i\<close> by (simp add: jsonInt_def itoa_def)
qed (simp add: jsonInt_def str_def)

text \<open>What a set at its caps looks like, tokens aside.\<close>

definition entry_capped :: "SessionSetEntry \<Rightarrow> bool" where
  "entry_capped e \<longleftrightarrow> length (e_Alias e) \<le> maxSessionAliasLen \<and> length (runesOf (e_PinnedTitle e)) \<le> maxPinnedTitleRunes"

definition set_capped :: "SessionSet \<Rightarrow> bool" where
  "set_capped s \<longleftrightarrow> length (set_Sessions s) \<le> MaxSessionSetSessions \<and> list_all entry_capped (set_Sessions s)
     \<and> inRange 512 (set_Layout s) \<and> paneSide_valid (l_Selected (set_Layout s)) \<and> set_Version s = SessionSetVersion
     \<and> f64_finite (l_Handle (set_Layout s))"

definition fmt_ok :: "(float64 \<Rightarrow> byte list) \<Rightarrow> bool" where
  "fmt_ok fmt \<longleftrightarrow> (\<forall>h. length (fmt h) \<le> 32 \<and> (\<forall>b \<in> set (fmt h). uint b < 0x80))"

lemma plain_entry: "entry_capped e \<Longrightarrow> e_Resume e = [] \<Longrightarrow> length (jsonEntry e) \<le> 1200"
  using length_jsonString [of "e_Alias e"] length_jsonString [of "e_PinnedTitle e"] length_runesOf [of "e_Alias e"]
  by (auto simp: entry_capped_def jsonEntry_def str_def maxSessionAliasLen_def maxPinnedTitleRunes_def)

lemma plain_entries: "\<forall>e \<in> set es. entry_capped e \<and> e_Resume e = [] \<Longrightarrow> entriesTotal es \<le> 1200 * int (length es)"
  by (induction es) (auto dest!: plain_entry)

lemma length_jsonLayout:
  assumes "inRange 512 l" "paneSide_valid (l_Selected l)" "fmt_ok fmt"
  shows "length (jsonLayout fmt l) \<le> 200"
proof -
  have "length (jsonString (l_Selected l)) \<le> 40"
    using length_jsonString [of "l_Selected l"] length_runesOf [of "l_Selected l"] assms(2)
    by (auto simp: paneSide_valid_def PaneLeft_def PaneRight_def str_def)
  moreover have "length (fmt (l_Handle l)) \<le> 32" using assms(3) by (simp add: fmt_ok_def)
  moreover have "length (jsonInt (l_Left l)) \<le> 4" "length (jsonInt (l_Right l)) \<le> 4"
    using assms(1) by (simp_all add: inRange_def length_jsonInt)
  ultimately show ?thesis
    by (simp add: jsonLayout_def jsonBool_def str_def)
qed

definition restBytes :: "(float64 \<Rightarrow> byte list) \<Rightarrow> SessionSet \<Rightarrow> int" where
  "restBytes fmt s = int (length (jsonLayout fmt (set_Layout s))) + int (length (itoa (set_Version s))) + 36
     + (if set_Sessions s = [] then 0 else int (length (set_Sessions s)) - 1)"

lemma length_jsonMarshal: "jsonMarshal fmt s = Some d \<Longrightarrow> int (length d) = entriesTotal (set_Sessions s) + restBytes fmt s"
  by (auto simp: jsonMarshal_def restBytes_def length_jsonEntries str_def split: if_splits)

lemma dropped_list:
  assumes "list_all2 token_dropped es es'"
  shows "length es' = length es" "map e_Alias es' = map e_Alias es" "map e_PinnedTitle es' = map e_PinnedTitle es"
    "\<And>P. list_all P es \<Longrightarrow> (\<And>e. P e \<Longrightarrow> P (e\<lparr>e_Resume := []\<rparr>)) \<Longrightarrow> list_all P es'"
  using assms by (induction rule: list_all2_induct) (auto simp: token_dropped_def)

lemma fit_dropped: "list_all2 token_dropped (set_Sessions s) (set_Sessions (fitSessionSet fmt s))"
proof (cases "jsonMarshal fmt s")
  case None
  then show ?thesis by (simp add: fitSessionSet_def list.rel_refl token_dropped_def)
next
  case (Some d)
  have "list_all2 token_dropped (rev (rev (set_Sessions s))) (rev (fitLoop (int (length d)) (rev (set_Sessions s))))"
    using fitLoop_spec by (simp only: list_all2_rev)
  then show ?thesis by (simp add: fitSessionSet_def Some)
qed

lemma fit_fields: "set_Layout (fitSessionSet fmt s) = set_Layout s" "set_Version (fitSessionSet fmt s) = set_Version s"
  by (simp_all add: fitSessionSet_def split: option.split)

lemma fit_capped: "set_capped s \<Longrightarrow> set_capped (fitSessionSet fmt s)"
  using dropped_list(1) [OF fit_dropped [of s fmt]] dropped_list(4) [OF fit_dropped [of s fmt], of entry_capped]
  by (simp add: set_capped_def fit_fields entry_capped_def)

lemma fit_size:
  assumes "set_capped s" "fmt_ok fmt" "jsonMarshal fmt (fitSessionSet fmt s) = Some d"
  shows "length d \<le> MaxSessionSetBytes"
proof -
  have fin: "f64_finite (l_Handle (set_Layout s))" using assms(1) by (simp add: set_capped_def)
  then obtain d0 where d0: "jsonMarshal fmt s = Some d0" by (simp add: jsonMarshal_def)
  let ?es = "rev (set_Sessions s)" let ?es' = "fitLoop (int (length d0)) ?es"
  have eq: "set_Sessions (fitSessionSet fmt s) = rev ?es'"
    by (simp add: fitSessionSet_def d0)
  have len: "length (set_Sessions (fitSessionSet fmt s)) = length (set_Sessions s)"
    by (rule dropped_list(1) [OF fit_dropped])
  then have rest: "restBytes fmt (fitSessionSet fmt s) = restBytes fmt s"
    by (auto simp: restBytes_def fit_fields)
  have size: "int (length d) = int (length d0) - (entriesTotal ?es - entriesTotal ?es')"
    using length_jsonMarshal [OF assms(3)] length_jsonMarshal [OF d0] rest by (simp add: eq)
  from fitLoop_spec [of ?es "int (length d0)"]
  consider "int (length d0) - (entriesTotal ?es - entriesTotal ?es') \<le> int MaxSessionSetBytes"
    | "\<forall>e \<in> set ?es'. e_Resume e = []" by blast
  then show ?thesis
  proof cases
    case 1
    with size show ?thesis by linarith
  next
    case 2
    have cap: "set_capped (fitSessionSet fmt s)" by (rule fit_capped [OF assms(1)])
    then have "\<forall>e \<in> set ?es'. entry_capped e \<and> e_Resume e = []"
      using 2 by (simp add: set_capped_def eq list_all_iff)
    then have "entriesTotal (set_Sessions (fitSessionSet fmt s)) \<le> 1200 * int (length ?es')"
      unfolding eq using plain_entries [of ?es'] by simp
    moreover have "length ?es' \<le> 512" using cap by (simp add: set_capped_def eq MaxSessionSetSessions_def)
    moreover have "restBytes fmt (fitSessionSet fmt s) \<le> 900"
      using length_jsonLayout [of "set_Layout s" fmt] assms(1,2) len cap eq
      by (auto simp: restBytes_def fit_fields set_capped_def SessionSetVersion_def itoa_def natDigits.simps MaxSessionSetSessions_def)
    ultimately have "int (length d) \<le> 1200 * 512 + 900"
      using length_jsonMarshal [OF assms(3)] by linarith
    then show ?thesis by (simp add: MaxSessionSetBytes_def)
  qed
qed

lemma validUtf8_both: "validUtf8 a \<Longrightarrow> validUtf8 b \<Longrightarrow> validUtf8 (a @ b)"
  by (simp add: validUtf8_append)

lemma validUtf8_nil: "validUtf8 []"
  by (simp add: validUtf8_ascii)

lemma validUtf8_str: "list_all (\<lambda>b. uint b < 0x80) (str s) \<Longrightarrow> validUtf8 (str s)"
  by (simp add: list_all_iff validUtf8_ascii)

lemma ascii_itoa: "b \<in> set (itoa i) \<Longrightarrow> uint b < 0x80"
proof -
  assume b: "b \<in> set (itoa i)"
  have "uint x < 0x80" if "x \<in> set (natDigits n)" for x n
    using natDigits_digits [of n] that by (auto simp: isDigit_def)
  with b show ?thesis by (auto simp: itoa_def split: if_splits)
qed

lemma jsonEntry_utf8: "validUtf8 (jsonEntry e)"
  unfolding jsonEntry_def jsonString_def
  by (cases "e_PinnedTitle e = []"; cases "e_Resume e = []"; simp only: if_True if_False simp_thms;
      intro validUtf8_both validUtf8_nil validUtf8_encode validUtf8_str; simp add: str_def)

lemma jsonEntries_utf8: "validUtf8 (jsonEntries es)"
proof (induction es rule: jsonEntries.induct)
  case (3 e e' es)
  have "validUtf8 (str '','')" by (rule validUtf8_str) (simp add: str_def)
  with 3 jsonEntry_utf8 [of e] show ?case by (simp only: jsonEntries.simps) (intro validUtf8_both)
qed (simp_all add: validUtf8_nil jsonEntry_utf8)

lemma jsonInt_utf8: "validUtf8 (jsonInt i)"
  by (cases i) (auto simp: jsonInt_def str_def intro!: validUtf8_ascii dest: ascii_itoa)

lemma jsonBool_utf8: "validUtf8 (jsonBool b)"
  by (auto simp: jsonBool_def str_def intro!: validUtf8_ascii)

lemma jsonLayout_utf8: "fmt_ok fmt \<Longrightarrow> validUtf8 (jsonLayout fmt l)"
  unfolding jsonLayout_def jsonString_def
  by (intro validUtf8_both validUtf8_nil validUtf8_encode validUtf8_str jsonInt_utf8 jsonBool_utf8;
      simp add: str_def fmt_ok_def validUtf8_ascii)

lemma jsonMarshal_utf8: "fmt_ok fmt \<Longrightarrow> jsonMarshal fmt s = Some d \<Longrightarrow> validUtf8 d"
proof -
  assume f: "fmt_ok fmt" and d: "jsonMarshal fmt s = Some d"
  have i: "validUtf8 (itoa (set_Version s))" by (rule validUtf8_ascii) (auto dest: ascii_itoa)
  from d have "d = str ''{\"sessions\":['' @ jsonEntries (set_Sessions s) @ str ''],\"layout\":'' @ jsonLayout fmt (set_Layout s)
       @ str '',\"version\":'' @ itoa (set_Version s) @ str ''}''"
    by (simp only: jsonMarshal_def split: if_splits) simp_all
  then show ?thesis
    by (simp only:) (intro validUtf8_both validUtf8_str i jsonEntries_utf8 jsonLayout_utf8 [OF f]; simp add: str_def)
qed

section \<open>A captured set passes the parser\<close>

lemma keepLive_eq: "keepLive n is cs = take (MaxSessionSetSessions - n) (map fst (filter (\<lambda>(i, c). \<not> c) (zip is cs)))"
  by (induction n "is" cs rule: keepLive.induct) (auto simp: Suc_diff_le take_Cons')

lemma handle_finite: "handle_ok h \<Longrightarrow> f64_finite h"
  by (auto simp: handle_ok_iff f64_finite_def f64_mag_def f64_inf_def)

lemma entriesScan_None: "entriesScan i seen es = None \<longleftrightarrow>
    (\<forall>e \<in> set es. (e_Alias e \<noteq> [] \<longrightarrow> validSessionAlias (e_Alias e) \<and> e_Alias e \<notin> set seen)
       \<and> e_PinnedTitle e = sanitizeTitle (e_PinnedTitle e) maxPinnedTitleRunes
       \<and> length (e_Resume e) \<le> MaxResumeTokenBytes)
    \<and> distinct (filter (\<lambda>a. a \<noteq> []) (map e_Alias es))"
proof (induction i seen es rule: entriesScan.induct)
  case (2 i seen e es)
  show ?case
  proof (cases "e_Alias e = []")
    case True
    with 2 show ?thesis by (auto simp: Let_def)
  next
    case False
    have "(\<forall>x \<in> set es. e_Alias x \<noteq> [] \<longrightarrow> e_Alias x \<noteq> e_Alias e) \<longleftrightarrow> e_Alias e \<notin> e_Alias ` set es"
      using False by (metis (no_types, lifting) imageE imageI)
    with 2 False show ?thesis by (simp add: Let_def ball_conj_distrib) blast
  qed
qed simp

definition captured :: "(float64 \<Rightarrow> byte list) \<Rightarrow> (SessionID \<Rightarrow> bool) \<Rightarrow> (SessionInfo \<Rightarrow> byte list) \<Rightarrow> manager \<Rightarrow> SessionInfo list" where
  "captured fmt exited resume m = keepLive 0 (sm_List m) (map (exited \<circ> ID) (sm_List m))"

lemma captured_eq: "captured fmt exited resume m = take MaxSessionSetSessions (filter (\<lambda>i. \<not> exited (ID i)) (sm_List m))"
proof -
  have "filter (\<lambda>(i, c). \<not> c) (zip xs (map f xs)) = map (\<lambda>i. (i, f i)) (filter (\<lambda>i. \<not> f i) xs)" for f and xs :: "SessionInfo list"
    by (induction xs) auto
  then show ?thesis
    by (simp add: captured_def keepLive_eq) (simp add: comp_def)
qed

lemma captured_distinct: "mgr_ok m \<Longrightarrow> distinct (map ID (captured fmt exited resume m))"
proof -
  assume m: "mgr_ok m"
  have "map ID (sm_List m) = m_order m"
    by (rule nth_equalityI) (simp_all add: sm_List_eq m number_from_nth entry_id)
  then have "distinct (map ID (sm_List m))" using m by (simp add: mgr_ok_def order_ok_def)
  then show ?thesis
    unfolding captured_eq by (simp add: take_map [symmetric] distinct_map_filter)
qed

lemma captured_tab:
  assumes "mgr_ok m" "i \<in> set (captured fmt exited resume m)"
  shows "\<exists>s. (ID i, s) \<in> set (m_sessions m) \<and> Alias i = t_alias s \<and> PinnedTitle i = pinnedTitle s \<and> \<not> exited (ID i)"
proof -
  from assms(2) have i: "i \<in> set (sm_List m)" "\<not> exited (ID i)"
    unfolding captured_eq by (auto dest: in_set_takeD)
  from i(1) obtain j where j: "j < length (m_order m)" "i = (entry m (m_order m ! j))\<lparr>Order := int j\<rparr>"
    by (auto simp: in_set_conv_nth sm_List_eq [OF assms(1)] number_from_nth)
  then have k: "ID i = m_order m ! j" by (simp add: entry_id [OF assms(1)])
  with j(1) assms(1) obtain s where s: "map_of (m_sessions m) (ID i) = Some s"
    by (metis live_def live_iff mgr_ok_def not_None_eq nth_mem order_ok_def)
  with j(2) k i(2) show ?thesis
    by (intro exI [of _ s]) (auto simp: entry_def listItem_def Let_def dest: map_of_SomeD)
qed

definition rawSet :: "(float64 \<Rightarrow> byte list) \<Rightarrow> (SessionID \<Rightarrow> bool) \<Rightarrow> (SessionInfo \<Rightarrow> byte list) \<Rightarrow> manager \<Rightarrow> SessionSet" where
  "rawSet fmt exited resume m = (let kept = captured fmt exited resume m; ids = map ID kept in
     \<lparr>set_Sessions = map (captureEntry resume) kept,
      set_Layout = normalizeSetLayout (indexLayout (m_layout m) ids) (int (length ids)), set_Version = SessionSetVersion\<rparr>)"

lemma Capture_raw: "CaptureSessionSet fmt exited resume m = fitSessionSet fmt (rawSet fmt exited resume m)"
  by (simp add: CaptureSessionSet_def captureSessionSet_def rawSet_def captured_def Let_def)

definition layout_settled :: "SessionSetLayout \<Rightarrow> int \<Rightarrow> bool" where
  "layout_settled l n \<longleftrightarrow> inRange n l \<and> (if n = 0 then l = \<lparr>l_Left = None, l_Right = None,
     l_Selected = PaneLeft, l_Handle = f64_half, l_Open = False\<rparr> else settled l)"

lemma normalize_layout_settled:
  assumes "0 \<le> n" "inRange n l" "sides_ok l"
  shows "layout_settled (normalizeSetLayout l n) n"
proof (cases "n = 0")
  case True
  then show ?thesis by (simp add: layout_settled_def normalizeSetLayout_def defaultPaneLayout_def inRange_def)
next
  case False
  with assms(1) have "0 < n" by simp
  from normalize_valid [OF this assms(2,3)] False show ?thesis by (simp add: layout_settled_def settled_def)
qed

lemma layout_settled_valid: "layout_settled l n \<Longrightarrow> invalidShape l = None \<and> inRange n l \<and> normalizeSetLayout l n = l"
proof (cases "n = 0")
  case True
  assume "layout_settled l n"
  with True show ?thesis
    by (simp add: layout_settled_def normalizeSetLayout_def defaultPaneLayout_def invalidShape_None inRange_def)
next
  case False
  assume "layout_settled l n"
  with False normalize_settled [OF False] show ?thesis by (simp add: layout_settled_def settled_def)
qed

lemma mgr_sides: "mgr_ok m \<Longrightarrow> sides_ok (m_layout m)"
  by (auto simp: mgr_ok_def layout_over_def invalidShape_None sides_ok_def)

lemma raw_settled: "mgr_ok m \<Longrightarrow> layout_settled (set_Layout (rawSet fmt exited resume m))
    (int (length (set_Sessions (rawSet fmt exited resume m))))"
  using inRange_indexLayout [of "map ID (captured fmt exited resume m)" "m_layout m"]
  by (simp add: rawSet_def Let_def normalize_layout_settled indexLayout_sides_ok mgr_sides)

lemma raw_entries:
  assumes "mgr_ok m"
  shows "invalidEntries (set_Sessions (rawSet fmt exited resume m)) = None"
    "list_all entry_capped (set_Sessions (rawSet fmt exited resume m))"
proof -
  let ?k = "captured fmt exited resume m"
  have ok: "validSessionAlias (Alias i) \<and> sanitizeTitle (PinnedTitle i) maxPinnedTitleRunes = PinnedTitle i"
    if "i \<in> set ?k" for i
    using captured_tab [OF assms that] assms by (fastforce simp: mgr_ok_def tabset_ok_def tab_ok_def)
  have "distinct (map Alias ?k)"
    unfolding distinct_map
  proof
    show "distinct ?k" using captured_distinct [OF assms, of fmt exited resume] by (simp add: distinct_map)
    show "inj_on Alias (set ?k)"
    proof (rule inj_onI)
      fix x y assume xy: "x \<in> set ?k" "y \<in> set ?k" "Alias x = Alias y"
      have t: "tabset_ok (m_sessions m)" using assms by (simp add: mgr_ok_def)
      have "ID x = ID y"
        using captured_tab [OF assms xy(1)] captured_tab [OF assms xy(2)] xy(3) tabs_alias [OF t] by force
      then show "x = y" using captured_distinct [OF assms, of fmt exited resume] xy(1,2)
        by (simp add: distinct_map inj_on_def)
    qed
  qed
  then have d: "distinct (map e_Alias (map (captureEntry resume) ?k))"
    by (simp add: comp_def captureEntry_def Let_def)
  then show "invalidEntries (set_Sessions (rawSet fmt exited resume m)) = None"
    using ok unfolding invalidEntries_def entriesScan_None rawSet_def Let_def
    by (auto simp: captureEntry_def Let_def intro: distinct_filter)
  show "list_all entry_capped (set_Sessions (rawSet fmt exited resume m))"
    using ok unfolding rawSet_def Let_def
    by (auto simp: list_all_iff entry_capped_def captureEntry_def Let_def validSessionAlias_def)
      (metis length_take min.cobounded2 runesOf_sanitize sanitizeRunes_eq)
qed

lemma scan_dropped: "list_all2 token_dropped es es' \<Longrightarrow> invalidEntries es = None \<Longrightarrow> invalidEntries es' = None"
proof -
  assume d: "list_all2 token_dropped es es'" and e: "invalidEntries es = None"
  let ?P = "\<lambda>e. (e_Alias e \<noteq> [] \<longrightarrow> validSessionAlias (e_Alias e)) \<and> e_PinnedTitle e = sanitizeTitle (e_PinnedTitle e) maxPinnedTitleRunes
       \<and> length (e_Resume e) \<le> MaxResumeTokenBytes"
  from e have "list_all ?P es" by (simp add: invalidEntries_def entriesScan_None list_all_iff)
  then have "list_all ?P es'" by (rule dropped_list(4) [OF d]) simp
  with e dropped_list(2) [OF d] show ?thesis
    by (simp add: invalidEntries_def entriesScan_None list_all_iff)
qed

lemma raw_capped:
  assumes "mgr_ok m"
  shows "set_capped (rawSet fmt exited resume m)"
proof -
  let ?s = "rawSet fmt exited resume m" let ?k = "captured fmt exited resume m"
  have len: "length (set_Sessions ?s) \<le> MaxSessionSetSessions"
    by (simp add: rawSet_def Let_def captured_eq)
  note l = layout_settled_valid [OF raw_settled [OF assms, of fmt exited resume]]
  have "handle_ok (l_Handle (set_Layout ?s))" "paneSide_valid (l_Selected (set_Layout ?s))"
    using l by (simp_all add: invalidShape_None)
  moreover have "inRange 512 (set_Layout ?s)"
    using l len by (auto simp: inRange_def sideIn_def MaxSessionSetSessions_def split: option.splits)
  moreover have "set_Version ?s = SessionSetVersion" by (simp add: rawSet_def Let_def)
  ultimately show ?thesis
    using len raw_entries(2) [OF assms] handle_finite by (simp add: set_capped_def)
qed


definition demoFmt :: "float64 \<Rightarrow> byte list" where
  "demoFmt h = (if h = f64_half then str ''0.5'' else str ''1'')"


section \<open>Restart\<close>

text \<open>A plan that re-creates every entry under its stored names, with nobody else acting.\<close>

definition faithfulEnv :: "SessionSetEntry \<Rightarrow> byte list \<Rightarrow> restoreEnv" where
  "faithfulEnv e b = \<lparr>ctxDone = False, planned = Some \<lparr>spec_Alias = e_Alias e, spec_PinnedTitle = e_PinnedTitle e\<rparr>,
     others = (\<lambda>m. m), env_id = Some b, meanwhile = (\<lambda>m. m), started = True, env_handler = 0, env_cmd = [],
     env_now = 0, env_rand = (\<lambda>_. [])\<rparr>"

definition newTab :: "SessionSetEntry \<Rightarrow> byte list \<Rightarrow> SessionID \<times> tab" where
  "newTab e b = (hexEncode b, \<lparr>createdAt = 0, t_handler = 0, t_id = hexEncode b, t_alias = e_Alias e, clientTitle = [],
     pinnedTitle = sanitizeTitle (e_PinnedTitle e) maxPinnedTitleRunes, autoTitle = []\<rparr>)"

lemma AList_update_new: "k \<notin> set (map fst xs) \<Longrightarrow> AList.update k v xs = xs @ [(k, v)]"
  by (induction xs) auto

lemma insertSession_new:
  assumes "k \<notin> set (map fst (m_sessions m))" "insertSession spec k h a c now m = (info, m')"
  shows "ID info = k" "m_sessions m' = m_sessions m @ [(k, \<lparr>createdAt = now, t_handler = h, t_id = k, t_alias = a,
       clientTitle = [], pinnedTitle = sanitizeTitle (spec_PinnedTitle spec) maxPinnedTitleRunes, autoTitle = c\<rparr>)]"
    "m_order m' = m_order m @ [k]" "orderGen m' = orderGen m" "layoutGen m' = layoutGen m" "m_closed m' = m_closed m"
  using assms by (auto simp: insertSession_def Let_def AList_update_new split: if_splits)

lemma createFinish_named:
  assumes "\<not> m_closed m" "validSessionAlias a" "\<not> aliasHeldLocked a m" "k \<notin> set (map fst (m_sessions m))"
  shows "\<exists>info m'. createFinish \<lparr>spec_Alias = a, spec_PinnedTitle = p\<rparr> k h c now rand m = Some (Inr info, m')
    \<and> ID info = k \<and> m_sessions m' = m_sessions m @ [(k, \<lparr>createdAt = now, t_handler = h, t_id = k, t_alias = a,
       clientTitle = [], pinnedTitle = sanitizeTitle p maxPinnedTitleRunes, autoTitle = c\<rparr>)]
    \<and> m_order m' = m_order m @ [k] \<and> orderGen m' = orderGen m \<and> layoutGen m' = layoutGen m \<and> \<not> m_closed m'"
proof -
  obtain info m' where i: "insertSession \<lparr>spec_Alias = a, spec_PinnedTitle = p\<rparr> k h a c now (m\<lparr>idleSince := now\<rparr>) = (info, m')"
    by (cases "insertSession \<lparr>spec_Alias = a, spec_PinnedTitle = p\<rparr> k h a c now (m\<lparr>idleSince := now\<rparr>)")
  have "chooseAlias a rand (m\<lparr>idleSince := now\<rparr>) = Some a"
    using assms(2,3) by (simp add: chooseAlias_def aliasHeldLocked_def)
  with i assms(1) have "createFinish \<lparr>spec_Alias = a, spec_PinnedTitle = p\<rparr> k h c now rand m = Some (Inr info, m')"
    by (simp add: createFinish_def)
  with insertSession_new [OF _ i] assms(1,4) show ?thesis by (intro exI [of _ info] exI [of _ m']) simp
qed

lemma restoreLoop_faithful:
  assumes "length bs = length es" "\<not> m_closed m" "mgr_ok m" "[] \<notin> set bs"
    "distinct (map hexEncode bs)" "set (map hexEncode bs) \<inter> set (map fst (m_sessions m)) = {}"
    "list_all (validSessionAlias \<circ> e_Alias) es" "distinct (map e_Alias es)"
    "set (map e_Alias es) \<inter> (t_alias \<circ> snd) ` set (m_sessions m) = {}"
  shows "\<exists>res' m'. restoreLoop i (map2 faithfulEnv es bs) res m = Some (res', map (Some \<circ> hexEncode) bs, None, m')
    \<and> m_sessions m' = m_sessions m @ map2 newTab es bs \<and> m_order m' = m_order m @ map hexEncode bs
    \<and> orderGen m' = orderGen m \<and> layoutGen m' = layoutGen m \<and> \<not> m_closed m'
    \<and> Skipped res' = Skipped res \<and> Failed res' = Failed res \<and> mgr_ok m'"
  using assms
proof (induction es arbitrary: bs i res m)
  case Nil
  then show ?case by simp
next
  case (Cons e es)
  from Cons.prems(1) obtain b bs' where bs: "bs = b # bs'" by (cases bs) simp_all
  let ?k = "hexEncode b"
  have fresh: "\<not> aliasHeldLocked (e_Alias e) m" "?k \<notin> set (map fst (m_sessions m))" "validSessionAlias (e_Alias e)"
    using Cons.prems bs by (auto simp: aliasHeld_iff)
  obtain info m1 where c: "createFinish \<lparr>spec_Alias = e_Alias e, spec_PinnedTitle = e_PinnedTitle e\<rparr> ?k 0 [] 0 (\<lambda>_. []) m
      = Some (Inr info, m1)" "ID info = ?k"
    and m1: "m_sessions m1 = m_sessions m @ [newTab e b]" "m_order m1 = m_order m @ [?k]"
      "orderGen m1 = orderGen m" "layoutGen m1 = layoutGen m" "\<not> m_closed m1"
    using createFinish_named [OF Cons.prems(2) fresh(3,1,2), where p = "e_PinnedTitle e" and h = 0 and c = "[]" and now = 0 and rand = "\<lambda>_. []"]
    by (auto simp: newTab_def)
  have ok: "mgr_ok m1"
    by (rule createFinish_ok [OF Cons.prems(3) c(1)]) (use Cons.prems(4) bs fresh(2) in \<open>auto simp: live_iff hexEncode_def hex2_def\<close>)
  have "\<exists>res' m'. restoreLoop (i + 1) (map2 faithfulEnv es bs') (res\<lparr>Restored := Restored res @ [(i, info)]\<rparr>) m1
      = Some (res', map (Some \<circ> hexEncode) bs', None, m')
    \<and> m_sessions m' = m_sessions m1 @ map2 newTab es bs' \<and> m_order m' = m_order m1 @ map hexEncode bs'
    \<and> orderGen m' = orderGen m1 \<and> layoutGen m' = layoutGen m1 \<and> \<not> m_closed m'
    \<and> Skipped res' = Skipped (res\<lparr>Restored := Restored res @ [(i, info)]\<rparr>)
    \<and> Failed res' = Failed (res\<lparr>Restored := Restored res @ [(i, info)]\<rparr>) \<and> mgr_ok m'"
    by (rule Cons.IH) (use Cons.prems bs m1 ok in \<open>auto simp: newTab_def\<close>)
  then obtain res' m' where IH: "restoreLoop (i + 1) (map2 faithfulEnv es bs') (res\<lparr>Restored := Restored res @ [(i, info)]\<rparr>) m1
      = Some (res', map (Some \<circ> hexEncode) bs', None, m')"
    "m_sessions m' = m_sessions m1 @ map2 newTab es bs'" "m_order m' = m_order m1 @ map hexEncode bs'"
    "orderGen m' = orderGen m1" "layoutGen m' = layoutGen m1" "\<not> m_closed m'"
    "Skipped res' = Skipped res" "Failed res' = Failed res" "mgr_ok m'" by auto
  have "createBegin (Some b) m = Inr ?k" using Cons.prems(2) by (simp add: createBegin_def newSessionID_def)
  with c IH(1) have "restoreLoop i (map2 faithfulEnv (e # es) bs) res m = Some (res', map (Some \<circ> hexEncode) bs, None, m')"
    unfolding bs by (simp add: faithfulEnv_def Let_def)
  with IH m1 show ?case unfolding bs by auto
qed

lemma restored_all: "restoredOrder (map Some ids) ids = ids"
proof -
  have "fold (\<lambda>k order. if k \<in> set order then order else order @ [k]) ks ids = ids" if "set ks \<subseteq> set ids" for ks
    using that by (induction ks) auto
  moreover have "concat (map (\<lambda>k. case k of None \<Rightarrow> [] | Some k \<Rightarrow> [k]) (map Some ids)) = ids"
    by (induction ids) auto
  ultimately show ?thesis by (simp add: restoredOrder_def)
qed

lemma hexEncode_inj: "hexEncode a = hexEncode b \<longleftrightarrow> a = b"
  by (metis hexDecode_encode option.inject)

lemma sides_of_shape: "invalidShape l = None \<Longrightarrow> sides_ok l"
  by (auto simp: invalidShape_None sides_ok_def)

lemma captured_entries: "length (set_Sessions (CaptureSessionSet fmt ex r m)) = length (captured fmt ex r m)"
  "map e_Alias (set_Sessions (CaptureSessionSet fmt ex r m)) = map Alias (captured fmt ex r m)"
  "map e_PinnedTitle (set_Sessions (CaptureSessionSet fmt ex r m)) = map PinnedTitle (captured fmt ex r m)"
  using dropped_list(1-3) [OF fit_dropped [of "rawSet fmt ex r m" fmt]]
  by (simp_all add: Capture_raw rawSet_def Let_def captureEntry_def comp_def)

lemma captured_layout: "set_Layout (CaptureSessionSet fmt ex r m) = (let ids = map ID (captured fmt ex r m) in
    normalizeSetLayout (indexLayout (m_layout m) ids) (int (length ids)))"
  by (simp add: Capture_raw fit_fields rawSet_def Let_def)

text \<open>What the restored manager's own capture sees.\<close>

lemma restored_capture:
  fixes fmt :: "float64 \<Rightarrow> byte list" and r :: "SessionInfo \<Rightarrow> byte list"
  assumes "mgr_ok m" "m_order m = map hexEncode bs" "m_sessions m = map2 newTab es bs" "length bs = length es"
    "length es \<le> MaxSessionSetSessions" "layout_settled l (int (length es))" "m_layout m = idLayout l (m_order m)"
    "list_all (\<lambda>e. sanitizeTitle (e_PinnedTitle e) maxPinnedTitleRunes = e_PinnedTitle e) es"
  defines "s \<equiv> CaptureSessionSet fmt (\<lambda>_. False) r m"
  shows "set_Layout s = l" "map e_Alias (set_Sessions s) = map e_Alias es"
    "map e_PinnedTitle (set_Sessions s) = map e_PinnedTitle es"
proof -
  have len: "length (m_order m) = length es" using assms(2,4) by simp
  have cap: "captured fmt (\<lambda>_. False) r m = sm_List m"
    using assms(5) len by (simp add: captured_eq sm_List_eq [OF assms(1)])
  have ids: "map ID (sm_List m) = m_order m"
    by (rule nth_equalityI) (simp_all add: sm_List_eq assms(1) number_from_nth entry_id)
  have d: "distinct (m_order m)" using assms(1) by (simp add: mgr_ok_def order_ok_def)
  note lay = layout_settled_valid [OF assms(6)]
  show "set_Layout s = l"
    unfolding s_def captured_layout cap Let_def ids assms(7)
    using d lay len by (simp add: indexLayout_idLayout)
  have keys: "map fst (m_sessions m) = map hexEncode bs"
    unfolding assms(3) using assms(4) by (auto simp: newTab_def intro: nth_equalityI)
  have tab: "map_of (m_sessions m) (hexEncode (bs ! i)) = Some (snd (newTab (es ! i) (bs ! i)))" if "i < length es" for i
  proof (rule map_of_is_SomeI)
    show "distinct (map fst (m_sessions m))" using assms(1) by (simp add: mgr_ok_def tabset_ok_def)
    have "newTab (es ! i) (bs ! i) \<in> set (m_sessions m)"
      unfolding assms(3) using that assms(4) by (force simp: set_zip)
    then show "(hexEncode (bs ! i), snd (newTab (es ! i) (bs ! i))) \<in> set (m_sessions m)"
      by (simp add: newTab_def)
  qed
  have e: "Alias (sm_List m ! i) = e_Alias (es ! i) \<and> PinnedTitle (sm_List m ! i) = e_PinnedTitle (es ! i)"
    if "i < length es" for i
    using that assms(2,4,8) tab [OF that]
    by (simp add: sm_List_eq [OF assms(1)] number_from_nth entry_def listItem_def newTab_def Let_def list_all_length)
  have l: "length (sm_List m) = length es" by (simp add: sm_List_eq assms(1) len)
  show "map e_Alias (set_Sessions s) = map e_Alias es" "map e_PinnedTitle (set_Sessions s) = map e_PinnedTitle es"
    unfolding s_def captured_entries cap by (rule nth_equalityI; simp add: l e)+
qed

lemma captured_names:
  fixes fmt :: "float64 \<Rightarrow> byte list" and r :: "SessionInfo \<Rightarrow> byte list" and ex :: "SessionID \<Rightarrow> bool"
  assumes "mgr_ok m"
  defines "es \<equiv> set_Sessions (CaptureSessionSet fmt ex r m)"
  shows "list_all (validSessionAlias \<circ> e_Alias) es" "distinct (map e_Alias es)" "length es \<le> MaxSessionSetSessions"
    "list_all (\<lambda>e. sanitizeTitle (e_PinnedTitle e) maxPinnedTitleRunes = e_PinnedTitle e) es"
    "layout_settled (set_Layout (CaptureSessionSet fmt ex r m)) (int (length es))"
proof -
  have i: "invalidEntries es = None"
    unfolding es_def Capture_raw by (rule scan_dropped [OF fit_dropped raw_entries(1) [OF assms(1)]])
  have a: "validSessionAlias (e_Alias e)" if "e \<in> set es" for e
  proof -
    have "e_Alias e \<in> set (map Alias (captured fmt ex r m))"
      using that unfolding es_def captured_entries(2) [symmetric] by simp
    then obtain x where x: "x \<in> set (captured fmt ex r m)" "e_Alias e = Alias x" by auto
    with captured_tab [OF assms(1) x(1)] assms(1) show ?thesis by (fastforce simp: mgr_ok_def tabset_ok_def tab_ok_def)
  qed
  then show "list_all (validSessionAlias \<circ> e_Alias) es" by (simp add: list_all_iff)
  from a have "filter (\<lambda>a. a \<noteq> []) (map e_Alias es) = map e_Alias es"
    by (auto simp: filter_id_conv validSessionAlias_def)
  with i show "distinct (map e_Alias es)" by (simp add: invalidEntries_def entriesScan_None)
  from i show "list_all (\<lambda>e. sanitizeTitle (e_PinnedTitle e) maxPinnedTitleRunes = e_PinnedTitle e) es"
    by (simp add: invalidEntries_def entriesScan_None list_all_iff)
  show "length es \<le> MaxSessionSetSessions"
    unfolding es_def captured_entries(1) by (simp add: captured_eq)
  show "layout_settled (set_Layout (CaptureSessionSet fmt ex r m)) (int (length es))"
    using raw_settled [OF assms(1), of fmt ex r] unfolding es_def captured_entries(1)
    by (simp add: Capture_raw fit_fields rawSet_def Let_def)
qed

text \<open>
  C19: a restart preserves the arrangement.  Capture the set of any manager, start a fresh one, and
  restore the set with a plan that re-creates every entry, whatever fresh ids the new sessions draw: the restore
  succeeds with nothing skipped or failed, the new manager satisfies its invariant, its order is the stored one,
  and capturing it again gives the same layout, the same public names and the same pinned titles.
\<close>

theorem restart_preserves_arrangement:
  assumes "mgr_ok m" and "s = CaptureSessionSet fmt exited resume m"
    and "length bs = length (set_Sessions s)" and "distinct bs" and "[] \<notin> set bs"
  shows "\<exists>res m'. RestoreSessionSet s (map2 faithfulEnv (set_Sessions s) bs) (NewSessionManager now w) = Some (res, None, m')
    \<and> Skipped res = 0 \<and> Failed res = 0 \<and> mgr_ok m' \<and> m_order m' = map hexEncode bs
    \<and> (let s' = CaptureSessionSet fmt (\<lambda>_. False) resume' m' in set_Layout s' = set_Layout s
       \<and> map e_Alias (set_Sessions s') = map e_Alias (set_Sessions s)
       \<and> map e_PinnedTitle (set_Sessions s') = map e_PinnedTitle (set_Sessions s))"
proof -
  let ?es = "set_Sessions s" let ?l = "set_Layout s" let ?ids = "map hexEncode bs"
  let ?m0 = "(NewSessionManager now w)\<lparr>restoring := True\<rparr>"
  note names = captured_names [OF assms(1), of fmt exited resume, folded assms(2)]
  have dids: "distinct ?ids" using assms(4) by (simp add: distinct_map inj_on_def hexEncode_inj)
  have "\<exists>res' m'. restoreLoop 0 (map2 faithfulEnv ?es bs) emptyResult ?m0 = Some (res', map (Some \<circ> hexEncode) bs, None, m')
    \<and> m_sessions m' = m_sessions ?m0 @ map2 newTab ?es bs \<and> m_order m' = m_order ?m0 @ ?ids
    \<and> orderGen m' = orderGen ?m0 \<and> layoutGen m' = layoutGen ?m0 \<and> \<not> m_closed m'
    \<and> Skipped res' = Skipped emptyResult \<and> Failed res' = Failed emptyResult \<and> mgr_ok m'"
    by (rule restoreLoop_faithful)
      (use assms(3,5) dids names new_manager_ok [of now w] in \<open>simp_all add: NewSessionManager_def mgr_ok_def order_ok_def\<close>)
  then obtain res m1 where loop: "restoreLoop 0 (map2 faithfulEnv ?es bs) emptyResult ?m0 = Some (res, map Some ?ids, None, m1)"
    and m1: "m_sessions m1 = map2 newTab ?es bs" "m_order m1 = ?ids" "orderGen m1 = 0" "layoutGen m1 = 0" "\<not> m_closed m1"
      "Skipped res = 0" "Failed res = 0" "mgr_ok m1"
    by (auto simp: NewSessionManager_def emptyResult_def comp_def)
  let ?n = "int (length ?es)"
  note lay = layout_settled_valid [OF names(5)]
  have n: "?n = int (length ?ids)" using assms(3) by simp
  let ?m2 = "(applyRestoredLocked ?l (map Some ?ids) 0 0 m1)\<lparr>restoring := False\<rparr>"
  have run: "RestoreSessionSet s (map2 faithfulEnv ?es bs) (NewSessionManager now w) = Some (res, None, ?m2)"
    using loop by (simp add: RestoreSessionSet_def NewSessionManager_def Let_def)
  have "live m1 k" if "k \<in> set ?ids" for k
    using that m1(2,8) by (simp add: mgr_ok_def order_ok_def live_iff)
  then have liv: "map (\<lambda>k. case k of None \<Rightarrow> None | Some k \<Rightarrow> if live m1 k then Some k else None) (map Some ?ids) = map Some ?ids"
    by simp
  have m2: "m_sessions ?m2 = m_sessions m1" "m_trackers ?m2 = m_trackers m1" "m_closed ?m2 = m_closed m1"
    "m_order ?m2 = ?ids" "m_layout ?m2 = idLayout ?l ?ids"
  proof -
    show "m_sessions ?m2 = m_sessions m1" "m_trackers ?m2 = m_trackers m1" "m_closed ?m2 = m_closed m1"
      by (simp_all add: applyRestoredLocked_def Let_def)
    show "m_order ?m2 = ?ids"
      unfolding applyRestoredLocked_def Let_def liv using m1(2,3) restored_all [of ?ids] by simp
    have "liveIDs (map Some ?ids) = ?ids" by (simp add: liveIDs_def)
    moreover have "normalizePaneLayout (idLayout ?l ?ids) ?ids = idLayout ?l ?ids"
      using lay n dids by (simp add: normalizePaneLayout_def indexLayout_idLayout)
    moreover have "m_layout m1 = idLayout ?l ?ids" if "?ids = []"
    proof -
      have e: "bs = []" "?es = []" using that assms(3) by simp_all
      with loop have "m_layout m1 = defaultPaneLayout" by (auto simp: NewSessionManager_def)
      moreover have "?l = \<lparr>l_Left = None, l_Right = None, l_Selected = PaneLeft, l_Handle = f64_half, l_Open = False\<rparr>"
        using names(5) e by (simp add: layout_settled_def)
      ultimately show ?thesis by (simp add: idLayout_def idSide_def defaultPaneLayout_def)
    qed
    ultimately show "m_layout ?m2 = idLayout ?l ?ids"
      unfolding applyRestoredLocked_def Let_def liv using m1(2,3,4) restored_all [of ?ids] by (cases "?ids = []") (simp_all add: list_ex_iff)
  qed
  have "layout_over ?ids (idLayout ?l ?ids)"
    using normalizePaneLayout_over [OF dids, of "idLayout ?l ?ids"] lay n dids idLayout_shape [OF dids, of ?l]
    by (simp add: normalizePaneLayout_def indexLayout_idLayout sides_of_shape)
  then have ok: "mgr_ok ?m2"
    using m1(2,8) m2 by (simp add: mgr_ok_def order_ok_def)
  have again: "m_sessions ?m2 = map2 newTab ?es bs" "m_layout ?m2 = idLayout ?l (m_order ?m2)"
    using m2 m1(1) by simp_all
  note cap = restored_capture [where m = ?m2 and bs = bs and es = ?es and l = ?l and fmt = fmt and r = resume',
      OF ok m2(4) again(1) assms(3) names(3,5) again(2) names(4)]
  show ?thesis
    unfolding Let_def by (intro exI [of _ res] exI [of _ ?m2] conjI run ok m1(6,7) m2(4) cap)
qed

lemma restart_preserves_arrangement_witness:
  "\<exists>res m'. RestoreSessionSet (CaptureSessionSet demoFmt (\<lambda>_. False) (\<lambda>_. []) demoTwo)
      (map2 faithfulEnv (set_Sessions (CaptureSessionSet demoFmt (\<lambda>_. False) (\<lambda>_. []) demoTwo)) [str ''x'', str ''y''])
      (NewSessionManager 0 0) = Some (res, None, m') \<and> Skipped res = 0 \<and> m_order m' = [str ''78'', str ''79'']"
proof -
  have "length (m_order demoTwo) = 2" "map hexEncode [str ''x'', str ''y''] = [str ''78'', str ''79'']"
    by code_simp+
  then have "length [str ''x'', str ''y''] = length (set_Sessions (CaptureSessionSet demoFmt (\<lambda>_. False) (\<lambda>_. []) demoTwo))"
    unfolding captured_entries(1) captured_eq sm_List_eq [OF demoTwo_ok] by (simp add: MaxSessionSetSessions_def)
  moreover note \<open>map hexEncode [str ''x'', str ''y''] = [str ''78'', str ''79'']\<close>
  moreover have "distinct [str ''x'', str ''y'']" "[] \<notin> set [str ''x'', str ''y'']"
    by (simp_all add: str_def)
  ultimately show ?thesis
    using restart_preserves_arrangement [OF demoTwo_ok refl, where bs = "[str ''x'', str ''y'']" and fmt = demoFmt
        and exited = "\<lambda>_. False" and resume = "\<lambda>_. []" and now = 0 and w = 0 and resume' = "\<lambda>_. []"] by auto
qed

end
