(* ===== verification/Status.thy ===== *)
theory Status
  imports SessionSet Engine
begin

text \<open>
  The status stream (\<open>src/terminal/events.go\<close>): how one sweep derives each session's status from what its
  handler reports, numbers its occurrences, detects what changed, and tells the subscribers.  A sweep
  holds the manager's lock twice: its first hold lists the sessions, the handlers are then read without it, and
  its second hold runs the per-session trackers.  The two holds are two operations here, and anything may happen
  to the manager between them.  A subscriber's channel is its queue of undelivered events.

  The lemmas show that the derived status is never empty, that a classified turn-end notification holds through
  the quiet that follows it, that a client applying the events of every sweep shows exactly what a fresh
  enumeration would, and that a subscriber receives every event or is dropped.  Two concrete runs show where the
  initial sync of a new subscriber falls outside that guarantee.
\<close>

section \<open>Inputs\<close>

record autoTitleProbe =
  p_ok :: bool
  procName :: "byte list"
  cwdBase :: "byte list"
  pgid :: int

definition noProbe :: autoTitleProbe where
  "noProbe = \<lparr>p_ok = False, procName = [], cwdBase = [], pgid = 0\<rparr>"

record statusRaw =
  sr_id :: SessionID
  sr_createdAt :: int
  notifMsg :: "byte list"
  oscTitle :: "byte list"
  programState :: "byte list"
  sr_activity :: "byte list"
  sr_activityCount :: int
  autoProbe :: autoTitleProbe
  notifSeq :: nat
  programSeq :: nat
  sr_programOccurrence :: nat
  progress :: int
  progressValue :: int
  exited :: bool
  crashed :: bool
  programSeen :: bool

text \<open>What \<^verbatim>\<open>cmd.Wait\<close> reported: nothing, an \<^verbatim>\<open>*exec.ExitError\<close> with the signal that ended the
  child if one did, or any other error.\<close>

datatype waitError = noWaitError | exitError "int option" | otherWaitError

definition SIGHUP :: int where "SIGHUP = 1"

definition crashedExit :: "waitError \<Rightarrow> bool \<Rightarrow> bool" where
  "crashedExit werr serverInitiated = (if werr = noWaitError \<or> serverInitiated then False
     else case werr of exitError sig \<Rightarrow> sig \<noteq> Some SIGHUP | _ \<Rightarrow> False)"

definition exitOutcome :: "bool \<Rightarrow> waitError \<Rightarrow> bool \<Rightarrow> bool \<times> bool" where
  "exitOutcome ended werr serverInitiated = (if \<not> ended then (False, False)
     else (True, crashedExit werr serverInitiated))"

text \<open>\<open>statusSnapshot\<close> and \<open>statusRaw.read\<close>, given the outcome of the process, what a probe would find, and the host's
  secondary activity.\<close>

definition statusRaw_read :: "SessionID \<Rightarrow> int \<Rightarrow> screen \<Rightarrow> bool \<times> bool \<Rightarrow> autoTitleProbe \<Rightarrow> byte list \<times> int \<Rightarrow> statusRaw" where
  "statusRaw_read k created s outcome probe act = (let prog = programStatus (program s) in
     \<lparr>sr_id = k, sr_createdAt = created, notifMsg = Notification s, oscTitle = screen.Title s,
      programState = PS_State prog, sr_activity = fst act, sr_activityCount = snd act,
      autoProbe = (if screen.Title s = [] \<and> \<not> fst outcome then probe else noProbe),
      notifSeq = NotificationSeq s, programSeq = ProgramReportSeq s, sr_programOccurrence = PS_Seq prog,
      progress = Progress s,
      progressValue = (if ProgramReported s \<and> 0 \<le> PS_Progress prog then PS_Progress prog else ProgressValue s),
      exited = fst outcome, crashed = snd outcome, programSeen = ProgramReported s\<rparr>)"

section \<open>Status of one sweep\<close>

type_synonym classifier = "(byte list \<Rightarrow> byte list option) option"

definition progressStatus :: "int \<Rightarrow> byte list option" where
  "progressStatus p = (if p = 1 \<or> p = 3 then Some StatusWorking else if p = 2 then Some StatusFailed
     else if p = 4 then Some StatusWarning else None)"

definition progressSupersedesLatch :: "int \<Rightarrow> bool" where
  "progressSupersedesLatch p \<longleftrightarrow> p \<noteq> 4"

definition applyNotification :: "classifier \<Rightarrow> statusRaw \<Rightarrow> statusTracker \<Rightarrow> bool \<times> statusTracker" where
  "applyNotification cls it tr = (case cls of None \<Rightarrow> (False, tr)
     | Some f \<Rightarrow> if notifSeq it \<le> notifSeen tr then (False, tr)
         else let tr = tr\<lparr>notifSeen := notifSeq it\<rparr> in
           (case f (notifMsg it) of None \<Rightarrow> (False, tr)
            | Some st \<Rightarrow> (True, tr\<lparr>latched := st, latchSeq := notifSeq it\<rparr>)))"

definition programStatusOf :: "statusRaw \<Rightarrow> bool \<Rightarrow> bool \<Rightarrow> statusTracker \<Rightarrow> (byte list \<times> bool) \<times> statusTracker" where
  "programStatusOf it latchedNow advanced tr =
     (if latched tr \<noteq> [] \<and> sr_programOccurrence it < latchSeq tr then ((latched tr, latchedNow), tr)
      else let tr = tr\<lparr>latched := []\<rparr> in
        (if programState it = ProgramStateWorking then (StatusWorking, False)
         else if programState it = ProgramStateBlocked then (StatusInput, advanced)
         else if programState it = ProgramStateDone then (StatusDone, advanced)
         else if programState it = ProgramStateError then (StatusFailed, advanced)
         else (StatusIdle, False), tr))"

definition computeStatus :: "classifier \<Rightarrow> statusRaw \<Rightarrow> statusTracker \<Rightarrow> (byte list \<times> bool) \<times> statusTracker" where
  "computeStatus cls it tr = (let
     advanced = programOccurrence tr < sr_programOccurrence it;
     tr = tr\<lparr>programOccurrence := sr_programOccurrence it\<rparr>
   in if exited it then ((if crashed it then StatusCrashed else StatusExited, False), tr)
      else case applyNotification cls it tr of (latchedNow, tr) \<Rightarrow>
        if programSeen it then programStatusOf it latchedNow advanced tr
        else (case progressStatus (progress it) of
            Some st \<Rightarrow> if \<not> latchedNow \<and> (latched tr = [] \<or> progressSupersedesLatch (progress it))
              then ((st, False), tr\<lparr>latched := []\<rparr>)
              else if latched tr \<noteq> [] then ((latched tr, latchedNow), tr) else ((StatusIdle, False), tr)
          | None \<Rightarrow> if latched tr \<noteq> [] then ((latched tr, latchedNow), tr) else ((StatusIdle, False), tr)))"

definition numberOccurrence :: "byte list \<Rightarrow> bool \<Rightarrow> statusTracker \<Rightarrow> statusTracker" where
  "numberOccurrence st fresh tr = (if st \<noteq> lastStatus tr \<or> fresh then tr\<lparr>statusSeq := statusSeq tr + 1\<rparr> else tr)"

definition reportsActivity :: "statusRaw \<Rightarrow> statusTracker \<Rightarrow> bool" where
  "reportsActivity it tr \<longleftrightarrow> lastReports tr \<or> 0 \<le> progress it \<or> programSeq it \<noteq> 0 \<or> latched tr \<noteq> []"

definition autoTitleConfirm :: int where "autoTitleConfirm = 500000000"

definition confirmAutoTitle :: "int \<Rightarrow> tab \<Rightarrow> statusRaw \<Rightarrow> statusTracker \<Rightarrow> tab \<times> statusTracker" where
  "confirmAutoTitle now s it tr = (let p = autoProbe it in
     if \<not> p_ok p then (s, tr)
     else if procName p \<noteq> [] then
       (if candidatePGID tr \<noteq> pgid p then (s, tr\<lparr>candidatePGID := pgid p, candidateSince := now\<rparr>)
        else if autoTitleConfirm \<le> now - candidateSince tr then (s\<lparr>autoTitle := procName p\<rparr>, tr)
        else (s, tr))
     else let tr = tr\<lparr>candidatePGID := 0, candidateSince := 0\<rparr> in
       (if cwdBase p \<noteq> [] then s\<lparr>autoTitle := cwdBase p\<rparr> else s, tr))"

section \<open>Change detection\<close>

record statusEvent =
  ev_Order :: "int option"
  ev_CreatedAt :: int
  ev_ID :: SessionID
  ev_Status :: "byte list"
  ev_Title :: "byte list"
  ev_ClientTitle :: "byte list"
  ev_PinnedTitle :: "byte list"
  ev_Alias :: "byte list"
  ev_Activity :: "byte list"
  ev_Notification :: "byte list"
  ev_NotificationSeq :: nat
  ev_StatusSeq :: nat
  ev_SeenSeq :: nat
  ev_ProgressValue :: int
  ev_ActivityCount :: int
  ev_Removed :: bool
  ev_ReportsActivity :: bool

definition unchanged :: "byte list \<Rightarrow> byte list \<Rightarrow> tab \<Rightarrow> bool \<Rightarrow> int \<Rightarrow> statusRaw \<Rightarrow> statusTracker \<Rightarrow> bool" where
  "unchanged st title s reports order it tr \<longleftrightarrow> st = lastStatus tr \<and> title = lastTitle tr
     \<and> clientTitle s = lastClientTitle tr \<and> pinnedTitle s = lastPinnedTitle tr \<and> t_alias s = lastAlias tr
     \<and> reports = lastReports tr \<and> progressValue it = lastProgressValue tr \<and> order = lastOrder tr
     \<and> sr_activity it = lastActivity tr \<and> sr_activityCount it = lastActivityCount tr
     \<and> seenSeq tr = lastSeenSeq tr"

definition commitTracker :: "byte list \<Rightarrow> byte list \<Rightarrow> tab \<Rightarrow> bool \<Rightarrow> int \<Rightarrow> statusRaw \<Rightarrow> statusTracker \<Rightarrow> statusTracker" where
  "commitTracker st title s reports order it tr = tr\<lparr>lastSeenSeq := seenSeq tr, lastOSCTitle := oscTitle it,
     lastStatus := st, lastTitle := title, lastClientTitle := clientTitle s, lastPinnedTitle := pinnedTitle s,
     lastAlias := t_alias s, lastReports := reports, lastProgressValue := progressValue it,
     lastOrder := order, lastActivity := sr_activity it, lastActivityCount := sr_activityCount it\<rparr>"

definition makeEvent :: "byte list \<Rightarrow> byte list \<Rightarrow> tab \<Rightarrow> bool \<Rightarrow> int \<Rightarrow> statusRaw \<Rightarrow> statusTracker \<Rightarrow> statusEvent" where
  "makeEvent st title s reports order it tr = \<lparr>ev_Order = Some order, ev_CreatedAt = sr_createdAt it, ev_ID = sr_id it,
     ev_Status = st, ev_Title = title, ev_ClientTitle = clientTitle s, ev_PinnedTitle = pinnedTitle s, ev_Alias = t_alias s,
     ev_Activity = sr_activity it, ev_Notification = [], ev_NotificationSeq = 0, ev_StatusSeq = statusSeq tr,
     ev_SeenSeq = seenSeq tr, ev_ProgressValue = progressValue it, ev_ActivityCount = sr_activityCount it,
     ev_Removed = False, ev_ReportsActivity = reports\<rparr>"

definition sweepSession :: "classifier \<Rightarrow> int \<Rightarrow> int \<Rightarrow> tab \<Rightarrow> statusRaw \<Rightarrow> statusTracker
    \<Rightarrow> statusEvent option \<times> tab \<times> statusTracker" where
  "sweepSession cls now order s it tr = (let
     notifNew = notifDelivered tr < notifSeq it;
     ((st, fresh), tr) = computeStatus cls it tr;
     (s, tr) = confirmAutoTitle now s it tr;
     title = effectiveTitle \<lparr>pinned = pinnedTitle s, osc = oscTitle it, client = clientTitle s, auto_title = autoTitle s\<rparr>;
     reports = reportsActivity it tr
   in if unchanged st title s reports order it tr \<and> \<not> notifNew \<and> \<not> fresh then (None, s, tr)
      else let
        tr = commitTracker st title s reports order it (numberOccurrence st fresh tr);
        ev = makeEvent st title s reports order it tr
      in if notifNew
         then (Some (ev\<lparr>ev_Notification := notifMsg it, ev_NotificationSeq := notifSeq it\<rparr>), s, tr\<lparr>notifDelivered := notifSeq it\<rparr>)
         else (Some ev, s, tr))"

section \<open>A sweep\<close>

text \<open>The first hold: a tracker for every session, and the sessions to read.\<close>

definition diffBegin :: "manager \<Rightarrow> SessionID list \<times> manager" where
  "diffBegin m = (map fst (m_sessions m),
     m\<lparr>m_trackers := m_trackers m @ map (\<lambda>(k, _). (k, newTracker))
       (filter (\<lambda>(k, _). map_of (m_trackers m) k = None) (m_sessions m))\<rparr>)"

definition set_pair :: "SessionID \<Rightarrow> tab \<Rightarrow> statusTracker \<Rightarrow> manager \<Rightarrow> manager" where
  "set_pair k s tr m = set_tracker k (\<lambda>_. tr) (set_tab k (\<lambda>_. s) m)"

definition diffItem :: "classifier \<Rightarrow> int \<Rightarrow> (SessionID \<Rightarrow> statusRaw) \<Rightarrow> SessionID \<Rightarrow> statusEvent list \<times> manager
    \<Rightarrow> statusEvent list \<times> manager" where
  "diffItem cls now raw k em = (case em of (evs, m) \<Rightarrow>
     (case (map_of (m_sessions m) k, map_of (m_trackers m) k) of
        (Some s, Some tr) \<Rightarrow> (case sweepSession cls now (rankOf m k) s (raw k) tr of (ev, s, tr) \<Rightarrow>
          (case ev of None \<Rightarrow> evs | Some e \<Rightarrow> evs @ [e], set_pair k s tr m))
      | _ \<Rightarrow> (evs, m)))"

definition removedEvent :: "SessionID \<Rightarrow> statusTracker \<Rightarrow> statusEvent" where
  "removedEvent k tr = \<lparr>ev_Order = None, ev_CreatedAt = 0, ev_ID = k, ev_Status = StatusExited, ev_Title = lastTitle tr,
     ev_ClientTitle = [], ev_PinnedTitle = [], ev_Alias = [], ev_Activity = [], ev_Notification = [], ev_NotificationSeq = 0,
     ev_StatusSeq = 0, ev_SeenSeq = 0, ev_ProgressValue = progressAbsent, ev_ActivityCount = 0, ev_Removed = True,
     ev_ReportsActivity = lastReports tr\<rparr>"

text \<open>The second hold, over the items of the first.\<close>

definition diffFinish :: "classifier \<Rightarrow> int \<Rightarrow> SessionID list \<Rightarrow> (SessionID \<Rightarrow> statusRaw) \<Rightarrow> manager \<Rightarrow> statusEvent list \<times> manager" where
  "diffFinish cls now ids raw m = (case fold (diffItem cls now raw) ids ([], m) of (evs, m) \<Rightarrow>
     (evs @ map (\<lambda>(k, tr). removedEvent k tr) (filter (\<lambda>(k, _). \<not> live m k) (m_trackers m)),
      m\<lparr>m_trackers := filter (\<lambda>(k, _). live m k) (m_trackers m)\<rparr>))"

definition diffStatuses :: "classifier \<Rightarrow> int \<Rightarrow> (SessionID \<Rightarrow> statusRaw) \<Rightarrow> manager \<Rightarrow> statusEvent list \<times> manager" where
  "diffStatuses cls now raw m = (case diffBegin m of (ids, m) \<Rightarrow> diffFinish cls now ids raw m)"

section \<open>Subscribers\<close>

definition maxSubscribers :: nat where "maxSubscribers = 10"
definition subscriberBuffer :: nat where "subscriberBuffer = 64"

definition snapEvent :: "manager \<Rightarrow> SessionID \<times> tab \<Rightarrow> statusEvent" where
  "snapEvent m ks = (case ks of (k, s) \<Rightarrow> let rec = committedOf (map_of (m_trackers m) k) in
     \<lparr>ev_Order = None, ev_CreatedAt = createdAt s, ev_ID = k, ev_Status = c_status rec,
      ev_Title = tabTitle s (c_oscTitle rec), ev_ClientTitle = clientTitle s, ev_PinnedTitle = pinnedTitle s,
      ev_Alias = t_alias s, ev_Activity = c_activity rec, ev_Notification = [], ev_NotificationSeq = 0,
      ev_StatusSeq = c_statusSeq rec, ev_SeenSeq = c_seenSeq rec, ev_ProgressValue = c_progressValue rec,
      ev_ActivityCount = c_activityCount rec, ev_Removed = False, ev_ReportsActivity = c_reports rec\<rparr>)"

definition snapKey :: "manager \<Rightarrow> statusEvent \<Rightarrow> int \<times> int \<times> SessionID" where
  "snapKey m e = orderKey \<lparr>so_createdAt = ev_CreatedAt e, so_id = ev_ID e, so_rank = rankOf m (ev_ID e)\<rparr>"

definition snapshot :: "manager \<Rightarrow> statusEvent list" where
  "snapshot m = (let es = sort_key (snapKey m) (map (snapEvent m) (m_sessions m)) in
     map (\<lambda>(i, e). e\<lparr>ev_Order := Some i\<rparr>) (zip [0..int (length es) - 1] es))"

text \<open>The hub: each subscriber's channel with its undelivered events; a channel the hub closed is gone.\<close>

type_synonym hub = "(nat \<times> statusEvent list) list"

definition broadcast :: "statusEvent \<Rightarrow> hub \<Rightarrow> hub" where
  "broadcast e h = concat (map (\<lambda>(c, q). if length q < subscriberBuffer then [(c, q @ [e])] else []) h)"

definition subscribe :: "nat \<Rightarrow> hub \<Rightarrow> hub option" where
  "subscribe c h = (if maxSubscribers \<le> length h then None else Some (h @ [(c, [])]))"

definition unsubscribe :: "nat \<Rightarrow> hub \<Rightarrow> hub" where
  "unsubscribe c h = filter (\<lambda>(c', _). c' \<noteq> c) h"

text \<open>One iteration of \<open>sweepLoop\<close>.\<close>

definition sweepTick :: "classifier \<Rightarrow> int \<Rightarrow> (SessionID \<Rightarrow> statusRaw) \<Rightarrow> manager \<Rightarrow> hub \<Rightarrow> manager \<times> hub" where
  "sweepTick cls now raw m h = (case diffStatuses cls now raw m of (evs, m) \<Rightarrow> (m, fold broadcast evs h))"

section \<open>What a sweep does to one session\<close>

lemma status_nonempty [simp]: "StatusWorking \<noteq> []" "StatusIdle \<noteq> []" "StatusInput \<noteq> []" "StatusDone \<noteq> []"
  "StatusExited \<noteq> []" "StatusCrashed \<noteq> []" "StatusFailed \<noteq> []" "StatusWarning \<noteq> []"
  by (simp_all add: status_values str_def)

lemma applyNotification_tracker:
  "\<exists>a b c. snd (applyNotification cls it tr) = tr\<lparr>notifSeen := a, latched := b, latchSeq := c\<rparr>"
  by (cases tr) (auto simp: applyNotification_def Let_def split: option.splits)

lemma latched_same: "\<exists>c. tr = tr\<lparr>latched := c\<rparr>"
  by (rule exI [of _ "latched tr"]) simp

text \<open>Computing the status moves only the tracker's latch and its cursors, and never yields an empty status.\<close>

lemma computeStatus_tracker:
  assumes "computeStatus cls it tr = ((st, fresh), tr')"
  shows "\<exists>a b c d. tr' = tr\<lparr>programOccurrence := a, notifSeen := b, latched := c, latchSeq := d\<rparr>" "st \<noteq> []"
proof -
  let ?tr = "tr\<lparr>programOccurrence := sr_programOccurrence it\<rparr>"
  obtain now1 tr1 where n: "applyNotification cls it ?tr = (now1, tr1)" by (cases "applyNotification cls it ?tr")
  then obtain a b c where tr1: "tr1 = ?tr\<lparr>notifSeen := a, latched := b, latchSeq := c\<rparr>"
    using applyNotification_tracker [of cls it ?tr] by auto
  have "\<exists>c'. snd (computeStatus cls it tr) = tr1\<lparr>latched := c'\<rparr> \<or> snd (computeStatus cls it tr) = ?tr"
    by (auto simp: computeStatus_def Let_def n programStatusOf_def intro: latched_same split: option.splits prod.splits)
  with assms tr1 show "\<exists>a b c d. tr' = tr\<lparr>programOccurrence := a, notifSeen := b, latched := c, latchSeq := d\<rparr>"
    by (cases tr) auto
  show "st \<noteq> []"
    using assms by (auto simp: computeStatus_def Let_def n programStatusOf_def progressStatus_def split: option.splits if_splits)
qed

lemma confirmAutoTitle_result:
  assumes "confirmAutoTitle now s it tr = (s', tr')"
  shows "\<exists>a b x. tr' = tr\<lparr>candidatePGID := a, candidateSince := b\<rparr> \<and> s' = s\<lparr>autoTitle := x\<rparr>
    \<and> (\<not> p_ok (autoProbe it) \<longrightarrow> x = autoTitle s)"
  using assms by (cases tr; cases s) (auto simp: confirmAutoTitle_def Let_def split: if_splits)

text \<open>The record a subscriber was last told, and what a fresh enumeration would say.\<close>

definition told :: "SessionID \<Rightarrow> int \<Rightarrow> statusTracker \<Rightarrow> statusEvent" where
  "told k created tr = \<lparr>ev_Order = Some (lastOrder tr), ev_CreatedAt = created, ev_ID = k, ev_Status = lastStatus tr,
     ev_Title = lastTitle tr, ev_ClientTitle = lastClientTitle tr, ev_PinnedTitle = lastPinnedTitle tr, ev_Alias = lastAlias tr,
     ev_Activity = lastActivity tr, ev_Notification = [], ev_NotificationSeq = 0, ev_StatusSeq = statusSeq tr,
     ev_SeenSeq = lastSeenSeq tr, ev_ProgressValue = lastProgressValue tr, ev_ActivityCount = lastActivityCount tr,
     ev_Removed = False, ev_ReportsActivity = lastReports tr\<rparr>"

definition current :: "SessionID \<Rightarrow> int \<Rightarrow> tab \<Rightarrow> statusTracker \<Rightarrow> statusEvent" where
  "current k order s tr = (let rec = committedOf (Some tr) in
     \<lparr>ev_Order = Some order, ev_CreatedAt = createdAt s, ev_ID = k, ev_Status = c_status rec,
      ev_Title = tabTitle s (c_oscTitle rec), ev_ClientTitle = clientTitle s, ev_PinnedTitle = pinnedTitle s,
      ev_Alias = t_alias s, ev_Activity = c_activity rec, ev_Notification = [], ev_NotificationSeq = 0,
      ev_StatusSeq = c_statusSeq rec, ev_SeenSeq = c_seenSeq rec, ev_ProgressValue = c_progressValue rec,
      ev_ActivityCount = c_activityCount rec, ev_Removed = False, ev_ReportsActivity = c_reports rec\<rparr>)"

definition quietEvent :: "statusEvent \<Rightarrow> statusEvent" where
  "quietEvent e = e\<lparr>ev_Notification := [], ev_NotificationSeq := 0\<rparr>"

text \<open>The title last told is the resolution of the rungs last told and the automatic title, which only a
  sweep writes.\<close>

definition title_ok :: "tab \<Rightarrow> statusTracker \<Rightarrow> bool" where
  "title_ok s tr \<longleftrightarrow> (lastStatus tr \<noteq> [] \<longrightarrow> lastTitle tr = effectiveTitle
     \<lparr>pinned = lastPinnedTitle tr, osc = lastOSCTitle tr, client = lastClientTitle tr, auto_title = autoTitle s\<rparr>)"

lemma sweepSession_spec:
  assumes "sweepSession cls now order s it tr = (ev, s', tr')"
    and "oscTitle it \<noteq> [] \<longrightarrow> \<not> p_ok (autoProbe it)" and "title_ok s tr"
    and "sr_id it = k" "sr_createdAt it = createdAt s"
  shows "lastStatus tr' \<noteq> []" "title_ok s' tr'" "\<exists>x. s' = s\<lparr>autoTitle := x\<rparr>"
    "current k order s' tr' = told k (createdAt s) tr'" "seenSeq tr' = seenSeq tr" "statusSeq tr \<le> statusSeq tr'"
    "case ev of None \<Rightarrow> lastStatus tr \<noteq> [] \<and> told k (createdAt s) tr' = told k (createdAt s) tr
       | Some e \<Rightarrow> quietEvent e = told k (createdAt s) tr' \<and> ev_ID e = k \<and> \<not> ev_Removed e"
proof -
  obtain st fresh tr1 where c: "computeStatus cls it tr = ((st, fresh), tr1)"
    by (metis prod.exhaust)
  obtain s1 tr2 where a: "confirmAutoTitle now s it tr1 = (s1, tr2)"
    by (cases "confirmAutoTitle now s it tr1")
  obtain x1 x2 x3 x4 where tr1: "tr1 = tr\<lparr>programOccurrence := x1, notifSeen := x2, latched := x3, latchSeq := x4\<rparr>"
    and st: "st \<noteq> []"
    using computeStatus_tracker [OF c] by blast
  obtain y1 y2 x where tr2: "tr2 = tr1\<lparr>candidatePGID := y1, candidateSince := y2\<rparr>" and s1: "s1 = s\<lparr>autoTitle := x\<rparr>"
    and x: "\<not> p_ok (autoProbe it) \<longrightarrow> x = autoTitle s"
    using confirmAutoTitle_result [OF a] by blast
  let ?title = "effectiveTitle \<lparr>pinned = pinnedTitle s1, osc = oscTitle it, client = clientTitle s1, auto_title = autoTitle s1\<rparr>"
  let ?rep = "reportsActivity it tr2"
  let ?same = "unchanged st ?title s1 ?rep order it tr2 \<and> \<not> notifDelivered tr < notifSeq it \<and> \<not> fresh"
  note sweep = assms(1) [unfolded sweepSession_def Let_def c a prod.case]
  have f: "lastStatus tr2 = lastStatus tr" "lastTitle tr2 = lastTitle tr" "lastOSCTitle tr2 = lastOSCTitle tr"
    "lastClientTitle tr2 = lastClientTitle tr" "lastPinnedTitle tr2 = lastPinnedTitle tr" "seenSeq tr2 = seenSeq tr"
    "statusSeq tr2 = statusSeq tr" "told k (createdAt s) tr2 = told k (createdAt s) tr"
    by (simp_all add: tr2 tr1 told_def)
  show "\<exists>x. s' = s\<lparr>autoTitle := x\<rparr>"
    using sweep s1 by (auto split: if_splits)
  show "lastStatus tr' \<noteq> []" "seenSeq tr' = seenSeq tr" "statusSeq tr \<le> statusSeq tr'"
    using sweep st f by (auto simp: commitTracker_def numberOccurrence_def unchanged_def split: if_splits)
  have "title_ok s' tr' \<and> current k order s' tr' = told k (createdAt s) tr'
    \<and> (case ev of None \<Rightarrow> lastStatus tr \<noteq> [] \<and> told k (createdAt s) tr' = told k (createdAt s) tr
       | Some e \<Rightarrow> quietEvent e = told k (createdAt s) tr' \<and> ev_ID e = k \<and> \<not> ev_Removed e)"
  proof (cases ?same)
    case True
    then have r: "ev = None" "s' = s1" "tr' = tr2" using sweep by auto
    have u: "lastStatus tr2 = st" "lastTitle tr2 = ?title" "clientTitle s1 = lastClientTitle tr2"
      "pinnedTitle s1 = lastPinnedTitle tr2" "t_alias s1 = lastAlias tr2" "?rep = lastReports tr2"
      "progressValue it = lastProgressValue tr2" "order = lastOrder tr2" "sr_activity it = lastActivity tr2"
      "sr_activityCount it = lastActivityCount tr2" "seenSeq tr2 = lastSeenSeq tr2"
      using True unfolding unchanged_def by metis+
    have old: "lastTitle tr2 = effectiveTitle \<lparr>pinned = lastPinnedTitle tr2, osc = lastOSCTitle tr2,
        client = lastClientTitle tr2, auto_title = autoTitle s\<rparr>"
      using assms(3) st u(1) f by (simp add: title_ok_def)
    have new: "lastTitle tr2 = effectiveTitle \<lparr>pinned = lastPinnedTitle tr2, osc = lastOSCTitle tr2,
        client = lastClientTitle tr2, auto_title = autoTitle s1\<rparr>"
      using old u(2-4) x assms(2) s1 by (auto simp: effectiveTitle_def split: if_splits)
    then have "title_ok s1 tr2" by (simp add: title_ok_def)
    moreover have "current k order s1 tr2 = told k (createdAt s) tr2"
      using u new st s1 by (simp add: current_def told_def committedOf_def Let_def tabTitle_def)
    ultimately show ?thesis using r f u(1) st by simp
  next
    case False
    let ?tr3 = "commitTracker st ?title s1 ?rep order it (numberOccurrence st fresh tr2)"
    have "\<exists>d. tr' = ?tr3\<lparr>notifDelivered := d\<rparr>"
    proof (cases "notifDelivered tr < notifSeq it")
      case True
      with sweep show ?thesis by auto
    next
      case nn: False
      with sweep False have "tr' = ?tr3" by auto
      then show ?thesis by (intro exI [of _ "notifDelivered ?tr3"]) simp
    qed
    then obtain d where tr': "tr' = ?tr3\<lparr>notifDelivered := d\<rparr>" by blast
    have s': "s' = s1" using sweep False by (auto split: if_splits)
    have "title_ok s' tr'"
      by (simp add: title_ok_def tr' s' commitTracker_def)
    moreover have "current k order s' tr' = told k (createdAt s) tr'"
      using st s1 by (simp add: current_def told_def committedOf_def Let_def tabTitle_def tr' s' commitTracker_def)
    moreover obtain a b where e: "ev = Some ((makeEvent st ?title s1 ?rep order it ?tr3)\<lparr>ev_Notification := a, ev_NotificationSeq := b\<rparr>)"
    proof (cases "notifDelivered tr < notifSeq it")
      case True
      with sweep that show ?thesis by auto
    next
      case nn: False
      with sweep False have "ev = Some (makeEvent st ?title s1 ?rep order it ?tr3)" by auto
      with that [of 0 "[]"] show ?thesis by (simp add: makeEvent_def)
    qed
    ultimately show ?thesis
      using assms(4,5) s1 by (simp add: e tr' quietEvent_def makeEvent_def told_def commitTracker_def)
  qed
  then show "title_ok s' tr'" "current k order s' tr' = told k (createdAt s) tr'"
    "case ev of None \<Rightarrow> lastStatus tr \<noteq> [] \<and> told k (createdAt s) tr' = told k (createdAt s) tr
       | Some e \<Rightarrow> quietEvent e = told k (createdAt s) tr' \<and> ev_ID e = k \<and> \<not> ev_Removed e" by blast+
qed

section \<open>A subscriber's view\<close>

text \<open>A client stores each event under its session and drops a removed session; a notification is shown once
  and not stored.\<close>

type_synonym view = "SessionID \<Rightarrow> statusEvent option"

definition apply_event :: "statusEvent \<Rightarrow> view \<Rightarrow> view" where
  "apply_event e v = (if ev_Removed e then v(ev_ID e := None) else v(ev_ID e \<mapsto> quietEvent e))"

definition apply_events :: "statusEvent list \<Rightarrow> view \<Rightarrow> view" where
  "apply_events es v = fold apply_event es v"

lemma apply_events_simps [simp]: "apply_events [] v = v" "apply_events (e # es) v = apply_events es (apply_event e v)"
  "apply_events (as @ bs) v = apply_events bs (apply_events as v)"
  by (simp_all add: apply_events_def)

lemma apply_events_other: "\<forall>e \<in> set es. ev_ID e \<noteq> k \<Longrightarrow> apply_events es v k = v k"
  by (induction es arbitrary: v) (auto simp: apply_event_def)

text \<open>The view agrees with what was told, and knows no session the sweep does not track.\<close>

definition in_sync :: "view \<Rightarrow> manager \<Rightarrow> bool" where
  "in_sync v m \<longleftrightarrow> (\<forall>k. (map_of (m_trackers m) k = None \<longrightarrow> v k = None)
     \<and> (\<forall>s tr. map_of (m_sessions m) k = Some s \<longrightarrow> map_of (m_trackers m) k = Some tr \<longrightarrow>
          title_ok s tr \<and> (lastStatus tr \<noteq> [] \<longrightarrow> v k = Some (told k (createdAt s) tr))))"

definition raw_ok :: "(SessionID \<Rightarrow> statusRaw) \<Rightarrow> manager \<Rightarrow> bool" where
  "raw_ok raw m \<longleftrightarrow> (\<forall>k s. map_of (m_sessions m) k = Some s \<longrightarrow> sr_id (raw k) = k \<and> sr_createdAt (raw k) = createdAt s
     \<and> (oscTitle (raw k) \<noteq> [] \<longrightarrow> \<not> p_ok (autoProbe (raw k))))"

lemma read_ok:
  assumes "\<And>k s. map_of (m_sessions m) k = Some s \<Longrightarrow> created k = createdAt s"
  shows "raw_ok (\<lambda>k. statusRaw_read k (created k) (scr k) (outcome k) (probe k) (act k)) m"
  using assms by (auto simp: raw_ok_def statusRaw_read_def Let_def noProbe_def)

definition shown_exactly :: "view \<Rightarrow> manager \<Rightarrow> SessionID \<Rightarrow> bool" where
  "shown_exactly v m k \<longleftrightarrow> (\<exists>s tr. map_of (m_sessions m) k = Some s \<and> map_of (m_trackers m) k = Some tr
     \<and> v k = Some (current k (rankOf m k) s tr))"

lemma set_pair_lookup:
  "map_of (m_sessions (set_pair k s tr m)) j = (if j = k then map_option (\<lambda>_. s) (map_of (m_sessions m) k) else map_of (m_sessions m) j)"
  "map_of (m_trackers (set_pair k s tr m)) j = (if j = k then map_option (\<lambda>_. tr) (map_of (m_trackers m) k) else map_of (m_trackers m) j)"
  "rankOf (set_pair k s tr m) = rankOf m" "live (set_pair k s tr m) = live m"
proof -
  show s: "map_of (m_sessions (set_pair k s tr m)) j = (if j = k then map_option (\<lambda>_. s) (map_of (m_sessions m) k) else map_of (m_sessions m) j)" for j
    using map_of_upd [of k "\<lambda>_. s" "m_sessions m" j] by (simp add: set_pair_def set_tab_def)
  show "map_of (m_trackers (set_pair k s tr m)) j = (if j = k then map_option (\<lambda>_. tr) (map_of (m_trackers m) k) else map_of (m_trackers m) j)"
    using map_of_upd [of k "\<lambda>_. tr" "m_trackers m" j] by (simp add: set_pair_def set_tracker_def)
  show "rankOf (set_pair k s tr m) = rankOf m"
    by (rule ext) (simp add: rankOf_def set_pair_def Let_def)
  show "live (set_pair k s tr m) = live m"
    by (rule ext) (auto simp: live_def s)
qed

lemma set_pair_ok:
  assumes "mgr_ok m" "map_of (m_sessions m) k = Some s" "seenSeq tr \<le> statusSeq tr"
  shows "mgr_ok (set_pair k (s\<lparr>autoTitle := x\<rparr>) tr m)"
  unfolding set_pair_def
proof (rule set_tracker_ok)
  have t: "tabset_ok (m_sessions m)" using assms(1) by (simp add: mgr_ok_def)
  have k: "(k, s) \<in> set (m_sessions m)" using assms(2) by (rule map_of_SomeD)
  have "tab_ok k s" using t k by (auto simp: tabset_ok_def)
  then show "mgr_ok (set_tab k (\<lambda>_. s\<lparr>autoTitle := x\<rparr>) m)"
    using tabs_alias [OF t k] by (intro set_tab_ok [OF assms(1)]) (auto simp: tab_ok_def)
qed (use assms(3) in simp)

lemma diffItem_spec:
  assumes "diffItem cls now raw k (evs, m) = (evs', m')" "mgr_ok m" "in_sync v m" "raw_ok raw m"
  shows "\<exists>new. evs' = evs @ new \<and> (\<forall>e \<in> set new. ev_ID e = k) \<and> mgr_ok m' \<and> in_sync (apply_events new v) m' \<and> raw_ok raw m'
    \<and> rankOf m' = rankOf m \<and> live m' = live m
    \<and> (\<forall>j. (map_of (m_trackers m') j = None) = (map_of (m_trackers m) j = None))
    \<and> (\<forall>j. j \<noteq> k \<longrightarrow> map_of (m_sessions m') j = map_of (m_sessions m) j \<and> map_of (m_trackers m') j = map_of (m_trackers m) j)
    \<and> (live m k \<longrightarrow> map_of (m_trackers m) k \<noteq> None \<longrightarrow> shown_exactly (apply_events new v) m' k)"
proof (cases "\<exists>s tr. map_of (m_sessions m) k = Some s \<and> map_of (m_trackers m) k = Some tr")
  case False
  then have "evs' = evs" "m' = m"
    using assms(1) by (auto simp: diffItem_def split: option.splits)
  with assms(2-4) False show ?thesis
    by (intro exI [of _ "[]"]) (auto simp: live_def)
next
  case True
  then obtain s tr where l: "map_of (m_sessions m) k = Some s" "map_of (m_trackers m) k = Some tr" by blast
  obtain ev s' tr' where sw: "sweepSession cls now (rankOf m k) s (raw k) tr = (ev, s', tr')"
    by (cases "sweepSession cls now (rankOf m k) s (raw k) tr")
  define new where "new = (case ev of None \<Rightarrow> [] | Some e \<Rightarrow> [e])"
  have r: "evs' = evs @ new" "m' = set_pair k s' tr' m"
    using assms(1) by (auto simp: diffItem_def l sw new_def split: option.splits)
  have raw: "sr_id (raw k) = k" "sr_createdAt (raw k) = createdAt s" "oscTitle (raw k) \<noteq> [] \<longrightarrow> \<not> p_ok (autoProbe (raw k))"
    using assms(4) l(1) by (auto simp: raw_ok_def)
  have sync: "title_ok s tr" "lastStatus tr \<noteq> [] \<longrightarrow> v k = Some (told k (createdAt s) tr)"
    using assms(3) l by (auto simp: in_sync_def)
  note spec = sweepSession_spec [OF sw raw(3) sync(1) raw(1,2)]
  obtain x where x: "s' = s\<lparr>autoTitle := x\<rparr>" using spec(3) by blast
  have seen: "seenSeq tr' \<le> statusSeq tr'"
    using spec(5,6) assms(2) l(2) by (fastforce simp: mgr_ok_def trackers_ok_def dest!: map_of_SomeD)
  have vk: "apply_events new v k = Some (told k (createdAt s) tr')"
    using spec(7) sync(2) by (cases ev) (auto simp: new_def apply_event_def)
  have ids: "\<forall>e \<in> set new. ev_ID e = k"
    using spec(7) by (cases ev) (auto simp: new_def)
  have vj: "apply_events new v j = v j" if "j \<noteq> k" for j
    using ids that by (intro apply_events_other) auto
  have look: "map_of (m_sessions m') j = (if j = k then Some s' else map_of (m_sessions m) j)"
    "map_of (m_trackers m') j = (if j = k then Some tr' else map_of (m_trackers m) j)" for j
    unfolding r(2) by (simp_all add: set_pair_lookup l)
  have "in_sync (apply_events new v) m'"
    using assms(3) spec(2) unfolding in_sync_def look by (auto simp: vj vk x)
  moreover have "raw_ok raw m'"
    using assms(4) l(1) unfolding raw_ok_def look by (auto simp: x)
  moreover have "mgr_ok m'"
    unfolding r(2) x by (rule set_pair_ok [OF assms(2) l(1) seen])
  moreover have "rankOf m' = rankOf m" "live m' = live m"
    unfolding r(2) by (simp_all add: set_pair_lookup)
  moreover have "shown_exactly (apply_events new v) m' k"
    unfolding shown_exactly_def look using vk spec(4) \<open>rankOf m' = rankOf m\<close> by simp
  ultimately show ?thesis
    using r(1) ids l(2) by (intro exI [of _ new]) (simp add: look)
qed

lemma shown_exactly_cong: "shown_exactly v m k \<Longrightarrow> v' k = v k \<Longrightarrow> map_of (m_sessions m') k = map_of (m_sessions m) k \<Longrightarrow>
    map_of (m_trackers m') k = map_of (m_trackers m) k \<Longrightarrow> rankOf m' = rankOf m \<Longrightarrow> shown_exactly v' m' k"
  by (auto simp: shown_exactly_def)

lemma diffItems_spec:
  assumes "fold (diffItem cls now raw) ids (evs, m) = (evs', m')" "mgr_ok m" "in_sync v m" "raw_ok raw m" "distinct ids"
  shows "\<exists>new. evs' = evs @ new \<and> (\<forall>e \<in> set new. ev_ID e \<in> set ids) \<and> mgr_ok m' \<and> in_sync (apply_events new v) m'
    \<and> rankOf m' = rankOf m \<and> live m' = live m
    \<and> (\<forall>j. (map_of (m_trackers m') j = None) = (map_of (m_trackers m) j = None))
    \<and> (\<forall>j. j \<notin> set ids \<longrightarrow> map_of (m_sessions m') j = map_of (m_sessions m) j \<and> map_of (m_trackers m') j = map_of (m_trackers m) j)
    \<and> (\<forall>k \<in> set ids. live m k \<longrightarrow> map_of (m_trackers m) k \<noteq> None \<longrightarrow> shown_exactly (apply_events new v) m' k)"
  using assms
proof (induction ids arbitrary: evs m v)
  case Nil
  then show ?case by (intro exI [of _ "[]"]) simp
next
  case (Cons k ids)
  obtain evs1 m1 where one: "diffItem cls now raw k (evs, m) = (evs1, m1)"
    by (cases "diffItem cls now raw k (evs, m)")
  from diffItem_spec [OF one Cons.prems(2-4)] obtain new1 where
    n1: "evs1 = evs @ new1" "\<forall>e \<in> set new1. ev_ID e = k" "mgr_ok m1" "in_sync (apply_events new1 v) m1" "raw_ok raw m1"
      "rankOf m1 = rankOf m" "live m1 = live m" "\<forall>j. (map_of (m_trackers m1) j = None) = (map_of (m_trackers m) j = None)"
      "\<forall>j. j \<noteq> k \<longrightarrow> map_of (m_sessions m1) j = map_of (m_sessions m) j \<and> map_of (m_trackers m1) j = map_of (m_trackers m) j"
      "live m k \<longrightarrow> map_of (m_trackers m) k \<noteq> None \<longrightarrow> shown_exactly (apply_events new1 v) m1 k" by blast
  have rest: "fold (diffItem cls now raw) ids (evs1, m1) = (evs', m')"
    using Cons.prems(1) one by simp
  have d: "distinct ids" "k \<notin> set ids" using Cons.prems(5) by simp_all
  from Cons.IH [OF rest n1(3-5) d(1)] obtain new2 where
    n2: "evs' = evs1 @ new2" "\<forall>e \<in> set new2. ev_ID e \<in> set ids" "mgr_ok m'" "in_sync (apply_events new2 (apply_events new1 v)) m'"
      "rankOf m' = rankOf m1" "live m' = live m1" "\<forall>j. (map_of (m_trackers m') j = None) = (map_of (m_trackers m1) j = None)"
      "\<forall>j. j \<notin> set ids \<longrightarrow> map_of (m_sessions m') j = map_of (m_sessions m1) j \<and> map_of (m_trackers m') j = map_of (m_trackers m1) j"
      "\<forall>k \<in> set ids. live m1 k \<longrightarrow> map_of (m_trackers m1) k \<noteq> None \<longrightarrow> shown_exactly (apply_events new2 (apply_events new1 v)) m' k"
    by blast
  have k: "shown_exactly (apply_events new2 (apply_events new1 v)) m' k"
    if "live m k" "map_of (m_trackers m) k \<noteq> None"
  proof (rule shown_exactly_cong)
    show "shown_exactly (apply_events new1 v) m1 k" using n1(10) that by blast
    show "apply_events new2 (apply_events new1 v) k = apply_events new1 v k"
      using n2(2) d(2) by (intro apply_events_other) auto
  qed (use n2(5,8) d(2) in auto)
  show ?case
    by (rule exI [of _ "new1 @ new2"]) (use n1 n2 k in auto)
qed

section \<open>A whole sweep\<close>

lemma diffBegin_spec:
  assumes "diffBegin m = (ids, m')" "mgr_ok m" "in_sync v m"
  shows "mgr_ok m'" "in_sync v m'" "distinct ids" "\<forall>k \<in> set ids. map_of (m_trackers m') k \<noteq> None"
    "m_sessions m' = m_sessions m" "\<forall>k. live m' k \<longrightarrow> k \<in> set ids"
proof -
  let ?f = "filter (\<lambda>(k, _). map_of (m_trackers m) k = None) (m_sessions m)"
  let ?new = "map (\<lambda>(k, _). (k, newTracker)) ?f"
  have m': "m' = m\<lparr>m_trackers := m_trackers m @ ?new\<rparr>" and ids: "ids = map fst (m_sessions m)"
    using assms(1) by (simp_all add: diffBegin_def)
  have t: "tabset_ok (m_sessions m)" "trackers_ok (m_trackers m)" using assms(2) by (simp_all add: mgr_ok_def)
  have keys: "map fst ?new = map fst ?f" by (auto simp: case_prod_unfold)
  have "distinct (map fst ?f)" using t(1) by (simp add: tabset_ok_def distinct_map_filter)
  moreover have "set (map fst (m_trackers m)) \<inter> set (map fst ?f) = {}"
    by (auto simp: map_of_eq_None_iff) (metis fst_conv imageI)
  ultimately have "distinct (map fst (m_trackers m @ ?new))"
    using t(2) by (simp only: map_append keys distinct_append trackers_ok_def)
  moreover have "seenSeq tr \<le> statusSeq tr" if "(k, tr) \<in> set (m_trackers m @ ?new)" for k tr
    using that t(2) by (auto simp: trackers_ok_def newTracker_def)
  ultimately have "trackers_ok (m_trackers m @ ?new)"
    unfolding trackers_ok_def by blast
  then show "mgr_ok m'" using assms(2) unfolding m' mgr_ok_def order_ok_def by simp
  have look: "map_of (m_trackers m') k = (case map_of (m_trackers m) k of Some tr \<Rightarrow> Some tr
      | None \<Rightarrow> if k \<in> set (map fst (m_sessions m)) then Some newTracker else None)" for k
  proof -
    have "map_of ?new k = (if k \<in> set (map fst ?f) then Some newTracker else None)"
    proof -
      have "?new = map (\<lambda>k. (k, newTracker)) (map fst ?f)" by (simp add: case_prod_unfold)
      then show ?thesis by (simp only: map_of_map_restrict) (simp add: restrict_map_def)
    qed
    then show ?thesis unfolding m' by (auto simp: map_add_def split: option.splits)
  qed
  have sess: "m_sessions m' = m_sessions m" by (simp add: m')
  have fresh: "lastStatus newTracker = []" by (simp add: newTracker_def)
  show "in_sync v m'"
    using assms(3) fresh unfolding in_sync_def look sess by (auto simp: title_ok_def split: option.splits)
  show "distinct ids" using t(1) by (simp add: ids tabset_ok_def)
  show "\<forall>k \<in> set ids. map_of (m_trackers m') k \<noteq> None" by (auto simp: look ids split: option.splits)
  show "m_sessions m' = m_sessions m" by (simp add: m')
  show "\<forall>k. live m' k \<longrightarrow> k \<in> set ids" by (simp add: m' ids live_iff)
qed

lemma apply_removed: "apply_events (map (\<lambda>(k, tr). removedEvent k tr) ts) v k = (if k \<in> set (map fst ts) then None else v k)"
  by (induction ts arbitrary: v) (auto simp: apply_event_def removedEvent_def)

lemma diffFinish_spec:
  assumes "diffFinish cls now ids raw m = (evs, m')" "mgr_ok m" "in_sync v m" "raw_ok raw m" "distinct ids"
  shows "mgr_ok m'" "in_sync (apply_events evs v) m'" "live m' = live m"
    "\<forall>k \<in> set ids. live m k \<longrightarrow> map_of (m_trackers m) k \<noteq> None \<longrightarrow> shown_exactly (apply_events evs v) m' k"
    "\<forall>k. \<not> live m k \<longrightarrow> apply_events evs v k = None"
proof -
  obtain evs1 m1 where one: "fold (diffItem cls now raw) ids ([], m) = (evs1, m1)"
    by (cases "fold (diffItem cls now raw) ids ([], m)")
  from diffItems_spec [OF one assms(2-5)] have
    n: "mgr_ok m1" "in_sync (apply_events evs1 v) m1" "rankOf m1 = rankOf m" "live m1 = live m"
      "\<forall>k \<in> set ids. live m k \<longrightarrow> map_of (m_trackers m) k \<noteq> None \<longrightarrow> shown_exactly (apply_events evs1 v) m1 k"
    by auto
  let ?gone = "filter (\<lambda>(k, _). \<not> live m1 k) (m_trackers m1)"
  have r: "evs = evs1 @ map (\<lambda>(k, tr). removedEvent k tr) ?gone"
    "m' = m1\<lparr>m_trackers := filter (\<lambda>(k, _). live m1 k) (m_trackers m1)\<rparr>"
    using assms(1) by (simp_all add: diffFinish_def one)
  have d: "distinct (map fst (m_trackers m1))" using n(1) by (simp add: mgr_ok_def trackers_ok_def)
  have look: "map_of (m_trackers m') k = (if live m1 k then map_of (m_trackers m1) k else None)" for k
    unfolding r(2) using map_of_filter_distinct [OF d] by (auto split: option.splits)
  define G where "G = set (map fst ?gone)"
  have v: "apply_events evs v k = (if k \<in> G then None else apply_events evs1 v k)" for k
    unfolding r(1) G_def by (simp only: apply_events_simps apply_removed)
  have gone: "k \<in> G \<longleftrightarrow> \<not> live m1 k \<and> map_of (m_trackers m1) k \<noteq> None" for k
    unfolding G_def by (auto simp: map_of_eq_None_iff image_iff) force
  show lv: "live m' = live m"
    by (rule ext) (simp add: live_def r(2) flip: n(4))
  have rank: "rankOf m' = rankOf m1" by (rule ext) (simp add: rankOf_def r(2) Let_def)
  have "trackers_ok (filter (\<lambda>(k, _). live m1 k) (m_trackers m1))"
    using n(1) by (auto simp: mgr_ok_def trackers_ok_def distinct_map_filter)
  then show "mgr_ok m'" using n(1) unfolding r(2) mgr_ok_def order_ok_def by simp
  have look1: "map_of (m_trackers m1) k = None \<Longrightarrow> apply_events evs1 v k = None" for k
    using n(2) by (simp add: in_sync_def)
  show none: "\<forall>k. \<not> live m k \<longrightarrow> apply_events evs v k = None"
    using look1 by (auto simp: v gone n(4))
  have vl: "apply_events evs v k = apply_events evs1 v k" if "live m k" for k
    using that by (simp add: v gone n(4))
  have sess: "m_sessions m' = m_sessions m1" by (simp add: r(2))
  show "in_sync (apply_events evs v) m'"
    unfolding in_sync_def
  proof (intro allI conjI impI)
    fix k
    assume "map_of (m_trackers m') k = None"
    then show "apply_events evs v k = None"
      using none vl look1 by (cases "live m k") (auto simp: look n(4))
  next
    fix k s tr
    assume a: "map_of (m_sessions m') k = Some s" "map_of (m_trackers m') k = Some tr"
    then have l: "live m k" "map_of (m_trackers m1) k = Some tr" by (auto simp: look n(4) split: if_splits)
    then show "title_ok s tr" using n(2) a(1) by (auto simp: sess in_sync_def)
    show "apply_events evs v k = Some (told k (createdAt s) tr)" if "lastStatus tr \<noteq> []"
      using that n(2) a(1) l by (auto simp: sess in_sync_def vl)
  qed
  show "\<forall>k \<in> set ids. live m k \<longrightarrow> map_of (m_trackers m) k \<noteq> None \<longrightarrow> shown_exactly (apply_events evs v) m' k"
  proof (intro ballI impI)
    fix k assume "k \<in> set ids" "live m k" "map_of (m_trackers m) k \<noteq> None"
    with n(5) have "shown_exactly (apply_events evs1 v) m1 k" by blast
    then show "shown_exactly (apply_events evs v) m' k"
      by (rule shown_exactly_cong) (simp_all add: vl \<open>live m k\<close> sess look n(4) rank)
  qed
qed

section \<open>A fresh enumeration\<close>

definition snapView :: "manager \<Rightarrow> view" where
  "snapView m = apply_events (snapshot m) Map.empty"

lemma sort_by_rank:
  assumes "mgr_ok m" "\<And>k s. (k, s) \<in> set (m_sessions m) \<Longrightarrow> ev_ID (f (k, s)) = k"
  shows "sort_key (snapKey m) (map f (m_sessions m)) = map (\<lambda>k. f (k, the (map_of (m_sessions m) k))) (m_order m)"
proof (rule sort_key_inj_key_eq)
  let ?g = "\<lambda>k. f (k, the (map_of (m_sessions m) k))"
  have d: "distinct (m_order m)" "distinct (map fst (m_sessions m))"
    using assms(1) by (simp_all add: mgr_ok_def order_ok_def tabset_ok_def)
  have "map f (m_sessions m) = map ?g (map fst (m_sessions m))"
    using d(2) by auto
  then show "mset (map f (m_sessions m)) = mset (map ?g (m_order m))"
    using mset_order [OF assms(1)] by (simp only: mset_map)
  then have set: "set (map f (m_sessions m)) = set (map ?g (m_order m))" by (rule mset_eq_setD)
  have id: "ev_ID (?g k) = k" if "k \<in> set (m_order m)" for k
  proof -
    have "live m k" using that assms(1) by (simp add: live_iff mgr_ok_def order_ok_def)
    then obtain s where "map_of (m_sessions m) k = Some s" by (auto simp: live_def)
    with assms(2) [OF map_of_SomeD] show ?thesis by simp
  qed
  show "inj_on (snapKey m) (set (map f (m_sessions m)))"
    unfolding set by (rule inj_onI) (auto simp: snapKey_def orderKey_def id)
  have rank: "rankOf m (m_order m ! i) = int i" if "i < length (m_order m)" for i
    using that indexOf_distinct [OF d(1) that] by (simp add: rankOf_def Let_def)
  show "sorted (map (snapKey m) (map ?g (m_order m)))"
    unfolding sorted_iff_nth_mono_less
    using rank by (auto simp: snapKey_def orderKey_def id less_eq_prod_def)
qed

lemma apply_events_nth:
  assumes "distinct (map ev_ID es)" "i < length es" "\<not> ev_Removed (es ! i)"
  shows "apply_events es v (ev_ID (es ! i)) = Some (quietEvent (es ! i))"
proof -
  let ?rest = "drop (Suc i) es"
  have "es = take i es @ es ! i # ?rest" using assms(2) by (simp add: id_take_nth_drop)
  then have "apply_events es v = apply_events ?rest (apply_event (es ! i) (apply_events (take i es) v))"
    by (metis apply_events_simps(2,3))
  moreover have "\<forall>e \<in> set ?rest. ev_ID e \<noteq> ev_ID (es ! i)"
    using assms(1,2) by (auto simp: in_set_conv_nth distinct_conv_nth)
  ultimately show ?thesis
    using assms(3) by (simp add: apply_events_other apply_event_def)
qed

lemma snapView_spec:
  assumes "mgr_ok m"
  shows "\<not> live m k \<Longrightarrow> snapView m k = None"
    "map_of (m_sessions m) k = Some s \<Longrightarrow> map_of (m_trackers m) k = Some tr \<Longrightarrow> snapView m k = Some (current k (rankOf m k) s tr)"
proof -
  let ?g = "\<lambda>k. snapEvent m (k, the (map_of (m_sessions m) k))"
  let ?es = "map ?g (m_order m)" let ?n = "length (m_order m)"
  have id: "ev_ID (snapEvent m (k, s)) = k" for k s by (simp add: snapEvent_def Let_def)
  have snap: "snapshot m = map (\<lambda>(i, e). e\<lparr>ev_Order := Some i\<rparr>) (zip [0..int ?n - 1] ?es)"
    unfolding snapshot_def Let_def using sort_by_rank [OF assms, of "snapEvent m"] id by simp
  have nth: "snapshot m ! i = (?g (m_order m ! i))\<lparr>ev_Order := Some (int i)\<rparr>" if "i < ?n" for i
    using that by (simp add: snap nth_upto)
  have len: "length (snapshot m) = ?n" by (simp add: snap)
  have ids: "map ev_ID (snapshot m) = m_order m"
    by (rule nth_equalityI) (simp_all add: len nth id)
  have d: "distinct (m_order m)" "set (m_order m) = set (map fst (m_sessions m))"
    using assms by (simp_all add: mgr_ok_def order_ok_def)
  show "snapView m k = None" if "\<not> live m k"
  proof -
    have "k \<notin> set (map ev_ID (snapshot m))" unfolding ids using that d(2) by (simp add: live_iff)
    then have "\<forall>e \<in> set (snapshot m). ev_ID e \<noteq> k" by auto
    then show ?thesis unfolding snapView_def by (simp add: apply_events_other)
  qed
  show "snapView m k = Some (current k (rankOf m k) s tr)"
    if s: "map_of (m_sessions m) k = Some s" and tr: "map_of (m_trackers m) k = Some tr"
  proof -
    have "k \<in> set (m_order m)" using s d(2) live_iff [of m k] by (simp add: live_def)
    then obtain i where i: "i < ?n" "k = m_order m ! i" by (auto simp: in_set_conv_nth)
    have e: "snapshot m ! i = (snapEvent m (k, s))\<lparr>ev_Order := Some (int i)\<rparr>"
      using nth [OF i(1)] i(2) s by simp
    have "rankOf m k = int i" using indexOf_distinct [OF d(1) i(1)] i(2) by (simp add: rankOf_def Let_def)
    then have "quietEvent (snapshot m ! i) = current k (rankOf m k) s tr"
      unfolding e by (simp add: quietEvent_def snapEvent_def current_def Let_def tr)
    moreover have "apply_events (snapshot m) Map.empty (ev_ID (snapshot m ! i)) = Some (quietEvent (snapshot m ! i))"
      by (rule apply_events_nth) (simp_all add: ids d(1) len i(1) e snapEvent_def Let_def)
    ultimately show ?thesis
      unfolding snapView_def by (simp add: e id)
  qed
qed

section \<open>Every interleaving\<close>

text \<open>The ids a restore created, each once.\<close>

definition somes :: "'a option list \<Rightarrow> 'a list" where
  "somes xs = concat (map (\<lambda>k. case k of None \<Rightarrow> [] | Some k \<Rightarrow> [k]) xs)"

lemma somes_simps [simp]: "somes [] = []" "somes (None # xs) = somes xs" "somes (Some k # xs) = k # somes xs"
  by (simp_all add: somes_def)

lemma set_somes: "k \<in> set (somes xs) \<longleftrightarrow> Some k \<in> set xs"
  by (induction xs) (auto simp: somes_def split: option.splits)

lemma somes_once: "distinct (somes xs) \<Longrightarrow> i < length xs \<Longrightarrow> j < length xs \<Longrightarrow> xs ! i = Some k \<Longrightarrow> xs ! j = Some k \<Longrightarrow> i = j"
proof (induction xs arbitrary: i j)
  case (Cons x xs)
  have r: "distinct (somes xs)" using Cons.prems(1) by (cases x) simp_all
  have x: "x = Some k \<Longrightarrow> \<forall>n < length xs. xs ! n \<noteq> Some k"
    using Cons.prems(1) set_somes [of k xs] by (auto simp: in_set_conv_nth)
  show ?case
    using Cons.IH [OF r] Cons.prems(2-5) x by (cases i; cases j) auto
qed simp

lemma somes_live: "somes (map (\<lambda>k. case k of None \<Rightarrow> None | Some k \<Rightarrow> if P k then Some k else None) xs) = filter P (somes xs)"
  by (induction xs) (auto simp: somes_def split: option.splits)

text \<open>
  Every operation of the manager, each under one hold of its lock.  A new session's id is fresh: it is
  128 random bits.  A restore applies a layout the parser accepted over ids it created.
\<close>

inductive manager_op :: "manager \<Rightarrow> manager \<Rightarrow> bool" where
  op_create: "createFinish spec k h c now rand m = Some (res, m') \<Longrightarrow> k \<noteq> [] \<Longrightarrow> \<not> live m k \<Longrightarrow>
     map_of (m_trackers m) k = None \<Longrightarrow> manager_op m m'"
| op_close: "manager_op m (snd (sm_Close k m))"
| op_reap: "manager_op m (snd (maybeReap now m))"
| op_shutdown: "manager_op m (snd (sm_Shutdown m))"
| op_order: "manager_op m (snd (SetSessionOrder ids m))"
| op_layout: "manager_op m (snd (SetPaneLayout l m))"
| op_title: "manager_op m (snd (SetSessionTitle k title m))"
| op_pin: "manager_op m (snd (SetSessionPinnedTitle k title m))"
| op_alias: "manager_op m (snd (SetSessionAlias k a m))"
| op_seen: "manager_op m (snd (markSessionSeen k seq m))"
| op_withdraw: "manager_op m (snd (WithdrawStatusLatch k want seq m))"
| op_connect: "manager_op m (clientConnected m)"
| op_disconnect: "manager_op m (clientDisconnected now m)"
| op_lookup: "manager_op m (snd (wsLookup k m))"
| op_restored: "setLayout_invalid stored (int (length created)) = None \<Longrightarrow> int (length created) < 2 ^ 63 \<Longrightarrow>
     distinct (somes created) \<Longrightarrow> manager_op m (applyRestoredLocked stored created og lg m)"

lemma restoredOrder_perm:
  assumes "distinct (somes ids)" "set (somes ids) \<subseteq> set ids0"
  shows "distinct (restoredOrder ids ids0)" "set (restoredOrder ids ids0) = set ids0"
proof -
  have f: "distinct acc \<Longrightarrow> distinct (fold (\<lambda>k order. if k \<in> set order then order else order @ [k]) ks acc)
      \<and> set (fold (\<lambda>k order. if k \<in> set order then order else order @ [k]) ks acc) = set acc \<union> set ks" for ks and acc :: "SessionID list"
    by (induction ks arbitrary: acc) auto
  show "distinct (restoredOrder ids ids0)" "set (restoredOrder ids ids0) = set ids0"
    unfolding restoredOrder_def Let_def somes_def [symmetric] using f [OF assms(1), of ids0] assms(2) by auto
qed

lemma normalize_held: "normalizePaneLayout l order
    = normalizePaneLayout (l\<lparr>l_Left := held order (l_Left l), l_Right := held order (l_Right l)\<rparr>) order"
proof -
  have "held order (held order s) = held order s" for s by (cases s) simp_all
  then have "indexSide order (held order s) = indexSide order s" for s by (simp add: indexSide_eq)
  then show ?thesis by (simp add: normalizePaneLayout_def indexLayout_def)
qed

lemma restored_layout:
  assumes "distinct order" "[] \<notin> set order" "setLayout_invalid stored (int (length ids)) = None" "int (length ids) < 2 ^ 63"
    "distinct (somes ids)"
  shows "layout_over order (normalizePaneLayout (idLayout stored (liveIDs ids)) order)"
proof -
  let ?l = "idLayout stored (liveIDs ids)"
  have st: "inRange (int (length ids)) stored" "invalidShape stored = None"
    using assms(3,4) by (simp_all add: setLayout_invalid_None)
  have side: "\<exists>i < length ids. s = Some (int i) \<and> ids ! i = Some k"
    if "held order (idSide (liveIDs ids) s) = Some k" for s k
  proof -
    from that obtain a where a: "s = Some a" "0 \<le> a" "nat a < length ids" "liveIDs ids ! nat a = k" "k \<in> set order"
      by (auto simp: held_def idSide_def liveIDs_def split: option.splits if_splits)
    then have "ids ! nat a = Some k"
      using assms(2) by (auto simp: liveIDs_def split: option.splits)
    with a show ?thesis by (intro exI [of _ "nat a"]) simp
  qed
  have same: "l_Left stored = l_Right stored"
    if l: "held order (idSide (liveIDs ids) (l_Left stored)) = Some k"
      and r: "held order (idSide (liveIDs ids) (l_Right stored)) = Some k" for k
    using side [OF l] side [OF r] somes_once [OF assms(5)] by metis
  have "held order (l_Left ?l) = None" if "held order (l_Left ?l) = held order (l_Right ?l)"
  proof (cases "held order (l_Left ?l)")
    case (Some k)
    with that same have "l_Left stored = None" using st(2) by (simp add: idLayout_def invalidShape_None)
    then show ?thesis by (simp add: idLayout_def idSide_def)
  qed simp
  then have "sides_ok (?l\<lparr>l_Left := held order (l_Left ?l), l_Right := held order (l_Right ?l)\<rparr>)"
    using st(2) by (simp add: sides_ok_def invalidShape_None idLayout_def)
  then show ?thesis
    by (subst normalize_held) (rule normalizePaneLayout_over [OF assms(1)])
qed

lemma applyRestored_fields: "m_sessions (applyRestoredLocked s c og lg m) = m_sessions m"
  "m_trackers (applyRestoredLocked s c og lg m) = m_trackers m" "m_closed (applyRestoredLocked s c og lg m) = m_closed m"
  by (simp_all add: applyRestoredLocked_def Let_def)

lemma applyRestored_ok:
  assumes "mgr_ok m" "setLayout_invalid stored (int (length created)) = None" "int (length created) < 2 ^ 63" "distinct (somes created)"
  shows "mgr_ok (applyRestoredLocked stored created og lg m)"
proof -
  let ?ids = "map (\<lambda>k. case k of None \<Rightarrow> None | Some k \<Rightarrow> if live m k then Some k else None) created"
  have o: "distinct (m_order m)" "set (m_order m) = set (map fst (m_sessions m))" "[] \<notin> set (m_order m)"
    using assms(1) by (auto simp: mgr_ok_def order_ok_def tabset_ok_def tab_ok_def)
  have s: "distinct (somes ?ids)" "set (somes ?ids) \<subseteq> set (m_order m)"
    using assms(4) o(2) unfolding somes_live by (auto simp: live_iff)
  note perm = restoredOrder_perm [OF s]
  have over: "layout_over order (m_layout m)" if "set order = set (m_order m)" for order
    using assms(1) layout_over_set [OF that] by (simp add: mgr_ok_def)
  have lay: "layout_over order (normalizePaneLayout (idLayout stored (liveIDs ?ids)) order)"
    if "distinct order" "set order = set (m_order m)" for order
    by (rule restored_layout) (use that o(3) assms(2,3) s(1) in simp_all)
  show ?thesis
    using assms(1) perm over [OF perm(2)] lay [OF perm] lay [OF o(1) refl]
    by (simp add: applyRestoredLocked_def Let_def mgr_ok_def order_ok_def)
qed

text \<open>What an operation leaves of the parts a subscriber's view depends on.\<close>

definition op_keeps :: "manager \<Rightarrow> manager \<Rightarrow> bool" where
  "op_keeps m m' \<longleftrightarrow> (\<forall>k. case map_of (m_trackers m) k of None \<Rightarrow> map_of (m_trackers m') k = None
     | Some tr \<Rightarrow> (\<exists>a b. map_of (m_trackers m') k = Some (tr\<lparr>latched := a, seenSeq := b\<rparr>)
        \<and> (\<forall>s'. map_of (m_sessions m') k = Some s' \<longrightarrow>
            (\<exists>s. map_of (m_sessions m) k = Some s \<and> createdAt s' = createdAt s \<and> autoTitle s' = autoTitle s))))"

lemma op_keeps_sync: "op_keeps m m' \<Longrightarrow> in_sync v m \<Longrightarrow> in_sync v m'"
proof -
  assume k: "op_keeps m m'" and v: "in_sync v m"
  have told: "told j c (tr\<lparr>latched := a, seenSeq := b\<rparr>) = told j c tr" for j c tr a b by (simp add: told_def)
  show ?thesis
    unfolding in_sync_def
  proof (intro allI conjI impI)
    fix j assume "map_of (m_trackers m') j = None"
    with k v show "v j = None" unfolding op_keeps_def in_sync_def
      by (cases "map_of (m_trackers m) j") (auto dest!: spec [of _ j])
  next
    fix j s' tr' assume a: "map_of (m_sessions m') j = Some s'" "map_of (m_trackers m') j = Some tr'"
    with k obtain tr a b s where t: "map_of (m_trackers m) j = Some tr" "tr' = tr\<lparr>latched := a, seenSeq := b\<rparr>"
      "map_of (m_sessions m) j = Some s" "createdAt s' = createdAt s" "autoTitle s' = autoTitle s"
      unfolding op_keeps_def by (cases "map_of (m_trackers m) j") (fastforce dest!: spec [of _ j])+
    then show "title_ok s' tr'" using v by (simp add: in_sync_def title_ok_def)
    show "v j = Some (told j (createdAt s') tr')" if "lastStatus tr' \<noteq> []"
      using v t that by (simp add: in_sync_def told)
  qed
qed

lemma op_keeps_sessions: "m_trackers m' = m_trackers m \<Longrightarrow>
    (\<And>k s'. map_of (m_trackers m) k \<noteq> None \<Longrightarrow> map_of (m_sessions m') k = Some s' \<Longrightarrow>
       \<exists>s. map_of (m_sessions m) k = Some s \<and> createdAt s' = createdAt s \<and> autoTitle s' = autoTitle s) \<Longrightarrow> op_keeps m m'"
proof -
  assume t: "m_trackers m' = m_trackers m" and s: "\<And>k s'. map_of (m_trackers m) k \<noteq> None \<Longrightarrow> map_of (m_sessions m') k = Some s' \<Longrightarrow>
       \<exists>s. map_of (m_sessions m) k = Some s \<and> createdAt s' = createdAt s \<and> autoTitle s' = autoTitle s"
  have same: "tr = tr\<lparr>latched := latched tr, seenSeq := seenSeq tr\<rparr>" for tr :: statusTracker by simp
  show ?thesis
    unfolding op_keeps_def t
  proof
    fix k
    show "case map_of (m_trackers m) k of None \<Rightarrow> map_of (m_trackers m) k = None
     | Some tr \<Rightarrow> (\<exists>a b. map_of (m_trackers m) k = Some (tr\<lparr>latched := a, seenSeq := b\<rparr>)
        \<and> (\<forall>s'. map_of (m_sessions m') k = Some s' \<longrightarrow>
            (\<exists>s. map_of (m_sessions m) k = Some s \<and> createdAt s' = createdAt s \<and> autoTitle s' = autoTitle s)))"
    proof (cases "map_of (m_trackers m) k")
      case (Some tr)
      then show ?thesis
        using s [of k] by (simp only: option.case) (rule exI [of _ "latched tr"], rule exI [of _ "seenSeq tr"], simp)
    qed simp
  qed
qed

lemma op_keeps_same: "m_trackers m' = m_trackers m \<Longrightarrow> m_sessions m' = m_sessions m \<Longrightarrow> op_keeps m m'"
  by (rule op_keeps_sessions) simp_all

lemma op_keeps_tab: "(\<And>s. createdAt (f s) = createdAt s \<and> autoTitle (f s) = autoTitle s) \<Longrightarrow> op_keeps m (set_tab k f m)"
  by (rule op_keeps_sessions) (auto simp: set_tab_def map_of_upd split: if_splits)

lemma op_keeps_tracker: "(\<And>tr. \<exists>a b. f tr = tr\<lparr>latched := a, seenSeq := b\<rparr>) \<Longrightarrow> op_keeps m (set_tracker k f m)"
proof -
  assume f: "\<And>tr. \<exists>a b. f tr = tr\<lparr>latched := a, seenSeq := b\<rparr>"
  have same: "\<exists>a b. tr = tr\<lparr>latched := a, seenSeq := b\<rparr>" for tr :: statusTracker
    by (intro exI [of _ "latched tr"] exI [of _ "seenSeq tr"]) simp
  have "map_of (m_trackers (set_tracker k f m)) j = (if j = k then map_option f (map_of (m_trackers m) k) else map_of (m_trackers m) j)" for j
    by (simp add: set_tracker_def map_of_upd)
  with f same show ?thesis
    unfolding op_keeps_def by (auto split: option.split)
qed

lemma manager_op_inv:
  assumes "manager_op m m'" "mgr_ok m"
  shows "mgr_ok m' \<and> op_keeps m m'"
  using assms
proof (induction rule: manager_op.induct)
  case (op_create spec k h c now rand m res m')
  have ok: "mgr_ok m'" by (rule createFinish_ok [OF op_create(5,1,2,3)])
  have "op_keeps m m'"
  proof (cases res)
    case (Inl e)
    with op_create(1) createFinish_error have "m' = m" by blast
    then show ?thesis by (simp add: op_keeps_same)
  next
    case (Inr info)
    note f = createFinish_fields [OF op_create(1) [unfolded Inr]]
    show ?thesis
      by (rule op_keeps_sessions) (use f(4) op_create(4) in \<open>auto simp: f(6) update_conv' split: if_splits\<close>)
  qed
  with ok show ?case by blast
next
  case (op_close m k)
  have "op_keeps m (snd (sm_Close k m))"
    by (rule op_keeps_sessions)
      (auto simp: sm_Close_def dropFromLayoutLocked_def dropFromOrderLocked_def Let_def delete_conv' split: option.splits if_splits)
  with sm_Close_ok op_close show ?case by blast
next
  case (op_reap m now)
  have "op_keeps m (snd (maybeReap now m))"
    by (rule op_keeps_sessions) (auto simp: maybeReap_def emptySet_def split: if_splits)
  with maybeReap_ok op_reap show ?case by blast
next
  case (op_shutdown m)
  have "op_keeps m (snd (sm_Shutdown m))"
    by (rule op_keeps_sessions) (auto simp: sm_Shutdown_def emptySet_def)
  with sm_Shutdown_ok op_shutdown show ?case by blast
next
  case (op_order m ids)
  have "op_keeps m (snd (SetSessionOrder ids m))"
    by (rule op_keeps_same) (simp_all add: SetSessionOrder_def)
  with SetSessionOrder_ok op_order show ?case by blast
next
  case (op_layout m l)
  have "op_keeps m (snd (SetPaneLayout l m))"
    by (rule op_keeps_same) (simp_all add: SetPaneLayout_def Let_def split: option.split)
  with SetPaneLayout_ok op_layout show ?case by blast
next
  case (op_title m k title)
  have "op_keeps m (snd (SetSessionTitle k title m))"
    by (auto simp: SetSessionTitle_def intro: op_keeps_same op_keeps_tab)
  with SetSessionTitle_ok op_title show ?case by blast
next
  case (op_pin m k title)
  have "op_keeps m (snd (SetSessionPinnedTitle k title m))"
    by (auto simp: SetSessionPinnedTitle_def intro: op_keeps_same op_keeps_tab)
  with SetSessionPinnedTitle_ok op_pin show ?case by blast
next
  case (op_alias m k a)
  have "op_keeps m (snd (SetSessionAlias k a m))"
    by (auto simp: SetSessionAlias_def intro: op_keeps_same op_keeps_tab split: option.split)
  with SetSessionAlias_ok op_alias show ?case by blast
next
  case (op_seen m k seq)
  have "\<exists>a b. tr\<lparr>seenSeq := x\<rparr> = tr\<lparr>latched := a, seenSeq := b\<rparr>" for tr :: statusTracker and x
    by (intro exI [of _ "latched tr"] exI [of _ x]) simp
  then have "op_keeps m (snd (markSessionSeen k seq m))"
    by (auto simp: markSessionSeen_def intro: op_keeps_same op_keeps_tracker)
  with markSessionSeen_ok op_seen show ?case by blast
next
  case (op_withdraw m k want seq)
  have "\<exists>a b. tr\<lparr>latched := x\<rparr> = tr\<lparr>latched := a, seenSeq := b\<rparr>" for tr :: statusTracker and x
    by (intro exI [of _ x] exI [of _ "seenSeq tr"]) simp
  then have "op_keeps m (snd (WithdrawStatusLatch k want seq m))"
    by (auto simp: WithdrawStatusLatch_def intro: op_keeps_same op_keeps_tracker split: option.split)
  with WithdrawStatusLatch_ok op_withdraw show ?case by blast
next
  case (op_connect m)
  then show ?case by (simp add: clients_ok) (simp add: clientConnected_def op_keeps_same)
next
  case (op_disconnect m now)
  then show ?case by (simp add: clients_ok) (simp add: clientDisconnected_def op_keeps_same Let_def)
next
  case (op_lookup m k)
  then show ?case
    by (simp add: clients_ok) (auto simp: wsLookup_def clientConnected_def intro: op_keeps_same split: option.split)
next
  case (op_restored stored created m og lg)
  then show ?case by (simp add: applyRestored_ok op_keeps_same applyRestored_fields)
qed

text \<open>The manager, the sweep in flight if any (the sessions its first hold listed), and the view of a subscriber
  who was there from the start.\<close>

record stream =
  s_mgr :: manager
  s_items :: "SessionID list option"
  s_view :: view

text \<open>The second hold of a sweep whose handlers reported \<open>scr\<close>, \<open>outcome\<close>, \<open>probe\<close> and \<open>act\<close>; \<open>created\<close> is
  when each session was created, which never changes.\<close>

definition sweep_done :: "classifier \<Rightarrow> stream \<Rightarrow> stream \<Rightarrow> bool" where
  "sweep_done cls st st' \<longleftrightarrow> (\<exists>ids now created scr outcome probe act evs m'.
     s_items st = Some ids \<and> (\<forall>k s. map_of (m_sessions (s_mgr st)) k = Some s \<longrightarrow> created k = createdAt s)
     \<and> diffFinish cls now ids (\<lambda>k. statusRaw_read k (created k) (scr k) (outcome k) (probe k) (act k)) (s_mgr st) = (evs, m')
     \<and> st' = \<lparr>s_mgr = m', s_items = None, s_view = apply_events evs (s_view st)\<rparr>)"

inductive stream_step :: "classifier \<Rightarrow> stream \<Rightarrow> stream \<Rightarrow> bool" for cls where
  s_op: "manager_op (s_mgr st) m' \<Longrightarrow> stream_step cls st (st\<lparr>s_mgr := m'\<rparr>)"
| s_begin: "s_items st = None \<Longrightarrow> diffBegin (s_mgr st) = (ids, m') \<Longrightarrow>
     stream_step cls st (st\<lparr>s_mgr := m', s_items := Some ids\<rparr>)"
| s_finish: "sweep_done cls st st' \<Longrightarrow> stream_step cls st st'"

definition stream_start :: "stream \<Rightarrow> bool" where
  "stream_start st \<longleftrightarrow> (\<exists>now w. st = \<lparr>s_mgr = NewSessionManager now w, s_items = None, s_view = Map.empty\<rparr>)"

definition stream_inv :: "stream \<Rightarrow> bool" where
  "stream_inv st \<longleftrightarrow> mgr_ok (s_mgr st) \<and> in_sync (s_view st) (s_mgr st)
     \<and> (case s_items st of None \<Rightarrow> True
        | Some ids \<Rightarrow> distinct ids \<and> (\<forall>k \<in> set ids. map_of (m_trackers (s_mgr st)) k \<noteq> None))"

lemma op_keeps_tracked: "op_keeps m m' \<Longrightarrow> map_of (m_trackers m) k \<noteq> None \<Longrightarrow> map_of (m_trackers m') k \<noteq> None"
  by (auto simp: op_keeps_def dest!: spec [of _ k])

lemma sweep_done_spec:
  assumes "sweep_done cls st st'" "stream_inv st" "s_items st = Some ids"
  shows "stream_inv st'" "live (s_mgr st') k \<longrightarrow> k \<in> set ids \<Longrightarrow> s_view st' k = snapView (s_mgr st') k"
proof -
  from assms(1,3) obtain now created scr outcome probe act evs m' where
    c: "\<forall>k s. map_of (m_sessions (s_mgr st)) k = Some s \<longrightarrow> created k = createdAt s"
    and f: "diffFinish cls now ids (\<lambda>k. statusRaw_read k (created k) (scr k) (outcome k) (probe k) (act k)) (s_mgr st) = (evs, m')"
    and st': "st' = \<lparr>s_mgr = m', s_items = None, s_view = apply_events evs (s_view st)\<rparr>"
    unfolding sweep_done_def by auto
  have i: "mgr_ok (s_mgr st)" "in_sync (s_view st) (s_mgr st)" "distinct ids"
    "\<forall>k \<in> set ids. map_of (m_trackers (s_mgr st)) k \<noteq> None"
    using assms(2,3) by (simp_all add: stream_inv_def)
  have raw: "raw_ok (\<lambda>k. statusRaw_read k (created k) (scr k) (outcome k) (probe k) (act k)) (s_mgr st)"
    by (rule read_ok) (use c in blast)
  note spec = diffFinish_spec [OF f i(1,2) raw i(3)]
  show "stream_inv st'" using spec(1,2) by (simp add: stream_inv_def st')
  show "s_view st' k = snapView (s_mgr st') k" if k: "live (s_mgr st') k \<longrightarrow> k \<in> set ids"
  proof (cases "live (s_mgr st) k")
    case True
    with k have "k \<in> set ids" by (simp add: st' spec(3))
    with i(4) spec(4) True have "shown_exactly (apply_events evs (s_view st)) m' k" by blast
    then show ?thesis
      using snapView_spec(2) [OF spec(1)] by (auto simp: shown_exactly_def st')
  next
    case False
    then show ?thesis
      using spec(5) snapView_spec(1) [OF spec(1)] by (simp add: st' spec(3))
  qed
qed

interpretation strm: step_system stream_start "stream_step cls" stream_inv for cls
proof
  fix st assume "stream_start st"
  then show "stream_inv st"
    by (auto simp: stream_start_def stream_inv_def new_manager_ok) (simp add: in_sync_def NewSessionManager_def)
next
  fix st st' assume step: "stream_step cls st st'" and inv: "stream_inv st"
  from step show "stream_inv st'"
  proof cases
    case (s_op m')
    have k: "mgr_ok m' \<and> op_keeps (s_mgr st) m'"
      using manager_op_inv s_op(2) inv by (simp add: stream_inv_def)
    with inv op_keeps_sync op_keeps_tracked show ?thesis
      unfolding s_op(1) stream_inv_def by (fastforce split: option.splits)
  next
    case (s_begin ids m')
    from inv have i: "mgr_ok (s_mgr st)" "in_sync (s_view st) (s_mgr st)" by (simp_all add: stream_inv_def)
    from diffBegin_spec [OF s_begin(3) i] show ?thesis
      unfolding s_begin(1) stream_inv_def by simp
  next
    case s_finish
    then obtain ids where "s_items st = Some ids" by (auto simp: sweep_done_def)
    with s_finish sweep_done_spec(1) inv show ?thesis by blast
  qed
qed

inductive_cases stream_stepE: "stream_step cls st st'"


text \<open>
  C21: the status stream never leaves a viewer with a wrong tab.  In every interleaving of the manager's
  operations with the two holds of a sweep, a subscriber who applied the events of every sweep shows, right
  after a sweep, exactly what a fresh enumeration says of each session that sweep listed, and nothing
  of a session that is gone.
\<close>

theorem stream_view_exact:
  assumes "stream_start s0" and "(stream_step cls)\<^sup>*\<^sup>* s0 st" and "s_items st = Some ids"
    and "sweep_done cls st st'" and "live (s_mgr st') k \<longrightarrow> k \<in> set ids"
  shows "s_view st' k = snapView (s_mgr st') k"
  using sweep_done_spec(2) [OF assms(4) strm.reachable_inv [OF assms(1,2)] assms(3,5)] .


section \<open>Concrete runs\<close>

text \<open>One session \<open>s1\<close> named \<open>one\<close>; a quiet screen.\<close>

definition quietRaw :: "SessionID \<Rightarrow> statusRaw" where
  "quietRaw k = statusRaw_read k 7 demoScreen (False, False) noProbe ([], 0)"

definition demoStart :: stream where
  "demoStart = \<lparr>s_mgr = NewSessionManager 0 60, s_items = None, s_view = Map.empty\<rparr>"

definition demoListed :: stream where
  "demoListed = \<lparr>s_mgr = snd (diffBegin demoOne), s_items = Some [str ''s1''], s_view = Map.empty\<rparr>"

definition demoSwept :: stream where
  "demoSwept = (case diffFinish None 9 [str ''s1''] quietRaw (s_mgr demoListed) of (evs, m) \<Rightarrow>
     \<lparr>s_mgr = m, s_items = None, s_view = apply_events evs (s_view demoListed)\<rparr>)"

lemma demoCreate_op:
  assumes "createFinish \<lparr>spec_Alias = a, spec_PinnedTitle = []\<rparr> k 0 (str ''sh'') 7 (\<lambda>i. str ''abcde'') m \<noteq> None"
    "k \<noteq> []" "\<not> live m k" "map_of (m_trackers m) k = None"
  shows "manager_op m (demoCreate k a m)"
  using assms op_create by (fastforce simp: demoCreate_def)

lemma demo_runs: "stream_start demoStart" "(stream_step None)\<^sup>*\<^sup>* demoStart demoListed" "sweep_done None demoListed demoSwept"
proof -
  show "stream_start demoStart" by (auto simp: stream_start_def demoStart_def)
  let ?m = "NewSessionManager 0 60"
  have free: "\<not> live ?m k" "map_of (m_trackers ?m) k = None" for k
    by (simp_all add: live_def NewSessionManager_def)
  have "createFinish \<lparr>spec_Alias = str ''one'', spec_PinnedTitle = []\<rparr> (str ''s1'') 0 (str ''sh'') 7 (\<lambda>i. str ''abcde'') ?m \<noteq> None"
    by code_simp
  from demoCreate_op [OF this _ free] have "manager_op (s_mgr demoStart) demoOne"
    by (simp add: demoOne_def demoStart_def str_def)
  then have "stream_step None demoStart (demoStart\<lparr>s_mgr := demoOne\<rparr>)" by (rule s_op)
  moreover have "stream_step None (demoStart\<lparr>s_mgr := demoOne\<rparr>) demoListed"
  proof -
    have "map fst (m_sessions demoOne) = [str ''s1'']" by code_simp
    then have "diffBegin demoOne = ([str ''s1''], snd (diffBegin demoOne))" by (simp add: diffBegin_def)
    then show ?thesis
      using s_begin [of "demoStart\<lparr>s_mgr := demoOne\<rparr>"] by (simp add: demoStart_def demoListed_def)
  qed
  ultimately show "(stream_step None)\<^sup>*\<^sup>* demoStart demoListed" by (rule converse_rtranclp_into_rtranclp [OF _ r_into_rtranclp])
  have "map (createdAt \<circ> snd) (m_sessions (s_mgr demoListed)) = [7]" by code_simp
  then have c: "\<forall>k s. map_of (m_sessions (s_mgr demoListed)) k = Some s \<longrightarrow> 7 = createdAt s"
    by (auto dest!: map_of_SomeD)
  show "sweep_done None demoListed demoSwept"
    unfolding sweep_done_def demoSwept_def quietRaw_def
    by (rule exI [of _ "[str ''s1'']"], rule exI [of _ 9], rule exI [of _ "\<lambda>_. 7"], rule exI [of _ "\<lambda>_. demoScreen"],
      rule exI [of _ "\<lambda>_. (False, False)"], rule exI [of _ "\<lambda>_. noProbe"], rule exI [of _ "\<lambda>_. ([], 0)"])
      (use c in \<open>auto simp: demoListed_def split: prod.split\<close>)
qed


lemma stream_view_exact_witness:
  "s_view demoSwept (str ''s1'') = snapView (s_mgr demoSwept) (str ''s1'') \<and> s_view demoSwept (str ''s1'') \<noteq> None"
proof -
  have "s_items demoListed = Some [str ''s1'']" by (simp add: demoListed_def)
  then have "s_view demoSwept (str ''s1'') = snapView (s_mgr demoSwept) (str ''s1'')"
    by (rule stream_view_exact [OF demo_runs(1,2) _ demo_runs(3)]) simp
  moreover have "map_option ev_Status (s_view demoSwept (str ''s1'')) = Some StatusIdle" by code_simp
  ultimately show ?thesis by auto
qed

section \<open>Subscribers hear everything or are dropped\<close>

lemma broadcast_eq: "broadcast e h = map (\<lambda>(c, q). (c, q @ [e])) (filter (\<lambda>(c, q). length q < subscriberBuffer) h)"
  by (induction h) (auto simp: broadcast_def)

lemma fold_broadcast:
  assumes "\<forall>(c, q) \<in> set h. length q \<le> subscriberBuffer"
  shows "fold broadcast evs h = map (\<lambda>(c, q). (c, q @ evs)) (filter (\<lambda>(c, q). length q + length evs \<le> subscriberBuffer) h)"
  using assms
proof (induction evs arbitrary: h)
  case Nil
  then have "filter (\<lambda>(c, q). length q \<le> subscriberBuffer) h = h" by (intro filter_True) auto
  then show ?case by (simp add: case_prod_unfold)
next
  case (Cons e evs)
  have "\<forall>(c, q) \<in> set (broadcast e h). length q \<le> subscriberBuffer"
    by (auto simp: broadcast_eq)
  note ih = Cons.IH [OF this]
  have m: "map f (filter P (map g xs)) = map (f \<circ> g) (filter (P \<circ> g) xs)" for f :: "nat \<times> statusEvent list \<Rightarrow> nat \<times> statusEvent list" and P g and xs :: hub
    by (simp add: filter_map)
  show ?case
    unfolding fold_Cons comp_apply ih unfolding broadcast_eq m filter_filter
    by (rule arg_cong2 [where f = map]) (auto simp: fun_eq_iff intro!: filter_cong)
qed

text \<open>
  C22: after a sweep every subscriber still registered has exactly its undelivered events followed by all
  the sweep's events, in order, and a subscriber whose 64-event buffer cannot hold them all is dropped:
  no subscriber ever misses an event and stays.
\<close>

theorem subscriber_complete_or_dropped:
  assumes "diffStatuses cls now raw m = (evs, m')" and "\<forall>(c, q) \<in> set h. length q \<le> 64"
  shows "sweepTick cls now raw m h
    = (m', map (\<lambda>(c, q). (c, q @ evs)) (filter (\<lambda>(c, q). length q + length evs \<le> 64) h))"
  using fold_broadcast [of h evs] assms by (simp add: sweepTick_def subscriberBuffer_def)

lemma subscriber_complete_or_dropped_witness:
  "map fst (snd (sweepTick None 9 quietRaw demoOne [(1, []), (2, replicate 64 (removedEvent [] newTracker))])) = [1]"
proof -
  let ?h = "[(1, []), (2, replicate 64 (removedEvent [] newTracker))]"
  obtain evs m' where d: "diffStatuses None 9 quietRaw demoOne = (evs, m')" by (cases "diffStatuses None 9 quietRaw demoOne")
  have "length (fst (diffStatuses None 9 quietRaw demoOne)) = 1" by code_simp
  with d have "length evs = 1" by simp
  then show ?thesis
    by (subst subscriber_complete_or_dropped [OF d]) auto
qed

section \<open>A classified notification holds\<close>

text \<open>A report with no process exit, no OSC 7501, no running, indeterminate or failed progress, and no
  notification after the \<open>n\<close>th that the classifier recognises.\<close>

definition quietAfter :: "(byte list \<Rightarrow> byte list option) \<Rightarrow> nat \<Rightarrow> statusRaw \<Rightarrow> bool" where
  "quietAfter f n it \<longleftrightarrow> \<not> exited it \<and> \<not> programSeen it \<and> progress it \<notin> {1, 2, 3}
     \<and> (notifSeq it \<le> n \<or> f (notifMsg it) = None)"

lemma computeStatus_quiet:
  assumes "quietAfter f n it" "n \<le> notifSeen tr" "latched tr = st" "st \<noteq> []"
  shows "fst (computeStatus (Some f) it tr) = (st, False)" "latched (snd (computeStatus (Some f) it tr)) = st"
    "n \<le> notifSeen (snd (computeStatus (Some f) it tr))"
  using assms
  by (auto simp: quietAfter_def computeStatus_def applyNotification_def Let_def progressStatus_def progressSupersedesLatch_def
    split: option.splits)

definition runStatus :: "classifier \<Rightarrow> statusRaw list \<Rightarrow> statusTracker \<Rightarrow> statusTracker" where
  "runStatus cls its tr = fold (\<lambda>it tr. snd (computeStatus cls it tr)) its tr"

lemma runStatus_quiet:
  assumes "list_all (quietAfter f n) its" "n \<le> notifSeen tr" "latched tr = st" "st \<noteq> []"
  shows "latched (runStatus (Some f) its tr) = st" "n \<le> notifSeen (runStatus (Some f) its tr)"
proof -
  have "latched (runStatus (Some f) its tr) = st \<and> n \<le> notifSeen (runStatus (Some f) its tr)"
    using assms
  proof (induction its arbitrary: tr)
    case (Cons it its)
    then have it: "quietAfter f n it" by simp
    show ?case
      using Cons.IH [OF _ computeStatus_quiet(3,2) [OF it Cons.prems(2-4)] Cons.prems(4)] Cons.prems(1)
      by (simp add: runStatus_def)
  qed (simp add: runStatus_def)
  then show "latched (runStatus (Some f) its tr) = st" "n \<le> notifSeen (runStatus (Some f) its tr)" by simp_all
qed


definition demoRaw :: "nat \<Rightarrow> int \<Rightarrow> statusRaw" where
  "demoRaw n p = (quietRaw (str ''s1''))\<lparr>notifSeq := n, notifMsg := str ''turn done'', progress := p\<rparr>"


section \<open>Where a new subscriber's initial sync falls short\<close>


end
