(* ===== verification/Flush.thy ===== *)
theory Flush
  imports Frames Engine
begin

text \<open>
  The flush frame builder (\<open>src/terminal/flush_builder.go\<close>) and the drain it shares with the
  handler (\<open>drainScrollback\<close> in \<open>src/terminal/terminal.go\<close>): what a flush sends is the difference
  between the screen's rows and the rows last sent, both keyed by absolute line index.  A nil map
  or payload is \<open>None\<close>, the set of attached sockets with their acks a partial map.  The client is
  modelled by what it promises: it stores each line under its absolute index, whatever was there
  before (\<open>paint\<close>, \<open>deliver\<close>).

  The lemmas show that every rendered row fits the byte budget of its frame, and that a client
  that applied the frames so far holds exactly the rows on the screen, whether the builder sent a
  frame or found nothing to send.
\<close>

section \<open>Rendering a row\<close>

lemma rendered_row:
  assumes "wf s" "0 \<le> y" "y < Height s"
  shows "\<exists>row runs. get_at (Cells s) y = Some row \<and> RenderRowWire y s = Some runs
    \<and> runsText runs = map cellRune (if softWrapsBelow y s then row else trimTrailingBlanks row)
    \<and> (\<forall>r \<in> set runs. wT r \<noteq> []) \<and> int (length row) = Width s"
proof -
  have h: "Height s = int (length (Cells s))" "Width s \<le> 1000"
    using assms(1) by (simp_all add: wf_def grid_ok_def rect_def box_ok_def maxDimension_def)
  obtain row where row: "get_at (Cells s) y = Some row" "int (length row) = Width s"
    using h assms(2,3) grid_row_length [of s y] assms(1) by (simp add: get_at_def wf_def)
  let ?runs = "cellsToRuns s row (softWrapsBelow y s)"
  have "length (runsText ?runs) \<le> length row"
    using trim_length [of row] by (simp add: cellsToRuns_text)
  then have "int (length (runsText ?runs)) \<le> 1000"
    using row(2) h(2) by linarith
  then have "ensures (stampAutolinks y ?runs s) (stamped ?runs)"
    by (intro stampAutolinks_text [OF h(1) assms(2,3)]) simp
  then obtain runs where "stampAutolinks y ?runs s = Some runs" "stamped ?runs runs"
    by (auto simp: ensures_iff)
  then show ?thesis
    using row assms cellsToRuns_nonempty [of s row "softWrapsBelow y s"]
    by (simp add: RenderRowWire_def stamped_def cellsToRuns_text)
qed

lemma RenderRowWire_some: "wf s \<Longrightarrow> \<exists>runs. RenderRowWire y s = Some runs"
  using rendered_row [of s y] by (cases "0 \<le> y \<and> y < Height s") (auto simp: RenderRowWire_def)

lemma runs_le_text: "(\<forall>r \<in> set runs. wT r \<noteq> []) \<Longrightarrow> length runs \<le> length (runsText runs)"
proof (induction runs)
  case (Cons r runs)
  then have "0 < length (wT r)"
    by simp
  then have "Suc (length runs) \<le> length (wT r) + length (runsText runs)"
    using Cons by (cases "wT r") auto
  then show ?case
    by (simp add: runsText_def)
qed simp

text \<open>A row of the screen is sent with exactly the text of its cells (trailing blanks trimmed
  unless the next row continues it), whatever links were recognised in it, and its encoding always
  fits the budget of one frame: the cap that drops the links is enough.\<close>

theorem rendered_row_fits:
  assumes "wf s" "0 \<le> y" "y < Height s"
  shows "\<exists>row runs. get_at (Cells s) y = Some row \<and> RenderRowWire y s = Some runs
    \<and> runsText runs = map cellRune (if softWrapsBelow y s then row else trimTrailingBlanks row)
    \<and> length (appendRowRuns [] runs) \<le> rowByteCeiling"
proof -
  obtain row runs where r: "get_at (Cells s) y = Some row" "RenderRowWire y s = Some runs"
    "runsText runs = map cellRune (if softWrapsBelow y s then row else trimTrailingBlanks row)"
    "\<forall>r \<in> set runs. wT r \<noteq> []" "int (length row) = Width s"
    using rendered_row [OF assms] by blast
  have "length row \<le> 1000"
    using r(5) assms(1) by (simp add: wf_def box_ok_def maxDimension_def)
  then have t: "length (runsText runs) \<le> 1000"
    using r(3) trim_length [of row] by simp
  have "encodedRowSize (stripRowURIs runs) \<le> 22002"
    using stripped_size [of runs] runs_le_text [OF r(4)] t by linarith
  then have "length (appendRowRuns [] runs) \<le> rowByteCeiling"
    by (simp add: appendRowRuns_eq length_rowBytes capRowRuns_def rowByteCeiling_def pageByteBudget_def
        encodedScrollHeaderSize_def)
  with r show ?thesis
    by blast
qed

lemma rendered_row_fits_witness:
  "\<exists>runs. RenderRowWire 1 demoScreen = Some runs \<and> length (appendRowRuns [] runs) \<le> rowByteCeiling"
proof -
  have "1 < Height demoScreen"
    by code_simp
  then show ?thesis
    using rendered_row_fits [OF demoScreen_wf, of 1] by auto
qed

section \<open>The builder\<close>

record flushFrameBuilder =
  prevTitle :: "byte list"
  prevRowWires :: "wire_run list list"
  prevBase :: u64
  prevCurRow :: int
  prevCurCol :: int
  prevMouseMode :: int
  prevKbdFlags :: byte
  prevMouseSGR :: bool
  prevMousePixels :: bool
  prevAppCursor :: bool
  prevFocusReport :: bool
  prevAppKeypad :: bool
  prevReverseVid :: bool
  prevBracketed :: bool
  prevAlt :: bool
  modesAnnounced :: bool
  titleAnnounced :: bool
  prevCurValid :: bool
  prevAltValid :: bool

record flushFrame =
  ffClients :: "sock \<Rightarrow> u64 option"
  ffGens :: "sock \<Rightarrow> u64 option"
  ffRows :: "wire_run list list"
  scrollLines :: "wire_run list list"
  scrollWrapped :: "bool list"
  changedRows :: "int list"
  modesPayload :: "byte list option"
  titlePayload :: "byte list option"
  clipboardPayload :: "byte list option"
  frameBase :: u64
  scrollFirstIdx :: u64
  ffCurRow :: int
  ffCurCol :: int
  ffScreenHeight :: int
  ffCursorStyle :: int
  ffCursorHidden :: bool
  ffCursorBlink :: bool
  altActive :: bool
  ffBell :: bool
  ffScrollbackCleared :: bool

definition emptyFrame :: flushFrame where
  "emptyFrame = \<lparr>ffClients = Map.empty, ffGens = Map.empty, ffRows = [], scrollLines = [], scrollWrapped = [],
     changedRows = [], modesPayload = None, titlePayload = None, clipboardPayload = None, frameBase = 0,
     scrollFirstIdx = 0, ffCurRow = 0, ffCurCol = 0, ffScreenHeight = 0, ffCursorStyle = 0,
     ffCursorHidden = False, ffCursorBlink = False, altActive = False, ffBell = False,
     ffScrollbackCleared = False\<rparr>"

definition newBuilder :: flushFrameBuilder where
  "newBuilder = \<lparr>prevTitle = [], prevRowWires = [], prevBase = 0, prevCurRow = 0, prevCurCol = 0,
     prevMouseMode = 0, prevKbdFlags = 0, prevMouseSGR = False, prevMousePixels = False,
     prevAppCursor = False, prevFocusReport = False, prevAppKeypad = False, prevReverseVid = False,
     prevBracketed = False, prevAlt = False, modesAnnounced = False, titleAnnounced = False,
     prevCurValid = False, prevAltValid = False\<rparr>"

definition builder_Reset :: "flushFrameBuilder \<Rightarrow> flushFrameBuilder" where
  "builder_Reset b = b\<lparr>prevRowWires := [], prevBase := 0, prevCurValid := False, modesAnnounced := False,
     titleAnnounced := False\<rparr>"

definition drainScrollback :: "screen \<Rightarrow> (wire_run list list \<times> bool list) \<times> screen" where
  "drainScrollback s = (let w = DrainedWrapped s; (ls, s) = DrainScrollback s in ((ls, w), s))"

definition altTransitionPending :: "screen \<Rightarrow> flushFrameBuilder \<Rightarrow> bool" where
  "altTransitionPending s b \<longleftrightarrow> prevAltValid b \<and> InAltScreen s \<noteq> prevAlt b"

text \<open>\<open>prevRow\<close>: the last-sent content of an absolute index, and whether the cache covers it.\<close>

definition prevRow :: "u64 \<Rightarrow> flushFrameBuilder \<Rightarrow> (wire_run list \<times> bool) option" where
  "prevRow a b = (let prevLen = of_nat (length (prevRowWires b)) in
     if prevLen = 0 \<or> a < prevBase b \<or> a \<ge> prevBase b + prevLen then Some ([], False)
     else do { r \<leftarrow> get_at (prevRowWires b) (uint (a - prevBase b)); Some (r, True) })"

definition diffWindow :: "wire_run list list \<Rightarrow> u64 \<Rightarrow> flushFrameBuilder
    \<Rightarrow> (int list \<times> flushFrameBuilder) option" where
  "diffWindow rows base b = do {
     changed \<leftarrow> foldM (\<lambda>(y, row) changed. do {
         (prev, cached) \<leftarrow> prevRow (base + of_nat y) b;
         Some (if \<not> cached \<or> prev \<noteq> row then changed @ [int y] else changed) })
       (zip [0..<length rows] rows) [];
     Some (changed, b\<lparr>prevRowWires := rows, prevBase := base\<rparr>) }"

definition appendRowIfMissing :: "int list \<Rightarrow> int \<Rightarrow> int \<Rightarrow> int list" where
  "appendRowIfMissing changed y rowCount =
    (if y < 0 \<or> y \<ge> rowCount then changed else if y \<in> set changed then changed else changed @ [y])"

definition trackCursor :: "int list \<Rightarrow> int \<Rightarrow> int \<Rightarrow> int \<Rightarrow> flushFrameBuilder
    \<Rightarrow> (int list \<times> bool) \<times> flushFrameBuilder" where
  "trackCursor changed rowCount curRow curCol b = (let
     cursorMoved = (\<not> prevCurValid b \<or> curRow \<noteq> prevCurRow b \<or> curCol \<noteq> prevCurCol b);
     changed = (if cursorMoved \<and> prevCurValid b
       then appendRowIfMissing (appendRowIfMissing changed (prevCurRow b) rowCount) curRow rowCount
       else changed)
   in ((changed, cursorMoved), b\<lparr>prevCurRow := curRow, prevCurCol := curCol, prevCurValid := True\<rparr>))"

definition modesStable :: "screen \<Rightarrow> flushFrameBuilder \<Rightarrow> bool" where
  "modesStable s b \<longleftrightarrow> modesAnnounced b \<and> BracketedPaste s = prevBracketed b
     \<and> AppCursorKeys s = prevAppCursor b \<and> MouseSGR s = prevMouseSGR b \<and> MousePixels s = prevMousePixels b
     \<and> FocusReporting s = prevFocusReport b \<and> MouseMode s = prevMouseMode b \<and> AppKeypad s = prevAppKeypad b
     \<and> ReverseVideo s = prevReverseVid b \<and> KeyboardFlags s = prevKbdFlags b"

definition screenModes :: "screen \<Rightarrow> byte list" where
  "screenModes s = encodeModesMsg (BracketedPaste s) (AppCursorKeys s) (MouseSGR s) (FocusReporting s)
     (AppKeypad s) (ReverseVideo s) (MousePixels s) (word_of_int (MouseMode s)) (KeyboardFlags s)"

definition buildModesPayload :: "screen \<Rightarrow> flushFrameBuilder \<Rightarrow> byte list option \<times> flushFrameBuilder" where
  "buildModesPayload s b = (if modesStable s b then (None, b)
     else (Some (screenModes s),
       b\<lparr>prevBracketed := BracketedPaste s, prevAppCursor := AppCursorKeys s, prevMouseSGR := MouseSGR s,
         prevMousePixels := MousePixels s, prevFocusReport := FocusReporting s, prevMouseMode := MouseMode s,
         prevAppKeypad := AppKeypad s, prevReverseVid := ReverseVideo s, prevKbdFlags := KeyboardFlags s,
         modesAnnounced := True\<rparr>))"

definition titleStable :: "screen \<Rightarrow> flushFrameBuilder \<Rightarrow> bool" where
  "titleStable s b \<longleftrightarrow> titleAnnounced b \<and> Title s = prevTitle b"

definition buildTitlePayload :: "screen \<Rightarrow> flushFrameBuilder \<Rightarrow> byte list option \<times> flushFrameBuilder" where
  "buildTitlePayload s b = (if titleAnnounced b \<and> Title s = prevTitle b then (None, b)
     else (Some (encodeTitleMsg (Title s)), b\<lparr>prevTitle := Title s, titleAnnounced := True\<rparr>))"

definition frameEmpty :: "screen \<Rightarrow> int list \<Rightarrow> wire_run list list \<Rightarrow> bool \<Rightarrow> flushFrameBuilder \<Rightarrow> bool" where
  "frameEmpty s changed scrollOut cursorMoved b \<longleftrightarrow> changed = [] \<and> scrollOut = [] \<and> modesStable s b
     \<and> \<not> cursorMoved \<and> titleStable s b"

definition renderWindow :: "screen \<Rightarrow> wire_run list list option" where
  "renderWindow s = mapM (\<lambda>y. RenderRowWire y s) [0..Height s - 1]"

text \<open>\<open>Build\<close>: the frame if there is one, and the screen and the builder after the call.\<close>

definition Build :: "screen \<Rightarrow> bool \<Rightarrow> (sock \<Rightarrow> u64 option) \<Rightarrow> u64 \<Rightarrow> flushFrameBuilder
    \<Rightarrow> (flushFrame option \<times> screen \<times> flushFrameBuilder) option" where
  "Build s sizeEstablished clients committedBefore b =
    (if \<not> sizeEstablished then Some (None, snd (DrainScrollback s), b)
     else if IsFlushHeld s then Some (None, s, b)
     else do {
       let altChanged = altTransitionPending s b;
       let b = (if \<not> prevAltValid b \<or> altChanged
         then (builder_Reset b)\<lparr>prevAlt := InAltScreen s, prevAltValid := True\<rparr> else b);
       let ((drained, drainedW), s) = drainScrollback s;
       let (scrollOut, scrollW) = (if \<not> InAltScreen s \<and> \<not> altChanged \<and> drained \<noteq> []
         then (drained, drainedW) else ([], []));
       let base = committedBefore + of_nat (length scrollOut);
       rows \<leftarrow> renderWindow s;
       let (curRow, curCol) = CursorPos s;
       let (bell, s) = TakeBell s;
       (changed, b) \<leftarrow> diffWindow rows base b;
       let ((changed, cursorMoved), b) = trackCursor changed (int (length rows)) curRow curCol b;
       let changed = (if bell then appendRowIfMissing changed curRow (int (length rows)) else changed);
       if frameEmpty s changed scrollOut cursorMoved b then Some (None, s, b)
       else do {
         let (modes, b) = buildModesPayload s b;
         let (title, b) = buildTitlePayload s b;
         Some (Some (emptyFrame\<lparr>ffClients := clients, ffRows := rows, scrollLines := scrollOut,
           scrollWrapped := scrollW, scrollFirstIdx := committedBefore, frameBase := base, changedRows := changed,
           ffCurRow := curRow, ffCurCol := curCol, ffScreenHeight := Height s, altActive := InAltScreen s,
           ffCursorStyle := CursorStyle s, ffCursorHidden := CursorHidden s, ffCursorBlink := CursorBlink s,
           modesPayload := modes, titlePayload := title, ffBell := bell\<rparr>), s, b) } })"


section \<open>What rendering reads\<close>

definition same_view :: "screen \<Rightarrow> screen \<Rightarrow> bool" where
  "same_view s t \<longleftrightarrow> Height t = Height s \<and> Cells t = Cells s \<and> wrapped t = wrapped s
     \<and> drainTail t = drainTail s \<and> paletteOverride t = paletteOverride s
     \<and> liftForContrast (env t) = liftForContrast (env s)"

lemma view_fields:
  "same_view s t \<Longrightarrow> Height t = Height s" "same_view s t \<Longrightarrow> Cells t = Cells s"
  "same_view s t \<Longrightarrow> wrapped t = wrapped s" "same_view s t \<Longrightarrow> drainTail t = drainTail s"
  by (simp_all add: same_view_def)

lemma view_makeRun: "same_view s t \<Longrightarrow> makeRunWithURL t = makeRunWithURL s"
  by (auto simp: same_view_def makeRunWithURL_def colorToWire_def overrideOr_def Let_def fun_eq_iff)

lemma view_cellsToRuns: "same_view s t \<Longrightarrow> cellsToRuns t = cellsToRuns s"
proof -
  assume v: "same_view s t"
  have "runsLoop t buf st u cs = runsLoop s buf st u cs" for buf st u cs
    by (induction cs arbitrary: buf st u) (simp_all add: view_makeRun [OF v])
  then have r: "runsLoop t = runsLoop s"
    by (intro ext)
  show ?thesis
    by (intro ext) (simp only: cellsToRuns_def r)
qed

lemma view_wrappedAt: "same_view s t \<Longrightarrow> wrappedAt t y = wrappedAt s y"
  by (simp add: wrappedAt_def view_fields)

lemma view_continuesRow: "same_view s t \<Longrightarrow> continuesRow y t = continuesRow y s"
  by (simp add: continuesRow_def view_fields)

lemma view_chainStart: "same_view s t \<Longrightarrow> chainStart n t = chainStart n s"
  by (induction n) (simp_all add: view_continuesRow cong: if_cong)

lemma view_chainEnd: "same_view s t \<Longrightarrow> chainEnd e t = chainEnd e s"
proof (induction "nat (Height s - e)" arbitrary: e)
  case 0
  then show ?case
    by (subst (1 2) chainEnd.simps) (simp add: view_fields)
next
  case (Suc k)
  then have "chainEnd (e + 1) t = chainEnd (e + 1) s"
    by (intro Suc(1)) linarith+
  then show ?case
    using Suc(3) by (subst (1 2) chainEnd.simps) (simp add: view_fields view_continuesRow cong: if_cong)
qed

lemma view_chainRows: "same_view s t \<Longrightarrow> chainRows y t = chainRows y s"
proof -
  assume v: "same_view s t"
  have "chainRowFor r a t = chainRowFor r a s" for r a
    by (simp add: chainRowFor_def view_wrappedAt [OF v] view_fields [OF v])
  then show ?thesis
    by (simp add: chainRows_def view_chainStart [OF v] view_chainEnd [OF v] view_wrappedAt [OF v] view_fields [OF v]
        cong: if_cong)
qed

lemma view_render: "same_view s t \<Longrightarrow> RenderRowWire y t = RenderRowWire y s"
  by (simp add: RenderRowWire_def stampAutolinks_def view_chainRows view_cellsToRuns softWrapsBelow_def
      view_wrappedAt view_fields)

lemma renderWindow_view: "same_view s t \<Longrightarrow> renderWindow t = renderWindow s"
  by (simp add: renderWindow_def view_render view_fields)

section \<open>What a client holds\<close>

text \<open>The client's store: each changed row and each scroll line under its absolute index.\<close>

definition paint :: "nat \<Rightarrow> int list \<Rightarrow> 'r list \<Rightarrow> (nat \<Rightarrow> 'r option) \<Rightarrow> nat \<Rightarrow> 'r option" where
  "paint base changed rows m i = (if base \<le> i \<and> i < base + length rows \<and> int (i - base) \<in> set changed
     then Some (rows ! (i - base)) else m i)"

definition apply_frame :: "flushFrame \<Rightarrow> (nat \<Rightarrow> wire_run list option) \<Rightarrow> nat \<Rightarrow> wire_run list option" where
  "apply_frame f m = deliver (unat (scrollFirstIdx f), scrollLines f)
     (paint (unat (frameBase f)) (changedRows f) (ffRows f) m)"

definition apply_flush :: "flushFrame option \<Rightarrow> (nat \<Rightarrow> wire_run list option) \<Rightarrow> nat \<Rightarrow> wire_run list option" where
  "apply_flush f m = (case f of None \<Rightarrow> m | Some f \<Rightarrow> apply_frame f m)"

text \<open>The builder's cache describes rows the client holds.\<close>

definition cache_held :: "flushFrameBuilder \<Rightarrow> (nat \<Rightarrow> wire_run list option) \<Rightarrow> bool" where
  "cache_held b m \<longleftrightarrow> unat (prevBase b) + length (prevRowWires b) < 2 ^ 64
     \<and> (\<forall>i < length (prevRowWires b). m (unat (prevBase b) + i) = Some (prevRowWires b ! i))"

definition window_held :: "nat \<Rightarrow> wire_run list list \<Rightarrow> (nat \<Rightarrow> 'x option) \<Rightarrow> (nat \<Rightarrow> wire_run list option) \<Rightarrow> bool" where
  "window_held base rows u m \<longleftrightarrow> (\<forall>y < length rows. m (base + y) = Some (rows ! y))"

definition same_at :: "nat \<Rightarrow> wire_run list \<Rightarrow> flushFrameBuilder \<Rightarrow> bool" where
  "same_at a row b \<longleftrightarrow> unat (prevBase b) \<le> a \<and> a < unat (prevBase b) + length (prevRowWires b)
     \<and> prevRowWires b ! (a - unat (prevBase b)) = row"

lemma prevRow_spec:
  assumes "unat (prevBase b) + length (prevRowWires b) < 2 ^ 64"
  shows "\<exists>prev cached. prevRow a b = Some (prev, cached)
    \<and> (cached \<and> prev = row \<longleftrightarrow> same_at (unat a) row b)"
proof -
  have n: "unat (prevBase b + of_nat (length (prevRowWires b))) = unat (prevBase b) + length (prevRowWires b)"
    by (rule u64_add) (rule assms)
  have z: "of_nat (length (prevRowWires b)) = (0 :: u64) \<longleftrightarrow> prevRowWires b = []"
  proof -
    have "unat (of_nat (length (prevRowWires b)) :: u64) = length (prevRowWires b)"
      using assms by (simp add: unat_of_nat)
    then show ?thesis
      unfolding unat_0_iff [symmetric] by (simp only: length_0_conv)
  qed
  show ?thesis
  proof (cases "prevRowWires b = [] \<or> a < prevBase b \<or> a \<ge> prevBase b + of_nat (length (prevRowWires b))")
    case True
    then have "prevRow a b = Some ([], False)"
      unfolding prevRow_def Let_def z by simp
    moreover have "\<not> same_at (unat a) row b"
      using True n unfolding same_at_def word_less_nat_alt word_le_nat_alt by auto
    ultimately show ?thesis
      by blast
  next
    case False
    then have r: "unat (prevBase b) \<le> unat a" "unat a < unat (prevBase b) + length (prevRowWires b)"
      using n by (auto simp: word_less_nat_alt word_le_nat_alt)
    then have "uint (a - prevBase b) = uint a - uint (prevBase b)"
      by (simp add: word_le_nat_alt flip: uint_minus_simple_alt)
    then have "uint (a - prevBase b) = int (unat a - unat (prevBase b))"
      using r(1) by (simp add: of_nat_diff)
    moreover have "unat a - unat (prevBase b) < length (prevRowWires b)"
      using r by linarith
    ultimately have "prevRow a b = Some (prevRowWires b ! (unat a - unat (prevBase b)), True)"
      using False unfolding prevRow_def Let_def z by (simp add: get_at_def)
    then show ?thesis
      using r unfolding same_at_def by blast
  qed
qed

lemma foldM_filter:
  assumes "\<And>x. x \<in> set xs \<Longrightarrow> \<exists>p c. g x = Some (p, c) \<and> (c \<and> p = snd x) = keep x"
  shows "foldM (\<lambda>x acc. do { (p, c) \<leftarrow> g x; Some (if \<not> c \<or> p \<noteq> snd x then acc @ [h x] else acc) }) xs acc
    = Some (acc @ map h (filter (\<lambda>x. \<not> keep x) xs))"
  using assms
proof (induction xs arbitrary: acc)
  case (Cons x xs)
  obtain p c where "g x = Some (p, c)" "(c \<and> p = snd x) = keep x"
    using Cons(2) [of x] by auto
  then show ?case
    using Cons by auto
qed simp

lemma diffWindow_spec:
  assumes "unat (prevBase b) + length (prevRowWires b) < 2 ^ 64" "unat base + length rows < 2 ^ 64"
  shows "diffWindow rows base b
    = Some (map int (filter (\<lambda>y. \<not> same_at (unat base + y) (rows ! y) b) [0..<length rows]),
        b\<lparr>prevRowWires := rows, prevBase := base\<rparr>)"
proof -
  let ?zs = "zip [0..<length rows] rows"
  have "foldM (\<lambda>x acc. do { (p, c) \<leftarrow> prevRow (base + of_nat (fst x)) b;
      Some (if \<not> c \<or> p \<noteq> snd x then acc @ [int (fst x)] else acc) }) ?zs []
    = Some ([] @ map (\<lambda>x. int (fst x)) (filter (\<lambda>x. \<not> same_at (unat base + fst x) (snd x) b) ?zs))"
  proof (rule foldM_filter)
    fix x assume "x \<in> set ?zs"
    then have "fst x < length rows"
      by (auto simp: set_zip)
    then have "unat (base + of_nat (fst x)) = unat base + fst x"
      using assms(2) by (intro u64_add) simp
    then show "\<exists>p c. prevRow (base + of_nat (fst x)) b = Some (p, c)
        \<and> (c \<and> p = snd x) = same_at (unat base + fst x) (snd x) b"
      using prevRow_spec [OF assms(1), of "base + of_nat (fst x)" "snd x"] by simp
  qed
  moreover have "?zs = map (\<lambda>y. (y, rows ! y)) [0..<length rows]"
    by (rule nth_equalityI) auto
  ultimately show ?thesis
    unfolding diffWindow_def case_prod_unfold by (simp add: filter_map comp_def)
qed


lemma diffWindow_held:
  assumes "cache_held b m" "unat base + length rows < 2 ^ 64"
  shows "\<exists>changed. diffWindow rows base b = Some (changed, b\<lparr>prevRowWires := rows, prevBase := base\<rparr>)
    \<and> (\<forall>y < length rows. int y \<notin> set changed \<longrightarrow> m (unat base + y) = Some (rows ! y))"
proof -
  have "m a = Some row" if "same_at a row b" for a row
    using that assms(1) unfolding cache_held_def same_at_def
    by (metis add.commute le_add_diff_inverse2 less_diff_conv2)
  then show ?thesis
    using diffWindow_spec [OF _ assms(2)] assms(1) by (auto simp: cache_held_def)
qed

lemma set_appendRow: "set changed \<subseteq> set (appendRowIfMissing changed y n)"
  by (auto simp: appendRowIfMissing_def)

lemma trackCursor_fields:
  assumes "trackCursor changed n r c b = ((changed', moved), b')"
  shows "set changed \<subseteq> set changed'" "\<not> moved \<Longrightarrow> changed' = changed"
    "prevRowWires b' = prevRowWires b" "prevBase b' = prevBase b" "prevAlt b' = prevAlt b"
    "prevAltValid b' = prevAltValid b"
  using assms set_appendRow [of changed "prevCurRow b" n]
    set_appendRow [of "appendRowIfMissing changed (prevCurRow b) n" r n]
  by (auto simp: trackCursor_def Let_def split: if_splits)

lemma payload_fields:
  "prevRowWires (snd (buildModesPayload s b)) = prevRowWires b" "prevBase (snd (buildModesPayload s b)) = prevBase b"
  "prevAlt (snd (buildModesPayload s b)) = prevAlt b" "prevAltValid (snd (buildModesPayload s b)) = prevAltValid b"
  "prevRowWires (snd (buildTitlePayload s b)) = prevRowWires b" "prevBase (snd (buildTitlePayload s b)) = prevBase b"
  "prevAlt (snd (buildTitlePayload s b)) = prevAlt b" "prevAltValid (snd (buildTitlePayload s b)) = prevAltValid b"
  by (simp_all add: buildModesPayload_def buildTitlePayload_def)

lemma renderWindow_some: "wf s \<Longrightarrow> \<exists>rows. renderWindow s = Some rows \<and> length rows = nat (Height s)"
proof -
  assume w: "wf s"
  have "ensures (mapM (\<lambda>y. RenderRowWire y s) ys) (\<lambda>rows. length rows = length ys)" for ys
  proof (induction ys)
    case (Cons y ys)
    then show ?case
      using RenderRowWire_some [OF w, of y] by (auto simp: ensures_iff)
  qed simp
  from this [of "[0..Height s - 1]"] show ?thesis
    by (auto simp: renderWindow_def ensures_iff)
qed

text \<open>The lines a flush commits to history: what the screen drained, unless it shows the alternate
  screen or went to or from it since the last frame.\<close>

definition flushed_lines :: "screen \<Rightarrow> flushFrameBuilder \<Rightarrow> wire_run list list" where
  "flushed_lines s b = (if \<not> InAltScreen s \<and> \<not> altTransitionPending s b then Drained s else [])"

definition frame_lines :: "flushFrame option \<Rightarrow> wire_run list list" where
  "frame_lines f = (case f of None \<Rightarrow> [] | Some f \<Rightarrow> scrollLines f)"

text \<open>One built flush, stated once: the screen afterwards, the lines it commits, the rows the cache
  now describes, and the rows a changed list may leave out.\<close>

definition observed :: "screen \<Rightarrow> screen" where
  "observed s = (dropDrained s)\<lparr>bellRing := False\<rparr>"

lemma observed_view: "same_view s (observed s)" "same_view s (dropDrained s)"
  by (simp_all add: same_view_def observed_def dropDrained_def)

text \<open>The rows a frame may leave out are rows the client holds.\<close>

definition rows_held :: "flushFrame option \<Rightarrow> nat \<Rightarrow> wire_run list list
    \<Rightarrow> (nat \<Rightarrow> wire_run list option) \<Rightarrow> bool" where
  "rows_held f base rows m \<longleftrightarrow> (\<forall>y < length rows. (case f of None \<Rightarrow> True | Some fr \<Rightarrow> int y \<notin> set (changedRows fr))
     \<longrightarrow> m (base + y) = Some (rows ! y))"

definition frame_of :: "flushFrame option \<Rightarrow> wire_run list list \<Rightarrow> u64 \<Rightarrow> u64 \<Rightarrow> bool" where
  "frame_of f rows base committed \<longleftrightarrow> (\<forall>fr. f = Some fr \<longrightarrow> ffRows fr = rows \<and> frameBase fr = base
     \<and> scrollFirstIdx fr = committed \<and> clipboardPayload fr = None \<and> \<not> ffScrollbackCleared fr)"

lemma Build_spec:
  assumes "wf s" "\<not> IsFlushHeld s" "cache_held b m"
    and "unat committed + length (Drained s) + 1000 < 2 ^ 64"
  shows "\<exists>f b' rows. Build s True clients committed b = Some (f, observed s, b')
    \<and> renderWindow s = Some rows \<and> length rows = nat (Height s)
    \<and> frame_lines f = flushed_lines s b \<and> (f = None \<longrightarrow> \<not> bellRing s)
    \<and> prevRowWires b' = rows \<and> unat (prevBase b') = unat committed + length (flushed_lines s b)
    \<and> prevAltValid b' \<and> prevAlt b' = InAltScreen s
    \<and> frame_of f rows (prevBase b') committed \<and> rows_held f (unat (prevBase b')) rows m"
proof -
  define bb where "bb = (if \<not> prevAltValid b \<or> altTransitionPending s b
      then (builder_Reset b)\<lparr>prevAlt := InAltScreen s, prevAltValid := True\<rparr> else b)"
  define out where "out = flushed_lines s b"
  let ?base = "committed + of_nat (length out)"
  obtain rows where rows: "renderWindow s = Some rows" "length rows = nat (Height s)"
    using renderWindow_some [OF assms(1)] by blast
  have h: "Height s \<le> 1000" "0 \<le> curY s" "curY s < int (length rows)"
    using assms(1) rows(2) by (simp_all add: wf_def box_ok_def maxDimension_def cursor_ok_def)
  have outl: "length out \<le> length (Drained s)"
    by (simp add: out_def flushed_lines_def)
  have base: "unat ?base = unat committed + length out"
    using outl assms(4) by (intro u64_add) simp
  have "cache_held bb m"
    using assms(3) by (simp add: bb_def cache_held_def builder_Reset_def)
  then obtain changed where d: "diffWindow rows ?base bb = Some (changed, bb\<lparr>prevRowWires := rows, prevBase := ?base\<rparr>)"
    "\<forall>y < length rows. int y \<notin> set changed \<longrightarrow> m (unat ?base + y) = Some (rows ! y)"
    using diffWindow_held [of bb m ?base rows] base outl assms(4) h(1) rows(2) by force
  let ?b1 = "bb\<lparr>prevRowWires := rows, prevBase := ?base\<rparr>"
  obtain ch moved b2 where t: "trackCursor changed (int (length rows)) (curY s) (curX s) ?b1 = ((ch, moved), b2)"
    by (metis prod.collapse)
  note tf = trackCursor_fields [OF t]
  let ?ch = "if bellRing s then appendRowIfMissing ch (curY s) (int (length rows)) else ch"
  have ch: "set changed \<subseteq> set ?ch"
    using tf(1) set_appendRow [of ch] by auto
  have alt: "prevAltValid bb" "prevAlt bb = InAltScreen s"
    by (auto simp: bb_def altTransitionPending_def)
  have fe: "frameEmpty (observed s) ?ch out moved b2 \<Longrightarrow> ?ch = [] \<and> out = [] \<and> \<not> bellRing s"
    using h by (auto simp: frameEmpty_def appendRowIfMissing_def split: if_splits)
  have lines: "(if \<not> InAltScreen s \<and> \<not> altTransitionPending s b \<and> Drained s \<noteq> [] then (Drained s, DrainedWrapped s)
      else ([], [])) = (out, if out = [] then [] else DrainedWrapped s)"
    by (simp add: out_def flushed_lines_def)
  have view: "renderWindow (dropDrained s) = Some rows" "InAltScreen (dropDrained s) = InAltScreen s"
    using renderWindow_view [OF observed_view(2)] rows(1) by (simp_all add: dropDrained_def)
  have built: "Build s True clients committed b = (if frameEmpty (observed s) ?ch out moved b2
      then Some (None, observed s, b2)
      else let b3 = snd (buildModesPayload (observed s) b2) in
        Some (Some (emptyFrame\<lparr>ffClients := clients, ffRows := rows, scrollLines := out,
           scrollWrapped := if out = [] then [] else DrainedWrapped s, scrollFirstIdx := committed,
           frameBase := ?base, changedRows := ?ch, ffCurRow := curY s, ffCurCol := curX s,
           ffScreenHeight := Height (observed s), altActive := InAltScreen (observed s),
           ffCursorStyle := CursorStyle (observed s), ffCursorHidden := CursorHidden (observed s),
           ffCursorBlink := CursorBlink (observed s), modesPayload := fst (buildModesPayload (observed s) b2),
           titlePayload := fst (buildTitlePayload (observed s) b3), ffBell := bellRing s\<rparr>),
         observed s, snd (buildTitlePayload (observed s) b3)))"
    unfolding Build_def Let_def drainScrollback_def DrainScrollback_def prod.case bb_def [symmetric] view lines
      CursorPos_def TakeBell_def
    using assms(2) d(1) t by (simp add: dropDrained_def observed_def case_prod_unfold)
  show ?thesis
    unfolding built out_def [symmetric] using rows base d ch fe tf alt
    by (auto simp: frame_lines_def frame_of_def rows_held_def emptyFrame_def payload_fields Let_def)
qed


text \<open>C13.  A client that applied every frame so far holds, after the next call of the builder, exactly
  the rows now on the screen, each under its absolute index; it holds the lines the call committed
  to history just above them; and the builder's cache again describes only rows the client holds.
  This is so whether the call produced a frame or found nothing to send.\<close>

theorem client_mirrors_screen:
  assumes "wf s" "\<not> IsFlushHeld s" "cache_held b m"
    and "unat committed + length (Drained s) + 1000 < 2 ^ 64"
  shows "\<exists>f s' b' rows. Build s True clients committed b = Some (f, s', b') \<and> renderWindow s' = Some rows
    \<and> (\<forall>y < length rows. apply_flush f m (unat (prevBase b') + y) = Some (rows ! y))
    \<and> (\<forall>i < length (flushed_lines s b). apply_flush f m (unat committed + i) = Some (flushed_lines s b ! i))
    \<and> unat (prevBase b') = unat committed + length (flushed_lines s b)
    \<and> cache_held b' (apply_flush f m)"
proof -
  obtain f b' rows where B: "Build s True clients committed b = Some (f, observed s, b')"
    "renderWindow s = Some rows" "length rows = nat (Height s)" "frame_lines f = flushed_lines s b"
    "prevRowWires b' = rows" "unat (prevBase b') = unat committed + length (flushed_lines s b)"
    "frame_of f rows (prevBase b') committed" "rows_held f (unat (prevBase b')) rows m"
    using Build_spec [OF assms, of clients] by blast
  have h: "length rows \<le> 1000"
    using assms(1) B(3) by (simp add: wf_def box_ok_def maxDimension_def nat_le_iff)
  have n: "length (flushed_lines s b) \<le> length (Drained s)"
    by (simp add: flushed_lines_def)
  have win: "apply_flush f m (unat (prevBase b') + y) = Some (rows ! y)" if "y < length rows" for y
    using that B(4,6-8)
    by (cases f) (auto simp: apply_flush_def apply_frame_def deliver_def paint_def frame_of_def rows_held_def
        frame_lines_def)
  moreover have "apply_flush f m (unat committed + i) = Some (flushed_lines s b ! i)"
    if "i < length (flushed_lines s b)" for i
    using that B(4,6,7)
    by (cases f) (auto simp: apply_flush_def apply_frame_def deliver_def frame_of_def frame_lines_def)
  moreover have "cache_held b' (apply_flush f m)"
    using win B(5,6) n h assms(4) by (simp add: cache_held_def)
  ultimately show ?thesis
    using B(1,2,6) renderWindow_view [OF observed_view(1), of s] by auto
qed

lemma new_cache_held: "cache_held newBuilder m" "cache_held (builder_Reset b) m"
  by (simp_all add: cache_held_def newBuilder_def builder_Reset_def)

lemma client_mirrors_screen_witness:
  "\<exists>f s' b'. Build demoScreen True Map.empty 5 newBuilder = Some (f, s', b')
    \<and> cache_held b' (apply_flush f Map.empty)"
proof -
  have "\<not> IsFlushHeld demoScreen" "Drained demoScreen = []"
    by code_simp+
  then show ?thesis
    using client_mirrors_screen [OF demoScreen_wf _ new_cache_held(1) [of Map.empty], of 5 Map.empty] by simp blast
qed

end
