(* ===== verification/Registry.thy ===== *)
theory Registry
  imports VtTypes GoPrelude
begin

text \<open>
  The client registry (\<open>src/terminal/client_registry.go\<close>): the connected sockets, the input
  ledgers their senders resume, and who owns each ledger.  A ledger is an object of its own, not an
  entry of the session map: a socket keeps the ledger it attached to after the map dropped or
  replaced it, so ledgers live in a store of their own and the map holds their addresses.
  \<open>ResolveSession\<close> takes three locks one after the other; its three critical sections are
  separate operations here, and the last section of this theory lets any other socket act between
  them.  The clock and the order in which a \<open>range\<close> visits a map are arguments.

  The lemmas show that each ledger has one owner who is not fenced, that its count is what its
  owners wrote, that a superseded socket never writes again in any interleaving, that the session
  map stays within its cap, and that the focus aggregate never drifts.
\<close>

section \<open>State\<close>

type_synonym sessionID = "byte list"
type_synonym lid = nat

record sessionState =
  lastSeen :: int
  owner :: "sock option"
  received :: u64

record clientState =
  session :: "lid option"
  lastAckSent :: u64
  cs_cols :: int
  cs_rows :: int
  focused :: bool
  fenced :: bool
  resumeGen :: u64

record clientRegistry =
  clients :: "sock list"
  states :: "sock \<Rightarrow> clientState"
  sessions :: "sessionID \<Rightarrow> lid option"
  ledgers :: "lid \<Rightarrow> sessionState"
  nextLedger :: lid
  anyFocused :: bool

definition maxResumeSessions :: nat where
  "maxResumeSessions = 1024"

definition idleWindow :: int where
  "idleWindow = 60 * 60 * 1000000000"

definition newClientState :: clientState where
  "newClientState = \<lparr>session = None, lastAckSent = 0, cs_cols = 0, cs_rows = 0, focused = False,
     fenced = False, resumeGen = 0\<rparr>"

definition newLedger :: "int \<Rightarrow> sessionState" where
  "newLedger now = \<lparr>lastSeen = now, owner = None, received = 0\<rparr>"

definition newClientRegistry :: clientRegistry where
  "newClientRegistry = \<lparr>clients = [], states = (\<lambda>_. newClientState), sessions = Map.empty,
     ledgers = (\<lambda>_. newLedger 0), nextLedger = 0, anyFocused = False\<rparr>"

definition set_state :: "sock \<Rightarrow> (clientState \<Rightarrow> clientState) \<Rightarrow> clientRegistry \<Rightarrow> clientRegistry" where
  "set_state ws f r = r\<lparr>states := (states r)(ws := f (states r ws))\<rparr>"

definition set_ledger :: "lid \<Rightarrow> (sessionState \<Rightarrow> sessionState) \<Rightarrow> clientRegistry \<Rightarrow> clientRegistry" where
  "set_ledger l f r = r\<lparr>ledgers := (ledgers r)(l := f (ledgers r l))\<rparr>"

section \<open>Operations\<close>

definition refreshAnyFocusedLocked :: "clientRegistry \<Rightarrow> clientRegistry" where
  "refreshAnyFocusedLocked r = r\<lparr>anyFocused := list_ex (\<lambda>ws. focused (states r ws)) (clients r)\<rparr>"

definition AnyClientFocused :: "clientRegistry \<Rightarrow> bool" where
  "AnyClientFocused r = anyFocused r"

definition registry_Add :: "sock \<Rightarrow> clientRegistry \<Rightarrow> clientRegistry" where
  "registry_Add ws r = refreshAnyFocusedLocked
     (set_state ws (\<lambda>_. newClientState) (r\<lparr>clients := ws # removeAll ws (clients r)\<rparr>))"

text \<open>\<open>Remove\<close> under the registry's lock; the ledger it returns is released afterwards.\<close>

definition removeLocked :: "sock \<Rightarrow> int \<Rightarrow> clientRegistry \<Rightarrow> (int \<times> int \<times> lid option) \<times> clientRegistry" where
  "removeLocked ws now r = (let
     (cols, rows, sess) = (if ws \<in> set (clients r)
       then (cs_cols (states r ws), cs_rows (states r ws), session (states r ws)) else (0, 0, None));
     r = (case sess of None \<Rightarrow> r | Some l \<Rightarrow> set_ledger l (lastSeen_update (\<lambda>_. now)) r)
   in ((cols, rows, sess), refreshAnyFocusedLocked (r\<lparr>clients := removeAll ws (clients r)\<rparr>)))"

definition ledger_release :: "sock \<Rightarrow> lid \<Rightarrow> clientRegistry \<Rightarrow> clientRegistry" where
  "ledger_release ws l r = (if owner (ledgers r l) = Some ws then set_ledger l (owner_update (\<lambda>_. None)) r else r)"

definition registry_Remove :: "sock \<Rightarrow> int \<Rightarrow> clientRegistry \<Rightarrow> (int \<times> int) \<times> clientRegistry" where
  "registry_Remove ws now r = (case removeLocked ws now r of ((cols, rows, sess), r) \<Rightarrow>
     ((cols, rows), case sess of None \<Rightarrow> r | Some l \<Rightarrow> ledger_release ws l r))"

definition RecordSize :: "sock \<Rightarrow> int \<Rightarrow> int \<Rightarrow> clientRegistry \<Rightarrow> clientRegistry" where
  "RecordSize ws cols rows r = set_state ws (\<lambda>c. c\<lparr>cs_cols := cols, cs_rows := rows\<rparr>) r"

definition SetClientFocus :: "sock \<Rightarrow> bool \<Rightarrow> clientRegistry \<Rightarrow> clientRegistry" where
  "SetClientFocus ws f r = refreshAnyFocusedLocked (set_state ws (focused_update (\<lambda>_. f)) r)"

definition minSizeStep :: "clientState \<Rightarrow> (int \<times> int) option \<Rightarrow> (int \<times> int) option" where
  "minSizeStep st acc = (if cs_cols st \<le> 0 \<or> cs_rows st \<le> 0 then acc
     else case acc of None \<Rightarrow> Some (cs_cols st, cs_rows st)
       | Some (cols, rows) \<Rightarrow> Some (if cs_cols st < cols then cs_cols st else cols,
           if cs_rows st < rows then cs_rows st else rows))"

definition MinLiveSize :: "clientRegistry \<Rightarrow> (int \<times> int) option" where
  "MinLiveSize r = fold (\<lambda>ws. minSizeStep (states r ws)) (clients r) None"

definition ledgerAck :: "clientRegistry \<Rightarrow> sock \<Rightarrow> u64" where
  "ledgerAck r ws = (case session (states r ws) of None \<Rightarrow> 0 | Some l \<Rightarrow> received (ledgers r l))"

definition registry_Snapshot :: "clientRegistry \<Rightarrow> (sock \<Rightarrow> u64 option) \<times> (sock \<Rightarrow> u64 option)" where
  "registry_Snapshot r = ((\<lambda>ws. if ws \<in> set (clients r) then Some (ledgerAck r ws) else None),
     (\<lambda>ws. if ws \<in> set (clients r) then Some (resumeGen (states r ws)) else None))"

definition attachedSessions :: "clientRegistry \<Rightarrow> lid list" where
  "attachedSessions r = concat (map (\<lambda>ws. case session (states r ws) of None \<Rightarrow> [] | Some l \<Rightarrow> [l]) (clients r))"

definition gcIdleSessions :: "int \<Rightarrow> clientRegistry \<Rightarrow> clientRegistry" where
  "gcIdleSessions now r = (let attached = attachedSessions r in
     r\<lparr>sessions := (\<lambda>sid. case sessions r sid of None \<Rightarrow> None | Some l \<Rightarrow>
       if l \<notin> set attached \<and> now - lastSeen (ledgers r l) > idleWindow then None else Some l)\<rparr>)"

text \<open>The two candidates of the scan, the oldest ledger no socket holds and the oldest of all; the
  empty identifier stands for "none yet".\<close>

type_synonym oldest = "(sessionID \<times> int) \<times> (sessionID \<times> int)"

definition oldestStep :: "clientRegistry \<Rightarrow> lid list \<Rightarrow> sessionID \<Rightarrow> oldest \<Rightarrow> oldest" where
  "oldestStep r attached sid acc = (case (acc, sessions r sid) of
     (_, None) \<Rightarrow> acc
   | (((oid, ot), (aid, at)), Some l) \<Rightarrow> (let t = lastSeen (ledgers r l);
        anyOld = (if aid = [] \<or> t < at then (sid, t) else (aid, at)) in
      if l \<in> set attached then ((oid, ot), anyOld)
      else ((if oid = [] \<or> t < ot then (sid, t) else (oid, ot)), anyOld)))"

definition oldestSession :: "sessionID list \<Rightarrow> clientRegistry \<Rightarrow> sessionID" where
  "oldestSession order r = (let attached = attachedSessions r;
     ((oid, _), (aid, _)) = fold (oldestStep r attached) order (([], 0), ([], 0))
   in if oid = [] then aid else oid)"

text \<open>\<open>order\<close> is the sequence in which the \<open>range\<close> visits the keys of the map, each once.\<close>

definition evictOldestSession :: "sessionID list \<Rightarrow> clientRegistry \<Rightarrow> clientRegistry" where
  "evictOldestSession order r = (if length order \<le> maxResumeSessions then r
     else let sid = oldestSession order r in
       if sid = [] then r else r\<lparr>sessions := (sessions r)(sid := None)\<rparr>)"

text \<open>The three critical sections of \<open>ResolveSession\<close>: look the ledger up or create it and attach to
  it (registry lock); leave the previous ledger (its lock); take the new one (its lock).  \<open>ids\<close>
  enumerates the keys of the map the eviction scans.\<close>

definition createLedger :: "sessionID \<Rightarrow> int \<Rightarrow> clientRegistry \<Rightarrow> clientRegistry" where
  "createLedger sid now r = gcIdleSessions now
     (r\<lparr>sessions := (sessions r)(sid \<mapsto> nextLedger r),
        ledgers := (ledgers r)(nextLedger r := newLedger now), nextLedger := nextLedger r + 1\<rparr>)"

definition resolveAttach :: "sock \<Rightarrow> sessionID \<Rightarrow> int \<Rightarrow> sessionID list \<Rightarrow> clientRegistry
    \<Rightarrow> (lid \<times> bool \<times> lid option) \<times> clientRegistry" where
  "resolveAttach ws sid now ids r = (let
     (l, created, r) = (case sessions r sid of
       None \<Rightarrow> (nextLedger r, True, evictOldestSession ids (createLedger sid now r))
     | Some l \<Rightarrow> (l, False, set_ledger l (lastSeen_update (\<lambda>_. now)) r))
   in ((l, created, session (states r ws)), set_state ws (session_update (\<lambda>_. Some l)) r))"

definition resolveLeave :: "sock \<Rightarrow> lid option \<Rightarrow> lid \<Rightarrow> clientRegistry \<Rightarrow> clientRegistry" where
  "resolveLeave ws prev l r = (case prev of None \<Rightarrow> r | Some p \<Rightarrow> if p \<noteq> l then ledger_release ws p r else r)"

definition resolveOwn :: "sock \<Rightarrow> lid \<Rightarrow> clientRegistry \<Rightarrow> (u64 \<times> sock option) \<times> clientRegistry" where
  "resolveOwn ws l r = (if fenced (states r ws) then ((0, None), r)
     else let
       displaced = (case owner (ledgers r l) of Some v \<Rightarrow> if v \<noteq> ws then Some v else None | None \<Rightarrow> None);
       r = (case displaced of None \<Rightarrow> r | Some v \<Rightarrow> set_state v (fenced_update (\<lambda>_. True)) r);
       r = set_ledger l (owner_update (\<lambda>_. Some ws)) r
     in ((received (ledgers r l), displaced), r))"

definition ResolveSession :: "sock \<Rightarrow> sessionID \<Rightarrow> int \<Rightarrow> sessionID list \<Rightarrow> clientRegistry
    \<Rightarrow> (u64 \<times> bool \<times> sock option) \<times> clientRegistry" where
  "ResolveSession ws sid now ids r = (case resolveAttach ws sid now ids r of ((l, created, prev), r) \<Rightarrow>
     case resolveOwn ws l (resolveLeave ws prev l r) of ((ack, displaced), r) \<Rightarrow> ((ack, created, displaced), r))"

text \<open>\<open>ApplyInput\<close>: whether the frame was applied, whether the write failed, and whether it was
  written at all; \<open>werr\<close> is the PTY's answer.  The time stamp is set after the ledger's lock is gone.\<close>

definition applyLocked :: "sock \<Rightarrow> byte list \<Rightarrow> bool \<Rightarrow> clientRegistry \<Rightarrow> (bool \<times> bool \<times> bool) \<times> clientRegistry" where
  "applyLocked ws msg werr r = (case session (states r ws) of
     None \<Rightarrow> ((\<not> werr, werr, True), r)
   | Some l \<Rightarrow> if owner (ledgers r l) \<noteq> Some ws then ((False, False, False), r)
       else if werr then ((False, True, True), r)
       else ((True, False, True), set_ledger l (\<lambda>s. s\<lparr>received := received s + of_nat (length msg)\<rparr>) r))"

definition touchLedger :: "sock \<Rightarrow> int \<Rightarrow> clientRegistry \<Rightarrow> clientRegistry" where
  "touchLedger ws now r = (case session (states r ws) of None \<Rightarrow> r
     | Some l \<Rightarrow> set_ledger l (lastSeen_update (\<lambda>_. now)) r)"

definition ApplyInput :: "sock \<Rightarrow> byte list \<Rightarrow> bool \<Rightarrow> int \<Rightarrow> clientRegistry
    \<Rightarrow> (bool \<times> bool \<times> bool) \<times> clientRegistry" where
  "ApplyInput ws msg werr now r = (case applyLocked ws msg werr r of ((applied, err, wrote), r) \<Rightarrow>
     ((applied, err, wrote), if applied then touchLedger ws now r else r))"

definition sweepStep :: "sock \<Rightarrow> (sock \<Rightarrow> u64 option) \<times> clientRegistry \<Rightarrow> (sock \<Rightarrow> u64 option) \<times> clientRegistry" where
  "sweepStep ws mr = (case mr of (m, r) \<Rightarrow> (case session (states r ws) of None \<Rightarrow> (m, r)
     | Some l \<Rightarrow> let ack = received (ledgers r l) in
         if ack \<noteq> lastAckSent (states r ws)
         then (m(ws \<mapsto> ack), set_state ws (lastAckSent_update (\<lambda>_. ack)) r) else (m, r)))"

definition AckSweepTargets :: "clientRegistry \<Rightarrow> (sock \<Rightarrow> u64 option) \<times> clientRegistry" where
  "AckSweepTargets r = fold sweepStep (clients r) (Map.empty, r)"

definition noteStep :: "sock \<times> u64 \<Rightarrow> clientRegistry \<Rightarrow> clientRegistry" where
  "noteStep wa r = (case wa of (ws, ack) \<Rightarrow>
     if ws \<in> set (clients r) \<and> lastAckSent (states r ws) < ack
     then set_state ws (lastAckSent_update (\<lambda>_. ack)) r else r)"

definition NoteAcksSent :: "(sock \<times> u64) list \<Rightarrow> clientRegistry \<Rightarrow> clientRegistry" where
  "NoteAcksSent acks r = fold noteStep acks r"


section \<open>Every interleaving\<close>

text \<open>
  Each socket has one read loop, so it has at most one operation under way; where an operation
  takes several locks one after the other, its phase says how far it is.  The journal records what
  was handed to the PTY: the ledger it was counted on, the socket, the frame, and whether the write
  succeeded.
\<close>

datatype phase = Fresh | Idle | Leaving "lid option" lid | Taking lid | Departing "lid option" | Gone

record net =
  reg :: clientRegistry
  phases :: "sock \<Rightarrow> phase"
  journal :: "(lid option \<times> sock \<times> byte list \<times> bool) list"

definition newNet :: net where
  "newNet = \<lparr>reg = newClientRegistry, phases = (\<lambda>_. Fresh), journal = []\<rparr>"

definition enumerates :: "sessionID list \<Rightarrow> (sessionID \<Rightarrow> lid option) \<Rightarrow> bool" where
  "enumerates ids m \<longleftrightarrow> distinct ids \<and> set ids = dom m"

definition at_phase :: "sock \<Rightarrow> phase \<Rightarrow> clientRegistry \<Rightarrow> net \<Rightarrow> net" where
  "at_phase ws p r n = n\<lparr>reg := r, phases := (phases n)(ws := p)\<rparr>"

inductive net_step :: "net \<Rightarrow> net \<Rightarrow> bool" where
  connect: "phases n ws = Fresh \<Longrightarrow> net_step n (at_phase ws Idle (registry_Add ws (reg n)) n)"
| resume_attach: "phases n ws = Idle \<Longrightarrow> sid \<noteq> [] \<Longrightarrow>
    sessions (reg n) sid = None \<longrightarrow> enumerates ids (sessions (createLedger sid now (reg n))) \<Longrightarrow>
    resolveAttach ws sid now ids (reg n) = ((l, created, prev), r) \<Longrightarrow>
    net_step n (at_phase ws (Leaving prev l) r n)"
| resume_leave: "phases n ws = Leaving prev l \<Longrightarrow>
    net_step n (at_phase ws (Taking l) (resolveLeave ws prev l (reg n)) n)"
| resume_own: "phases n ws = Taking l \<Longrightarrow>
    net_step n (at_phase ws Idle (snd (resolveOwn ws l (reg n))) n)"
| input: "phases n ws = Idle \<Longrightarrow> applyLocked ws msg werr (reg n) = ((applied, err, wrote), r) \<Longrightarrow>
    net_step n (n\<lparr>reg := r, journal := journal n @
      (if wrote then [(session (states (reg n) ws), ws, msg, applied)] else [])\<rparr>)"
| touch: "net_step n (n\<lparr>reg := touchLedger ws now (reg n)\<rparr>)"
| leave: "phases n ws = Idle \<Longrightarrow> removeLocked ws now (reg n) = ((cols, rows, sess), r) \<Longrightarrow>
    net_step n (at_phase ws (Departing sess) r n)"
| gone: "phases n ws = Departing sess \<Longrightarrow>
    net_step n (at_phase ws Gone (case sess of None \<Rightarrow> reg n | Some l \<Rightarrow> ledger_release ws l (reg n)) n)"
| size: "net_step n (n\<lparr>reg := RecordSize ws cols rows (reg n)\<rparr>)"
| focus: "net_step n (n\<lparr>reg := SetClientFocus ws f (reg n)\<rparr>)"
| sweep: "net_step n (n\<lparr>reg := snd (AckSweepTargets (reg n))\<rparr>)"
| note_acks: "net_step n (n\<lparr>reg := NoteAcksSent acks (reg n)\<rparr>)"

inductive_cases net_stepE: "net_step n n'"

text \<open>The bytes counted on a ledger, in the order they were written.\<close>

definition counted :: "lid \<Rightarrow> net \<Rightarrow> nat" where
  "counted l n = sum_list (map (\<lambda>(x, ws, msg, ok). if x = Some l \<and> ok then length msg else 0) (journal n))"

definition written_by :: "sock \<Rightarrow> net \<Rightarrow> byte list list" where
  "written_by ws n = concat (map (\<lambda>(x, v, msg, ok). if v = ws then [msg] else []) (journal n))"

text \<open>Which ledger a socket may own, by how far its current operation is.\<close>

definition may_own :: "net \<Rightarrow> sock \<Rightarrow> lid option" where
  "may_own n ws = (case phases n ws of Fresh \<Rightarrow> None | Leaving prev l \<Rightarrow> prev | Taking l \<Rightarrow> Some l
     | Gone \<Rightarrow> None | _ \<Rightarrow> session (states (reg n) ws))"

definition owns_ok :: "net \<Rightarrow> bool" where
  "owns_ok n \<longleftrightarrow> (\<forall>l ws. owner (ledgers (reg n) l) = Some ws \<longrightarrow>
     may_own n ws = Some l \<and> \<not> fenced (states (reg n) ws))"

definition bound_ok :: "net \<Rightarrow> bool" where
  "bound_ok n \<longleftrightarrow> (\<forall>ws. (\<forall>p l. phases n ws = Leaving p l \<longrightarrow> session (states (reg n) ws) = Some l)
     \<and> (\<forall>l. phases n ws = Taking l \<longrightarrow> session (states (reg n) ws) = Some l)
     \<and> (phases n ws = Fresh \<longrightarrow> ws \<notin> set (clients (reg n)) \<and> \<not> fenced (states (reg n) ws)
          \<and> session (states (reg n) ws) = None)
     \<and> (fenced (states (reg n) ws) \<longrightarrow> session (states (reg n) ws) \<noteq> None)
     \<and> (\<forall>s. phases n ws = Departing s \<longrightarrow> s = session (states (reg n) ws)))"

definition fresh_ok :: "net \<Rightarrow> bool" where
  "fresh_ok n \<longleftrightarrow> (\<forall>ws l. session (states (reg n) ws) = Some l \<longrightarrow> l < nextLedger (reg n))
     \<and> (\<forall>ws p l. phases n ws = Leaving (Some p) l \<longrightarrow> p < nextLedger (reg n))
     \<and> (\<forall>sid l. sessions (reg n) sid = Some l \<longrightarrow> l < nextLedger (reg n))
     \<and> (\<forall>e \<in> set (journal n). \<forall>l. fst e = Some l \<longrightarrow> l < nextLedger (reg n))
     \<and> (\<forall>l \<ge> nextLedger (reg n). owner (ledgers (reg n) l) = None)"

definition count_ok :: "net \<Rightarrow> bool" where
  "count_ok n \<longleftrightarrow> (\<forall>l < nextLedger (reg n). received (ledgers (reg n) l) = of_nat (counted l n))"

definition cap_ok :: "net \<Rightarrow> bool" where
  "cap_ok n \<longleftrightarrow> [] \<notin> dom (sessions (reg n)) \<and> finite (dom (sessions (reg n)))
     \<and> card (dom (sessions (reg n))) \<le> maxResumeSessions"

definition focus_ok :: "net \<Rightarrow> bool" where
  "focus_ok n \<longleftrightarrow> anyFocused (reg n) = (\<exists>ws \<in> set (clients (reg n)). focused (states (reg n) ws))"

definition net_ok :: "net \<Rightarrow> bool" where
  "net_ok n \<longleftrightarrow> owns_ok n \<and> bound_ok n \<and> fresh_ok n \<and> count_ok n \<and> cap_ok n \<and> focus_ok n"


section \<open>What each operation touches\<close>

lemma set_state_fields [simp]:
  "clients (set_state ws f r) = clients r" "sessions (set_state ws f r) = sessions r"
  "ledgers (set_state ws f r) = ledgers r" "nextLedger (set_state ws f r) = nextLedger r"
  "anyFocused (set_state ws f r) = anyFocused r" "states (set_state ws f r) = (states r)(ws := f (states r ws))"
  by (simp_all add: set_state_def)

lemma set_ledger_fields [simp]:
  "clients (set_ledger l g r) = clients r" "sessions (set_ledger l g r) = sessions r"
  "states (set_ledger l g r) = states r" "nextLedger (set_ledger l g r) = nextLedger r"
  "anyFocused (set_ledger l g r) = anyFocused r" "ledgers (set_ledger l g r) = (ledgers r)(l := g (ledgers r l))"
  by (simp_all add: set_ledger_def)

lemma refresh_fields [simp]:
  "clients (refreshAnyFocusedLocked r) = clients r" "sessions (refreshAnyFocusedLocked r) = sessions r"
  "states (refreshAnyFocusedLocked r) = states r" "nextLedger (refreshAnyFocusedLocked r) = nextLedger r"
  "ledgers (refreshAnyFocusedLocked r) = ledgers r"
  by (simp_all add: refreshAnyFocusedLocked_def)

lemma refresh_focus: "anyFocused (refreshAnyFocusedLocked r) = (\<exists>ws \<in> set (clients r). focused (states r ws))"
  by (simp add: refreshAnyFocusedLocked_def list_ex_iff)

lemma at_phase_fields [simp]:
  "reg (at_phase ws p r n) = r" "phases (at_phase ws p r n) = (phases n)(ws := p)"
  "journal (at_phase ws p r n) = journal n"
  by (simp_all add: at_phase_def)

text \<open>Operations that leave the ledgers' owners and counts, the attachments and the map alone.\<close>

definition quiet :: "clientRegistry \<Rightarrow> clientRegistry \<Rightarrow> bool" where
  "quiet r r' \<longleftrightarrow> clients r' = clients r \<and> sessions r' = sessions r \<and> nextLedger r' = nextLedger r
     \<and> (\<forall>l. owner (ledgers r' l) = owner (ledgers r l) \<and> received (ledgers r' l) = received (ledgers r l))
     \<and> (\<forall>ws. session (states r' ws) = session (states r ws) \<and> fenced (states r' ws) = fenced (states r ws))"

lemma quiet_refl [simp]: "quiet r r"
  by (simp add: quiet_def)

lemma quiet_trans: "quiet r s \<Longrightarrow> quiet s t \<Longrightarrow> quiet r t"
  by (simp add: quiet_def)

lemma quiet_fold: "(\<And>x r. quiet r (g x r)) \<Longrightarrow> quiet r (fold g xs r)"
  by (induction xs arbitrary: r) (auto intro: quiet_trans)

lemma quiet_ops:
  "quiet r (touchLedger ws now r)" "quiet r (RecordSize ws cols rows r)" "quiet r (SetClientFocus ws f r)"
  by (auto simp: quiet_def touchLedger_def RecordSize_def SetClientFocus_def split: option.splits)

lemma quiet_note: "quiet r (NoteAcksSent acks r)"
  unfolding NoteAcksSent_def by (rule quiet_fold) (auto simp: quiet_def noteStep_def split: prod.splits)

lemma quiet_sweep: "quiet r (snd (AckSweepTargets r))"
proof -
  have "quiet r (snd (fold sweepStep xs (m, r)))" for xs m
  proof (induction xs arbitrary: m r)
    case (Cons x xs)
    have "quiet r (snd (sweepStep x (m, r)))"
      by (auto simp: quiet_def sweepStep_def Let_def split: option.splits)
    then show ?case
      using Cons [of "snd (sweepStep x (m, r))" "fst (sweepStep x (m, r))"] by (auto intro: quiet_trans)
  qed simp
  then show ?thesis
    by (simp add: AckSweepTargets_def)
qed

lemma quiet_ok:
  assumes "net_ok n" "quiet (reg n) r" "focus_ok (n\<lparr>reg := r\<rparr>)"
  shows "net_ok (n\<lparr>reg := r\<rparr>)"
proof -
  have "counted l (n\<lparr>reg := r\<rparr>) = counted l n" for l
    by (simp add: counted_def)
  moreover have "may_own (n\<lparr>reg := r\<rparr>) = may_own n"
    using assms(2) by (auto simp: may_own_def quiet_def fun_eq_iff split: phase.split)
  ultimately show ?thesis
    using assms unfolding net_ok_def owns_ok_def bound_ok_def fresh_ok_def count_ok_def cap_ok_def quiet_def
    by simp
qed

section \<open>Eviction\<close>

lemma oldestStep_known:
  assumes "fst (fst acc) \<in> insert [] (dom (sessions r))" "fst (snd acc) \<in> insert [] (dom (sessions r))"
  shows "fst (fst (oldestStep r att sid acc)) \<in> insert [] (dom (sessions r))
    \<and> fst (snd (oldestStep r att sid acc)) \<in> insert [] (dom (sessions r))
    \<and> (sid \<in> dom (sessions r) \<and> sid \<noteq> [] \<or> fst (snd acc) \<noteq> [] \<and> sid \<noteq> []
        \<longrightarrow> fst (snd (oldestStep r att sid acc)) \<noteq> [])"
proof -
  obtain oid ot aid aat where "acc = ((oid, ot), (aid, aat))"
    by (metis prod.collapse)
  with assms show ?thesis
    by (auto simp: oldestStep_def Let_def split: option.split)
qed

lemma fold_oldest_known:
  assumes "[] \<notin> set ids" "fst (fst acc) \<in> insert [] (dom (sessions r))" "fst (snd acc) \<in> insert [] (dom (sessions r))"
    and "fst (snd acc) \<noteq> [] \<or> (\<exists>sid \<in> set ids. sid \<in> dom (sessions r))"
  shows "fst (fst (fold (oldestStep r att) ids acc)) \<in> insert [] (dom (sessions r))
    \<and> fst (snd (fold (oldestStep r att) ids acc)) \<in> dom (sessions r)"
  using assms
proof (induction ids arbitrary: acc)
  case (Cons x xs)
  have x: "x \<noteq> []"
    using Cons.prems(1) by auto
  note k = oldestStep_known [OF Cons.prems(2,3), of att x]
  have "fst (snd (oldestStep r att x acc)) \<noteq> [] \<or> (\<exists>sid \<in> set xs. sid \<in> dom (sessions r))"
    using Cons.prems(4) k x by auto
  then show ?case
    using Cons.IH [of "oldestStep r att x acc"] Cons.prems(1) k by simp
qed auto

lemma oldestSession_known:
  assumes "[] \<notin> set ids" "ids \<noteq> []" "set ids = dom (sessions r)"
  shows "oldestSession ids r \<in> dom (sessions r)"
proof -
  let ?f = "fold (oldestStep r (attachedSessions r)) ids (([], 0), ([], 0))"
  have "fst (fst ?f) \<in> insert [] (dom (sessions r)) \<and> fst (snd ?f) \<in> dom (sessions r)"
    by (rule fold_oldest_known) (use assms in \<open>auto simp: neq_Nil_conv\<close>)
  then show ?thesis
    by (auto simp: oldestSession_def Let_def split: prod.splits)
qed

lemma evict_cap:
  assumes "enumerates ids (sessions r)" "[] \<notin> dom (sessions r)" "card (dom (sessions r)) \<le> Suc maxResumeSessions"
  shows "finite (dom (sessions (evictOldestSession ids r)))
    \<and> card (dom (sessions (evictOldestSession ids r))) \<le> maxResumeSessions
    \<and> dom (sessions (evictOldestSession ids r)) \<subseteq> dom (sessions r)"
proof -
  have e: "set ids = dom (sessions r)" "length ids = card (dom (sessions r))"
    using assms(1) distinct_card [of ids] by (simp_all add: enumerates_def)
  then have f: "finite (dom (sessions r))"
    by (metis List.finite_set)
  show ?thesis
  proof (cases "length ids \<le> maxResumeSessions")
    case True
    then show ?thesis
      using e f by (simp add: evictOldestSession_def)
  next
    case False
    then have "oldestSession ids r \<in> dom (sessions r)"
      by (intro oldestSession_known) (use e assms(2) in auto)
    moreover from this have "oldestSession ids r \<noteq> []"
      using assms(2) by metis
    ultimately show ?thesis
      using False f assms(3) e(2) by (auto simp: evictOldestSession_def Let_def dom_fun_upd)
  qed
qed


section \<open>The invariant\<close>

text \<open>What attaching does, hit or miss: it may create one fresh ledger without an owner and a count,
  and it attaches the socket; no owner and no count of another ledger changes.\<close>

lemma attach_spec:
  assumes "resolveAttach ws sid now ids r = ((l, created, prev), q)" "sid \<noteq> []"
    and "sessions r sid = None \<longrightarrow> enumerates ids (sessions (createLedger sid now r))"
    and "\<forall>i k. sessions r i = Some k \<longrightarrow> k < nextLedger r" "\<forall>k \<ge> nextLedger r. owner (ledgers r k) = None"
    and "[] \<notin> dom (sessions r)" "finite (dom (sessions r))" "card (dom (sessions r)) \<le> maxResumeSessions"
  shows "clients q = clients r" "anyFocused q = anyFocused r" "prev = session (states r ws)"
    "states q = (states r)(ws := (states r ws)\<lparr>session := Some l\<rparr>)"
    "l < nextLedger q" "nextLedger r \<le> nextLedger q"
    "\<forall>k. owner (ledgers q k) = owner (ledgers r k)"
    "\<forall>k. received (ledgers q k) = (if nextLedger r \<le> k \<and> k < nextLedger q then 0 else received (ledgers r k))"
    "\<forall>i k. sessions q i = Some k \<longrightarrow> k < nextLedger q"
    "[] \<notin> dom (sessions q) \<and> finite (dom (sessions q)) \<and> card (dom (sessions q)) \<le> maxResumeSessions"
proof -
  let ?c = "createLedger sid now r"
  have c: "clients ?c = clients r" "anyFocused ?c = anyFocused r" "states ?c = states r"
    "nextLedger ?c = Suc (nextLedger r)" "ledgers ?c = (ledgers r)(nextLedger r := newLedger now)"
    "\<forall>i k. sessions ?c i = Some k \<longrightarrow> sessions r i = Some k \<or> (i = sid \<and> k = nextLedger r)"
    by (auto simp: createLedger_def gcIdleSessions_def Let_def split: option.splits if_splits)
  have dom: "dom (sessions ?c) \<subseteq> insert sid (dom (sessions r))"
    using c(6) by auto
  have e: "clients (evictOldestSession ids x) = clients x" "anyFocused (evictOldestSession ids x) = anyFocused x"
    "states (evictOldestSession ids x) = states x" "nextLedger (evictOldestSession ids x) = nextLedger x"
    "ledgers (evictOldestSession ids x) = ledgers x" for x
    by (simp_all add: evictOldestSession_def Let_def)
  have sub: "sessions (evictOldestSession ids x) i = Some k \<Longrightarrow> sessions x i = Some k" for x i k
    by (auto simp: evictOldestSession_def Let_def split: if_splits)
  have cap: "finite (dom (sessions (evictOldestSession ids ?c)))
      \<and> card (dom (sessions (evictOldestSession ids ?c))) \<le> maxResumeSessions
      \<and> dom (sessions (evictOldestSession ids ?c)) \<subseteq> dom (sessions ?c)" if "sessions r sid = None"
  proof (rule evict_cap)
    show "enumerates ids (sessions ?c)"
      using assms(3) that by simp
    show "[] \<notin> dom (sessions ?c)"
      using dom assms(2,6) by blast
    show "card (dom (sessions ?c)) \<le> Suc maxResumeSessions"
      using card_mono [OF _ dom] assms(7,8) by (simp add: card_insert_if split: if_splits)
  qed
  have young: "sessions ?c i = Some k \<Longrightarrow> k < Suc (nextLedger r)" for i k
    using c(6) assms(4) by (metis less_SucI lessI)
  have none: "[] \<notin> dom (sessions ?c)"
    using dom assms(2,6) by blast
  show "clients q = clients r" "anyFocused q = anyFocused r" "prev = session (states r ws)"
    "states q = (states r)(ws := (states r ws)\<lparr>session := Some l\<rparr>)"
    using assms(1) by (auto simp: resolveAttach_def Let_def c e split: option.splits)
  show "l < nextLedger q" "nextLedger r \<le> nextLedger q"
    using assms(1,4) by (auto simp: resolveAttach_def Let_def c e split: option.splits)
  show "\<forall>k. owner (ledgers q k) = owner (ledgers r k)"
    using assms(1,5) by (auto simp: resolveAttach_def Let_def c e newLedger_def split: option.splits)
  show "\<forall>k. received (ledgers q k) = (if nextLedger r \<le> k \<and> k < nextLedger q then 0 else received (ledgers r k))"
    using assms(1) by (auto simp: resolveAttach_def Let_def c e newLedger_def split: option.splits)
  show "\<forall>i k. sessions q i = Some k \<longrightarrow> k < nextLedger q"
    using assms(1,4) young
    by (auto simp: resolveAttach_def Let_def c(1-5) e dest!: sub split: option.splits)
  show "[] \<notin> dom (sessions q) \<and> finite (dom (sessions q)) \<and> card (dom (sessions q)) \<le> maxResumeSessions"
  proof (cases "sessions r sid")
    case None
    then have "sessions q = sessions (evictOldestSession ids ?c)"
      using assms(1) by (auto simp: resolveAttach_def)
    then show ?thesis
      using cap [OF None] none by auto
  qed (use assms(1,6-8) in \<open>auto simp: resolveAttach_def\<close>)
qed

text \<open>A ledger changes owner by being released, or by being taken.\<close>

lemma release_fields:
  "clients (ledger_release ws l r) = clients r" "sessions (ledger_release ws l r) = sessions r"
  "states (ledger_release ws l r) = states r" "nextLedger (ledger_release ws l r) = nextLedger r"
  "anyFocused (ledger_release ws l r) = anyFocused r"
  "received (ledgers (ledger_release ws l r) k) = received (ledgers r k)"
  "owner (ledgers (ledger_release ws l r) k) = (if k = l \<and> owner (ledgers r l) = Some ws then None else owner (ledgers r k))"
  by (auto simp: ledger_release_def)

lemma leave_fields:
  "clients (resolveLeave ws p l r) = clients r" "sessions (resolveLeave ws p l r) = sessions r"
  "states (resolveLeave ws p l r) = states r" "nextLedger (resolveLeave ws p l r) = nextLedger r"
  "anyFocused (resolveLeave ws p l r) = anyFocused r"
  "received (ledgers (resolveLeave ws p l r) k) = received (ledgers r k)"
  "owner (ledgers (resolveLeave ws p l r) k)
    = (if p = Some k \<and> k \<noteq> l \<and> owner (ledgers r k) = Some ws then None else owner (ledgers r k))"
  by (auto simp: resolveLeave_def release_fields split: option.split)

lemma own_fields:
  "clients (snd (resolveOwn ws l r)) = clients r" "sessions (snd (resolveOwn ws l r)) = sessions r"
  "nextLedger (snd (resolveOwn ws l r)) = nextLedger r" "anyFocused (snd (resolveOwn ws l r)) = anyFocused r"
  "received (ledgers (snd (resolveOwn ws l r)) k) = received (ledgers r k)"
  "session (states (snd (resolveOwn ws l r)) v) = session (states r v)"
  "focused (states (snd (resolveOwn ws l r)) v) = focused (states r v)"
  "fenced (states (snd (resolveOwn ws l r)) v)
    = (fenced (states r v) \<or> (\<not> fenced (states r ws) \<and> owner (ledgers r l) = Some v \<and> v \<noteq> ws))"
  "owner (ledgers (snd (resolveOwn ws l r)) k)
    = (if k = l \<and> \<not> fenced (states r ws) then Some ws else owner (ledgers r k))"
  by (auto simp: resolveOwn_def Let_def split: option.split)


lemma counted_at_phase [simp]: "counted l (at_phase ws p r n) = counted l n"
  by (simp add: counted_def)

text \<open>A step that leaves the owners, counts and map as they are but for one released ledger.\<close>

lemma release_ok:
  assumes "net_ok n" "clients r = clients (reg n)" "sessions r = sessions (reg n)" "states r = states (reg n)"
    "nextLedger r = nextLedger (reg n)" "anyFocused r = anyFocused (reg n)"
    "\<forall>k. received (ledgers r k) = received (ledgers (reg n) k)"
    "\<forall>k. owner (ledgers r k) = owner (ledgers (reg n) k) \<or> owner (ledgers r k) = None"
    and ph: "phases n ws \<noteq> Fresh" "p \<noteq> Fresh"
      "\<forall>q l. p = Leaving q l \<longrightarrow> session (states r ws) = Some l \<and> (\<forall>l'. q = Some l' \<longrightarrow> l' < nextLedger r)"
      "\<forall>l. p = Taking l \<longrightarrow> session (states r ws) = Some l" "\<forall>s. p = Departing s \<longrightarrow> s = session (states r ws)"
    and own: "\<forall>l. owner (ledgers r l) = Some ws \<longrightarrow> may_own (at_phase ws p r n) ws = Some l"
  shows "net_ok (at_phase ws p r n)"
proof -
  have other: "may_own (at_phase ws p r n) v = may_own n v" if "v \<noteq> ws" for v
    using that assms(4) by (simp add: may_own_def split: phase.split)
  have "owns_ok (at_phase ws p r n)"
    using assms(1,4,8) own other unfolding net_ok_def owns_ok_def at_phase_fields by (metis option.distinct(1))
  moreover have "bound_ok (at_phase ws p r n)"
    using assms(1,2,4) ph unfolding net_ok_def bound_ok_def at_phase_fields by auto
  moreover have "fresh_ok (at_phase ws p r n)"
    using assms(1,3-5,8) ph(3) unfolding net_ok_def fresh_ok_def at_phase_fields by auto metis+
  ultimately show ?thesis
    using assms(1-7) by (simp add: net_ok_def count_ok_def cap_ok_def focus_ok_def)
qed


lemma may_own_other: "v \<noteq> ws \<Longrightarrow> session (states r v) = session (states (reg n) v)
    \<Longrightarrow> may_own (at_phase ws p r n) v = may_own n v"
  by (simp add: may_own_def split: phase.split)

lemma connect_ok:
  assumes "net_ok n" "phases n ws = Fresh"
  shows "net_ok (at_phase ws Idle (registry_Add ws (reg n)) n)"
proof -
  let ?m = "at_phase ws Idle (registry_Add ws (reg n)) n"
  have f: "clients (reg ?m) = ws # removeAll ws (clients (reg n))" "sessions (reg ?m) = sessions (reg n)"
    "ledgers (reg ?m) = ledgers (reg n)" "nextLedger (reg ?m) = nextLedger (reg n)"
    "states (reg ?m) = (states (reg n))(ws := newClientState)"
    by (simp_all add: registry_Add_def)
  have "focus_ok ?m"
    unfolding focus_ok_def at_phase_fields registry_Add_def refresh_focus by simp
  moreover have "owns_ok ?m"
    unfolding owns_ok_def
  proof (intro allI impI)
    fix l v assume "owner (ledgers (reg ?m) l) = Some v"
    then have o: "may_own n v = Some l" "\<not> fenced (states (reg n) v)"
      using assms(1) f(3) by (auto simp: net_ok_def owns_ok_def)
    then have "v \<noteq> ws"
      using assms(2) by (auto simp: may_own_def)
    then show "may_own ?m v = Some l \<and> \<not> fenced (states (reg ?m) v)"
      using o f(5) may_own_other [of v ws "reg ?m" n Idle] by simp
  qed
  moreover have "bound_ok ?m" "fresh_ok ?m" "count_ok ?m" "cap_ok ?m"
    using assms f unfolding net_ok_def bound_ok_def fresh_ok_def count_ok_def cap_ok_def
    by (auto simp: newClientState_def)
  ultimately show ?thesis
    by (simp add: net_ok_def)
qed

lemma counted_fresh: "fresh_ok n \<Longrightarrow> nextLedger (reg n) \<le> l \<Longrightarrow> counted l n = 0"
  unfolding counted_def fresh_ok_def by (auto simp: sum_list_eq_0_iff split: prod.splits)

lemma attach_ok:
  assumes "net_ok n" "phases n ws = Idle" "sid \<noteq> []"
    and "sessions (reg n) sid = None \<longrightarrow> enumerates ids (sessions (createLedger sid now (reg n)))"
    and "resolveAttach ws sid now ids (reg n) = ((l, created, prev), q)"
  shows "net_ok (at_phase ws (Leaving prev l) q n)"
proof -
  let ?m = "at_phase ws (Leaving prev l) q n"
  note ok = assms(1) [unfolded net_ok_def]
  have f: "fresh_ok n" "cap_ok n"
    using ok by simp_all
  note a = attach_spec [OF assms(5,3,4)]
  have pre: "\<forall>i k. sessions (reg n) i = Some k \<longrightarrow> k < nextLedger (reg n)"
    "\<forall>k \<ge> nextLedger (reg n). owner (ledgers (reg n) k) = None"
    using f(1) by (auto simp: fresh_ok_def)
  note a = a [OF pre f(2) [unfolded cap_ok_def, THEN conjunct1] f(2) [unfolded cap_ok_def, THEN conjunct2, THEN conjunct1]
      f(2) [unfolded cap_ok_def, THEN conjunct2, THEN conjunct2]]
  have st: "session (states q v) = (if v = ws then Some l else session (states (reg n) v))"
    "fenced (states q v) = fenced (states (reg n) v)" "focused (states q v) = focused (states (reg n) v)" for v
    using a(4) by simp_all
  have "owns_ok ?m"
    unfolding owns_ok_def
  proof (intro allI impI)
    fix k v assume "owner (ledgers (reg ?m) k) = Some v"
    then have "may_own n v = Some k \<and> \<not> fenced (states (reg n) v)"
      using ok a(7) by (auto simp: owns_ok_def)
    then show "may_own ?m v = Some k \<and> \<not> fenced (states (reg ?m) v)"
      using may_own_other [of v ws q n] a(3) assms(2) st by (cases "v = ws") (auto simp: may_own_def)
  qed
  moreover have "bound_ok ?m"
    using ok assms(2) st a(1) unfolding bound_ok_def at_phase_fields by auto
  moreover have "fresh_ok ?m"
  proof -
    have up: "k < nextLedger (reg n) \<Longrightarrow> k < nextLedger q" for k
      using a(6) by simp
    have s1: "session (states (reg n) v) = Some k \<Longrightarrow> k < nextLedger q" for v k
      using f(1) up by (simp add: fresh_ok_def)
    have s2: "phases n v = Leaving (Some p) k \<Longrightarrow> p < nextLedger q" for v p k
      by (rule up) (rule f(1) [unfolded fresh_ok_def, THEN conjunct2, THEN conjunct1, rule_format])
    have s3: "e \<in> set (journal n) \<Longrightarrow> fst e = Some k \<Longrightarrow> k < nextLedger q" for e k
      by (rule up) (rule f(1) [unfolded fresh_ok_def, THEN conjunct2, THEN conjunct2, THEN conjunct2,
          THEN conjunct1, rule_format])
    show ?thesis
      unfolding fresh_ok_def at_phase_fields
    proof (intro conjI allI impI ballI)
      show "k < nextLedger q" if "session (states q v) = Some k" for v k
        using that st(1) [of v] s1 a(5) by (auto split: if_splits)
      show "p < nextLedger q" if "((phases n)(ws := Leaving prev l)) v = Leaving (Some p) k" for v p k
        using that s1 s2 a(3) by (auto split: if_splits)
      show "k < nextLedger q" if "sessions q i = Some k" for i k
        by (rule a(9) [rule_format, OF that])
      show "k < nextLedger q" if "e \<in> set (journal n)" "fst e = Some k" for e k
        by (rule s3 [OF that])
      show "owner (ledgers q k) = None" if "nextLedger q \<le> k" for k
        using that pre(2) a(6,7) by simp
    qed
  qed
  moreover have "count_ok ?m"
    unfolding count_ok_def at_phase_fields counted_at_phase
  proof (intro allI impI)
    fix k assume k: "k < nextLedger q"
    show "received (ledgers q k) = of_nat (counted k n)"
    proof (cases "nextLedger (reg n) \<le> k")
      case True
      then show ?thesis
        using k a(8) counted_fresh [OF f(1) True] by simp
    next
      case False
      then show ?thesis
        using a(8) ok by (simp add: count_ok_def)
    qed
  qed
  moreover have "cap_ok ?m" "focus_ok ?m"
    using a(1,2,10) st ok by (simp_all add: cap_ok_def focus_ok_def)
  ultimately show ?thesis
    by (simp add: net_ok_def)
qed

lemma own_ok:
  assumes "net_ok n" "phases n ws = Taking l"
  shows "net_ok (at_phase ws Idle (snd (resolveOwn ws l (reg n))) n)"
proof -
  let ?q = "snd (resolveOwn ws l (reg n))" let ?m = "at_phase ws Idle ?q n"
  note ok = assms(1) [unfolded net_ok_def]
  have s: "session (states (reg n) ws) = Some l"
    using ok assms(2) by (auto simp: bound_ok_def)
  have owned: "may_own n v = Some k \<and> \<not> fenced (states (reg n) v)" if "owner (ledgers (reg n) k) = Some v" for k v
    using ok that by (auto simp: owns_ok_def)
  have "owns_ok ?m"
    unfolding owns_ok_def
  proof (intro allI impI)
    fix k v assume k: "owner (ledgers (reg ?m) k) = Some v"
    show "may_own ?m v = Some k \<and> \<not> fenced (states (reg ?m) v)"
    proof (cases "k = l \<and> \<not> fenced (states (reg n) ws)")
      case True
      then show ?thesis
        using k s by (auto simp: own_fields may_own_def)
    next
      case False
      then have o: "owner (ledgers (reg n) k) = Some v"
        using k by (auto simp: own_fields split: if_splits)
      have "\<not> (\<not> fenced (states (reg n) ws) \<and> owner (ledgers (reg n) l) = Some v \<and> v \<noteq> ws)"
        using False owned [OF o] owned [of l v] by auto
      then show ?thesis
        using owned [OF o] s assms(2) may_own_other [of v ws ?q n]
        by (cases "v = ws") (auto simp: own_fields may_own_def)
    qed
  qed
  moreover have "session (states (reg n) v) \<noteq> None" if "owner (ledgers (reg n) l) = Some v" for v
    using owned [OF that] ok by (auto simp: may_own_def bound_ok_def split: phase.splits)
  then have "bound_ok ?m"
    using ok s assms(2) owned unfolding bound_ok_def at_phase_fields own_fields
    by (auto simp: may_own_def split: phase.splits)
  moreover have "l < nextLedger (reg n)"
    using ok s by (auto simp: fresh_ok_def)
  then have "fresh_ok ?m"
    using ok unfolding fresh_ok_def at_phase_fields own_fields by auto
  moreover have "count_ok ?m" "cap_ok ?m" "focus_ok ?m"
    using ok by (simp_all add: count_ok_def cap_ok_def focus_ok_def own_fields)
  ultimately show ?thesis
    by (simp add: net_ok_def)
qed


lemma input_fields:
  assumes "applyLocked ws msg werr r = ((applied, err, wrote), q)"
  shows "clients q = clients r" "sessions q = sessions r" "states q = states r" "nextLedger q = nextLedger r"
    "anyFocused q = anyFocused r" "owner (ledgers q k) = owner (ledgers r k)"
    "received (ledgers q k) = received (ledgers r k)
      + (if applied \<and> session (states r ws) = Some k then of_nat (length msg) else 0)"
    "applied \<Longrightarrow> wrote" "wrote \<Longrightarrow> session (states r ws) = Some k \<Longrightarrow> owner (ledgers r k) = Some ws"
  using assms by (auto simp: applyLocked_def split: option.splits if_splits)

lemma input_ok:
  assumes "net_ok n" "applyLocked ws msg werr (reg n) = ((applied, err, wrote), q)"
  shows "net_ok (n\<lparr>reg := q, journal := journal n @
    (if wrote then [(session (states (reg n) ws), ws, msg, applied)] else [])\<rparr>)" (is "net_ok ?m")
proof -
  note ok = assms(1) [unfolded net_ok_def] and f = input_fields [OF assms(2)]
  have own: "may_own ?m = may_own n"
    by (auto simp: may_own_def f fun_eq_iff split: phase.split)
  have "owns_ok ?m" "bound_ok ?m" "cap_ok ?m" "focus_ok ?m"
    using ok by (simp_all add: owns_ok_def own f bound_ok_def cap_ok_def focus_ok_def)
  moreover have "fresh_ok ?m"
    using ok by (auto simp: fresh_ok_def f)
  moreover have "counted k ?m = counted k n + (if applied \<and> session (states (reg n) ws) = Some k then length msg else 0)" for k
    using f(8) by (auto simp: counted_def)
  then have "count_ok ?m"
    using ok by (auto simp: count_ok_def f)
  ultimately show ?thesis
    by (simp add: net_ok_def)
qed

lemma remove_fields:
  assumes "removeLocked ws now r = ((cols, rows, sess), q)"
  shows "clients q = removeAll ws (clients r)" "sessions q = sessions r" "states q = states r"
    "nextLedger q = nextLedger r" "owner (ledgers q k) = owner (ledgers r k)"
    "received (ledgers q k) = received (ledgers r k)"
    "anyFocused q = (\<exists>v \<in> set (clients q). focused (states q v))"
    "sess = (if ws \<in> set (clients r) then session (states r ws) else None)"
  using assms by (auto simp: removeLocked_def Let_def refresh_focus split: option.splits if_splits)

text \<open>A socket with an operation under way, or free for one, is registered until it departs.\<close>

definition live_ok :: "net \<Rightarrow> bool" where
  "live_ok n \<longleftrightarrow> (\<forall>ws. phases n ws = Idle \<or> (\<exists>p l. phases n ws = Leaving p l) \<or> (\<exists>l. phases n ws = Taking l)
     \<longrightarrow> ws \<in> set (clients (reg n)))"

lemma leave_ok:
  assumes "net_ok n" "live_ok n" "phases n ws = Idle" "removeLocked ws now (reg n) = ((cols, rows, sess), q)"
  shows "net_ok (at_phase ws (Departing sess) q n)"
proof -
  let ?m = "at_phase ws (Departing sess) q n"
  note ok = assms(1) [unfolded net_ok_def] and f = remove_fields [OF assms(4)]
  have s: "sess = session (states (reg n) ws)"
    using f(8) assms(2,3) by (simp add: live_ok_def)
  have "may_own ?m v = may_own n v" for v
    using assms(3) by (auto simp: may_own_def f(3) split: phase.split)
  then have "owns_ok ?m"
    using ok by (simp add: owns_ok_def f)
  moreover have "bound_ok ?m" "fresh_ok ?m"
    using ok s unfolding bound_ok_def fresh_ok_def at_phase_fields f by auto
  moreover have "count_ok ?m" "cap_ok ?m"
    using ok by (simp_all add: count_ok_def cap_ok_def f)
  moreover have "focus_ok ?m"
    using f(7) by (simp add: focus_ok_def)
  ultimately show ?thesis
    by (simp add: net_ok_def)
qed

lemma quiet_focus:
  assumes "focus_ok n" "anyFocused r = anyFocused (reg n)" "clients r = clients (reg n)"
    "\<And>ws. focused (states r ws) = focused (states (reg n) ws)"
  shows "focus_ok (n\<lparr>reg := r\<rparr>)"
  using assms by (simp add: focus_ok_def)

lemma fold_fields:
  assumes "\<And>x a. P (g x a) = P a"
  shows "P (fold g xs a) = P a"
  using assms by (induction xs arbitrary: a) simp_all

lemma focus_ops:
  assumes "focus_ok n"
  shows "focus_ok (n\<lparr>reg := touchLedger ws now (reg n)\<rparr>)" "focus_ok (n\<lparr>reg := RecordSize ws cols rows (reg n)\<rparr>)"
    "focus_ok (n\<lparr>reg := SetClientFocus ws f (reg n)\<rparr>)" "focus_ok (n\<lparr>reg := snd (AckSweepTargets (reg n))\<rparr>)"
    "focus_ok (n\<lparr>reg := NoteAcksSent acks (reg n)\<rparr>)"
proof -
  show "focus_ok (n\<lparr>reg := touchLedger ws now (reg n)\<rparr>)" "focus_ok (n\<lparr>reg := RecordSize ws cols rows (reg n)\<rparr>)"
    using assms by (auto intro!: quiet_focus simp: touchLedger_def RecordSize_def split: option.split if_splits)
  show "focus_ok (n\<lparr>reg := SetClientFocus ws f (reg n)\<rparr>)"
    unfolding focus_ok_def SetClientFocus_def by (simp add: refresh_focus)
  have s: "anyFocused (snd (fold sweepStep xs a)) = anyFocused (snd a)"
    "clients (snd (fold sweepStep xs a)) = clients (snd a)"
    "focused (states (snd (fold sweepStep xs a)) v) = focused (states (snd a) v)" for xs a v
    by (rule fold_fields [where P = "\<lambda>a. anyFocused (snd a)"] fold_fields [where P = "\<lambda>a. clients (snd a)"]
        fold_fields [where P = "\<lambda>a. focused (states (snd a) v)"];
        auto simp: sweepStep_def Let_def split: prod.split option.split)+
  show "focus_ok (n\<lparr>reg := snd (AckSweepTargets (reg n))\<rparr>)"
    by (rule quiet_focus [OF assms]) (simp_all add: AckSweepTargets_def s)
  have t: "anyFocused (fold noteStep xs a) = anyFocused a" "clients (fold noteStep xs a) = clients a"
    "focused (states (fold noteStep xs a) v) = focused (states a v)" for xs a v
    by (rule fold_fields [where P = anyFocused] fold_fields [where P = clients]
        fold_fields [where P = "\<lambda>a. focused (states a v)"]; auto simp: noteStep_def split: prod.split)+
  show "focus_ok (n\<lparr>reg := NoteAcksSent acks (reg n)\<rparr>)"
    by (rule quiet_focus [OF assms]) (simp_all add: NoteAcksSent_def t)
qed


definition net_inv :: "net \<Rightarrow> bool" where
  "net_inv n \<longleftrightarrow> net_ok n \<and> live_ok n"

lemma live_same: "live_ok n \<Longrightarrow> clients r = clients (reg n) \<Longrightarrow> live_ok (n\<lparr>reg := r\<rparr>)"
  by (simp add: live_ok_def)

lemma quiet_inv: "net_inv n \<Longrightarrow> quiet (reg n) r \<Longrightarrow> focus_ok (n\<lparr>reg := r\<rparr>) \<Longrightarrow> net_inv (n\<lparr>reg := r\<rparr>)"
  using quiet_ok live_same by (auto simp: net_inv_def quiet_def)

lemma net_step_inv: "net_step n m \<Longrightarrow> net_inv n \<Longrightarrow> net_inv m"
proof (induction rule: net_step.induct)
  case (connect n ws)
  then show ?case
    using connect_ok [of n ws] by (auto simp: net_inv_def live_ok_def registry_Add_def)
next
  case (resume_attach n ws sid ids now l created prev r)
  then have "net_ok (at_phase ws (Leaving prev l) r n)"
    by (intro attach_ok) (auto simp: net_inv_def)
  moreover have "clients r = clients (reg n)"
    using resume_attach(4) by (auto simp: resolveAttach_def Let_def createLedger_def gcIdleSessions_def
        evictOldestSession_def split: option.splits if_splits)
  ultimately show ?case
    using resume_attach(1,5) by (auto simp: net_inv_def live_ok_def)
next
  case (resume_leave n ws prev l)
  then have s: "session (states (reg n) ws) = Some l" and w: "may_own n ws = prev"
    by (auto simp: net_inv_def net_ok_def bound_ok_def may_own_def)
  have "owner (ledgers (reg n) k) = Some ws \<Longrightarrow> prev = Some k" for k
    using resume_leave(2) w by (auto simp: net_inv_def net_ok_def owns_ok_def)
  then have "net_ok (at_phase ws (Taking l) (resolveLeave ws prev l (reg n)) n)"
    using resume_leave s
    by (intro release_ok) (auto simp: net_inv_def leave_fields may_own_def split: if_splits)
  then show ?case
    using resume_leave by (auto simp: net_inv_def live_ok_def leave_fields)
next
  case (resume_own n ws l)
  then show ?case
    using own_ok [of n ws l] by (auto simp: net_inv_def live_ok_def own_fields)
next
  case (input n ws msg werr applied err wrote r)
  then show ?case
    using input_ok [of n ws msg werr applied err wrote r] input_fields(1) [OF input(2)]
    by (auto simp: net_inv_def live_ok_def)
next
  case (touch n ws now)
  then show ?case
    using quiet_ops(1) focus_ops(1) by (intro quiet_inv) (auto simp: net_inv_def net_ok_def)
next
  case (leave n ws now cols rows sess r)
  then show ?case
    using leave_ok [of n ws now cols rows sess r] remove_fields(1) [OF leave(2)]
    by (auto simp: net_inv_def live_ok_def)
next
  case (gone n ws sess)
  then have s: "sess = session (states (reg n) ws)" and w: "may_own n ws = session (states (reg n) ws)"
    by (auto simp: net_inv_def net_ok_def bound_ok_def may_own_def)
  have o: "owner (ledgers (reg n) k) = Some ws \<Longrightarrow> sess = Some k" for k
    using gone(2) w s by (auto simp: net_inv_def net_ok_def owns_ok_def)
  have "owner (ledgers (case sess of None \<Rightarrow> reg n | Some l \<Rightarrow> ledger_release ws l (reg n)) k) \<noteq> Some ws" for k
    using o [of k] by (cases sess) (auto simp: release_fields)
  then have "net_ok (at_phase ws Gone (case sess of None \<Rightarrow> reg n | Some l \<Rightarrow> ledger_release ws l (reg n)) n)"
    using gone s by (intro release_ok) (auto simp: net_inv_def release_fields split: option.split if_splits)
  then show ?case
    using gone by (auto simp: net_inv_def live_ok_def release_fields split: option.split)
next
  case (size n ws cols rows)
  then show ?case
    using quiet_ops(2) focus_ops(2) by (intro quiet_inv) (auto simp: net_inv_def net_ok_def)
next
  case (focus n ws f)
  then show ?case
    using quiet_ops(3) focus_ops(3) by (intro quiet_inv) (auto simp: net_inv_def net_ok_def)
next
  case (sweep n)
  then show ?case
    using quiet_sweep focus_ops(4) by (intro quiet_inv) (auto simp: net_inv_def net_ok_def)
next
  case (note_acks n acks)
  then show ?case
    using quiet_note focus_ops(5) by (intro quiet_inv) (auto simp: net_inv_def net_ok_def)
qed

lemma new_net_inv: "net_inv newNet"
  by (simp add: net_inv_def net_ok_def owns_ok_def bound_ok_def fresh_ok_def count_ok_def cap_ok_def focus_ok_def
      live_ok_def newNet_def newClientRegistry_def newLedger_def newClientState_def)

interpretation net: step_system "\<lambda>n. n = newNet" net_step net_inv
  by unfold_locales (auto simp: new_net_inv intro: net_step_inv)


section \<open>Properties of every run\<close>

lemma fenced_step:
  assumes "net_inv n" "net_step n m"
  shows "fenced (states (reg n) ws) \<and> written_by ws n = w \<Longrightarrow> fenced (states (reg m) ws) \<and> written_by ws m = w"
  using assms(2,1)
proof (induction rule: net_step.induct)
  case (connect n v)
  then have "v \<noteq> ws"
    by (auto simp: net_inv_def net_ok_def bound_ok_def)
  then show ?case
    using connect by (simp add: registry_Add_def written_by_def)
next
  case (resume_attach n v sid ids now l created prev r)
  have "states r = (states (reg n))(v := (states (reg n) v)\<lparr>session := Some l\<rparr>)"
    using resume_attach(4) by (auto simp: resolveAttach_def Let_def createLedger_def gcIdleSessions_def
        evictOldestSession_def split: option.splits if_splits)
  then show ?case
    using resume_attach by (auto simp: written_by_def)
next
  case (input n v msg werr applied err wrote r)
  have "wrote \<Longrightarrow> v \<noteq> ws"
  proof
    assume w: "wrote" and v: "v = ws"
    have "session (states (reg n) ws) \<noteq> None"
      using input(3,4) by (auto simp: net_inv_def net_ok_def bound_ok_def)
    then obtain k where "owner (ledgers (reg n) k) = Some ws"
      using input_fields(9) [OF input(2) w] v by auto
    then show False
      using input(3,4) by (auto simp: net_inv_def net_ok_def owns_ok_def)
  qed
  then show ?case
    using input(3) input_fields(3) [OF input(2)] by (auto simp: written_by_def)
next
  case (leave n v now cols rows sess r)
  then show ?case
    using remove_fields(3) [OF leave(2)] by (simp add: written_by_def)
next
  case (gone n v sess)
  then show ?case
    by (simp add: written_by_def release_fields split: option.split)
qed (auto simp: written_by_def leave_fields own_fields quiet_ops [unfolded quiet_def] quiet_sweep [unfolded quiet_def]
    quiet_note [unfolded quiet_def])

lemma fenced_silent:
  assumes "net_inv n" "net_step\<^sup>*\<^sup>* n m" "fenced (states (reg n) ws)"
  shows "fenced (states (reg m) ws) \<and> written_by ws m = written_by ws n"
  by (rule net.steps_keep [where P = "\<lambda>n. fenced (states (reg n) ws) \<and> written_by ws n = w" for w,
        OF fenced_step assms(2,1)]) (use assms(3) in auto)


text \<open>C34.  The ack a resume returns counts every byte that was applied to the ledger up to the moment
  it changes hands (the count wraps at 64 bits, like the code's); the ledger's only owner is then the
  resuming socket, and the socket it was taken from never writes again.\<close>

theorem resume_ack_is_exact:
  assumes "net_step\<^sup>*\<^sup>* newNet n" "phases n ws = Taking l" "\<not> fenced (states (reg n) ws)"
    and "resolveOwn ws l (reg n) = ((ack, displaced), r)"
  shows "ack = of_nat (counted l n) \<and> owner (ledgers r l) = Some ws
    \<and> (\<forall>k. owner (ledgers r k) = Some ws \<longrightarrow> k = l)
    \<and> (\<forall>v m. displaced = Some v \<and> net_step\<^sup>*\<^sup>* (at_phase ws Idle r n) m \<longrightarrow> written_by v m = written_by v n)"
proof -
  have inv: "net_inv n"
    by (rule net.reachable_inv [OF refl assms(1)])
  have r: "r = snd (resolveOwn ws l (reg n))"
    using assms(4) by simp
  have step: "net_step n (at_phase ws Idle r n)"
    unfolding r by (rule resume_own [OF assms(2)])
  have "session (states (reg n) ws) = Some l"
    using inv assms(2) by (simp add: net_inv_def net_ok_def bound_ok_def)
  then have l: "l < nextLedger (reg n)"
    using inv by (simp add: net_inv_def net_ok_def fresh_ok_def)
  have "ack = received (ledgers (reg n) l)"
    using assms(3,4) by (auto simp: resolveOwn_def Let_def split: option.splits)
  then have "ack = of_nat (counted l n)"
    using inv l by (simp add: net_inv_def net_ok_def count_ok_def)
  moreover have own: "owner (ledgers r l) = Some ws"
    using assms(3) by (simp add: r own_fields)
  moreover have "k = l" if "owner (ledgers r k) = Some ws" for k
  proof -
    have "owns_ok (at_phase ws Idle r n)"
      using net_step_inv [OF step inv] by (simp add: net_inv_def net_ok_def)
    then show ?thesis
      using own that unfolding owns_ok_def at_phase_fields by (metis option.inject)
  qed
  moreover have "written_by v m = written_by v n"
    if "displaced = Some v" "net_step\<^sup>*\<^sup>* (at_phase ws Idle r n) m" for v m
  proof -
    have "fenced (states (reg (at_phase ws Idle r n)) v)"
      using assms(3,4) that(1) by (auto simp: resolveOwn_def Let_def split: option.splits if_splits)
    then have "written_by v m = written_by v (at_phase ws Idle r n)"
      using fenced_silent [OF net_step_inv [OF step inv] that(2)] by blast
    then show ?thesis
      by (simp add: written_by_def)
  qed
  ultimately show ?thesis
    by blast
qed

text \<open>C35.  However many identifiers clients invent, the map never holds more than 1,024 ledgers.\<close>

theorem sessions_capped:
  assumes "net_step\<^sup>*\<^sup>* newNet n"
  shows "finite (dom (sessions (reg n))) \<and> card (dom (sessions (reg n))) \<le> 1024"
  using net.reachable_inv [OF refl assms] by (simp add: net_inv_def net_ok_def cap_ok_def maxResumeSessions_def)

text \<open>The focus flag the PTY reader loads without a lock is in every state the disjunction of the
  focus of the connected sockets.\<close>

theorem focus_aggregate_exact:
  assumes "net_step\<^sup>*\<^sup>* newNet n"
  shows "AnyClientFocused (reg n) = (\<exists>ws \<in> set (clients (reg n)). focused (states (reg n) ws))"
  using net.reachable_inv [OF refl assms] by (simp add: net_inv_def net_ok_def focus_ok_def AnyClientFocused_def)


text \<open>A run in which socket 1 takes the ledger of socket 0 over after two bytes of input.\<close>

definition demoConnected :: net where
  "demoConnected = (let n = at_phase 0 Idle (registry_Add 0 (reg newNet)) newNet
     in at_phase 1 Idle (registry_Add 1 (reg n)) n)"

definition demoAttach :: "sock \<Rightarrow> net \<Rightarrow> net" where
  "demoAttach ws n = (case resolveAttach ws [0x61] 10 [[0x61]] (reg n) of ((l, created, prev), r) \<Rightarrow>
     at_phase ws (Taking l) (resolveLeave ws prev l r) n)"

definition demoOwn :: "sock \<Rightarrow> net \<Rightarrow> net" where
  "demoOwn ws n = at_phase ws Idle (snd (resolveOwn ws 0 (reg n))) n"

definition demoTyped :: net where
  "demoTyped = (let n = demoOwn 0 (demoAttach 0 demoConnected) in
     n\<lparr>reg := snd (applyLocked 0 [0x68, 0x69] False (reg n)), journal := [(Some 0, 0, [0x68, 0x69], True)]\<rparr>)"

definition demoTaking :: net where
  "demoTaking = demoAttach 1 demoTyped"

lemma demoAttach_run:
  assumes "net_step\<^sup>*\<^sup>* newNet n" "phases n ws = Idle"
    "sessions (reg n) [0x61] = None \<longrightarrow> enumerates [[0x61]] (sessions (createLedger [0x61] 10 (reg n)))"
  shows "net_step\<^sup>*\<^sup>* newNet (demoAttach ws n)"
proof -
  obtain l created prev r where a: "resolveAttach ws [0x61] 10 [[0x61]] (reg n) = ((l, created, prev), r)"
    by (metis prod.collapse)
  have "net_step n (at_phase ws (Leaving prev l) r n)"
    by (rule resume_attach [OF assms(2) _ assms(3) a]) simp
  moreover have "net_step (at_phase ws (Leaving prev l) r n) (demoAttach ws n)"
    using resume_leave [of "at_phase ws (Leaving prev l) r n" ws prev l] a
    by (simp add: demoAttach_def at_phase_def)
  ultimately show ?thesis
    using assms(1) by (meson rtranclp.rtrancl_into_rtrancl)
qed

lemma demoTyped_run: "net_step\<^sup>*\<^sup>* newNet demoTyped"
proof -
  have "net_step\<^sup>*\<^sup>* newNet (at_phase 0 Idle (registry_Add 0 (reg newNet)) newNet)"
    by (intro r_into_rtranclp connect) (simp add: newNet_def)
  then have c: "net_step\<^sup>*\<^sup>* newNet demoConnected"
    unfolding demoConnected_def Let_def
    by (rule rtranclp.rtrancl_into_rtrancl) (rule connect, simp add: newNet_def)
  have p: "phases demoConnected 0 = Idle"
    by code_simp
  have "dom (sessions (createLedger [0x61] 10 (reg demoConnected))) = {[0x61]}"
    by (auto simp: createLedger_def gcIdleSessions_def demoConnected_def registry_Add_def newNet_def newClientRegistry_def
        newLedger_def idleWindow_def Let_def split: if_splits)
  then have a: "net_step\<^sup>*\<^sup>* newNet (demoAttach 0 demoConnected)"
    by (intro demoAttach_run [OF c p]) (simp add: enumerates_def)
  have "phases (demoAttach 0 demoConnected) 0 = Taking 0"
    by code_simp
  from a resume_own [OF this] have o: "net_step\<^sup>*\<^sup>* newNet (demoOwn 0 (demoAttach 0 demoConnected))"
    unfolding demoOwn_def by (rule rtranclp.rtrancl_into_rtrancl)
  let ?n = "demoOwn 0 (demoAttach 0 demoConnected)"
  have i: "phases ?n 0 = Idle" "fst (applyLocked 0 [0x68, 0x69] False (reg ?n)) = (True, False, True)"
    "session (states (reg ?n) 0) = Some 0" "journal ?n = []"
    by code_simp+
  then have "applyLocked 0 [0x68, 0x69] False (reg ?n) = ((True, False, True), snd (applyLocked 0 [0x68, 0x69] False (reg ?n)))"
    by (metis prod.collapse)
  from input [OF i(1) this] have "net_step ?n demoTyped"
    by (simp add: demoTyped_def i Let_def)
  with o show ?thesis
    by (rule rtranclp.rtrancl_into_rtrancl)
qed

lemma demoTaking_run: "net_step\<^sup>*\<^sup>* newNet demoTaking"
  unfolding demoTaking_def
proof (rule demoAttach_run [OF demoTyped_run])
  show "phases demoTyped 1 = Idle"
    by code_simp
  have "sessions (reg demoTyped) [0x61] = Some 0"
    by code_simp
  then show "sessions (reg demoTyped) [0x61] = None \<longrightarrow> enumerates [[0x61]] (sessions (createLedger [0x61] 10 (reg demoTyped)))"
    by simp
qed

lemma demoOwn_run: "net_step\<^sup>*\<^sup>* newNet (demoOwn 1 demoTaking)"
proof -
  have "phases demoTaking 1 = Taking 0"
    by code_simp
  from demoTaking_run resume_own [OF this] show ?thesis
    unfolding demoOwn_def by (rule rtranclp.rtrancl_into_rtrancl)
qed


lemma resume_ack_is_exact_witness:
  "fst (fst (resolveOwn 1 0 (reg demoTaking))) = of_nat (counted 0 demoTaking) \<and> counted 0 demoTaking = 2"
proof -
  have "phases demoTaking 1 = Taking 0" "\<not> fenced (states (reg demoTaking) 1)" "counted 0 demoTaking = 2"
    by code_simp+
  then show ?thesis
    using resume_ack_is_exact [OF demoTaking_run, of 1 0 "fst (fst (resolveOwn 1 0 (reg demoTaking)))"
        "snd (fst (resolveOwn 1 0 (reg demoTaking)))" "snd (resolveOwn 1 0 (reg demoTaking))"] by simp
qed

lemma sessions_capped_witness: "card (dom (sessions (reg demoTaking))) \<le> 1024"
  using sessions_capped [OF demoTaking_run] by simp

lemma focus_aggregate_exact_witness:
  "AnyClientFocused (reg demoTaking) = (\<exists>ws \<in> set (clients (reg demoTaking)). focused (states (reg demoTaking) ws))"
  by (rule focus_aggregate_exact [OF demoTaking_run])


section \<open>The smallest viewport\<close>

definition sized :: "clientRegistry \<Rightarrow> sock set" where
  "sized r = {ws \<in> set (clients r). 0 < cs_cols (states r ws) \<and> 0 < cs_rows (states r ws)}"

lemma fold_minSize:
  "fold (\<lambda>ws. minSizeStep (st ws)) xs (Some (a, b)) =
    Some (Min (insert a (cs_cols ` st ` {x \<in> set xs. 0 < cs_cols (st x) \<and> 0 < cs_rows (st x)})),
      Min (insert b (cs_rows ` st ` {x \<in> set xs. 0 < cs_cols (st x) \<and> 0 < cs_rows (st x)})))"
proof (induction xs arbitrary: a b)
  case (Cons x xs)
  let ?S = "{y \<in> set xs. 0 < cs_cols (st y) \<and> 0 < cs_rows (st y)}"
  have S: "{y \<in> set (x # xs). 0 < cs_cols (st y) \<and> 0 < cs_rows (st y)}
      = (if 0 < cs_cols (st x) \<and> 0 < cs_rows (st x) then insert x ?S else ?S)"
    by auto
  have m: "Min (insert (min c a) A) = Min (insert a (insert c A))" if "finite A" for a c :: int and A
    using that by (cases "A = {}") (simp_all add: min.left_commute min.commute min.assoc)
  have step: "minSizeStep (st x) (Some (a, b)) = (if 0 < cs_cols (st x) \<and> 0 < cs_rows (st x)
      then Some (min (cs_cols (st x)) a, min (cs_rows (st x)) b) else Some (a, b))"
    by (auto simp: minSizeStep_def min_def)
  show ?case
    unfolding S fold.simps comp_apply step by (simp add: Cons.IH m)
qed simp

text \<open>The size the screen is healed to is, in each dimension, the least of the sizes of the
  connected sockets that reported one, whatever the order the map is visited in; it fits in each.\<close>

theorem min_live_size:
  "MinLiveSize r = (if sized r = {} then None
     else Some (Min (cs_cols ` states r ` sized r), Min (cs_rows ` states r ` sized r)))"
proof -
  have "fold (\<lambda>ws. minSizeStep (st ws)) xs None =
    (let S = {x \<in> set xs. 0 < cs_cols (st x) \<and> 0 < cs_rows (st x)} in
      if S = {} then None else Some (Min (cs_cols ` st ` S), Min (cs_rows ` st ` S)))" for st xs
  proof (induction xs)
    case (Cons x xs)
    have "{y \<in> set (x # xs). 0 < cs_cols (st y) \<and> 0 < cs_rows (st y)} = (if 0 < cs_cols (st x) \<and> 0 < cs_rows (st x)
        then insert x {y \<in> set xs. 0 < cs_cols (st y) \<and> 0 < cs_rows (st y)}
        else {y \<in> set xs. 0 < cs_cols (st y) \<and> 0 < cs_rows (st y)})"
      by auto
    moreover have "minSizeStep (st x) None
        = (if 0 < cs_cols (st x) \<and> 0 < cs_rows (st x) then Some (cs_cols (st x), cs_rows (st x)) else None)"
      by (auto simp: minSizeStep_def)
    ultimately show ?case
      using Cons by (auto simp: fold_minSize Let_def)
  qed simp
  from this [of "states r" "clients r"] show ?thesis
    by (simp only: MinLiveSize_def sized_def Let_def)
qed

section \<open>The ack sweep\<close>

definition owes_ack :: "clientRegistry \<Rightarrow> sock \<Rightarrow> bool" where
  "owes_ack r ws \<longleftrightarrow> session (states r ws) \<noteq> None \<and> ledgerAck r ws \<noteq> lastAckSent (states r ws)"

lemma sweep_fold:
  "fst (fold sweepStep xs (m, r)) = (\<lambda>ws. if ws \<in> set xs \<and> owes_ack r ws then Some (ledgerAck r ws) else m ws)
    \<and> (\<forall>ws. lastAckSent (states (snd (fold sweepStep xs (m, r))) ws)
        = (if ws \<in> set xs \<and> owes_ack r ws then ledgerAck r ws else lastAckSent (states r ws)))"
proof (induction xs arbitrary: m r)
  case (Cons x xs)
  obtain m' r' where s: "sweepStep x (m, r) = (m', r')"
    by (metis prod.collapse)
  have f: "ledgers r' = ledgers r" "\<And>ws. session (states r' ws) = session (states r ws)"
    "\<And>ws. lastAckSent (states r' ws) = (if ws = x \<and> owes_ack r x then ledgerAck r x else lastAckSent (states r ws))"
    "m' = (if owes_ack r x then m(x \<mapsto> ledgerAck r x) else m)"
    using s by (auto simp: sweepStep_def owes_ack_def ledgerAck_def Let_def split: option.splits if_splits)
  have "ledgerAck r' ws = ledgerAck r ws" for ws
    unfolding ledgerAck_def f(2) f(1) ..
  moreover from this have "owes_ack r' ws = (owes_ack r ws \<and> ws \<noteq> x)" for ws
    using f(2,3) by (auto simp: owes_ack_def)
  ultimately have "fst (fold sweepStep xs (m', r'))
        = (\<lambda>ws. if ws \<in> set xs \<and> owes_ack r ws \<and> ws \<noteq> x then Some (ledgerAck r ws) else m' ws)"
    "lastAckSent (states (snd (fold sweepStep xs (m', r'))) ws)
        = (if ws \<in> set xs \<and> owes_ack r ws \<and> ws \<noteq> x then ledgerAck r ws else lastAckSent (states r' ws))" for ws
    using Cons [of m' r'] by (simp_all cong: if_cong)
  then show ?case
    unfolding fold.simps comp_apply s using f(3,4) by (auto intro!: ext)
qed auto

text \<open>The sweep picks exactly the connected sockets whose ledger has moved past the ack they were
  last sent, with the current count, and a second sweep right after it finds nothing to send.\<close>

theorem ack_sweep_exact:
  "fst (AckSweepTargets r) = (\<lambda>ws. if ws \<in> set (clients r) \<and> owes_ack r ws then Some (ledgerAck r ws) else None)
    \<and> fst (AckSweepTargets (snd (AckSweepTargets r))) = Map.empty"
proof -
  let ?q = "snd (AckSweepTargets r)"
  have q: "clients ?q = clients r" "\<And>ws. session (states ?q ws) = session (states r ws)"
    "\<And>l. received (ledgers ?q l) = received (ledgers r l)"
    using quiet_sweep [of r] by (simp_all add: quiet_def)
  have "ledgerAck ?q ws = ledgerAck r ws" for ws
    using q by (auto simp: ledgerAck_def split: option.split)
  moreover have "lastAckSent (states ?q ws)
      = (if ws \<in> set (clients r) \<and> owes_ack r ws then ledgerAck r ws else lastAckSent (states r ws))" for ws
    using sweep_fold [of "clients r" Map.empty r] by (simp add: AckSweepTargets_def)
  ultimately have "\<not> (ws \<in> set (clients ?q) \<and> owes_ack ?q ws)" for ws
    using q by (auto simp: owes_ack_def)
  moreover have "fst (AckSweepTargets x) = (\<lambda>ws. if ws \<in> set (clients x) \<and> owes_ack x ws
      then Some (ledgerAck x ws) else None)" for x
    using sweep_fold [of "clients x" Map.empty x] by (simp add: AckSweepTargets_def)
  ultimately show ?thesis
    by (simp add: fun_eq_iff)
qed


section \<open>A full house\<close>

lemma oldest_newcomer:
  assumes "\<forall>i l. sessions r i = Some l \<longrightarrow> l \<notin> set att \<longrightarrow> i = sid" "sid \<noteq> []"
    and "fst (fst acc) \<in> {[], sid}"
  shows "fst (fst (fold (oldestStep r att) ids acc)) \<in> {[], sid}
    \<and> ((sid \<in> set ids \<and> (\<exists>l. sessions r sid = Some l \<and> l \<notin> set att)) \<or> fst (fst acc) = sid
        \<longrightarrow> fst (fst (fold (oldestStep r att) ids acc)) = sid)"
  using assms(3)
proof (induction ids arbitrary: acc)
  case (Cons x xs)
  obtain oid ot aid aat where acc: "acc = ((oid, ot), (aid, aat))"
    by (metis prod.collapse)
  have pick: "fst (fst (oldestStep r att x acc)) = (case sessions r x of None \<Rightarrow> oid
      | Some l \<Rightarrow> if l \<in> set att then oid else if oid = [] \<or> lastSeen (ledgers r l) < ot then x else oid)"
    by (simp add: acc oldestStep_def Let_def split: option.split)
  have "fst (fst (oldestStep r att x acc)) \<in> {[], sid}
      \<and> ((x = sid \<and> (\<exists>l. sessions r sid = Some l \<and> l \<notin> set att)) \<or> fst (fst acc) = sid
          \<longrightarrow> fst (fst (oldestStep r att x acc)) = sid)"
    unfolding pick using assms(1) [rule_format, of x] assms(2) Cons.prems
    by (cases "sessions r x") (auto simp: acc)
  then show ?case
    using Cons.IH [of "oldestStep r att x acc"] by auto
qed auto

lemma createLedger_full:
  assumes "sessions r sid = None" "\<forall>i l. sessions r i = Some l \<longrightarrow> l \<in> set (attachedSessions r)"
  shows "sessions (createLedger sid now r) = (sessions r)(sid \<mapsto> nextLedger r)"
    and "attachedSessions (createLedger sid now r) = attachedSessions r"
proof -
  show att: "attachedSessions (createLedger sid now r) = attachedSessions r"
    by (simp add: attachedSessions_def createLedger_def gcIdleSessions_def)
  let ?d = "r\<lparr>sessions := (sessions r)(sid \<mapsto> nextLedger r),
    ledgers := (ledgers r)(nextLedger r := newLedger now), nextLedger := nextLedger r + 1\<rparr>"
  have "attachedSessions ?d = attachedSessions r"
    by (simp add: attachedSessions_def)
  then have "sessions (createLedger sid now r) i = ((sessions r)(sid \<mapsto> nextLedger r)) i" for i
    using assms(2) [rule_format, of i]
    by (cases "sessions r i"; cases "i = sid")
      (auto simp: createLedger_def gcIdleSessions_def Let_def newLedger_def idleWindow_def)
  then show "sessions (createLedger sid now r) = (sessions r)(sid \<mapsto> nextLedger r)"
    by blast
qed

text \<open>C36.  When every retained ledger belongs to a connected socket and the map is full, a new
  identifier's own ledger is the one evicted: the socket is attached to a ledger that the map no
  longer holds, so its next resume counts as ledger loss.  (The ledger is created before the socket is
  attached to it, so the scan takes it for an abandoned one.)\<close>

theorem newcomer_evicted_when_full:
  assumes "sessions r sid = None" "sid \<noteq> []"
    and "\<forall>i l. sessions r i = Some l \<longrightarrow> l \<in> set (attachedSessions r)"
    and "nextLedger r \<notin> set (attachedSessions r)" "card (dom (sessions r)) = 1024"
    and "enumerates ids (sessions (createLedger sid now r))"
    and "resolveAttach ws sid now ids r = ((l, created, prev), q)"
  shows "session (states q ws) = Some l \<and> sessions q sid = None"
proof -
  let ?c = "createLedger sid now r"
  have c: "sessions ?c = (sessions r)(sid \<mapsto> nextLedger r)" "attachedSessions ?c = attachedSessions r"
    using createLedger_full [OF assms(1,3)] .
  have n: "length ids = 1025"
  proof -
    have "finite (dom (sessions r))"
      using assms(5) by (metis card.infinite zero_neq_numeral)
    then have "card (dom (sessions ?c)) = 1025"
      using assms(1,5) by (simp add: c card_insert_if domIff)
    then show ?thesis
      using assms(6) distinct_card [of ids] by (simp add: enumerates_def)
  qed
  have "sid \<in> set ids"
    using assms(6) by (auto simp: enumerates_def c)
  moreover have "i = sid" if "sessions ?c i = Some k" "k \<notin> set (attachedSessions ?c)" for i k
    using that assms(3) [rule_format, of i k] by (simp add: c split: if_splits)
  then have "\<forall>i k. sessions ?c i = Some k \<longrightarrow> k \<notin> set (attachedSessions ?c) \<longrightarrow> i = sid"
    by blast
  moreover have "\<exists>k. sessions ?c sid = Some k \<and> k \<notin> set (attachedSessions ?c)"
    using assms(4) by (simp add: c)
  ultimately have "fst (fst (fold (oldestStep ?c (attachedSessions ?c)) ids (([], 0), ([], 0)))) = sid"
    using oldest_newcomer [OF _ assms(2), of ?c "attachedSessions ?c" "(([], 0), ([], 0))" ids] by simp
  then have "oldestSession ids ?c = sid"
    using assms(2) by (auto simp: oldestSession_def Let_def split: prod.splits)
  then have "sessions (evictOldestSession ids ?c) sid = None"
    using n assms(2) by (simp add: evictOldestSession_def maxResumeSessions_def)
  then show ?thesis
    using assms(1,7) by (auto simp: resolveAttach_def)
qed

text \<open>A full house: identifiers of 1 to 1,024 letters, each held by a socket.\<close>

definition houseSize :: nat where
  "houseSize = 1024"

definition houseId :: "nat \<Rightarrow> sessionID" where
  "houseId n = replicate (Suc n) 0x61"

definition fullHouse :: clientRegistry where
  "fullHouse = newClientRegistry\<lparr>clients := [0..<houseSize],
     states := (\<lambda>ws. newClientState\<lparr>session := if ws < houseSize then Some ws else None\<rparr>),
     sessions := (\<lambda>i. if i = houseId (length i - 1) \<and> length i \<le> houseSize then Some (length i - 1) else None),
     nextLedger := houseSize\<rparr>"

lemma houseId_length [simp]: "length (houseId n) = Suc n" "houseId n \<noteq> []"
  by (simp_all add: houseId_def)

lemma houseId_inj: "inj_on houseId A"
  by (rule inj_onI) (metis houseId_length(1) nat.inject)

lemma house_dom: "dom (sessions fullHouse) = houseId ` {..<houseSize}"
proof (intro set_eqI iffI)
  fix i assume "i \<in> dom (sessions fullHouse)"
  then have i: "i = houseId (length i - 1)" "length i \<le> houseSize"
    by (auto simp: fullHouse_def split: if_splits)
  then have "length i = Suc (length i - 1)"
    by (metis houseId_length(1))
  then show "i \<in> houseId ` {..<houseSize}"
    using i by (metis Suc_le_lessD image_eqI lessThan_iff)
qed (auto simp: fullHouse_def)

lemma house_attached: "set (attachedSessions fullHouse) = {..<houseSize}"
  by (auto simp: attachedSessions_def fullHouse_def)

lemma house_held: "sessions fullHouse i = Some l \<Longrightarrow> l \<in> set (attachedSessions fullHouse)"
proof -
  assume "sessions fullHouse i = Some l"
  then have i: "i = houseId l" "length i \<le> houseSize"
    by (auto simp: fullHouse_def split: if_splits)
  then show ?thesis
    using houseId_length(1) [of l] unfolding house_attached by simp
qed

lemma newcomer_evicted_when_full_witness:
  "sessions (snd (resolveAttach 5000 (houseId houseSize) 0 (map houseId [0..<Suc houseSize]) fullHouse))
    (houseId houseSize) = None"
proof -
  let ?sid = "houseId houseSize" and ?ids = "map houseId [0..<Suc houseSize]"
  have none: "sessions fullHouse ?sid = None"
    by (simp add: fullHouse_def)
  have c: "sessions (createLedger ?sid 0 fullHouse) = (sessions fullHouse)(?sid \<mapsto> houseSize)"
    using createLedger_full(1) [OF none, of 0] house_held by (simp add: fullHouse_def)
  have "enumerates ?ids (sessions (createLedger ?sid 0 fullHouse))"
    unfolding enumerates_def c
  proof
    show "distinct ?ids"
      by (simp add: distinct_map houseId_inj del: upt_Suc)
    have "{0..<Suc houseSize} = insert houseSize {..<houseSize}"
      by auto
    then show "set ?ids = dom ((sessions fullHouse)(?sid \<mapsto> houseSize))"
      by (simp add: house_dom del: upt_Suc)
  qed
  moreover have "card (dom (sessions fullHouse)) = 1024"
    unfolding house_dom by (simp add: card_image [OF houseId_inj] houseSize_def)
  moreover have "nextLedger fullHouse \<notin> set (attachedSessions fullHouse)"
    unfolding house_attached by (simp add: fullHouse_def)
  moreover obtain l created prev q where "resolveAttach 5000 ?sid 0 ?ids fullHouse = ((l, created, prev), q)"
    by (metis prod.collapse)
  ultimately show ?thesis
    using newcomer_evicted_when_full [of fullHouse ?sid ?ids 0 5000 l created prev q] none house_held by simp
qed

end
