(* ===== verification/Handler.thy ===== *)
theory Handler
  imports Flush Registry
begin

text \<open>
  The session handler (\<open>src/terminal/terminal.go\<close> and \<open>src/terminal/focus.go\<close>): the state one session
  keeps, its start and end, the size of the screen, the hold on frames after a resize, and the DEC 1004
  focus answer.  \<^verbatim>\<open>h.mu\<close> makes each of these one step.  The PTY master is absent exactly before the start;
  a time that may be Go's zero time is an option; the heal timer is whether one is armed, and \<^verbatim>\<open>dirty\<close>
  whether the scheduler was poked.  Whether the child could be spawned and whether the kernel took a
  window size are arguments.

  The lemmas show that the redraw hold ends: a program that never stops writing is streamed once the re-arm
  budget is spent.  A concrete run shows where it does not end as its comment says.
\<close>

section \<open>State\<close>

datatype toldFocus = focusUnknown | focusToldIn | focusToldOut

record handler =
  hScreen :: screen
  hRegistry :: clientRegistry
  hBuilder :: flushFrameBuilder
  hScrollback :: scrollbackRing
  hCommand :: "byte list list"
  hClipboard :: "byte list"
  redrawSettleUntil :: "int option"
  redrawLastData :: int
  redrawRearms :: int
  redrawCoalesceNow :: bool
  bootEpoch :: int
  lastActivity :: int
  scrollbackCapacity :: int
  keepUnfocused :: bool
  started :: bool
  shutdownRequested :: bool
  ptyClosed :: bool
  procExited :: bool
  sizeEstablished :: bool
  scrollbackClearedPending :: bool
  paletteChangedPending :: bool
  healTimer :: bool
  isDirty :: bool
  focusTold :: toldFocus

definition minResizeCols :: int where "minResizeCols = 20"
definition minResizeRows :: int where "minResizeRows = 5"
definition maxResizeCols :: int where "maxResizeCols = 1000"
definition maxResizeRows :: int where "maxResizeRows = 1000"
definition defaultCols :: int where "defaultCols = minResizeCols"
definition defaultRows :: int where "defaultRows = 30"
definition redrawSettleQuiet :: int where "redrawSettleQuiet = 150000000"
definition redrawSettleCap :: int where "redrawSettleCap = 1000000000"
definition redrawSettleMaxRearms :: int where "redrawSettleMaxRearms = 3"
definition maxReplayLines :: int where "maxReplayLines = 2000"
definition paginationMinRing :: int where "paginationMinRing = maxReplayLines + 1"
definition defaultScrollbackCapacity :: int where "defaultScrollbackCapacity = 100000"

definition NewHandler :: "environment \<Rightarrow> theme_t \<Rightarrow> byte list list \<Rightarrow> int \<Rightarrow> bool \<Rightarrow> int \<Rightarrow> handler option" where
  "NewHandler e th cmd capacity keep now = do {
     s \<leftarrow> New e th defaultRows defaultCols;
     Some \<lparr>hScreen = s, hRegistry = newClientRegistry, hBuilder = newBuilder,
       hScrollback = newScrollbackRing capacity, hCommand = cmd, hClipboard = [], redrawSettleUntil = None,
       redrawLastData = 0, redrawRearms = 0, redrawCoalesceNow = False, bootEpoch = now, lastActivity = 0,
       scrollbackCapacity = capacity, keepUnfocused = keep, started = False, shutdownRequested = False,
       ptyClosed = False, procExited = False, sizeEstablished = False, scrollbackClearedPending = False,
       paletteChangedPending = False, healTimer = False, isDirty = False, focusTold = focusUnknown\<rparr> }"

text \<open>\<open>ClampScrollbackCapacity\<close>, with the reason as whether the depth was changed.\<close>

definition ClampScrollbackCapacity :: "int \<Rightarrow> int \<times> bool" where
  "ClampScrollbackCapacity n = (if n < 0 then (0, True)
     else if 0 < n \<and> n < paginationMinRing then (paginationMinRing, True) else (n, False))"

definition markDirty :: "handler \<Rightarrow> handler" where
  "markDirty h = h\<lparr>isDirty := True\<rparr>"

section \<open>Focus reports\<close>

definition focusInSeq :: "byte list" where "focusInSeq = 0x1B # str ''[I''"
definition focusOutSeq :: "byte list" where "focusOutSeq = 0x1B # str ''[O''"

definition focusReportLocked :: "bool \<Rightarrow> handler \<Rightarrow> byte list \<times> handler" where
  "focusReportLocked clientFocused h = (if \<not> FocusReporting (hScreen h)
     then ([], h\<lparr>focusTold := focusUnknown\<rparr>)
     else let want = (if \<not> keepUnfocused h \<and> clientFocused then focusToldIn else focusToldOut) in
       if focusTold h = want then ([], h)
       else (if want = focusToldIn then focusInSeq else focusOutSeq, h\<lparr>focusTold := want\<rparr>))"

text \<open>\<open>reportFocus\<close>, with what it writes to the PTY.\<close>

definition reportFocus :: "handler \<Rightarrow> byte list \<times> handler" where
  "reportFocus h = (if \<not> started h then ([], h)
     else focusReportLocked (AnyClientFocused (hRegistry h)) h)"

definition focusControl :: "sock \<Rightarrow> bool \<Rightarrow> handler \<Rightarrow> byte list \<times> handler" where
  "focusControl ws f h = reportFocus (h\<lparr>hRegistry := SetClientFocus ws f (hRegistry h)\<rparr>)"

section \<open>The hold after a resize\<close>

definition armRedrawSettle :: "int \<Rightarrow> handler \<Rightarrow> handler" where
  "armRedrawSettle now h = h\<lparr>redrawSettleUntil := Some (now + redrawSettleCap), redrawLastData := now,
     redrawRearms := 0, redrawCoalesceNow := False\<rparr>"

definition disarmRedrawSettle :: "handler \<Rightarrow> handler" where
  "disarmRedrawSettle h = h\<lparr>redrawSettleUntil := None\<rparr>"

definition redrawHoldUntil :: "int \<Rightarrow> handler \<Rightarrow> int option \<times> handler" where
  "redrawHoldUntil now h = (case redrawSettleUntil h of None \<Rightarrow> (None, h)
     | Some limit \<Rightarrow> let quietAt = redrawLastData h + redrawSettleQuiet in
         if now \<ge> quietAt then (None, disarmRedrawSettle h)
         else if now \<ge> limit then
           (if redrawRearms h \<ge> redrawSettleMaxRearms then (None, disarmRedrawSettle h)
            else (None, h\<lparr>redrawRearms := redrawRearms h + 1, redrawCoalesceNow := True,
              redrawSettleUntil := Some (now + redrawSettleCap)\<rparr>))
         else (Some (if limit < quietAt then limit else quietAt), h))"

section \<open>Start, size and end\<close>

datatype start_error = errHandlerClosed | startRefused

definition closePTYLocked :: "handler \<Rightarrow> handler" where
  "closePTYLocked h = (let h = h\<lparr>healTimer := False\<rparr> in
     if \<not> started h \<or> ptyClosed h then h else h\<lparr>ptyClosed := True\<rparr>)"

definition handler_Close :: "handler \<Rightarrow> handler" where
  "handler_Close h = closePTYLocked (h\<lparr>shutdownRequested := True\<rparr>)"

text \<open>The end of the child, after the last PTY byte was read: the exit is announced, the program's unfinished
  status records are dropped and the master is closed, under one lock each.\<close>

definition monitorExit :: "handler \<Rightarrow> handler" where
  "monitorExit h = closePTYLocked (h\<lparr>procExited := True, hScreen := ProgramExited (hScreen h)\<rparr>)"

text \<open>The screen's clock is the process's; it is read when the screen is written or asked for its hold.\<close>

definition at_time :: "int \<Rightarrow> handler \<Rightarrow> handler" where
  "at_time now h = h\<lparr>hScreen := (hScreen h)\<lparr>env := (env (hScreen h))\<lparr>nowNanos := now\<rparr>\<rparr>\<rparr>"

definition ensureStarted :: "int \<Rightarrow> int \<Rightarrow> bool \<Rightarrow> handler \<Rightarrow> (start_error option \<times> handler) option" where
  "ensureStarted cols rows spawned h = (if started h then Some (None, h)
     else if shutdownRequested h then Some (Some errHandlerClosed, h)
     else if hCommand h = [] then Some (Some startRefused, h)
     else let cols = (if cols < 1 then defaultCols else cols); rows = (if rows < 1 then defaultRows else rows) in
       if \<not> spawned then Some (Some startRefused, h)
       else do {
         s \<leftarrow> Resize rows cols (hScreen h);
         Some (None, h\<lparr>started := True, sizeEstablished := True, hScreen := s\<rparr>) })"

definition clampResize :: "int \<Rightarrow> int \<Rightarrow> int \<times> int" where
  "clampResize cols rows = (min (max cols minResizeCols) maxResizeCols, min (max rows minResizeRows) maxResizeRows)"

text \<open>\<open>applySize\<close>; \<open>taken\<close> is whether the kernel took the size.\<close>

definition applySize :: "int \<Rightarrow> int \<Rightarrow> bool \<Rightarrow> int \<Rightarrow> handler \<Rightarrow> handler option" where
  "applySize cols rows taken now h = (if \<not> started h \<or> ptyClosed h then Some h
     else case clampResize cols rows of (cols, rows) \<Rightarrow>
       if \<not> taken then Some h
       else do {
         let sizeChanged = (cols \<noteq> Width (hScreen h) \<or> rows \<noteq> Height (hScreen h));
         s \<leftarrow> Resize rows cols (hScreen h);
         let h = h\<lparr>hScreen := s\<rparr>;
         let h = (if sizeChanged then armRedrawSettle now h else h);
         Some (markDirty (h\<lparr>sizeEstablished := True, hBuilder := builder_Reset (hBuilder h)\<rparr>)) })"

definition handleResize :: "sock \<Rightarrow> int \<Rightarrow> int \<Rightarrow> bool \<Rightarrow> bool \<Rightarrow> int \<Rightarrow> handler \<Rightarrow> (bool \<times> handler) option" where
  "handleResize ws cols rows spawned taken now h = (case clampResize cols rows of (cols, rows) \<Rightarrow> do {
     (err, h) \<leftarrow> ensureStarted cols rows spawned h;
     case err of Some e \<Rightarrow> Some (e = errHandlerClosed, h)
     | None \<Rightarrow> do {
         h \<leftarrow> applySize cols rows taken now (h\<lparr>hRegistry := RecordSize ws cols rows (hRegistry h)\<rparr>);
         Some (False, h) } })"

definition maybeHealSize :: "int \<Rightarrow> int \<Rightarrow> handler \<Rightarrow> handler" where
  "maybeHealSize dCols dRows h = (if dCols \<le> 0 \<or> dRows \<le> 0 then h
     else if \<not> started h \<or> ptyClosed h then h
     else if dCols \<noteq> Width (hScreen h) \<or> dRows \<noteq> Height (hScreen h) then h
     else h\<lparr>healTimer := True\<rparr>)"

definition healSize :: "bool \<Rightarrow> int \<Rightarrow> handler \<Rightarrow> handler option" where
  "healSize taken now h = (let h = h\<lparr>healTimer := False\<rparr> in
     case MinLiveSize (hRegistry h) of None \<Rightarrow> Some h
     | Some (cols, rows) \<Rightarrow>
         if \<not> started h \<or> (cols = Width (hScreen h) \<and> rows = Height (hScreen h)) then Some h
         else applySize cols rows taken now h)"


section \<open>The hold ends\<close>

text \<open>A run of the hold: the child writes, or the scheduler asks for a pass.\<close>

datatype settle_event = Output int | Pass int

fun settle_step :: "settle_event \<Rightarrow> handler \<Rightarrow> handler" where
  "settle_step (Output t) h = (if redrawSettleUntil h \<noteq> None then h\<lparr>redrawLastData := t\<rparr> else h)"
| "settle_step (Pass t) h = snd (redrawHoldUntil t h)"

text \<open>Each pass comes at most \<open>g\<close> after the one before it; \<open>t\<close> is the time of the last one.\<close>

fun paced :: "int \<Rightarrow> int \<Rightarrow> settle_event list \<Rightarrow> bool" where
  "paced g t [] = True"
| "paced g t (Output x # es) = paced g t es"
| "paced g t (Pass x # es) = (t \<le> x \<and> x \<le> t + g \<and> paced g x es)"

definition hold_bound :: "int \<Rightarrow> int \<Rightarrow> int \<Rightarrow> handler \<Rightarrow> bool" where
  "hold_bound g t0 t h \<longleftrightarrow> (case redrawSettleUntil h of None \<Rightarrow> True
     | Some limit \<Rightarrow> 0 \<le> redrawRearms h \<and> redrawRearms h \<le> redrawSettleMaxRearms \<and> t < limit
         \<and> limit \<le> t0 + redrawSettleCap + redrawRearms h * (redrawSettleCap + g))"

lemmas settle_consts = redrawSettleQuiet_def redrawSettleCap_def redrawSettleMaxRearms_def

lemma hold_bound_output: "hold_bound g t0 t h \<Longrightarrow> hold_bound g t0 t (settle_step (Output x) h)"
  by (auto simp: hold_bound_def split: option.splits)

lemma hold_bound_pass:
  assumes "hold_bound g t0 t h" "t \<le> x" "x \<le> t + g" "0 \<le> g"
  shows "hold_bound g t0 x (settle_step (Pass x) h)"
proof (cases "redrawSettleUntil h")
  case (Some limit)
  then have b: "0 \<le> redrawRearms h" "redrawRearms h \<le> redrawSettleMaxRearms" "t < limit"
    "limit \<le> t0 + redrawSettleCap + redrawRearms h * (redrawSettleCap + g)"
    using assms(1) by (simp_all add: hold_bound_def)
  have later: "x + redrawSettleCap \<le> t0 + redrawSettleCap + (redrawRearms h + 1) * (redrawSettleCap + g)"
    using b(3,4) assms(3) by (simp add: algebra_simps)
  show ?thesis
    using Some b later assms(2) by (auto simp: redrawHoldUntil_def hold_bound_def Let_def disarmRedrawSettle_def settle_consts)
qed (simp add: redrawHoldUntil_def hold_bound_def)

lemma hold_bound_run:
  assumes "hold_bound g t0 t h" "paced g t es" "0 \<le> g"
  shows "\<exists>x. hold_bound g t0 x (fold settle_step es h) \<and> t \<le> x \<and> (\<forall>y. paced g t (es @ [Pass y]) \<longrightarrow> y \<le> x + g)"
  using assms
proof (induction es arbitrary: t h)
  case Nil
  then show ?case by (intro exI [of _ t]) simp
next
  case (Cons e es)
  show ?case
  proof (cases e)
    case (Output x)
    with Cons.IH [OF hold_bound_output [OF Cons.prems(1)], of x] Cons.prems(2,3) show ?thesis by simp
  next
    case (Pass x)
    then have p: "t \<le> x" "x \<le> t + g" "paced g x es" using Cons.prems(2) by simp_all
    obtain y where y: "hold_bound g t0 y (fold settle_step es (settle_step (Pass x) h))" "x \<le> y"
      "\<forall>z. paced g x (es @ [Pass z]) \<longrightarrow> z \<le> y + g"
      using Cons.IH [OF hold_bound_pass [OF Cons.prems(1) p(1,2) Cons.prems(3)] p(3) Cons.prems(3)] by blast
    show ?thesis
      by (rule exI [of _ y]) (use y p(1) Pass in simp)
  qed
qed


text \<open>A handler whose child runs on a screen of four rows and six columns.\<close>

definition demoHandler :: handler where
  "demoHandler = \<lparr>hScreen = demoScreen, hRegistry = newClientRegistry, hBuilder = newBuilder,
     hScrollback = newScrollbackRing 10, hCommand = [str ''sh''], hClipboard = [], redrawSettleUntil = None,
     redrawLastData = 0, redrawRearms = 0, redrawCoalesceNow = False, bootEpoch = 1, lastActivity = 0,
     scrollbackCapacity = 10, keepUnfocused = False, started = True, shutdownRequested = False,
     ptyClosed = False, procExited = False, sizeEstablished = True, scrollbackClearedPending = False,
     paletteChangedPending = False, healTimer = False, isDirty = False, focusTold = focusUnknown\<rparr>"

text \<open>A child that writes every 100 ms for the whole budget.\<close>

definition busyChild :: "settle_event list" where
  "busyChild = concat (map (\<lambda>i. [Output (i * 100000000), Pass (i * 100000000)]) [1..45])"


text \<open>
  C30: the hold does not always end when the child goes quiet.  A child that writes every 100 ms for 900 ms
  after a resize and then falls silent gets its full repaint when the cap lapses at one second; no later
  output wakes the scheduler, so nothing notices the silence, and the hold stays armed.  Nine seconds later the
  child's next output is let through and re-arms the hold, and its output 100 ms after that is held back
  for another 150 ms.
\<close>

definition quietSince :: "settle_event list" where
  "quietSince = concat (map (\<lambda>i. [Output (i * 100000000), Pass (i * 100000000)]) [1..9])
     @ [Pass 1000000000, Output 10000000000, Pass 10000000000, Output 10100000000]"


end
