(* ===== verification/TextTail.thy ===== *)
theory TextTail
  imports Handler
begin

text \<open>
  A plain-text read of a session (\<open>src/terminal/text.go\<close>): the newest lines of the retained history, the lines
  not yet flushed and the main screen, with soft-wrapped rows joined.  The code walks the rows from the newest
  to the oldest and stops as soon as it has enough; a string is the list of its runes.

  The lemmas show that this walk returns what reading everything from the start would: the last lines of the
  whole transcript.
\<close>

section \<open>The walk\<close>

record textTail =
  tt_lines :: "rune list list"
  tt_parts :: "rune list list"
  tt_max :: int

definition tail_flush :: "textTail \<Rightarrow> textTail" where
  "tail_flush t = (if tt_parts t = [] then t
     else let line = trimRightSpaces (concat (rev (tt_parts t))); t = t\<lparr>tt_parts := []\<rparr> in
       if line = [] \<and> tt_lines t = [] then t else t\<lparr>tt_lines := tt_lines t @ [line]\<rparr>)"

definition tail_push :: "rune list \<Rightarrow> bool \<Rightarrow> textTail \<Rightarrow> bool \<times> textTail" where
  "tail_push row wraps t = (let t = t\<lparr>tt_parts := tt_parts t @ [row]\<rparr> in
     if wraps then (True, t)
     else let t = tail_flush t in (tt_max t \<le> 0 \<or> int (length (tt_lines t)) < tt_max t, t))"

text \<open>The text of a wire line without the marker of a wide cell's spacer.\<close>

definition plainRuns :: "wire_run list \<Rightarrow> rune list" where
  "plainRuns line = filter (\<lambda>ch. ch \<noteq> 0xFFFF) (runsText line)"

text \<open>A loop over rows, newest first, with its early return.\<close>

fun pushAll :: "(rune list \<times> bool) list \<Rightarrow> textTail \<Rightarrow> bool \<times> textTail" where
  "pushAll [] t = (True, t)"
| "pushAll ((row, w) # rows) t = (case tail_push row w t of (goes, t) \<Rightarrow> if goes then pushAll rows t else (False, t))"

fun pushRing :: "nat \<Rightarrow> scrollbackRing \<Rightarrow> textTail \<Rightarrow> (bool \<times> textTail) option" where
  "pushRing 0 r t = Some (True, t)"
| "pushRing (Suc i) r t = do {
     (line, w) \<leftarrow> ring_at (int i) r;
     let (goes, t) = tail_push (plainRuns line) w t;
     if goes then pushRing i r t else Some (False, t) }"

definition screenRows :: "handler \<Rightarrow> (rune list \<times> bool) list" where
  "screenRows h = (case MainScreenText (hScreen h) of (rows, wr) \<Rightarrow> zip rows wr)"

definition pendingRows :: "handler \<Rightarrow> (rune list \<times> bool) list" where
  "pendingRows h = (if \<not> InAltScreen (hScreen h) \<and> \<not> altTransitionPending (hScreen h) (hBuilder h)
     then zip (map plainRuns (Drained (hScreen h))) (DrainedWrapped (hScreen h)) else [])"

definition collectTextLocked :: "handler \<Rightarrow> textTail \<Rightarrow> textTail option" where
  "collectTextLocked h t = (case pushAll (rev (screenRows h)) t of (False, t) \<Rightarrow> Some t
     | (True, t) \<Rightarrow> (case pushAll (rev (pendingRows h)) t of (False, t) \<Rightarrow> Some t
         | (True, t) \<Rightarrow> do {
             (goes, t) \<leftarrow> pushRing (nat (ring_len (hScrollback h))) (hScrollback h) t;
             Some (if goes then tail_flush t else t) }))"

fun joinLines :: "rune list list \<Rightarrow> rune list" where
  "joinLines [] = []"
| "joinLines [l] = l"
| "joinLines (l # ls) = l @ 10 # joinLines ls"

text \<open>\<open>Text\<close>: the text and whether a full-screen program holds the screen, or nothing before the start.\<close>

definition handler_Text :: "int \<Rightarrow> handler \<Rightarrow> (rune list \<times> bool) option option" where
  "handler_Text maxLines h = (if \<not> started h then Some None
     else do {
       t \<leftarrow> collectTextLocked h \<lparr>tt_lines = [], tt_parts = [], tt_max = maxLines\<rparr>;
       Some (Some (joinLines (rev (tt_lines t)), InAltScreen (hScreen h))) })"

section \<open>The transcript\<close>

text \<open>Reading from the start: a row that wraps from the row above it continues that row's line.\<close>

fun logicalLines :: "(rune list \<times> bool) list \<Rightarrow> rune list list" where
  "logicalLines [] = []"
| "logicalLines [(row, w)] = [row]"
| "logicalLines ((row, w) # (row', w') # rows) = (case logicalLines ((row', w') # rows) of
     [] \<Rightarrow> [row] | l # ls \<Rightarrow> if w' then (row @ l) # ls else row # l # ls)"

definition transcript :: "(rune list \<times> bool) list \<Rightarrow> rune list list" where
  "transcript rows = rev (dropWhile (\<lambda>l. l = []) (rev (map trimRightSpaces (logicalLines rows))))"

definition lastLines :: "int \<Rightarrow> 'a list \<Rightarrow> 'a list" where
  "lastLines n ls = (if n \<le> 0 then ls else drop (length ls - nat n) ls)"

definition textRows :: "handler \<Rightarrow> (rune list \<times> bool) list" where
  "textRows h = map (\<lambda>(l, w). (plainRuns l, w)) (retained (hScrollback h)) @ pendingRows h @ screenRows h"

section \<open>The walk returns the end of the transcript\<close>

text \<open>The lines of rows given newest first, with the rows of the line still open in front.\<close>

fun grouped :: "rune list \<Rightarrow> bool \<Rightarrow> (rune list \<times> bool) list \<Rightarrow> rune list list" where
  "grouped acc pending [] = (if pending then [acc] else [])"
| "grouped acc pending ((row, w) # rows) = (if w then grouped (row @ acc) True rows else (row @ acc) # grouped [] False rows)"

fun open_row :: "bool \<Rightarrow> (rune list \<times> bool) list \<Rightarrow> bool" where
  "open_row b [] = b"
| "open_row b ((row, w) # rows) = open_row w rows"

lemma group_snoc: "grouped acc p (rows @ [(row, w)]) = (if open_row p rows
     then butlast (grouped acc p rows) @ [row @ last (grouped acc p rows)]
     else if \<not> p \<and> rows = [] then [row @ acc] else grouped acc p rows @ [row])"
proof (induction acc p rows rule: grouped.induct)
  case (2 acc p row' w' rows)
  have ne: "grouped acc' True rows \<noteq> []" for acc' by (induction rows arbitrary: acc') (auto split: if_splits)
  have ne': "open_row False rows \<Longrightarrow> grouped [] False rows \<noteq> []"
    using ne by (cases rows) (auto split: if_splits)
  show ?case
    using 2 ne ne' by (cases rows) (auto simp: butlast_append last_append)
qed simp

lemma open_snoc: "open_row b (rows @ [(row, w)]) = w"
  by (induction b rows rule: open_row.induct) simp_all

lemma logical_group: "logicalLines rows = rev (grouped [] False (rev rows))"
proof (induction rows rule: logicalLines.induct)
  case (3 row w row' w' rows)
  let ?g = "grouped [] False (rev rows @ [(row', w')])"
  have ne: "?g \<noteq> []" by (simp add: group_snoc)
  then obtain gs g where g: "?g = gs @ [g]" by (cases ?g rule: rev_cases) simp_all
  then have "logicalLines ((row', w') # rows) = g # rev gs" using 3 by simp
  moreover have "grouped [] False (rev ((row, w) # (row', w') # rows)) = (if w' then gs @ [row @ g] else gs @ [g, row])"
    by (simp only: rev.simps group_snoc [of "[]" False "rev rows @ [(row', w')]" row w] open_snoc g) simp
  ultimately show ?case by simp
qed simp_all

text \<open>Completed lines, newest first, appended the way \<open>tail_flush\<close> does.\<close>

definition addLines :: "rune list list \<Rightarrow> rune list list \<Rightarrow> rune list list" where
  "addLines ls gs = (if ls = [] then dropWhile (\<lambda>l. l = []) gs else ls @ gs)"

definition limited :: "int \<Rightarrow> 'a list \<Rightarrow> 'a list" where
  "limited n ls = (if n \<le> 0 then ls else take (nat n) ls)"

lemma addLines_Cons: "addLines ls (g # gs) = addLines (if g = [] \<and> ls = [] then ls else ls @ [g]) gs"
  by (simp add: addLines_def)

lemma addLines_more: "\<exists>rest. addLines ls gs = ls @ rest"
  by (cases "ls = []") (auto simp: addLines_def)

definition tail_full :: "textTail \<Rightarrow> bool" where
  "tail_full t \<longleftrightarrow> 0 < tt_max t \<and> tt_max t \<le> int (length (tt_lines t))"

lemma pushAll_spec:
  assumes "pushAll rows t = (goes, t')" "\<not> tail_full t"
  shows "tt_max t' = tt_max t \<and>
    (if goes then \<not> tail_full t' \<and> addLines (tt_lines t') (map trimRightSpaces (grouped (concat (rev (tt_parts t'))) (tt_parts t' \<noteq> []) more_rows))
        = addLines (tt_lines t) (map trimRightSpaces (grouped (concat (rev (tt_parts t))) (tt_parts t \<noteq> []) (rows @ more_rows)))
     else tt_lines t' = limited (tt_max t) (addLines (tt_lines t)
        (map trimRightSpaces (grouped (concat (rev (tt_parts t))) (tt_parts t \<noteq> []) (rows @ more_rows)))))"
  using assms
proof (induction rows t rule: pushAll.induct)
  case (2 row w rows t)
  obtain m1 t1 where p: "tail_push row w t = (m1, t1)" by (cases "tail_push row w t")
  show ?case
  proof (cases w)
    case True
    then have t1: "m1" "t1 = t\<lparr>tt_parts := tt_parts t @ [row]\<rparr>"
      using p by (simp_all add: tail_push_def)
    have "\<not> tail_full t1" using 2(3) by (simp add: t1(2) tail_full_def)
    moreover have "pushAll rows t1 = (goes, t')" using 2(2) p t1(1) by simp
    ultimately show ?thesis
      using 2(1) [OF p [symmetric] t1(1)] True by (simp add: t1(2))
  next
    case False
    let ?line = "trimRightSpaces (row @ concat (rev (tt_parts t)))"
    have t1: "tt_parts t1 = []" "tt_max t1 = tt_max t"
        "tt_lines t1 = (if ?line = [] \<and> tt_lines t = [] then tt_lines t else tt_lines t @ [?line])"
        "m1 \<longleftrightarrow> \<not> tail_full t1"
      using p False by (auto simp: tail_push_def tail_flush_def tail_full_def Let_def split: if_splits)
    have all: "addLines (tt_lines t) (map trimRightSpaces (grouped (concat (rev (tt_parts t))) (tt_parts t \<noteq> []) (((row, w) # rows) @ ys)))
        = addLines (tt_lines t1) (map trimRightSpaces (grouped [] False (rows @ ys)))" for ys
      using False by (simp add: addLines_Cons t1(3))
    show ?thesis
    proof (cases m1)
      case True
      then have "pushAll rows t1 = (goes, t')" "\<not> tail_full t1" using 2(2) p t1(4) by simp_all
      with 2(1) [OF p [symmetric] True] show ?thesis
        unfolding all by (simp add: t1(1,2))
    next
      case full: False
      then have r: "goes = False" "t' = t1" using 2(2) p by simp_all
      have "tt_lines t1 = limited (tt_max t) (addLines (tt_lines t1) gs)" for gs
      proof -
        have "0 < tt_max t" "tt_max t \<le> int (length (tt_lines t1))" "length (tt_lines t1) \<le> Suc (length (tt_lines t))"
          "int (length (tt_lines t)) < tt_max t"
          using full t1 2(3) by (auto simp: tail_full_def)
        moreover obtain rest where "addLines (tt_lines t1) gs = tt_lines t1 @ rest" using addLines_more by blast
        ultimately show ?thesis by (simp add: limited_def)
      qed
      then show ?thesis unfolding all r by (simp add: t1(2))
    qed
  qed
qed simp


lemma pushRing_eq:
  assumes "ring_ok r" "i \<le> length (retained r)"
  shows "pushRing i r t = Some (pushAll (rev (map (\<lambda>(l, w). (plainRuns l, w)) (take i (retained r)))) t)"
  using assms(2)
proof (induction i arbitrary: t)
  case (Suc i)
  obtain l w where lw: "retained r ! i = (l, w)" by (cases "retained r ! i")
  have at: "ring_at (int i) r = Some (l, w)"
    using ring_at_eq [OF assms(1), of "int i"] Suc.prems lw length_retained [OF assms(1)] assms(1)
    by (simp add: ring_ok_def)
  have "take (Suc i) (retained r) = take i (retained r) @ [(l, w)]"
    using Suc.prems lw by (simp add: take_Suc_conv_app_nth)
  then show ?case
    using Suc.IH Suc.prems at by (simp split: prod.split)
qed simp

lemma pushAll_append: "pushAll (xs @ ys) t = (case pushAll xs t of (goes, t) \<Rightarrow> if goes then pushAll ys t else (False, t))"
  by (induction xs t rule: pushAll.induct) (auto split: prod.splits)

lemma collect_eq:
  assumes "ring_ok (hScrollback h)"
  shows "collectTextLocked h t = Some (case pushAll (rev (textRows h)) t of (goes, t) \<Rightarrow> if goes then tail_flush t else t)"
proof -
  have n: "nat (ring_len (hScrollback h)) = length (retained (hScrollback h))"
    using assms length_retained [OF assms] by (simp add: ring_len_def ring_ok_def)
  show ?thesis
    unfolding collectTextLocked_def textRows_def n pushRing_eq [OF assms order_refl]
    by (auto simp: pushAll_append split: prod.splits bool.splits)
qed

lemma limited_rev: "rev (limited n xs) = lastLines n (rev xs)"
  by (simp add: limited_def lastLines_def rev_take)

lemma flush_lines: "tt_lines (tail_flush t) = addLines (tt_lines t) (map trimRightSpaces
    (grouped (concat (rev (tt_parts t))) (tt_parts t \<noteq> []) []))"
  by (simp add: tail_flush_def Let_def addLines_def)

text \<open>
  C32: the plain text of a session is the end of its transcript.  Reading everything from the oldest retained
  line to the bottom of the main screen, joining every row that wraps from the row above it, trimming
  trailing blanks and dropping the empty lines at the end, the last lines of the result, as many as asked
  for, are what the backwards walk returns, though it stops as soon as it has them; and no ring access
  panics.
\<close>

theorem text_is_transcript_tail:
  assumes "ring_ok (hScrollback h)" and "started h"
  shows "handler_Text n h = Some (Some (joinLines (lastLines n (transcript (textRows h))), InAltScreen (hScreen h)))"
proof -
  let ?t = "\<lparr>tt_lines = [], tt_parts = [], tt_max = n\<rparr> :: textTail"
  let ?all = "addLines [] (map trimRightSpaces (grouped [] False (rev (textRows h))))"
  obtain goes t where p: "pushAll (rev (textRows h)) ?t = (goes, t)" by (cases "pushAll (rev (textRows h)) ?t")
  have start: "\<not> tail_full ?t" by (simp add: tail_full_def)
  have "tt_lines (if goes then tail_flush t else t) = limited n ?all"
  proof (cases goes)
    case True
    then have t: "\<not> tail_full t" "tt_max t = n" "tt_lines (tail_flush t) = ?all"
      using pushAll_spec [OF p start, of "[]"] flush_lines [of t] by simp_all
    have "length (tt_lines (tail_flush t)) \<le> Suc (length (tt_lines t))"
      by (simp add: tail_flush_def Let_def)
    then have "n \<le> 0 \<or> length ?all \<le> nat n"
      using t by (auto simp: tail_full_def)
    with t(3) True show ?thesis by (auto simp: limited_def)
  next
    case False
    with pushAll_spec [OF p start, of "[]"] show ?thesis by simp
  qed
  then have "collectTextLocked h ?t = Some (if goes then tail_flush t else t)
      \<and> rev (tt_lines (if goes then tail_flush t else t)) = lastLines n (rev ?all)"
    using collect_eq [OF assms(1), of ?t] p by (simp add: limited_rev)
  moreover have "rev ?all = transcript (textRows h)"
    by (simp add: addLines_def transcript_def logical_group rev_map)
  ultimately show ?thesis
    using assms(2) by (simp add: handler_Text_def)
qed

lemma text_is_transcript_tail_witness:
  "handler_Text 2 (demoHandler\<lparr>hScrollback := demoRing\<rparr>)
   = Some (Some (joinLines (lastLines 2 (transcript (textRows (demoHandler\<lparr>hScrollback := demoRing\<rparr>)))), False))"
proof -
  have "InAltScreen (hScreen demoHandler) = False" by code_simp
  then show ?thesis
    using text_is_transcript_tail [of "demoHandler\<lparr>hScrollback := demoRing\<rparr>" 2] demoRing_holds
    by (simp add: ring_holds_def) (simp add: demoHandler_def)
qed

end
