(* ===== verification/Passes.thy ===== *)
theory Passes
  imports Handler
begin

text \<open>
  From the PTY to the sockets (\<open>src/terminal/terminal.go\<close>): what a read of the PTY does to a session, how one
  pass of the flush scheduler builds a frame under the lock, and how the frame's payloads are written to
  each client afterwards, gated by the generation of the client's last resume.  What a step writes to the
  PTY or to a socket is a list of byte strings in its result.  The goroutine of each client writes under the
  client's own lock, so a dispatch is one step per client.

  The theory holds the definitions; \<open>Attached\<close> shows that a pass commits to history exactly the lines its frame
  carries, that a held pass carries none, and that every client the frame was built for is sent them, also when
  the frame is older than its last resume.
\<close>

section \<open>Output of the child\<close>

definition later :: "int option \<Rightarrow> int option \<Rightarrow> int option" where
  "later a b = (case (a, b) of (Some x, Some y) \<Rightarrow> if x > y then a else b | (None, _) \<Rightarrow> b | (_, None) \<Rightarrow> a)"

text \<open>\<open>handlePTYData\<close>, with what it writes back to the PTY.\<close>

definition handlePTYData :: "int \<Rightarrow> byte list \<Rightarrow> handler \<Rightarrow> (byte list \<times> handler) option" where
  "handlePTYData now dat h = do {
     let h = at_time now (h\<lparr>lastActivity := now\<rparr>);
     let h = (if redrawSettleUntil h \<noteq> None then h\<lparr>redrawLastData := now\<rparr> else h);
     s \<leftarrow> Write dat (hScreen h);
     let (cleared, s) = TakeScrollbackCleared s;
     let h = (if cleared then h\<lparr>hScrollback := ring_clear (hScrollback h), scrollbackClearedPending := True\<rparr> else h);
     let (recolored, s) = TakePaletteChanged s;
     let h = (if recolored then h\<lparr>paletteChangedPending := True\<rparr> else h);
     let (clip, s) = TakeClipboard s;
     let h = (if clip \<noteq> [] then h\<lparr>hClipboard := clip\<rparr> else h);
     let (resp, s) = TakeResponse s;
     let (seq, h) = focusReportLocked (AnyClientFocused (hRegistry h)) (h\<lparr>hScreen := s\<rparr>);
     Some (resp @ seq, markDirty h) }"

section \<open>Building a frame\<close>

definition retainSuspendedScrollback :: "handler \<Rightarrow> handler option" where
  "retainSuspendedScrollback h = (if \<not> sizeEstablished h then Some h
     else case drainScrollback (hScreen h) of ((drained, wraps), s) \<Rightarrow>
       let h = h\<lparr>hScreen := s\<rparr> in
       if InAltScreen s \<or> altTransitionPending s (hBuilder h) \<or> drained = [] then Some h
       else do { r \<leftarrow> Append drained wraps (hScrollback h); Some (h\<lparr>hScrollback := r\<rparr>) })"

text \<open>The part of \<open>buildFrame\<close> below the holds, when neither is in force.\<close>

definition buildNow :: "(sock \<Rightarrow> u64 option) \<Rightarrow> handler \<Rightarrow> (flushFrame option \<times> handler) option" where
  "buildNow cl h = do {
     let h = (if redrawCoalesceNow h then h\<lparr>hBuilder := builder_Reset (hBuilder h), redrawCoalesceNow := False\<rparr> else h);
     (f, s, b) \<leftarrow> Build (hScreen h) (sizeEstablished h) cl (Committed (hScrollback h)) (hBuilder h);
     let h = h\<lparr>hScreen := s, hBuilder := b\<rparr>;
     (case f of None \<Rightarrow> Some (None, h)
      | Some fr \<Rightarrow> if scrollLines fr = [] then Some (f, h)
          else do { r \<leftarrow> Append (scrollLines fr) (scrollWrapped fr) (hScrollback h); Some (f, h\<lparr>hScrollback := r\<rparr>) }) }"

definition addCleared :: "flushFrame option \<times> handler \<Rightarrow> flushFrame option \<times> handler" where
  "addCleared fh = (case fh of (Some fr, h) \<Rightarrow> if scrollbackClearedPending h
       then (Some (fr\<lparr>ffScrollbackCleared := True,
           changedRows := appendRowIfMissing (changedRows fr) (ffCurRow fr) (int (length (ffRows fr)))\<rparr>),
         h\<lparr>scrollbackClearedPending := False\<rparr>) else fh
     | _ \<Rightarrow> fh)"

definition addClipboard :: "(sock \<Rightarrow> u64 option) \<Rightarrow> flushFrame option \<times> handler \<Rightarrow> flushFrame option \<times> handler" where
  "addClipboard cl fh = (case fh of (f, h) \<Rightarrow> if hClipboard h = [] then fh
     else (Some ((case f of None \<Rightarrow> emptyFrame\<lparr>ffClients := cl\<rparr> | Some fr \<Rightarrow> fr)
         \<lparr>clipboardPayload := Some (encodeClipboardMsg (hClipboard h))\<rparr>), h\<lparr>hClipboard := []\<rparr>))"

text \<open>\<open>buildFrame\<close>: the frame if there is one, and when a hold that suppressed it ends.\<close>

definition buildFrame :: "int \<Rightarrow> handler \<Rightarrow> (flushFrame option \<times> int option \<times> handler) option" where
  "buildFrame now h0 = (let h = at_time now h0; (cl, gens) = registry_Snapshot (hRegistry h) in
     if clients (hRegistry h) = [] then do { h \<leftarrow> retainSuspendedScrollback h; Some (None, None, h) }
     else do {
       let h = (if paletteChangedPending h
         then h\<lparr>hBuilder := builder_Reset (hBuilder h), paletteChangedPending := False\<rparr> else h);
       let held = (if IsFlushHeld (hScreen h) then Some (FlushHoldUntil (hScreen h)) else None);
       let (settle, h) = redrawHoldUntil now h;
       let held = later settle held;
       fh \<leftarrow> (if held = None then buildNow cl h else Some (None, h));
       let (f, h) = addClipboard cl (addCleared fh);
       Some (map_option (\<lambda>fr. fr\<lparr>ffGens := gens\<rparr>) f, held, h) })"

section \<open>Writing a frame\<close>

definition maxScrollLinesPerFrame :: nat where "maxScrollLinesPerFrame = 1000"

text \<open>The loop that splits lines into chunks of \<open>n\<close>, each with its offset.\<close>

function chunksFrom :: "nat \<Rightarrow> nat \<Rightarrow> 'a list \<Rightarrow> (nat \<times> 'a list) list" where
  "chunksFrom n i xs = (if xs = [] \<or> n = 0 then [] else (i, take n xs) # chunksFrom n (i + n) (drop n xs))"
  by pat_completeness auto
termination
  by (relation "measure (\<lambda>(n, i, xs). length xs)") auto

declare chunksFrom.simps [simp del]

definition scrollPayloads :: "nat \<Rightarrow> u64 \<Rightarrow> u64 \<Rightarrow> wire_run list list \<Rightarrow> byte list list" where
  "scrollPayloads n ack first ls = map (\<lambda>(i, chunk). encodeScrollMsg ack (first + of_nat i) chunk) (chunksFrom n 0 ls)"

definition screenPayload :: "flushFrame \<Rightarrow> byte list option" where
  "screenPayload f = (if changedRows f = [] then None
     else Some (encodeScreenMsg (frameBase f) (ffScreenHeight f) (ffCurRow f) (ffCurCol f) 0 (changedRows f) (ffRows f)
       (word_of_int (ffCursorStyle f)) (ffCursorHidden f) (ffCursorBlink f) (ffBell f) (altActive f)
       (ffScrollbackCleared f)))"

definition present :: "'a option list \<Rightarrow> 'a list" where
  "present xs = concat (map (\<lambda>x. case x of None \<Rightarrow> [] | Some a \<Rightarrow> [a]) xs)"

definition durableSubset :: "byte list option \<Rightarrow> byte list list \<Rightarrow> byte list list" where
  "durableSubset clip scroll = (case clip of None \<Rightarrow> scroll | Some c \<Rightarrow> c # scroll)"

definition framePayloads :: "flushFrame \<Rightarrow> byte list list \<times> byte list list" where
  "framePayloads f = (let scroll = scrollPayloads maxScrollLinesPerFrame 0 (scrollFirstIdx f) (scrollLines f)
     in (present [modesPayload f, titlePayload f, clipboardPayload f, screenPayload f] @ scroll,
       durableSubset (clipboardPayload f) scroll))"

text \<open>What one client is sent: the ack stamped, and the messages; nothing when there is nothing to write.\<close>

definition writeClientPayloads :: "u64 \<Rightarrow> u64 \<Rightarrow> clientState \<Rightarrow> byte list list \<Rightarrow> byte list list
    \<Rightarrow> (u64 \<times> byte list list) option" where
  "writeClientPayloads ack gen st payloads durable = (let
     stripped = (resumeGen st \<noteq> gen);
     payloads = (if stripped then durable else payloads)
   in if payloads = [] then None
      else let ack = (if stripped then lastAckSent st else ack) in
        Some (ack, map (\<lambda>p. withClientAck p ack) payloads))"

text \<open>\<open>dispatchFrame\<close>; \<open>order\<close> is the order in which the clients of the frame are served.\<close>

definition dispatchFrame :: "flushFrame \<Rightarrow> sock list \<Rightarrow> clientRegistry \<Rightarrow> (sock \<times> byte list list) list \<times> clientRegistry" where
  "dispatchFrame f order r = (case framePayloads f of (payloads, durable) \<Rightarrow>
     if payloads = [] then ([], r)
     else let sent = present (map (\<lambda>ws. case (ffClients f ws, ffGens f ws) of
         (Some ack, Some gen) \<Rightarrow> map_option (Pair ws) (writeClientPayloads ack gen (states r ws) payloads durable)
       | _ \<Rightarrow> None) order)
     in (map (\<lambda>(ws, _, ps). (ws, ps)) sent, NoteAcksSent (map (\<lambda>(ws, ack, _). (ws, ack)) sent) r))"

definition sweepAcks :: "sock list \<Rightarrow> handler \<Rightarrow> (sock \<times> byte list list) list \<times> handler" where
  "sweepAcks order h = (case AckSweepTargets (hRegistry h) of (targets, r) \<Rightarrow>
     (present (map (\<lambda>ws. map_option (\<lambda>ack. (ws, [encodeAckOnly ack])) (targets ws)) order), h\<lparr>hRegistry := r\<rparr>))"

text \<open>\<open>flushPass\<close> when nothing happens between its two halves.\<close>

definition flushPass :: "int \<Rightarrow> sock list \<Rightarrow> handler \<Rightarrow> ((sock \<times> byte list list) list \<times> int option \<times> handler) option" where
  "flushPass now order h = do {
     (f, held, h) \<leftarrow> buildFrame now h;
     Some (case f of None \<Rightarrow> (case sweepAcks order h of (sent, h) \<Rightarrow> (sent, held, h))
       | Some fr \<Rightarrow> (case dispatchFrame fr order (hRegistry h) of (sent, r) \<Rightarrow> (sent, held, h\<lparr>hRegistry := r\<rparr>))) }"

end
