(* ===== verification/Resume.thy ===== *)
theory Resume
  imports Passes
begin

text \<open>
  Catching a client up (\<open>src/terminal/terminal.go\<close>): the resume exchange, which attaches a socket to its input
  ledger, commits the pending lines and replays what the client misses around a full repaint of the window, and
  the history control, which serves one page of retained lines.  Both hold the socket's write lock, so each is one
  step between the writes of any other frame to that socket.

  The lemmas show that a resume's batch is a complete and bounded catch-up, and that a page is the exact
  intersection of what was asked and what is retained, within the byte budget.
\<close>

section \<open>Replay bounds\<close>

text \<open>\<open>parseReplayMax\<close> on the integer the JSON value holds, if it holds one that fits.\<close>

definition parseReplayMax :: "int option \<Rightarrow> int option" where
  "parseReplayMax raw = (case raw of None \<Rightarrow> None | Some n \<Rightarrow> if n < 1 then None else Some (min n maxReplayLines))"

definition replayStart :: "u64 \<Rightarrow> int \<Rightarrow> int option \<Rightarrow> u64" where
  "replayStart committed haveThrough replayMax = (let
     first = (if haveThrough \<ge> 0 then word_of_int haveThrough + 1 else 0);
     bound = (case replayMax of None \<Rightarrow> word_of_int maxReplayLines
       | Some n \<Rightarrow> min (word_of_int maxReplayLines) (word_of_int n))
   in if committed > bound then max first (committed - bound) else first)"

definition historyPagingDeclared :: "handler \<Rightarrow> bool" where
  "historyPagingDeclared h \<longleftrightarrow> scrollbackCapacity h \<ge> paginationMinRing"

section \<open>Resume\<close>

text \<open>What the snapshot of a resume takes under the session lock.\<close>

record resumeBatch =
  rb_committed :: u64
  rb_oldest :: u64
  rb_first :: u64
  rb_replay :: "wire_run list list"
  rb_rows :: "wire_run list list"
  rb_curRow :: int
  rb_curCol :: int
  rb_height :: int
  rb_style :: int
  rb_hidden :: bool
  rb_blink :: bool
  rb_alt :: bool
  rb_modes :: "byte list"
  rb_title :: "byte list"

definition resumeSnapshot :: "int \<Rightarrow> int option \<Rightarrow> handler \<Rightarrow> (resumeBatch \<times> handler) option" where
  "resumeSnapshot haveThrough replayMax h = (case drainScrollback (hScreen h) of ((drained, wraps), s) \<Rightarrow> do {
     let b = builder_Reset (hBuilder h);
     r \<leftarrow> (if \<not> InAltScreen s \<and> \<not> altTransitionPending s b \<and> drained \<noteq> []
       then Append drained wraps (hScrollback h) else Some (hScrollback h));
     let committed = Committed r;
     (first, replay) \<leftarrow> LinesFrom (replayStart committed haveThrough replayMax) r;
     rows \<leftarrow> renderWindow s;
     Some (\<lparr>rb_committed = committed, rb_oldest = OldestIndex r, rb_first = first, rb_replay = replay, rb_rows = rows,
         rb_curRow = fst (CursorPos s), rb_curCol = snd (CursorPos s), rb_height = Height s, rb_style = CursorStyle s,
         rb_hidden = CursorHidden s, rb_blink = CursorBlink s, rb_alt = InAltScreen s, rb_modes = screenModes s,
         rb_title = encodeTitleMsg (Title s)\<rparr>,
       h\<lparr>hScreen := s, hBuilder := b, hScrollback := r\<rparr>) })"

definition replayChunk :: nat where "replayChunk = 50"

definition windowPayload :: "u64 \<Rightarrow> resumeBatch \<Rightarrow> byte list" where
  "windowPayload ack b = encodeScreenMsg (rb_committed b) (rb_height b) (rb_curRow b) (rb_curCol b) ack
     [0..rb_height b - 1] (rb_rows b) (word_of_int (rb_style b)) (rb_hidden b) (rb_blink b) False (rb_alt b) False"

definition batchFrames :: "u64 \<Rightarrow> int \<Rightarrow> resumeAckFlags \<Rightarrow> resumeBatch \<Rightarrow> byte list list" where
  "batchFrames ack epoch flags b = (let
     replay = scrollPayloads replayChunk ack (rb_first b) (rb_replay b);
     window = windowPayload ack b
   in [encodeResumeAck ack epoch (rb_committed b) (rb_oldest b) flags, withClientAck (rb_modes b) ack,
       withClientAck (rb_title b) ack]
     @ (if rb_alt b then replay @ [window] else window # replay))"

text \<open>\<open>handleResume\<close>: whether another socket already took the ledger, the socket it displaced, and what it sends.\<close>

definition handleResume :: "sock \<Rightarrow> sessionID \<Rightarrow> int \<Rightarrow> u64 \<Rightarrow> int option \<Rightarrow> int \<Rightarrow> sessionID list \<Rightarrow> handler
    \<Rightarrow> ((bool \<times> sock option \<times> byte list list) \<times> handler) option" where
  "handleResume ws sid haveThrough sentBytes replayMax now ids h0 =
     (case ResolveSession ws sid now ids (hRegistry h0) of ((ack, created, displaced), r) \<Rightarrow>
       let h = h0\<lparr>hRegistry := r\<rparr> in
       if fenced (states r ws) then Some ((True, displaced, []), h)
       else do {
         let flags = \<lparr>LedgerLost = (created \<and> sentBytes > 0), HistoryPaging = historyPagingDeclared h,
           ServerFocus = True, EphemeralInput = True\<rparr>;
         let h = h\<lparr>hRegistry := set_state ws (\<lambda>c. c\<lparr>resumeGen := resumeGen c + 1\<rparr>) r\<rparr>;
         (b, h) \<leftarrow> resumeSnapshot haveThrough replayMax h;
         let h = h\<lparr>hRegistry := set_state ws (lastAckSent_update (\<lambda>_. ack)) (hRegistry h)\<rparr>;
         Some ((False, displaced, batchFrames ack (bootEpoch h) flags b), markDirty h) })"

section \<open>History pages\<close>

fun shrinkLoop :: "nat \<Rightarrow> nat \<Rightarrow> wire_run list list \<Rightarrow> nat" where
  "shrinkLoop sz i [] = i"
| "shrinkLoop sz i (l # ls) = (let sz = sz + encodedRowSize (capRowRuns l) in
     if sz > pageByteBudget then max i 1 else shrinkLoop sz (i + 1) ls)"

definition shrinkToBudget :: "wire_run list list \<Rightarrow> nat" where
  "shrinkToBudget ls = shrinkLoop encodedScrollHeaderSize 0 ls"

definition historyPageSize :: int where "historyPageSize = int maxScrollLinesPerFrame"
definition maxSafeInteger :: int where "maxSafeInteger = 2 ^ 53 - 1"

text \<open>\<open>historyControl\<close>: the reply, if the request is answered at all; \<open>granted\<close> is whether the socket's bucket
  held a token.\<close>

definition historyControl :: "sock \<Rightarrow> int \<Rightarrow> int \<Rightarrow> bool \<Rightarrow> handler \<Rightarrow> byte list option option" where
  "historyControl ws fromAbs maxLines granted h =
     (if session (states (hRegistry h) ws) = None \<or> \<not> historyPagingDeclared h then Some None
      else if maxLines < 1 \<or> maxLines > historyPageSize then Some None
      else if fromAbs < 0 \<or> fromAbs > maxSafeInteger - maxLines then Some None
      else if \<not> granted then Some None
      else do {
        let first = word_of_int fromAbs;
        let limit = first + word_of_int maxLines;
        let start = max first (OldestIndex (hScrollback h));
        let lim = min limit (Committed (hScrollback h));
        ls \<leftarrow> (if start < lim then map_option snd (LinesRange start (uint (lim - start)) (hScrollback h)) else Some []);
        let (first, ls) = (if ls \<noteq> [] then (start, take (shrinkToBudget ls) ls) else (first, ls));
        Some (Some (encodeScrollMsg (lastAckSent (states (hRegistry h) ws)) first ls)) })"


section \<open>Chunks\<close>

lemma deliver_append: "deliver (a + length xs, ys) (deliver (a, xs) m) = deliver (a, xs @ ys) m"
  by (rule ext) (auto simp: deliver_def nth_append)

lemma deliver_nil [simp]: "deliver (a, []) m = m"
  by (rule ext) (auto simp: deliver_def)

lemma deliver_suffix: "a \<le> length xs \<Longrightarrow> deliver (a, drop a xs) m = (\<lambda>i. if a \<le> i \<and> i < length xs then Some (xs ! i) else m i)"
  by (rule ext) (auto simp: deliver_def)

text \<open>What a client does with a sequence of chunks.\<close>

definition deliver_chunks :: "nat \<Rightarrow> nat \<Rightarrow> 'a list \<Rightarrow> (nat \<Rightarrow> 'a option) \<Rightarrow> nat \<Rightarrow> 'a option" where
  "deliver_chunks n first xs m = fold (\<lambda>(i, chunk). deliver (first + i, chunk)) (chunksFrom n 0 xs) m"

lemma deliver_chunksFrom: "0 < n \<Longrightarrow> fold (\<lambda>(i, chunk). deliver (first + i, chunk)) (chunksFrom n k xs) m = deliver (first + k, xs) m"
proof (induction n k xs arbitrary: m rule: chunksFrom.induct)
  case (1 n k xs)
  show ?case
  proof (cases "xs = []")
    case False
    have "deliver (first + (k + n), drop n xs) (deliver (first + k, take n xs) m) = deliver (first + k, xs) m"
    proof (cases "n \<le> length xs")
      case True
      then show ?thesis
        using deliver_append [of "first + k" "take n xs" "drop n xs" m] by (simp add: add.assoc)
    qed simp
    with 1 False show ?thesis by (subst chunksFrom.simps) simp
  qed (simp add: chunksFrom.simps)
qed

lemma deliver_chunks_eq: "0 < n \<Longrightarrow> deliver_chunks n first xs m = deliver (first, xs) m"
  by (simp add: deliver_chunks_def deliver_chunksFrom)

lemma chunks_bounds: "0 < n \<Longrightarrow> (i, chunk) \<in> set (chunksFrom n k xs) \<Longrightarrow>
    k \<le> i \<and> chunk \<noteq> [] \<and> length chunk \<le> n \<and> i + length chunk \<le> k + length xs"
proof (induction n k xs rule: chunksFrom.induct)
  case (1 n k xs)
  show ?case
  proof (cases "xs = [] \<or> n = 0")
    case True
    then show ?thesis using 1(3) by (simp add: chunksFrom.simps)
  next
    case False
    then have "(i, chunk) = (k, take n xs) \<or> (i, chunk) \<in> set (chunksFrom n (k + n) (drop n xs))"
      using 1(3) by (subst (asm) chunksFrom.simps) simp
    then show ?thesis
    proof
      assume "(i, chunk) \<in> set (chunksFrom n (k + n) (drop n xs))"
      moreover from this have "drop n xs \<noteq> []" using False by (cases "drop n xs") (auto simp: chunksFrom.simps)
      ultimately show ?thesis using 1(1) [OF False 1(2)] False by fastforce
    qed (use False in auto)
  qed
qed

section \<open>A resume catches up\<close>

text \<open>The lines a resume commits before it computes the replay.\<close>

definition resume_lines :: "handler \<Rightarrow> wire_run list list" where
  "resume_lines h = flushed_lines (hScreen h) (hBuilder h)"

lemma resume_lines_eq: "resume_lines h = (if \<not> InAltScreen (hScreen h) \<and> \<not> altTransitionPending (hScreen h) (builder_Reset (hBuilder h))
    then Drained (hScreen h) else [])"
  by (simp add: resume_lines_def flushed_lines_def altTransitionPending_def builder_Reset_def)

lemma dropDrained_fields [simp]:
  "InAltScreen (dropDrained s) = InAltScreen s" "Height (dropDrained s) = Height s" "Title (dropDrained s) = Title s"
  by (simp_all add: dropDrained_def)

lemma altTransitionPending_resume [simp]:
  "altTransitionPending (dropDrained s) b = altTransitionPending s b"
  "altTransitionPending s (builder_Reset b) = altTransitionPending s b"
  by (simp_all add: altTransitionPending_def builder_Reset_def dropDrained_def)

definition wanted :: "int \<Rightarrow> nat" where
  "wanted haveThrough = (if haveThrough \<ge> 0 then nat haveThrough + 1 else 0)"

definition replay_bound :: "int option \<Rightarrow> nat" where
  "replay_bound replayMax = (case replayMax of None \<Rightarrow> 2000 | Some n \<Rightarrow> nat (min 2000 n))"

lemma parseReplayMax_range: "\<forall>n. parseReplayMax raw = Some n \<longrightarrow> 1 \<le> n \<and> n \<le> 2000"
  by (auto simp: parseReplayMax_def maxReplayLines_def split: option.splits if_splits)

lemma replayStart_eq:
  assumes "haveThrough < 2 ^ 63" "\<forall>n. replayMax = Some n \<longrightarrow> 1 \<le> n \<and> n \<le> 2000"
  shows "unat (replayStart committed haveThrough replayMax) = max (wanted haveThrough) (unat committed - replay_bound replayMax)"
proof -
  have w: "unat (if haveThrough \<ge> 0 then word_of_int haveThrough + 1 else 0 :: u64) = wanted haveThrough"
  proof (cases "haveThrough \<ge> 0")
    case True
    then have "uint (word_of_int haveThrough :: u64) = haveThrough"
      using assms(1) by (simp add: uint_word_of_int)
    then have "unat (word_of_int haveThrough :: u64) = nat haveThrough" by (simp only: unat_eq_nat_uint)
    moreover have "nat haveThrough + 1 < 2 ^ 64" using True assms(1) by simp
    ultimately have "unat (word_of_int haveThrough + of_nat 1 :: u64) = nat haveThrough + 1"
      using u64_add [of "word_of_int haveThrough" 1] by simp
    with True show ?thesis by (simp add: wanted_def)
  qed (simp add: wanted_def)
  define bound :: u64 where "bound = (case replayMax of None \<Rightarrow> word_of_int maxReplayLines
       | Some n \<Rightarrow> min (word_of_int maxReplayLines) (word_of_int n))"
  have b: "unat bound = replay_bound replayMax"
  proof (cases replayMax)
    case (Some n)
    then have n: "1 \<le> n" "n \<le> 2000" using assms(2) by auto
    then have u: "uint (word_of_int n :: u64) = n" by (simp add: uint_word_of_int)
    have "(word_of_int n :: u64) \<le> 2000" using n u by (simp add: word_le_def)
    then have "bound = word_of_int n" using Some by (simp add: bound_def maxReplayLines_def min_def)
    with n u Some show ?thesis by (simp add: replay_bound_def unat_eq_nat_uint)
  qed (simp add: bound_def replay_bound_def maxReplayLines_def)
  have "unat (committed - bound) = unat committed - unat bound" if "bound < committed"
    using that by (simp add: unat_sub_if_size word_less_nat_alt)
  then show ?thesis
    unfolding replayStart_def Let_def bound_def [symmetric] using w b
    by (auto simp: max_def word_le_nat_alt word_less_nat_alt)
qed

lemma resumeSnapshot_spec:
  assumes "wf (hScreen h)" "ring_holds (hScrollback h) H"
    and "length H + length (Drained (hScreen h)) < 2 ^ 64"
    and "haveThrough < 2 ^ 63" "\<forall>n. replayMax = Some n \<longrightarrow> 1 \<le> n \<and> n \<le> 2000"
  defines "H' \<equiv> H @ resume_lines h"
  shows "\<exists>b r rows. resumeSnapshot haveThrough replayMax h
      = Some (b, h\<lparr>hScreen := dropDrained (hScreen h), hBuilder := builder_Reset (hBuilder h), hScrollback := r\<rparr>)
    \<and> ring_holds r H' \<and> renderWindow (hScreen h) = Some rows \<and> length rows = nat (Height (hScreen h))
    \<and> rb_rows b = rows \<and> unat (rb_committed b) = length H' \<and> rb_alt b = InAltScreen (hScreen h)
    \<and> rb_replay b = drop (unat (rb_first b)) H' \<and> unat (rb_first b) \<le> length H'
    \<and> unat (rb_first b) = (if sbBuf r = [] \<or> wanted haveThrough \<ge> length H' then length H'
         else max (max (wanted haveThrough) (length H' - replay_bound replayMax)) (length H' - length (sbBuf r)))"
proof -
  let ?s = "dropDrained (hScreen h)" let ?b = "builder_Reset (hBuilder h)"
  have drain: "drainScrollback (hScreen h) = ((Drained (hScreen h), DrainedWrapped (hScreen h)), ?s)"
    by (simp add: drainScrollback_def DrainScrollback_def)
  have "\<exists>r. (if \<not> InAltScreen ?s \<and> \<not> altTransitionPending ?s ?b \<and> Drained (hScreen h) \<noteq> []
      then Append (Drained (hScreen h)) (DrainedWrapped (hScreen h)) (hScrollback h) else Some (hScrollback h)) = Some r
      \<and> ring_holds r H'"
  proof (cases "\<not> InAltScreen ?s \<and> \<not> altTransitionPending ?s ?b \<and> Drained (hScreen h) \<noteq> []")
    case True
    then have "resume_lines h = Drained (hScreen h)"
      by (simp add: resume_lines_eq)
    then show ?thesis
      using ring_push_holds [OF assms(2,3), of "DrainedWrapped (hScreen h)"] True by (auto simp: ensures_iff H'_def)
  next
    case False
    then have "resume_lines h = []"
      by (auto simp: resume_lines_eq)
    then have "H' = H" by (simp add: H'_def)
    then show ?thesis using False assms(2) by auto
  qed
  then obtain r where r: "(if \<not> InAltScreen ?s \<and> \<not> altTransitionPending ?s ?b \<and> Drained (hScreen h) \<noteq> []
      then Append (Drained (hScreen h)) (DrainedWrapped (hScreen h)) (hScrollback h) else Some (hScrollback h)) = Some r"
      "ring_holds r H'" by blast
  obtain rows where rows: "renderWindow (hScreen h) = Some rows" "length rows = nat (Height (hScreen h))"
    using renderWindow_some [OF assms(1)] by blast
  have rows': "renderWindow ?s = Some rows"
    using renderWindow_view [OF observed_view(2), of "hScreen h"] rows(1) by simp
  have committed: "unat (Committed r) = length H'" using r(2) by (simp add: Committed_def ring_holds_def)
  obtain first where f: "LinesFrom (replayStart (Committed r) haveThrough replayMax) r = Some (first, drop (unat first) H')"
    "unat first = (if sbBuf r = [] \<or> unat (replayStart (Committed r) haveThrough replayMax) \<ge> length H' then length H'
          else max (unat (replayStart (Committed r) haveThrough replayMax)) (length H' - length (sbBuf r)))"
    using linesFrom_eq [OF r(2)] by blast
  have pos: "1 \<le> replay_bound replayMax" using assms(5) by (auto simp: replay_bound_def split: option.split)
  have first: "unat first = (if sbBuf r = [] \<or> wanted haveThrough \<ge> length H' then length H'
         else max (max (wanted haveThrough) (length H' - replay_bound replayMax)) (length H' - length (sbBuf r)))"
    unfolding f(2) replayStart_eq [OF assms(4,5)] committed using pos ring_holds_length [OF r(2)]
    by (cases "sbBuf r = []") auto
  have le: "unat first \<le> length H'" unfolding first by auto
  define b where "b = \<lparr>rb_committed = Committed r, rb_oldest = OldestIndex r, rb_first = first,
    rb_replay = drop (unat first) H', rb_rows = rows, rb_curRow = fst (CursorPos ?s), rb_curCol = snd (CursorPos ?s),
    rb_height = Height ?s, rb_style = CursorStyle ?s, rb_hidden = CursorHidden ?s, rb_blink = CursorBlink ?s,
    rb_alt = InAltScreen ?s, rb_modes = screenModes ?s, rb_title = encodeTitleMsg (Title ?s)\<rparr>"
  have "resumeSnapshot haveThrough replayMax h = Some (b, h\<lparr>hScreen := ?s, hBuilder := ?b, hScrollback := r\<rparr>)"
    unfolding resumeSnapshot_def drain prod.case Let_def r(1) Option.bind.bind_lunit f(1) rows' b_def ..
  then show ?thesis
    using rows committed r(2) le first by (intro exI [of _ b] exI [of _ r] exI [of _ rows]) (simp add: b_def)
qed



section \<open>A page is exact\<close>

lemma length_encodeScrollMsg: "length (encodeScrollMsg ack first ls) = encodedScrollHeaderSize + (\<Sum>l\<leftarrow>ls. encodedRowSize (capRowRuns l))"
  by (simp add: encodeScrollMsg_eq encodedScrollHeaderSize_def length_concat comp_def length_rowBytes)

lemma shrinkLoop_spec:
  fixes i :: nat and sz :: nat
  assumes "i = 0 \<or> sz \<le> pageByteBudget" "ls \<noteq> [] \<or> i \<noteq> 0"
  shows "\<exists>k. shrinkLoop sz i ls = i + k \<and> 0 < i + k \<and> k \<le> length ls
    \<and> (sz + (\<Sum>l\<leftarrow>take k ls. encodedRowSize (capRowRuns l)) \<le> pageByteBudget \<or> i + k = 1)
    \<and> (k < length ls \<longrightarrow> pageByteBudget < sz + (\<Sum>l\<leftarrow>take (Suc k) ls. encodedRowSize (capRowRuns l)))"
  using assms
proof (induction ls arbitrary: i sz)
  case (Cons l ls)
  let ?sz = "sz + encodedRowSize (capRowRuns l)"
  show ?case
  proof (cases "?sz > pageByteBudget")
    case True
    show ?thesis
    proof (cases "i = 0")
      case i: True
      show ?thesis
      proof (cases ls)
        case Nil with True i show ?thesis by (intro exI [of _ 1]) (simp add: Let_def)
      next
        case (Cons m ms) with True i show ?thesis by (intro exI [of _ 1]) (simp add: Let_def)
      qed
    qed (use True Cons.prems in \<open>auto intro!: exI [of _ 0] simp: Let_def\<close>)
  next
    case False
    then obtain k where k: "shrinkLoop ?sz (i + 1) ls = i + 1 + k" "k \<le> length ls"
      "?sz + (\<Sum>l\<leftarrow>take k ls. encodedRowSize (capRowRuns l)) \<le> pageByteBudget \<or> i + 1 + k = 1"
      "k < length ls \<longrightarrow> pageByteBudget < ?sz + (\<Sum>l\<leftarrow>take (Suc k) ls. encodedRowSize (capRowRuns l))"
      using Cons.IH [of "i + 1" ?sz] by auto
    with False show ?thesis by (intro exI [of _ "Suc k"]) (auto simp: Let_def add.assoc)
  qed
qed simp

lemma shrinkToBudget_spec:
  assumes "ls \<noteq> []"
  shows "0 < shrinkToBudget ls \<and> shrinkToBudget ls \<le> length ls
    \<and> (length (encodeScrollMsg ack first (take (shrinkToBudget ls) ls)) \<le> pageByteBudget \<or> shrinkToBudget ls = 1)
    \<and> (shrinkToBudget ls < length ls
        \<longrightarrow> pageByteBudget < length (encodeScrollMsg ack first (take (Suc (shrinkToBudget ls)) ls)))"
  using shrinkLoop_spec [of 0 encodedScrollHeaderSize ls] assms
  unfolding shrinkToBudget_def length_encodeScrollMsg by auto

text \<open>The retained lines of a range.\<close>

lemma linesRange_retained:
  assumes "ring_holds r H" "unat a = lo" "length H - length (sbBuf r) \<le> lo" "lo < length H" "0 < n"
  shows "map_option snd (LinesRange a (int n) r) = Some (take n (drop lo H))"
proof -
  have "ring_ok r" using assms(1) by (simp add: ring_holds_def)
  then have "LinesRange a (int n) r = map_option (\<lambda>(first, ls). (first, take n ls)) (LinesFrom a r)"
    using page_is_prefix [of r "int n" a] assms(5) by simp
  moreover have "sbBuf r \<noteq> []" using assms(3,4) by auto
  ultimately show ?thesis using linesFrom_eq [OF assms(1), of a] assms(2-4) by (auto simp: max_def)
qed

text \<open>
  C28: a history request that passes the guards is answered with exactly the part of the asked range the ring still
  retains, from its first line on, cut only by the byte budget: when something is retained the page is not
  empty, it is under the budget unless a single line is not, and it stops before the end of the range only where one
  line more would exceed the budget; when nothing is retained it is empty and carries the request's own index.
\<close>

theorem history_page_exact:
  fixes a n :: int
  assumes "ring_holds (hScrollback h) H" "session (states (hRegistry h) ws) \<noteq> None" "historyPagingDeclared h"
    and "1 \<le> n" "n \<le> 1000" "0 \<le> a" "a \<le> maxSafeInteger - n"
  defines "lo \<equiv> max (nat a) (length H - length (sbBuf (hScrollback h)))" and "hi \<equiv> min (nat (a + n)) (length H)"
  defines "page \<equiv> \<lambda>first ls. encodeScrollMsg (lastAckSent (states (hRegistry h) ws)) first ls"
  shows "\<exists>first k. historyControl ws a n True h = Some (Some (page first (take k (drop lo H))))
    \<and> unat first = (if lo < hi then lo else nat a) \<and> (0 < k \<longleftrightarrow> lo < hi) \<and> k \<le> hi - lo
    \<and> (length (page first (take k (drop lo H))) \<le> pageByteBudget \<or> k = 1)
    \<and> (k < hi - lo \<longrightarrow> pageByteBudget < length (page first (take (Suc k) (drop lo H))))"
proof -
  have a: "unat (word_of_int a :: u64) = nat a" "unat (word_of_int a + word_of_int n :: u64) = nat (a + n)"
  proof -
    have b: "0 \<le> a + n" "a + n < 2 ^ 64" "a < 2 ^ 64" using assms(4-7) by (simp_all add: maxSafeInteger_def)
    have u: "uint (word_of_int x :: u64) = x" if "0 \<le> x" "x < 2 ^ 64" for x
      using that by (simp add: uint_word_of_int)
    show "unat (word_of_int a :: u64) = nat a"
      unfolding unat_eq_nat_uint u [OF assms(6) b(3)] ..
    show "unat (word_of_int a + word_of_int n :: u64) = nat (a + n)"
      unfolding wi_hom_add unat_eq_nat_uint u [OF b(1,2)] ..
  qed
  let ?r = "hScrollback h"
  define start where "start = max (word_of_int a) (OldestIndex ?r)"
  define lim where "lim = min (word_of_int a + word_of_int n) (Committed ?r)"
  have start: "unat start = lo" unfolding start_def lo_def
    using a oldest_eq [OF assms(1)] by (auto simp: max_def word_le_nat_alt)
  have lim: "unat lim = hi" unfolding lim_def hi_def
    using a assms(1) by (auto simp: min_def word_le_nat_alt Committed_def ring_holds_def)
  have lt: "start < lim \<longleftrightarrow> lo < hi" using start lim by (simp add: word_less_nat_alt)
  have guards: "\<not> (maxLines < 1 \<or> maxLines > historyPageSize)" "\<not> (a < 0 \<or> a > maxSafeInteger - n)" if "maxLines = n" for maxLines
    using assms(4-7) that by (auto simp: historyPageSize_def maxScrollLinesPerFrame_def)
  show ?thesis
  proof (cases "lo < hi")
    case False
    have "historyControl ws a n True h = Some (Some (page (word_of_int a) (take 0 (drop lo H))))"
      unfolding historyControl_def Let_def start_def [symmetric] lim_def [symmetric]
      using False guards assms(2,3) lt by (simp add: page_def)
    then show ?thesis
      using False a(1) by (intro exI [of _ "word_of_int a"] exI [of _ 0])
        (simp add: page_def length_encodeScrollMsg encodedScrollHeaderSize_def pageByteBudget_def)
  next
    case True
    then have d: "uint (lim - start) = int (hi - lo)"
      using start lim lt by (simp add: uint_nat unat_sub_if_size)
    define ls where "ls = take (hi - lo) (drop lo H)"
    have ls: "length ls = hi - lo" "ls \<noteq> []" "lo < length H" using True by (auto simp: ls_def hi_def)
    have "map_option snd (LinesRange start (int (hi - lo)) ?r) = Some ls"
      unfolding ls_def by (rule linesRange_retained [OF assms(1) start]) (use True ls(3) in \<open>auto simp: lo_def\<close>)
    then obtain f where "LinesRange start (uint (lim - start)) ?r = Some (f, ls)" unfolding d by auto
    then have run: "historyControl ws a n True h = Some (Some (page start (take (shrinkToBudget ls) ls)))"
      unfolding historyControl_def Let_def start_def [symmetric] lim_def [symmetric]
      using True guards assms(2,3) lt ls(2) by (simp add: page_def)
    have cut: "take k ls = take k (drop lo H)" if "k \<le> hi - lo" for k using that by (simp add: ls_def min_def)
    note s = shrinkToBudget_spec [OF ls(2), of "lastAckSent (states (hRegistry h) ws)" start, folded page_def]
    show ?thesis
      using True run start s ls(1) cut [of "shrinkToBudget ls"] cut [of "Suc (shrinkToBudget ls)"]
      by (intro exI [of _ start] exI [of _ "shrinkToBudget ls"]) auto
  qed
qed

definition demoPager :: handler where
  "demoPager = demoHandler\<lparr>hScrollback := demoRing, scrollbackCapacity := 10000,
     hRegistry := set_state 7 (\<lambda>c. c\<lparr>session := Some 0\<rparr>) newClientRegistry\<rparr>"

lemma history_page_exact_witness:
  "\<exists>first k. historyControl 7 0 5 True demoPager = Some (Some (encodeScrollMsg 0 first (take k (drop 1 [[], [], [demoRun]]))))
    \<and> unat first = 1 \<and> 0 < k"
proof -
  have f: "hScrollback demoPager = demoRing" "session (states (hRegistry demoPager) 7) \<noteq> None"
    "historyPagingDeclared demoPager" "lastAckSent (states (hRegistry demoPager) 7) = 0" "length (sbBuf demoRing) = 2"
    by (simp add: demoPager_def) code_simp+
  show ?thesis
    using history_page_exact [of demoPager "[[], [], [demoRun]]" 7 5 0] f demoRing_holds by (auto simp: maxSafeInteger_def)
qed

end
