(* ===== verification/Framing.thy ===== *)
theory Framing
  imports Resume
begin

text \<open>
  One client's connection (\<open>src/terminal/terminal.go\<close>, \<open>src/terminal/ephemeral_input.go\<close>): attaching and
  leaving, the controls it may send, and the read loop that tells controls from input.  What a message
  causes is a list of effects.  The decoder of the JSON controls is a parameter, applied to the payload; the
  answers of the world to one message (the clock, whether the child could be spawned, whether the kernel took a
  size, whether the socket's three token buckets held a token, whether the write to the PTY failed, the keys of the
  ledger map) are a record.

  The lemmas show that text is never input, that a connection is latched only after it was armed, and that from the
  latch on the child receives exactly the binary messages, whatever they hold.
\<close>

section \<open>Messages and effects\<close>

record controlMsg =
  HaveThrough :: "int option"
  ctlType :: "byte list"
  ctlSession :: sessionID
  ctlData :: "byte list"
  ReplayMax :: "int option"
  SentBytes :: u64
  FromAbs :: int
  MaxLines :: int
  ctlCols :: int
  ctlRows :: int
  ProtocolVersion :: int
  Focused :: bool

record answers =
  an_now :: int
  an_spawned :: bool
  an_taken :: bool
  an_resumeToken :: bool
  an_historyToken :: bool
  an_ephemeralToken :: bool
  an_ptyErr :: bool
  an_ids :: "sessionID list"

text \<open>Counted input, uncounted writes to the PTY, frames to this socket, a close of this socket or of the one it
  displaced, and the release of the close deferred until a resume was served.\<close>

datatype effect =
    WriteInput "byte list"
  | WriteUncounted "byte list"
  | SendFrame "byte list"
  | CloseSocket int
  | CloseDisplaced sock
  | ResumeServed

type_synonym decoder = "byte list \<Rightarrow> controlMsg option"

definition statusNormalClosure :: int where "statusNormalClosure = 1000"
definition statusUnsupportedData :: int where "statusUnsupportedData = 1003"
definition statusInvalidFramePayloadData :: int where "statusInvalidFramePayloadData = 1007"
definition statusProcessExited :: int where "statusProcessExited = 4001"
definition WireIncompatibleCloseCode :: int where "WireIncompatibleCloseCode = 4002"
definition typedFramingMinVersion :: int where "typedFramingMinVersion = 4"

definition ctlTypeResize :: "byte list" where "ctlTypeResize = str ''resize''"
definition ctlTypeResume :: "byte list" where "ctlTypeResume = str ''resume''"
definition ctlTypeUpgrade :: "byte list" where "ctlTypeUpgrade = str ''upgrade''"
definition ctlTypePing :: "byte list" where "ctlTypePing = str ''ping''"
definition ctlTypeHistory :: "byte list" where "ctlTypeHistory = str ''history''"
definition ctlTypeFocus :: "byte list" where "ctlTypeFocus = str ''focus''"
definition ctlTypeEphemeralInput :: "byte list" where "ctlTypeEphemeralInput = str ''ephemeralInput''"

record controlDisposition =
  dParsed :: bool
  dKnown :: bool
  armsV4 :: bool
  dClosed :: bool

definition unparsed :: controlDisposition where
  "unparsed = \<lparr>dParsed = False, dKnown = False, armsV4 = False, dClosed = False\<rparr>"

definition recognized :: controlDisposition where
  "recognized = unparsed\<lparr>dParsed := True, dKnown := True\<rparr>"

type_synonym 'a handled = "(('a \<times> effect list) \<times> handler) option"

text \<open>An empty write is no write.\<close>

definition uncounted :: "byte list \<Rightarrow> effect list" where
  "uncounted bs = (if bs = [] then [] else [WriteUncounted bs])"

section \<open>Controls\<close>

definition exitAwareCloseCode :: "handler \<Rightarrow> int" where
  "exitAwareCloseCode h = (if procExited h then statusProcessExited else statusNormalClosure)"

definition maxEphemeralInputBytes :: nat where "maxEphemeralInputBytes = 64"

definition ephemeralInputControl :: "answers \<Rightarrow> sock \<Rightarrow> controlMsg \<Rightarrow> handler \<Rightarrow> effect list \<times> handler" where
  "ephemeralInputControl an ws c h = (if fenced (states (hRegistry h) ws) then ([], h)
     else if ctlData c = [] \<or> length (ctlData c) > maxEphemeralInputBytes then ([], h)
     else if \<not> an_ephemeralToken an then ([], h)
     else if \<not> started h then ([], h)
     else if an_ptyErr an then ([], h)
     else ([WriteUncounted (ctlData c)], markDirty h))"

definition resumeControl :: "answers \<Rightarrow> sock \<Rightarrow> controlMsg \<Rightarrow> handler \<Rightarrow> controlDisposition handled" where
  "resumeControl an ws c h =
     (if ProtocolVersion c \<noteq> 0 \<and> ProtocolVersion c < MinSupportedClientWireVersion
      then Some ((recognized\<lparr>dClosed := True\<rparr>, [CloseSocket WireIncompatibleCloseCode]), h)
      else let d = recognized\<lparr>armsV4 := ProtocolVersion c \<ge> typedFramingMinVersion\<rparr> in
        if ctlSession c = [] \<or> \<not> an_resumeToken an then Some ((d, []), h)
        else do {
          let ht = (case HaveThrough c of None \<Rightarrow> - 1 | Some n \<Rightarrow> n);
          ((superseded, displaced, frames), h) \<leftarrow> handleResume ws (ctlSession c) ht (SentBytes c)
            (parseReplayMax (ReplayMax c)) (an_now an) (an_ids an) h;
          let es = (case displaced of None \<Rightarrow> [] | Some prev \<Rightarrow> [CloseDisplaced prev]) @ map SendFrame frames;
          Some (if superseded then ((d\<lparr>dClosed := True\<rparr>, es), h) else ((d, es @ [ResumeServed]), h)) })"

definition handleControl :: "decoder \<Rightarrow> answers \<Rightarrow> sock \<Rightarrow> byte list \<Rightarrow> handler \<Rightarrow> controlDisposition handled" where
  "handleControl dec an ws payload h = (case dec payload of None \<Rightarrow> Some ((unparsed, []), h)
     | Some c \<Rightarrow>
       if ctlType c = ctlTypeResume then resumeControl an ws c h
       else if ctlType c = ctlTypeResize then do {
         (closed, h) \<leftarrow> handleResize ws (ctlCols c) (ctlRows c) (an_spawned an) (an_taken an) (an_now an) h;
         Some ((recognized\<lparr>dClosed := closed\<rparr>, []), h) }
       else if ctlType c = ctlTypePing then Some ((recognized, [SendFrame encodePongMsg]), h)
       else if ctlType c = ctlTypeHistory then do {
         reply \<leftarrow> historyControl ws (FromAbs c) (MaxLines c) (an_historyToken an) h;
         Some ((recognized, case reply of None \<Rightarrow> [] | Some p \<Rightarrow> [SendFrame p]), h) }
       else if ctlType c = ctlTypeFocus then (case focusControl ws (Focused c) h of (bs, h) \<Rightarrow>
         Some ((recognized, uncounted bs), h))
       else if ctlType c = ctlTypeEphemeralInput then (case ephemeralInputControl an ws c h of (es, h) \<Rightarrow>
         Some ((recognized, es), h))
       else if ctlType c = ctlTypeUpgrade then Some ((recognized, []), h)
       else Some ((unparsed\<lparr>dParsed := True\<rparr>, []), h))"

section \<open>The read loop\<close>

text \<open>\<open>handleBinaryFrame\<close>, with the new armed state and whether the connection goes on.\<close>

definition inputFrame :: "answers \<Rightarrow> sock \<Rightarrow> byte list \<Rightarrow> bool \<Rightarrow> handler \<Rightarrow> (bool \<times> bool) handled" where
  "inputFrame an ws msg armed h = do {
     (err, h) \<leftarrow> (if started h then Some (None, h) else ensureStarted 0 0 (an_spawned an) h);
     if err \<noteq> None then Some (((armed, False), []), h)
     else (case ApplyInput ws msg (an_ptyErr an) (an_now an) (hRegistry h) of ((applied, failed, _), r) \<Rightarrow>
       let h = h\<lparr>hRegistry := r\<rparr> in
       if failed \<or> \<not> applied then Some (((armed, False), []), h)
       else Some (((armed, True), [WriteInput msg]), markDirty h)) }"

definition handleBinaryFrame :: "decoder \<Rightarrow> answers \<Rightarrow> sock \<Rightarrow> byte list \<Rightarrow> bool \<Rightarrow> bool \<Rightarrow> handler
    \<Rightarrow> (bool \<times> bool) handled" where
  "handleBinaryFrame dec an ws msg armed latched h = (if \<not> latched \<and> hd msg = 0 then do {
       ((d, es), h) \<leftarrow> handleControl dec an ws (tl msg) h;
       if dParsed d then Some (((armed \<or> armsV4 d, \<not> dClosed d), es), h) else inputFrame an ws msg armed h }
     else inputFrame an ws msg armed h)"

text \<open>\<open>handleTextControl\<close>, with the new armed and latched states and whether the loop ends.\<close>

definition handleTextControl :: "decoder \<Rightarrow> answers \<Rightarrow> sock \<Rightarrow> byte list \<Rightarrow> bool \<Rightarrow> bool \<Rightarrow> handler
    \<Rightarrow> (bool \<times> bool \<times> bool) handled" where
  "handleTextControl dec an ws msg armed latched h =
     (if \<not> validUtf8 msg then Some (((armed, latched, True), [CloseSocket statusInvalidFramePayloadData]), h)
      else if msg = [] \<or> \<not> armed then Some (((armed, latched, True), [CloseSocket statusUnsupportedData]), h)
      else do {
        ((d, es), h) \<leftarrow> handleControl dec an ws msg h;
        Some (if dClosed d then ((armed, latched, True), es)
          else if \<not> dParsed d then ((armed, latched, True), es @ [CloseSocket statusUnsupportedData])
          else if dKnown d then ((armed \<or> armsV4 d, True, False), es)
          else if \<not> latched then ((armed, latched, True), es @ [CloseSocket statusUnsupportedData])
          else ((armed, latched, False), es), h) })"

text \<open>\<open>clientReadLoop\<close> on the messages the socket delivers: what a message is (text or binary), its bytes and the
  answers to it; and the state of the framing with whether the loop has ended.\<close>

datatype message = TextMsg "byte list" | BinaryMsg "byte list"

definition readStep :: "decoder \<Rightarrow> answers \<Rightarrow> sock \<Rightarrow> message \<Rightarrow> bool \<Rightarrow> bool \<Rightarrow> handler
    \<Rightarrow> (bool \<times> bool \<times> bool) handled" where
  "readStep dec an ws m armed latched h = (if fenced (states (hRegistry h) ws) then Some (((armed, latched, True), []), h)
     else case m of TextMsg msg \<Rightarrow> handleTextControl dec an ws msg armed latched h
     | BinaryMsg msg \<Rightarrow> if msg = [] then Some (((armed, latched, False), []), h)
       else do {
         (((armed, ok), es), h) \<leftarrow> handleBinaryFrame dec an ws msg armed latched h;
         Some (((armed, latched, \<not> ok), es), h) })"

fun clientReadLoop :: "decoder \<Rightarrow> sock \<Rightarrow> (answers \<times> message) list \<Rightarrow> bool \<Rightarrow> bool \<Rightarrow> handler
    \<Rightarrow> (bool \<times> bool \<times> bool) handled" where
  "clientReadLoop dec ws [] armed latched h = Some (((armed, latched, False), []), h)"
| "clientReadLoop dec ws ((an, m) # ms) armed latched h = do {
     (((armed, latched, ended), es), h) \<leftarrow> readStep dec an ws m armed latched h;
     if ended then Some (((armed, latched, True), es), h)
     else do {
       ((fr, rest), h) \<leftarrow> clientReadLoop dec ws ms armed latched h;
       Some ((fr, es @ rest), h) } }"

text \<open>The two ends of \<open>handleWS\<close>.\<close>

definition attachClient :: "sock \<Rightarrow> handler \<Rightarrow> effect list \<times> handler" where
  "attachClient ws h = (let
     h = h\<lparr>hRegistry := registry_Add ws (hRegistry h)\<rparr>;
     h = markDirty (h\<lparr>hBuilder := builder_Reset (hBuilder h)\<rparr>);
     (bs, h) = reportFocus h
   in (uncounted bs, h))"

definition detachClient :: "sock \<Rightarrow> int \<Rightarrow> handler \<Rightarrow> effect list \<times> handler" where
  "detachClient ws now h = (case registry_Remove ws now (hRegistry h) of ((dCols, dRows), r) \<Rightarrow> let
     (bs, h) = reportFocus (h\<lparr>hRegistry := r\<rparr>);
     h = maybeHealSize dCols dRows h
   in (uncounted bs @ [CloseSocket (exitAwareCloseCode h)], h))"

section \<open>The framing contract\<close>

text \<open>The framing rules of the wire protocol (\<open>src/terminal/wire_binary.go\<close>, version 4): what the messages of a
  connection mean as input, given which payloads are controls.\<close>

definition known_control :: "controlMsg \<Rightarrow> bool" where
  "known_control c \<longleftrightarrow> ctlType c \<in> {ctlTypeResume, ctlTypeResize, ctlTypePing, ctlTypeHistory, ctlTypeFocus,
     ctlTypeEphemeralInput, ctlTypeUpgrade}"

definition arms :: "controlMsg \<Rightarrow> bool" where
  "arms c \<longleftrightarrow> ctlType c = ctlTypeResume \<and> ProtocolVersion c \<ge> 4"

fun framing_input :: "decoder \<Rightarrow> message list \<Rightarrow> bool \<Rightarrow> bool \<Rightarrow> byte list list" where
  "framing_input dec [] armed latched = []"
| "framing_input dec (TextMsg t # ms) armed latched =
     (if t = [] \<or> \<not> armed \<or> \<not> validUtf8 t then []
      else case dec t of None \<Rightarrow> []
        | Some c \<Rightarrow> if known_control c then framing_input dec ms True True
            else if latched then framing_input dec ms armed latched else [])"
| "framing_input dec (BinaryMsg b # ms) armed latched =
     (if b = [] then framing_input dec ms armed latched
      else case if \<not> latched \<and> hd b = 0 then dec (tl b) else None of
        Some c \<Rightarrow> framing_input dec ms (armed \<or> arms c) latched
      | None \<Rightarrow> b # framing_input dec ms armed latched)"

definition inputs :: "effect list \<Rightarrow> byte list list" where
  "inputs es = concat (map (\<lambda>e. case e of WriteInput b \<Rightarrow> [b] | _ \<Rightarrow> []) es)"

lemma inputs_simps [simp]:
  "inputs [] = []" "inputs (es @ fs) = inputs es @ inputs fs" "inputs (map SendFrame ps) = []"
  "inputs (uncounted bs) = []" "inputs (WriteInput b # es) = b # inputs es"
  "inputs (WriteUncounted b # es) = inputs es" "inputs (SendFrame b # es) = inputs es"
  "inputs (CloseSocket n # es) = inputs es" "inputs (CloseDisplaced v # es) = inputs es"
  "inputs (ResumeServed # es) = inputs es"
  by (simp_all add: inputs_def uncounted_def comp_def)

lemmas disposition_defs = unparsed_def recognized_def

lemma resumeControl_disposition:
  assumes "resumeControl an ws c h = Some ((d, es), h')"
  shows "dParsed d \<and> dKnown d \<and> (armsV4 d \<longleftrightarrow> ProtocolVersion c \<ge> 4) \<and> inputs es = []"
  using assms
  by (auto simp: resumeControl_def disposition_defs typedFramingMinVersion_def MinSupportedClientWireVersion_def
      Let_def bind_eq_Some_conv split: if_splits option.splits)

lemma ephemeral_inputs: "inputs (fst (ephemeralInputControl an ws c h)) = []"
  by (simp add: ephemeralInputControl_def)

lemmas ctlType_defs = ctlTypeResume_def ctlTypeResize_def ctlTypePing_def ctlTypeHistory_def ctlTypeFocus_def
  ctlTypeEphemeralInput_def ctlTypeUpgrade_def

lemma handleControl_disposition:
  assumes "handleControl dec an ws p h = Some ((d, es), h')"
  shows "inputs es = [] \<and> (case dec p of None \<Rightarrow> d = unparsed
    | Some c \<Rightarrow> dParsed d \<and> (dKnown d \<longleftrightarrow> known_control c) \<and> (armsV4 d \<longleftrightarrow> arms c))"
proof (cases "dec p")
  case None
  then show ?thesis using assms by (auto simp: handleControl_def)
next
  case (Some c)
  show ?thesis
  proof (cases "ctlType c = ctlTypeResume")
    case True
    then have "resumeControl an ws c h = Some ((d, es), h')" using assms Some by (simp add: handleControl_def)
    from resumeControl_disposition [OF this] Some True show ?thesis by (simp add: known_control_def arms_def)
  next
    case False
    let ?t = "ctlType c" let ?ok = "(\<exists>x. d = recognized\<lparr>dClosed := x\<rparr>) \<and> inputs es = []"
    note run = assms [unfolded handleControl_def Some option.case if_not_P [OF False]]
    have "?ok \<and> known_control c \<or> d = unparsed\<lparr>dParsed := True\<rparr> \<and> es = [] \<and> \<not> known_control c"
    proof (cases "?t = ctlTypeResize")
      case True
      then have ?ok using run by (auto simp: bind_eq_Some_conv)
      with True show ?thesis by (simp add: known_control_def)
    next
      case resize: False
      show ?thesis
      proof (cases "?t \<in> {ctlTypePing, ctlTypeHistory}")
        case True
        then have "(d = recognized \<and> inputs es = []) = True"
          using run resize by (auto simp: bind_eq_Some_conv split: if_splits option.splits)
        then have ?ok by (auto simp: disposition_defs)
        with True show ?thesis by (auto simp: known_control_def)
      next
        case view: False
        show ?thesis
        proof (cases "?t \<in> {ctlTypeFocus, ctlTypeEphemeralInput, ctlTypeUpgrade}")
          case True
          then have "d = recognized \<and> inputs es = []"
            using run resize view ephemeral_inputs [of an ws c h]
            by (auto simp: case_prod_unfold split: if_splits)
          then have ?ok by (auto simp: disposition_defs)
          with True show ?thesis by (auto simp: known_control_def)
        next
          case False
          then show ?thesis using run resize view \<open>?t \<noteq> ctlTypeResume\<close> by (simp add: known_control_def)
        qed
      qed
    qed
    then have "inputs es = [] \<and> dParsed d \<and> (dKnown d \<longleftrightarrow> known_control c) \<and> \<not> armsV4 d"
      by (auto simp: disposition_defs)
    with Some False show ?thesis by (simp add: arms_def)
  qed
qed

lemma inputFrame_result:
  assumes "inputFrame an ws msg armed h = Some (((a, ok), es), h')"
  shows "a = armed \<and> inputs es = (if ok then [msg] else [])"
proof -
  obtain err k where s: "(if started h then Some (None, h) else ensureStarted 0 0 (an_spawned an) h) = Some (err, k)"
    using assms unfolding inputFrame_def by (auto simp: bind_eq_Some_conv)
  obtain applied failed wrote r where w: "ApplyInput ws msg (an_ptyErr an) (an_now an) (hRegistry k) = ((applied, failed, wrote), r)"
    by (metis prod.exhaust)
  show ?thesis
    using assms unfolding inputFrame_def s Let_def by (auto simp: w split: if_splits)
qed

lemma readStep_input:
  assumes "readStep dec an ws m armed latched h = Some (((a, l, ended), es), h')" "latched \<longrightarrow> armed"
  shows "(l \<longrightarrow> a) \<and> (latched \<longrightarrow> l) \<and> (if ended then inputs es = []
    else framing_input dec (m # ms) armed latched = inputs es @ framing_input dec ms a l)"
proof (cases "fenced (states (hRegistry h) ws)")
  case True
  then show ?thesis using assms by (auto simp: readStep_def)
next
  case False
  show ?thesis
  proof (cases m)
    case (TextMsg t)
    show ?thesis
    proof (cases "t = [] \<or> \<not> armed \<or> \<not> validUtf8 t")
      case True
      then show ?thesis using assms False TextMsg by (auto simp: readStep_def handleTextControl_def split: if_splits)
    next
      case ok: False
      then obtain d fs k where c: "handleControl dec an ws t h = Some ((d, fs), k)"
        using assms(1) False TextMsg by (auto simp: readStep_def handleTextControl_def bind_eq_Some_conv)
      show ?thesis
        using assms False TextMsg ok c handleControl_disposition [OF c]
        by (auto simp: readStep_def handleTextControl_def disposition_defs split: if_splits option.splits)
    qed
  next
    case (BinaryMsg b)
    show ?thesis
    proof (cases "\<not> latched \<and> hd b = 0 \<and> b \<noteq> []")
      case False
      then show ?thesis using assms \<open>\<not> fenced (states (hRegistry h) ws)\<close> BinaryMsg
        by (auto simp: readStep_def handleBinaryFrame_def bind_eq_Some_conv split: if_splits dest!: inputFrame_result)
    next
      case sentinel: True
      then obtain d fs k where c: "handleControl dec an ws (tl b) h = Some ((d, fs), k)"
        using assms(1) False BinaryMsg by (auto simp: readStep_def handleBinaryFrame_def bind_eq_Some_conv)
      show ?thesis
        using assms False BinaryMsg sentinel c handleControl_disposition [OF c]
        by (auto simp: readStep_def handleBinaryFrame_def bind_eq_Some_conv disposition_defs
            split: if_splits option.splits dest!: inputFrame_result)
    qed
  qed
qed

text \<open>The binary messages that hold something.\<close>

fun binaries :: "message list \<Rightarrow> byte list list" where
  "binaries [] = []"
| "binaries (TextMsg t # ms) = binaries ms"
| "binaries (BinaryMsg b # ms) = (if b = [] then binaries ms else b # binaries ms)"

lemma latched_single: "framing_input dec [m] True True = binaries [m]"
  by (cases m) (auto split: option.splits)

lemma binaries_Cons: "binaries (m # ms) = binaries [m] @ binaries ms"
  by (cases m) simp_all

text \<open>
  C27: the read loop implements the framing contract of the wire protocol.  For every decoder and every sequence of
  messages, what reaches the child as counted input is what the contract says, in order and in whole
  messages, up to the message that ends the connection, and all of it when none does; a connection is latched only
  if armed; and once latched, the input is exactly the binary messages, whatever bytes they hold (a leading
  NUL included), so no text and no control is ever taken for input and no input for a control.
\<close>

theorem read_loop_follows_framing:
  assumes "clientReadLoop dec ws ms armed latched h = Some (((a, l, ended), es), h')" "latched \<longrightarrow> armed"
  shows "(l \<longrightarrow> a) \<and> (latched \<longrightarrow> l)
    \<and> (\<exists>rest. framing_input dec (map snd ms) armed latched = inputs es @ rest \<and> (\<not> ended \<longrightarrow> rest = []))
    \<and> (latched \<longrightarrow> (\<exists>rest. binaries (map snd ms) = inputs es @ rest \<and> (\<not> ended \<longrightarrow> rest = [])))"
  using assms
proof (induction ms arbitrary: armed latched h es a l)
  case (Cons x ms)
  obtain an m where x: "x = (an, m)" by (cases x)
  obtain a1 l1 end1 es1 h1 where s: "readStep dec an ws m armed latched h = Some (((a1, l1, end1), es1), h1)"
    using Cons.prems(1) unfolding x by (auto simp: bind_eq_Some_conv)
  note step = readStep_input [OF s Cons.prems(2)]
  show ?case
  proof (cases end1)
    case True
    then show ?thesis using Cons.prems s step by (simp add: x)
  next
    case False
    then obtain es2 where r: "clientReadLoop dec ws ms a1 l1 h1 = Some (((a, l, ended), es2), h')" "es = es1 @ es2"
      using Cons.prems(1) s by (auto simp: x bind_eq_Some_conv)
    have f: "framing_input dec (m # ms') armed latched = inputs es1 @ framing_input dec ms' a1 l1" for ms'
      using readStep_input [OF s Cons.prems(2), of ms'] False by simp
    have b: "binaries [m] = inputs es1" if latched
      using f [of "[]"] latched_single [of dec m] that Cons.prems(2) by simp
    show ?thesis
      using Cons.IH [OF r(1)] step False r(2) f [of "map snd ms"] b binaries_Cons [of m "map snd ms"]
      by (auto simp: x)
  qed
qed simp

text \<open>A connection that resumes under version 4, upgrades, and types a NUL and a letter.\<close>

definition demoControl :: "byte list \<Rightarrow> int \<Rightarrow> controlMsg" where
  "demoControl typ v = \<lparr>HaveThrough = None, ctlType = typ, ctlSession = [], ctlData = [], ReplayMax = None, SentBytes = 0,
     FromAbs = 0, MaxLines = 0, ctlCols = 80, ctlRows = 24, ProtocolVersion = v, Focused = True\<rparr>"

definition demoDecoder :: decoder where
  "demoDecoder p = (if p = str ''r'' then Some (demoControl ctlTypeResume 4)
     else if p = str ''u'' then Some (demoControl ctlTypeUpgrade 0) else None)"

definition demoAnswers :: answers where
  "demoAnswers = \<lparr>an_now = 0, an_spawned = True, an_taken = True, an_resumeToken = True, an_historyToken = True,
     an_ephemeralToken = True, an_ptyErr = False, an_ids = []\<rparr>"

definition demoMessages :: "message list" where
  "demoMessages = [BinaryMsg (0 # str ''r''), BinaryMsg (0 # str ''x''), TextMsg (str ''u''), BinaryMsg (0 # str ''r'')]"

lemma read_loop_follows_framing_witness:
  "inputs (snd (fst (the (clientReadLoop demoDecoder 7 (map (Pair demoAnswers) demoMessages) False False demoHandler))))
   = [0 # str ''x'', 0 # str ''r'']"
proof -
  let ?run = "clientReadLoop demoDecoder 7 (map (Pair demoAnswers) demoMessages) False False demoHandler"
  have r: "?run \<noteq> None" "fst (fst (the ?run)) = (True, True, False)"
    "framing_input demoDecoder demoMessages False False = [0 # str ''x'', 0 # str ''r'']" by code_simp+
  then obtain es h' where "?run = Some (((True, True, False), es), h')" by (cases "the ?run") auto
  from read_loop_follows_framing [OF this] this r(3) show ?thesis by (simp add: comp_def)
qed

end
