(* ===== verification/Attached.thy ===== *)
theory Attached
  imports Framing
begin

text \<open>
  A session while one client stays attached (\<open>src/terminal/terminal.go\<close>): the output of the child, the passes of the
  flush scheduler (which builds a frame and writes it before it builds the next), the resumes of that client and of
  others, and the operations that never touch history, as one transition system.  A resume may fall between the
  two halves of a pass.  Beside the handler the state keeps every line ever committed, the frame not yet written, and
  what the client was sent under each absolute index.

  The invariant shows that what the client was sent agrees with the history, and that it was sent every line
  committed since it attached, but for those another client's resume committed.
\<close>

section \<open>Lines of a frame\<close>

lemma Build_lines:
  assumes "Build s est cl c b = Some (f, s', b')"
  shows "length (frame_lines f) \<le> length (Drained s) \<and> (\<forall>fr. f = Some fr \<longrightarrow> scrollFirstIdx fr = c \<and> ffClients fr = cl)"
proof (cases "est \<and> \<not> IsFlushHeld s")
  case False
  then show ?thesis using assms by (auto simp: Build_def frame_lines_def split: if_splits)
next
  case True
  have "drainScrollback s = ((Drained s, DrainedWrapped s), dropDrained s)"
    by (simp add: drainScrollback_def DrainScrollback_def)
  then show ?thesis
    using assms True unfolding Build_def
    by (auto simp: Let_def frame_lines_def bind_eq_Some_conv case_prod_unfold split: if_splits)
qed

lemma buildNow_ring:
  assumes "buildNow cl h = Some (f, h')" "ring_holds (hScrollback h) H" "length H + length (Drained (hScreen h)) < 2 ^ 64"
  shows "ring_holds (hScrollback h') (H @ frame_lines f) \<and> hRegistry h' = hRegistry h
    \<and> (\<forall>fr. f = Some fr \<longrightarrow> unat (scrollFirstIdx fr) = length H \<and> ffClients fr = cl)"
proof -
  define k where "k = (if redrawCoalesceNow h
    then h\<lparr>hBuilder := builder_Reset (hBuilder h), redrawCoalesceNow := False\<rparr> else h)"
  have k: "hScreen k = hScreen h" "hScrollback k = hScrollback h" "hRegistry k = hRegistry h" by (simp_all add: k_def)
  obtain f' s b where B: "Build (hScreen k) (sizeEstablished k) cl (Committed (hScrollback k)) (hBuilder k) = Some (f', s, b)"
    using assms(1) unfolding buildNow_def k_def [symmetric] Let_def by (auto simp: bind_eq_Some_conv)
  note lines = Build_lines [OF B, unfolded k]
  have c: "unat (Committed (hScrollback h)) = length H" using assms(2) by (simp add: Committed_def ring_holds_def)
  have run: "(case f' of None \<Rightarrow> Some (None, k\<lparr>hScreen := s, hBuilder := b\<rparr>)
      | Some fr \<Rightarrow> if scrollLines fr = [] then Some (f', k\<lparr>hScreen := s, hBuilder := b\<rparr>)
          else do { r \<leftarrow> Append (scrollLines fr) (scrollWrapped fr) (hScrollback (k\<lparr>hScreen := s, hBuilder := b\<rparr>));
            Some (f', k\<lparr>hScreen := s, hBuilder := b, hScrollback := r\<rparr>) }) = Some (f, h')"
    using assms(1) unfolding buildNow_def k_def [symmetric] Let_def B Option.bind.bind_lunit prod.case .
  show ?thesis
  proof (cases f')
    case None
    then show ?thesis using run assms(2) k by (auto simp: frame_lines_def)
  next
    case (Some fr)
    show ?thesis
    proof (cases "scrollLines fr = []")
      case True
      then show ?thesis using run assms(2) k lines c Some by (auto simp: frame_lines_def)
    next
      case False
      have "length H + length (scrollLines fr) < 2 ^ 64" using lines assms(3) Some by (simp add: frame_lines_def)
      from ring_push_holds [OF assms(2) this, of "scrollWrapped fr"]
      show ?thesis using run k lines c Some False by (auto simp: frame_lines_def ensures_iff bind_eq_Some_conv)
    qed
  qed
qed

lemma at_time_fields [simp]:
  "hScrollback (at_time t h) = hScrollback h" "hRegistry (at_time t h) = hRegistry h"
  "Drained (hScreen (at_time t h)) = Drained (hScreen h)" "hClipboard (at_time t h) = hClipboard h"
  by (simp_all add: at_time_def)

lemma redrawHoldUntil_fields:
  assumes "redrawHoldUntil now h = (u, h')"
  shows "hScrollback h' = hScrollback h \<and> hRegistry h' = hRegistry h \<and> hScreen h' = hScreen h"
  using assms by (auto simp: redrawHoldUntil_def disarmRedrawSettle_def Let_def split: option.splits if_splits)

lemma addCleared_fields:
  assumes "addCleared (f, h) = (f', h')"
  shows "frame_lines f' = frame_lines f \<and> hScrollback h' = hScrollback h \<and> hRegistry h' = hRegistry h
    \<and> (\<forall>fr'. f' = Some fr' \<longrightarrow> (\<exists>fr. f = Some fr \<and> scrollFirstIdx fr' = scrollFirstIdx fr \<and> ffClients fr' = ffClients fr))"
  using assms by (cases f) (auto simp: addCleared_def frame_lines_def split: if_splits)

lemma addClipboard_fields:
  assumes "addClipboard cl (f, h) = (f', h')" "\<forall>fr. f = Some fr \<longrightarrow> ffClients fr = cl"
  shows "frame_lines f' = frame_lines f \<and> hScrollback h' = hScrollback h \<and> hRegistry h' = hRegistry h
    \<and> (\<forall>fr'. f' = Some fr' \<longrightarrow> ffClients fr' = cl)
    \<and> (\<forall>fr'. f' = Some fr' \<longrightarrow> scrollLines fr' \<noteq> [] \<longrightarrow> (\<exists>fr. f = Some fr \<and> scrollFirstIdx fr' = scrollFirstIdx fr))"
  using assms by (cases f) (auto simp: addClipboard_def frame_lines_def emptyFrame_def split: if_splits)

lemma buildFrame_ring:
  assumes "buildFrame now h = Some (f, held, h')" "ring_holds (hScrollback h) H" "clients (hRegistry h) \<noteq> []"
    and "length H + length (Drained (hScreen h)) < 2 ^ 64"
  shows "ring_holds (hScrollback h') (H @ frame_lines f) \<and> hRegistry h' = hRegistry h
    \<and> (\<forall>fr. f = Some fr \<longrightarrow> (ffClients fr, ffGens fr) = registry_Snapshot (hRegistry h)
        \<and> (scrollLines fr \<noteq> [] \<longrightarrow> unat (scrollFirstIdx fr) = length H))
    \<and> (held \<noteq> None \<longrightarrow> frame_lines f = [])"
proof -
  define k where "k = (if paletteChangedPending (at_time now h)
    then (at_time now h)\<lparr>hBuilder := builder_Reset (hBuilder (at_time now h)), paletteChangedPending := False\<rparr> else at_time now h)"
  have k: "hScrollback k = hScrollback h" "hRegistry k = hRegistry h" "Drained (hScreen k) = Drained (hScreen h)"
    by (simp_all add: k_def)
  obtain cl gens where sn: "registry_Snapshot (hRegistry h) = (cl, gens)" by (cases "registry_Snapshot (hRegistry h)")
  obtain settle h1 where s: "redrawHoldUntil now k = (settle, h1)" by (cases "redrawHoldUntil now k")
  note h1 = redrawHoldUntil_fields [OF s, unfolded k]
  define u where "u = later settle (if IsFlushHeld (hScreen k) then Some (FlushHoldUntil (hScreen k)) else None)"
  have run: "do {
       fh \<leftarrow> (if u = None then buildNow cl h1 else Some (None, h1));
       let (f, h) = addClipboard cl (addCleared fh);
       Some (map_option (\<lambda>fr. fr\<lparr>ffGens := gens\<rparr>) f, u, h) } = Some (f, held, h')"
    using assms(1,3) unfolding buildFrame_def Let_def at_time_fields sn prod.case k_def [symmetric] s u_def by simp
  obtain f0 h2 where b: "(if u = None then buildNow cl h1 else Some (None, h1)) = Some (f0, h2)"
    using run by (auto simp: bind_eq_Some_conv)
  have lines: "ring_holds (hScrollback h2) (H @ frame_lines f0) \<and> hRegistry h2 = hRegistry h
    \<and> (\<forall>fr. f0 = Some fr \<longrightarrow> unat (scrollFirstIdx fr) = length H \<and> ffClients fr = cl) \<and> (u \<noteq> None \<longrightarrow> f0 = None)"
  proof (cases "u = None")
    case True
    then have "buildNow cl h1 = Some (f0, h2)" using b by simp
    from buildNow_ring [OF this, of H] show ?thesis using assms(2,4) h1 k(3) True by simp
  next
    case False
    then show ?thesis using b assms(2) h1 by (auto simp: frame_lines_def)
  qed
  obtain f1 h3 where c: "addCleared (f0, h2) = (f1, h3)" by (cases "addCleared (f0, h2)")
  note cleared = addCleared_fields [OF c]
  obtain f2 h4 where p: "addClipboard cl (f1, h3) = (f2, h4)" by (cases "addClipboard cl (f1, h3)")
  have "\<forall>fr. f1 = Some fr \<longrightarrow> ffClients fr = cl" using cleared lines by auto
  note clip = addClipboard_fields [OF p this]
  have res: "f = map_option (\<lambda>fr. fr\<lparr>ffGens := gens\<rparr>) f2" "held = u" "h' = h4"
    using run b c p by simp_all
  have fl: "frame_lines f = frame_lines f0"
    using clip cleared unfolding res by (auto simp: frame_lines_def split: option.splits)
  have first: "unat (scrollFirstIdx fr) = length H" if x: "f2 = Some fr" "scrollLines fr \<noteq> []" for fr
  proof -
    obtain fr1 where f1: "f1 = Some fr1" "scrollFirstIdx fr = scrollFirstIdx fr1" using clip x by blast
    then obtain fr0 where "f0 = Some fr0" "scrollFirstIdx fr1 = scrollFirstIdx fr0" using cleared by blast
    with f1 lines show ?thesis by simp
  qed
  have cls: "ffClients fr = cl" if "f2 = Some fr" for fr using clip that by blast
  have "ring_holds (hScrollback h') (H @ frame_lines f) \<and> hRegistry h' = hRegistry h"
    using lines cleared clip fl unfolding res by simp
  moreover have "held \<noteq> None \<longrightarrow> frame_lines f = []"
    using lines fl unfolding res by (auto simp: frame_lines_def split: option.splits)
  moreover have "(ffClients fr, ffGens fr) = (cl, gens) \<and> (scrollLines fr \<noteq> [] \<longrightarrow> unat (scrollFirstIdx fr) = length H)"
    if fr: "f = Some fr" for fr
  proof -
    obtain fr2 where f2: "f2 = Some fr2" "fr = fr2\<lparr>ffGens := gens\<rparr>" using fr unfolding res by auto
    show ?thesis using cls [OF f2(1)] first [OF f2(1)] by (simp add: f2(2))
  qed
  ultimately show ?thesis unfolding sn by blast
qed

section \<open>What a dispatch sends\<close>

text \<open>The scroll frames of a frame, as a client that is served reads them.\<close>

definition scroll_tail :: "flushFrame \<Rightarrow> byte list list \<Rightarrow> bool" where
  "scroll_tail fr ps \<longleftrightarrow> (\<exists>pre ack. ps = pre @ scrollPayloads maxScrollLinesPerFrame ack (scrollFirstIdx fr) (scrollLines fr))"

lemma stamp_scroll: "map (\<lambda>p. withClientAck p ack) (scrollPayloads n a first ls) = scrollPayloads n ack first ls"
  using withClientAck_eq [of wireMsgScroll] by (simp add: scrollPayloads_def comp_def case_prod_unfold encodeScrollMsg_eq)

lemma chunksFrom_nil: "0 < n \<Longrightarrow> chunksFrom n k xs = [] \<longleftrightarrow> xs = []"
  by (subst chunksFrom.simps) simp

lemma set_present: "x \<in> set (present xs) \<longleftrightarrow> Some x \<in> set xs"
  by (auto simp: present_def split: option.splits)

lemma dispatch_carries_lines:
  assumes "scrollLines fr \<noteq> []" "ffClients fr ws \<noteq> None" "ffGens fr ws \<noteq> None" "ws \<in> set order"
  shows "\<exists>ps. (ws, ps) \<in> set (fst (dispatchFrame fr order r)) \<and> scroll_tail fr ps"
proof -
  obtain ack gen where f: "ffClients fr ws = Some ack" "ffGens fr ws = Some gen" using assms(2,3) by auto
  define scroll where "scroll = scrollPayloads maxScrollLinesPerFrame 0 (scrollFirstIdx fr) (scrollLines fr)"
  obtain pre where p: "framePayloads fr = (pre @ scroll, durableSubset (clipboardPayload fr) scroll)"
    by (simp add: framePayloads_def Let_def scroll_def)
  obtain pre' where d: "durableSubset (clipboardPayload fr) scroll = pre' @ scroll"
    by (cases "clipboardPayload fr") (auto simp: durableSubset_def)
  have ne: "scroll \<noteq> []" using assms(1)
    by (simp add: scroll_def scrollPayloads_def chunksFrom_nil maxScrollLinesPerFrame_def)
  obtain a pre'' where w: "writeClientPayloads ack gen (states r ws) (pre @ scroll) (pre' @ scroll)
      = Some (a, map (\<lambda>p. withClientAck p a) (pre'' @ scroll))"
  proof (cases "resumeGen (states r ws) = gen")
    case True
    then show ?thesis using ne that [of ack pre] by (simp add: writeClientPayloads_def)
  next
    case False
    then show ?thesis using ne that [of "lastAckSent (states r ws)" pre'] by (simp add: writeClientPayloads_def Let_def)
  qed
  define served where "served = (\<lambda>v. case (ffClients fr v, ffGens fr v) of
         (Some ack, Some gen) \<Rightarrow> map_option (Pair v) (writeClientPayloads ack gen (states r v) (pre @ scroll) (pre' @ scroll))
       | _ \<Rightarrow> None)"
  have sent: "fst (dispatchFrame fr order r) = map (\<lambda>(ws, _, ps). (ws, ps)) (present (map served order))"
    using ne by (simp add: dispatchFrame_def p d served_def Let_def)
  have "served ws = Some (ws, a, map (\<lambda>p. withClientAck p a) (pre'' @ scroll))"
    by (simp add: served_def f w)
  then have "(ws, a, map (\<lambda>p. withClientAck p a) (pre'' @ scroll)) \<in> set (present (map served order))"
    unfolding set_present using assms(4) by (metis image_eqI set_map)
  then have "(ws, map (\<lambda>p. withClientAck p a) (pre'' @ scroll)) \<in> set (fst (dispatchFrame fr order r))"
    unfolding sent by force
  moreover have "scroll_tail fr (map (\<lambda>p. withClientAck p a) (pre'' @ scroll))"
    unfolding scroll_tail_def map_append scroll_def stamp_scroll by blast
  ultimately show ?thesis by blast
qed

section \<open>What each operation does to history\<close>

lemma snapshot_ring:
  assumes "resumeSnapshot ht rm h = Some (b, k)" "ring_holds (hScrollback h) H"
    and "length H + length (Drained (hScreen h)) < 2 ^ 64"
  shows "ring_holds (hScrollback k) (H @ resume_lines h) \<and> hRegistry k = hRegistry h
    \<and> rb_replay b = drop (unat (rb_first b)) (H @ resume_lines h) \<and> unat (rb_first b) \<le> length (H @ resume_lines h)"
proof -
  let ?H = "H @ resume_lines h" let ?s = "dropDrained (hScreen h)" let ?b = "builder_Reset (hBuilder h)"
  let ?app = "if \<not> InAltScreen ?s \<and> \<not> altTransitionPending ?s ?b \<and> Drained (hScreen h) \<noteq> []
      then Append (Drained (hScreen h)) (DrainedWrapped (hScreen h)) (hScrollback h) else Some (hScrollback h)"
  have drain: "drainScrollback (hScreen h) = ((Drained (hScreen h), DrainedWrapped (hScreen h)), ?s)"
    by (simp add: drainScrollback_def DrainScrollback_def)
  obtain r where r: "?app = Some r"
    using assms(1) unfolding resumeSnapshot_def drain prod.case Let_def by (auto simp: bind_eq_Some_conv)
  have holds: "ring_holds r ?H"
  proof (cases "\<not> InAltScreen (hScreen h) \<and> \<not> altTransitionPending (hScreen h) (hBuilder h) \<and> Drained (hScreen h) \<noteq> []")
    case True
    then show ?thesis
      using r ring_push_holds [OF assms(2,3), of "DrainedWrapped (hScreen h)"] by (simp add: resume_lines_eq ensures_iff)
  next
    case False
    then have "resume_lines h = []" by (auto simp: resume_lines_eq)
    with r False assms(2) show ?thesis by auto
  qed
  obtain first where f: "LinesFrom (replayStart (Committed r) ht rm) r = Some (first, drop (unat first) ?H)"
    "unat first \<le> length ?H"
    using linesFrom_eq [OF holds, of "replayStart (Committed r) ht rm"] by (auto split: if_splits simp del: length_append)
  show ?thesis
    using assms(1) holds f(2) unfolding resumeSnapshot_def drain prod.case Let_def r Option.bind.bind_lunit f(1)
    by (auto simp: bind_eq_Some_conv)
qed

lemma resolve_clients:
  "ResolveSession ws sid now ids r = ((ack, created, displaced), q) \<Longrightarrow> clients q = clients r"
  by (auto simp: ResolveSession_def resolveAttach_def resolveLeave_def resolveOwn_def createLedger_def gcIdleSessions_def
      evictOldestSession_def ledger_release_def Let_def set_state_def set_ledger_def
      split: prod.splits option.splits if_splits)

text \<open>What a resume is made of.\<close>

lemma handleResume_parts:
  assumes "handleResume ws sid ht sb rm now ids h = Some ((False, displaced, frames), h')"
  shows "\<exists>b k. resumeSnapshot ht rm h = Some (b, k) \<and> hScrollback h' = hScrollback k
    \<and> clients (hRegistry h') = clients (hRegistry h) \<and> (\<exists>ack flags. frames = batchFrames ack (bootEpoch k) flags b)"
proof -
  obtain ack created dis r where rs: "ResolveSession ws sid now ids (hRegistry h) = ((ack, created, dis), r)"
    by (metis prod.exhaust)
  have "\<not> fenced (states r ws)" using assms by (auto simp: handleResume_def rs Let_def)
  let ?r = "set_state ws (\<lambda>c. c\<lparr>resumeGen := resumeGen c + 1\<rparr>) r"
  obtain b k where s: "resumeSnapshot ht rm (h\<lparr>hRegistry := ?r\<rparr>) = Some (b, k)"
    using assms \<open>\<not> fenced (states r ws)\<close> by (auto simp: handleResume_def rs Let_def bind_eq_Some_conv)
  have reg: "resumeSnapshot ht rm (h\<lparr>hRegistry := q\<rparr>)
      = map_option (\<lambda>(b, k). (b, k\<lparr>hRegistry := q\<rparr>)) (resumeSnapshot ht rm h)" for q
    by (auto simp: resumeSnapshot_def Let_def split: prod.splits Option.bind_splits)
  then obtain k0 where k0: "resumeSnapshot ht rm h = Some (b, k0)" "k = k0\<lparr>hRegistry := ?r\<rparr>"
    using s by (auto simp: reg)
  have "h' = markDirty (k\<lparr>hRegistry := set_state ws (lastAckSent_update (\<lambda>_. ack)) (hRegistry k)\<rparr>)
    \<and> (\<exists>flags. frames = batchFrames ack (bootEpoch k) flags b)"
    using assms \<open>\<not> fenced (states r ws)\<close> s by (auto simp: handleResume_def rs Let_def)
  then show ?thesis
    using k0 resolve_clients [OF rs] by (auto simp: markDirty_def)
qed

lemma focusReport_fields:
  "hScrollback (snd (focusReportLocked f h)) = hScrollback h" "hRegistry (snd (focusReportLocked f h)) = hRegistry h"
  "hScrollback (snd (reportFocus h)) = hScrollback h" "hRegistry (snd (reportFocus h)) = hRegistry h"
  by (simp_all add: reportFocus_def focusReportLocked_def Let_def)

lemma ptyData_ring:
  assumes "handlePTYData now dat h = Some (bs, h')"
  shows "hScrollback h' \<in> {hScrollback h, ring_clear (hScrollback h)} \<and> hRegistry h' = hRegistry h"
proof -
  obtain s where s: "hScrollback h' = (if fst (TakeScrollbackCleared s) then ring_clear (hScrollback h) else hScrollback h)
    \<and> hRegistry h' = hRegistry h"
    using assms unfolding handlePTYData_def Let_def case_prod_unfold bind_eq_Some_conv option.inject prod.inject
    by (elim exE conjE, intro that, hypsubst)
      (simp add: markDirty_def focusReport_fields if_distrib [of hScrollback] if_distrib [of hRegistry] cong: if_cong)
  then show ?thesis by simp
qed

text \<open>The operations that never touch history.  Another socket may come and go; \<open>ws\<close> stays.\<close>

inductive idle_step :: "sock \<Rightarrow> handler \<Rightarrow> handler \<Rightarrow> bool" for ws where
  resize: "handleResize v cols rows spawned taken now h = Some (closed, h') \<Longrightarrow> idle_step ws h h'"
| heal: "healSize taken now h = Some h' \<Longrightarrow> idle_step ws h h'"
| focus: "focusControl v f h = (bs, h') \<Longrightarrow> idle_step ws h h'"
| input: "inputFrame an v msg armed h = Some ((fr, es), h') \<Longrightarrow> idle_step ws h h'"
| ephemeral: "ephemeralInputControl an v c h = (es, h') \<Longrightarrow> idle_step ws h h'"
| join: "attachClient v h = (es, h') \<Longrightarrow> idle_step ws h h'"
| leave: "v \<noteq> ws \<Longrightarrow> detachClient v now h = (es, h') \<Longrightarrow> idle_step ws h h'"
| sweep: "sweepAcks order h = (sent, h') \<Longrightarrow> idle_step ws h h'"
| exit: "idle_step ws h (monitorExit h)"
| close: "idle_step ws h (handler_Close h)"

definition keeps_history :: "sock \<Rightarrow> handler \<Rightarrow> handler \<Rightarrow> bool" where
  "keeps_history ws h h' \<longleftrightarrow> hScrollback h' = hScrollback h
     \<and> (ws \<in> set (clients (hRegistry h)) \<longrightarrow> ws \<in> set (clients (hRegistry h')))"

lemma ensureStarted_fields:
  "ensureStarted cols rows spawned h = Some (err, h') \<Longrightarrow> hScrollback h' = hScrollback h \<and> hRegistry h' = hRegistry h"
  by (auto simp: ensureStarted_def Let_def bind_eq_Some_conv split: if_splits)

lemma applySize_fields:
  assumes "applySize cols rows taken now h = Some h'"
  shows "hScrollback h' = hScrollback h \<and> hRegistry h' = hRegistry h"
  using assms unfolding applySize_def Let_def
  by (auto simp: bind_eq_Some_conv markDirty_def armRedrawSettle_def split: prod.splits if_splits)

lemma handleResize_keeps:
  assumes "handleResize v cols rows spawned taken now h = Some (closed, h')"
  shows "keeps_history ws h h'"
proof -
  obtain c r where cl: "clampResize cols rows = (c, r)" by (metis prod.exhaust)
  obtain err k where e: "ensureStarted c r spawned h = Some (err, k)"
    using assms by (auto simp: handleResize_def cl bind_eq_Some_conv)
  note k = ensureStarted_fields [OF e]
  show ?thesis
  proof (cases err)
    case None
    then obtain k' where "applySize c r taken now (k\<lparr>hRegistry := RecordSize v c r (hRegistry k)\<rparr>) = Some k'" "k' = h'"
      using assms by (auto simp: handleResize_def cl e bind_eq_Some_conv)
    from applySize_fields [OF this(1)] this(2) k show ?thesis by (simp add: keeps_history_def RecordSize_def)
  qed (use assms k in \<open>auto simp: handleResize_def cl e keeps_history_def\<close>)
qed

lemma healSize_keeps: "healSize taken now h = Some h' \<Longrightarrow> keeps_history ws h h'"
  unfolding healSize_def Let_def keeps_history_def
  by (auto dest!: applySize_fields split: option.splits prod.splits if_splits)

lemma inputFrame_keeps:
  assumes "inputFrame an v msg armed h = Some ((fr, es), h')"
  shows "keeps_history ws h h'"
proof -
  obtain err k where s: "(if started h then Some (None, h) else ensureStarted 0 0 (an_spawned an) h) = Some (err, k)"
    using assms unfolding inputFrame_def by (auto simp: bind_eq_Some_conv)
  then have k: "hScrollback k = hScrollback h \<and> hRegistry k = hRegistry h"
    by (auto dest: ensureStarted_fields split: if_splits)
  obtain applied failed wrote r where w: "ApplyInput v msg (an_ptyErr an) (an_now an) (hRegistry k) = ((applied, failed, wrote), r)"
    by (metis prod.exhaust)
  have "clients r = clients (hRegistry k)"
    using w by (auto simp: ApplyInput_def touchLedger_def input_fields split: prod.splits if_splits option.splits)
  then show ?thesis
    using assms k w unfolding inputFrame_def s Let_def by (auto simp: keeps_history_def markDirty_def split: if_splits)
qed

lemma detachClient_keeps:
  assumes "v \<noteq> ws" "detachClient v now h = (es, h')"
  shows "keeps_history ws h h'"
proof -
  obtain c r s q where rm: "removeLocked v now (hRegistry h) = ((c, r, s), q)" by (metis prod.exhaust)
  obtain z where z: "registry_Remove v now (hRegistry h) = ((c, r), z)" "clients z = removeAll v (clients (hRegistry h))"
    using remove_fields(1) [OF rm] by (cases s) (auto simp: registry_Remove_def rm release_fields)
  obtain bs k where f: "reportFocus (h\<lparr>hRegistry := z\<rparr>) = (bs, k)" by (metis prod.exhaust)
  have k: "hScrollback k = hScrollback h" "hRegistry k = z"
    using focusReport_fields(3,4) [of "h\<lparr>hRegistry := z\<rparr>"] by (simp_all add: f)
  have "h' = maybeHealSize c r k" using assms(2) by (simp add: detachClient_def z(1) f Let_def)
  then show ?thesis using k z(2) assms(1) by (auto simp: keeps_history_def maybeHealSize_def)
qed

lemma closing_keeps: "keeps_history ws h (monitorExit h)" "keeps_history ws h (handler_Close h)"
  by (simp_all add: monitorExit_def handler_Close_def closePTYLocked_def keeps_history_def Let_def)

lemma idle_step_keeps: "idle_step ws h h' \<Longrightarrow> keeps_history ws h h'"
proof (induction rule: idle_step.induct)
  case (focus v f h bs h')
  then show ?case
    using focusReport_fields(3,4) [of "h\<lparr>hRegistry := SetClientFocus v f (hRegistry h)\<rparr>"]
    by (simp add: focusControl_def keeps_history_def SetClientFocus_def)
next
  case (join v h es h')
  let ?k = "markDirty (h\<lparr>hRegistry := registry_Add v (hRegistry h), hBuilder := builder_Reset (hBuilder h)\<rparr>)"
  have "h' = snd (reportFocus ?k)" using join by (simp add: attachClient_def Let_def case_prod_unfold)
  then show ?case using focusReport_fields(3,4) [of ?k]
    by (simp add: keeps_history_def registry_Add_def markDirty_def)
next
  case (sweep order h sent h')
  then show ?case using quiet_sweep [of "hRegistry h"]
    by (auto simp: sweepAcks_def keeps_history_def quiet_def split: prod.splits)
next
  case (ephemeral an v c h es h')
  then show ?case by (auto simp: ephemeralInputControl_def keeps_history_def markDirty_def split: if_splits)
qed (auto intro: handleResize_keeps healSize_keeps inputFrame_keeps detachClient_keeps closing_keeps)

section \<open>The session of an attached client\<close>

record live =
  lv :: handler
  hist :: "wire_run list list"
  inFlight :: "flushFrame option"
  got :: "nat \<Rightarrow> wire_run list option"
  leftOut :: "nat set"

text \<open>A run that commits fewer than \<open>2 ^ 64\<close> lines.\<close>

definition room :: "live \<Rightarrow> bool" where
  "room n \<longleftrightarrow> length (hist n) + length (Drained (hScreen (lv n))) < 2 ^ 64"

text \<open>\<open>ws\<close> stays attached.  The writer serves every client of the frame, \<open>ws\<close> among them, once; the client stores the
  chunks of lines it is sent.  \<open>leftOut\<close> holds the lines no frame carries to \<open>ws\<close> when they are committed: those of
  another client's resume, and those its own resume leaves out of its replay.\<close>

inductive live_step :: "sock \<Rightarrow> live \<Rightarrow> live \<Rightarrow> bool" for ws where
  child_output: "handlePTYData now dat (lv n) = Some (bs, h) \<Longrightarrow> live_step ws n (n\<lparr>lv := h\<rparr>)"
| idle: "idle_step ws (lv n) h \<Longrightarrow> live_step ws n (n\<lparr>lv := h\<rparr>)"
| build: "inFlight n = None \<Longrightarrow> room n \<Longrightarrow> buildFrame now (lv n) = Some (f, held, h) \<Longrightarrow>
    live_step ws n (n\<lparr>lv := h, hist := hist n @ frame_lines f, inFlight := f\<rparr>)"
| write_frame: "inFlight n = Some fr \<Longrightarrow> ws \<in> set order \<Longrightarrow> dispatchFrame fr order (hRegistry (lv n)) = (sent, r) \<Longrightarrow>
    live_step ws n (n\<lparr>lv := (lv n)\<lparr>hRegistry := r\<rparr>, inFlight := None,
      got := (if \<exists>ps. (ws, ps) \<in> set sent \<and> scroll_tail fr ps
        then deliver_chunks maxScrollLinesPerFrame (unat (scrollFirstIdx fr)) (scrollLines fr) (got n) else got n)\<rparr>)"
| resume: "room n \<Longrightarrow> resumeSnapshot ht rm (lv n) = Some (b, k) \<Longrightarrow>
    handleResume ws sid ht sb rm now ids (lv n) = Some ((False, displaced, frames), h) \<Longrightarrow>
    live_step ws n (n\<lparr>lv := h, hist := hist n @ resume_lines (lv n),
      got := deliver_chunks replayChunk (unat (rb_first b)) (rb_replay b) (got n),
      leftOut := leftOut n \<union> {length (hist n)..<unat (rb_first b)}\<rparr>)"
| other_resume: "room n \<Longrightarrow> v \<noteq> ws \<Longrightarrow>
    handleResume v sid ht sb rm now ids (lv n) = Some ((False, displaced, frames), h) \<Longrightarrow>
    live_step ws n (n\<lparr>lv := h, hist := hist n @ resume_lines (lv n),
      leftOut := leftOut n \<union> {length (hist n)..<length (hist n) + length (resume_lines (lv n))}\<rparr>)"

inductive_cases live_stepE: "live_step ws n n'"

text \<open>Just attached: nothing sent yet.\<close>

definition live_start :: "sock \<Rightarrow> nat \<Rightarrow> live \<Rightarrow> bool" where
  "live_start ws since n \<longleftrightarrow> ring_holds (hScrollback (lv n)) (hist n) \<and> ws \<in> set (clients (hRegistry (lv n)))
     \<and> inFlight n = None \<and> got n = Map.empty \<and> leftOut n = {} \<and> since = length (hist n)"

definition flying :: "live \<Rightarrow> nat set" where
  "flying n = (case inFlight n of None \<Rightarrow> {} | Some fr \<Rightarrow>
     {unat (scrollFirstIdx fr)..<unat (scrollFirstIdx fr) + length (scrollLines fr)})"

definition flight_ok :: "sock \<Rightarrow> live \<Rightarrow> bool" where
  "flight_ok ws n \<longleftrightarrow> (case inFlight n of None \<Rightarrow> True | Some fr \<Rightarrow> scrollLines fr \<noteq> [] \<longrightarrow>
     ffClients fr ws \<noteq> None \<and> ffGens fr ws \<noteq> None
     \<and> unat (scrollFirstIdx fr) + length (scrollLines fr) \<le> length (hist n)
     \<and> scrollLines fr = take (length (scrollLines fr)) (drop (unat (scrollFirstIdx fr)) (hist n)))"

definition covered :: "nat \<Rightarrow> live \<Rightarrow> bool" where
  "covered since n \<longleftrightarrow> (\<forall>i. since \<le> i \<and> i < length (hist n) \<and> i \<notin> leftOut n \<and> i \<notin> flying n
     \<longrightarrow> got n i = Some (hist n ! i))"

definition live_inv :: "sock \<Rightarrow> nat \<Rightarrow> live \<Rightarrow> bool" where
  "live_inv ws since n \<longleftrightarrow> ring_holds (hScrollback (lv n)) (hist n) \<and> ws \<in> set (clients (hRegistry (lv n)))
     \<and> flight_ok ws n \<and> agrees (got n) (hist n) \<and> covered since n"

text \<open>History only grows, and what a client holds of it stays right.\<close>

lemma flight_grow:
  "flight_ok ws n \<Longrightarrow> hist n' = hist n @ ls \<Longrightarrow> inFlight n' = inFlight n \<Longrightarrow> flight_ok ws n'"
  by (auto simp: flight_ok_def take_append split: option.splits)

lemma slice_nth:
  assumes "k + length ls \<le> length H" "ls = take (length ls) (drop k H)" "k \<le> i" "i < k + length ls"
  shows "ls ! (i - k) = H ! i"
  by (subst assms(2)) (use assms(1,3,4) in simp)

lemma agrees_slice:
  assumes "agrees m H" "k + length ls \<le> length H" "ls = take (length ls) (drop k H)"
  shows "agrees (deliver (k, ls) m) H"
  using assms(1,2) slice_nth [OF assms(2,3)] by (auto simp: agrees_def deliver_def split: if_splits)

lemma deliver_slice:
  assumes "k + length ls \<le> length H" "ls = take (length ls) (drop k H)" "k \<le> i" "i < k + length ls"
  shows "deliver (k, ls) m i = Some (H ! i)"
  using slice_nth [OF assms] assms(3,4) by (simp add: deliver_def)

lemma covered_grow:
  assumes "covered since n" "hist n' = hist n @ ls" "got n' = got n" "flying n \<subseteq> flying n'"
    and "leftOut n \<subseteq> leftOut n'"
    and "\<And>i. length (hist n) \<le> i \<Longrightarrow> i < length (hist n) + length ls \<Longrightarrow> i \<in> flying n' \<or> i \<in> leftOut n'"
  shows "covered since n'"
  using assms unfolding covered_def by (auto simp: nth_append) (metis leI)+

lemma live_grow:
  assumes "live_inv ws since n" "hist n' = hist n @ ls" "got n' = got n" "inFlight n' = inFlight n"
    and "leftOut n' = leftOut n \<union> {length (hist n)..<length (hist n) + length ls}"
    and "ring_holds (hScrollback (lv n')) (hist n')" "ws \<in> set (clients (hRegistry (lv n')))"
  shows "live_inv ws since n'"
proof -
  have "flying n' = flying n" using assms(4) by (simp add: flying_def)
  then have "covered since n'"
    using covered_grow [of since n n' ls] assms(1-3,5) by (auto simp: live_inv_def)
  then show ?thesis
    using assms flight_grow [OF _ assms(2,4)] agrees_push [of "got n" "hist n" ls] by (simp add: live_inv_def)
qed

lemma live_unchanged:
  assumes "live_inv ws since n" "ring_holds (hScrollback h) (hist n)" "ws \<in> set (clients (hRegistry h))"
  shows "live_inv ws since (n\<lparr>lv := h\<rparr>)"
  by (rule live_grow [OF assms(1), of _ "[]"]) (use assms(2,3) in auto)

lemma live_step_inv:
  assumes "live_step ws n n'" "live_inv ws since n"
  shows "live_inv ws since n'"
  using assms(1)
proof cases
  case (child_output now dat bs h)
  note o = ptyData_ring [OF child_output(2)]
  have "ring_holds (hScrollback h) (hist n)"
    using o assms(2) ring_clear_holds by (auto simp: live_inv_def)
  then show ?thesis unfolding child_output(1) using o assms(2) by (intro live_unchanged) (auto simp: live_inv_def)
next
  case (idle h)
  then show ?thesis unfolding idle(1) using idle_step_keeps [OF idle(2)] assms(2)
    by (intro live_unchanged) (auto simp: keeps_history_def live_inv_def)
next
  case (build now f held h)
  have inv: "ring_holds (hScrollback (lv n)) (hist n)" "ws \<in> set (clients (hRegistry (lv n)))" "agrees (got n) (hist n)"
    "covered since n" using assms(2) by (simp_all add: live_inv_def)
  then have "clients (hRegistry (lv n)) \<noteq> []" by auto
  note b = buildFrame_ring [OF build(4) inv(1) this build(3) [unfolded room_def]]
  have fl: "flying n' = {length (hist n)..<length (hist n) + length (frame_lines f)}"
    using b by (cases f) (auto simp: build(1) flying_def frame_lines_def)
  have "covered since n'"
  proof (rule covered_grow [OF inv(4), of _ "frame_lines f"])
    show "flying n \<subseteq> flying n'" by (simp add: flying_def build(2))
    show "i \<in> flying n' \<or> i \<in> leftOut n'"
      if "length (hist n) \<le> i" "i < length (hist n) + length (frame_lines f)" for i
      unfolding fl using that by simp
  qed (simp_all add: build(1))
  moreover have "flight_ok ws n'"
    using b inv(2) by (cases f) (auto simp: build(1) flight_ok_def frame_lines_def registry_Snapshot_def)
  ultimately show ?thesis using b inv agrees_push [OF inv(3), of "frame_lines f"] by (simp add: live_inv_def build(1))
next
  case (write_frame fr order sent r)
  let ?ls = "scrollLines fr" let ?k = "unat (scrollFirstIdx fr)"
  have chunks: "deliver_chunks maxScrollLinesPerFrame ?k ?ls m = deliver (?k, ?ls) m" for m
    by (simp add: deliver_chunks_eq maxScrollLinesPerFrame_def)
  have cl: "clients r = clients (hRegistry (lv n))"
    using write_frame(4) quiet_note by (auto simp: dispatchFrame_def quiet_def Let_def split: prod.splits if_splits)
  have inv: "live_inv ws since n" by (rule assms(2))
  show ?thesis
  proof (cases "?ls = []")
    case True
    then have g: "got n' = got n" using chunks [unfolded True, of "got n"] by (simp add: write_frame(1))
    have "covered since n'" using inv True unfolding covered_def g
      by (simp add: write_frame(1) covered_def flying_def write_frame(2) live_inv_def)
    then show ?thesis using inv unfolding live_inv_def g
      by (simp add: write_frame(1) flight_ok_def cl)
  next
    case False
    then have f: "ffClients fr ws \<noteq> None" "ffGens fr ws \<noteq> None" "?k + length ?ls \<le> length (hist n)"
      "?ls = take (length ?ls) (drop ?k (hist n))"
      using inv by (simp_all add: live_inv_def flight_ok_def write_frame(2))
    have "\<exists>ps. (ws, ps) \<in> set sent \<and> scroll_tail fr ps"
      using dispatch_carries_lines [OF False f(1,2) write_frame(3), of "hRegistry (lv n)"] write_frame(4) by simp
    then have g: "got n' = deliver (?k, ?ls) (got n)" by (simp add: write_frame(1) chunks)
    have "got n' i = Some (hist n ! i)"
      if "since \<le> i" "i < length (hist n)" "i \<notin> leftOut n" for i
    proof (cases "?k \<le> i \<and> i < ?k + length ?ls")
      case True
      then show ?thesis unfolding g using deliver_slice [OF f(3,4)] by simp
    next
      case False
      then have "got n i = Some (hist n ! i)"
        using inv that by (simp add: live_inv_def covered_def flying_def write_frame(2))
      with False show ?thesis unfolding g by (auto simp: deliver_def)
    qed
    then have "covered since n'" by (simp add: covered_def write_frame(1))
    moreover have "agrees (got n') (hist n)"
      unfolding g using inv agrees_slice [OF _ f(3,4)] by (simp add: live_inv_def)
    ultimately show ?thesis using inv by (simp add: live_inv_def write_frame(1) flight_ok_def cl)
  qed
next
  case (resume ht rm b k sid sb now ids displaced frames h)
  let ?H = "hist n @ resume_lines (lv n)" let ?k = "unat (rb_first b)"
  have inv: "live_inv ws since n" by (rule assms(2))
  note s = snapshot_ring [OF resume(3) _ resume(2) [unfolded room_def]]
  have ring: "ring_holds (hScrollback k) ?H" "rb_replay b = drop ?k ?H" "?k \<le> length ?H"
    using s inv by (simp_all add: live_inv_def)
  have h: "hScrollback h = hScrollback k" "clients (hRegistry h) = clients (hRegistry (lv n))"
    using handleResume_parts [OF resume(4)] resume(3) by auto
  have g: "got n' = (\<lambda>i. if ?k \<le> i \<and> i < length ?H then Some (?H ! i) else got n i)"
  proof -
    have "got n' = deliver (?k, drop ?k ?H) (got n)"
      unfolding ring(2) [symmetric] by (simp add: resume(1) deliver_chunks_eq replayChunk_def)
    then show ?thesis by (simp only: deliver_suffix [OF ring(3)])
  qed
  have fl: "flying n' = flying n" by (simp add: resume(1) flying_def)
  have "covered since n'"
    unfolding covered_def
  proof (intro allI impI, elim conjE)
    fix i assume i: "since \<le> i" "i < length (hist n')" "i \<notin> leftOut n'" "i \<notin> flying n'"
    have H: "hist n' = ?H" by (simp add: resume(1))
    show "got n' i = Some (hist n' ! i)"
    proof (cases "?k \<le> i")
      case True
      then show ?thesis using i(2) unfolding H g by (simp del: length_append)
    next
      case False
      then have "i < length (hist n)" "i \<notin> leftOut n" using i(3) by (auto simp: resume(1))
      then have "got n i = Some (hist n ! i)" using inv i(1,4) fl by (simp add: live_inv_def covered_def)
      with False \<open>i < length (hist n)\<close> show ?thesis unfolding H g by (simp add: nth_append)
    qed
  qed
  moreover have "agrees (got n') ?H"
    using inv agrees_push [of "got n" "hist n" "resume_lines (lv n)"] unfolding g
    by (simp add: live_inv_def agrees_def del: length_append)
  moreover have "flight_ok ws n'"
    by (rule flight_grow [of _ n _ "resume_lines (lv n)"]) (use inv in \<open>auto simp: resume(1) live_inv_def\<close>)
  ultimately show ?thesis using ring h inv by (simp add: live_inv_def resume(1))
next
  case (other_resume v sid ht sb rm now ids displaced frames h)
  have inv: "live_inv ws since n" by (rule assms(2))
  obtain b k where k: "resumeSnapshot ht rm (lv n) = Some (b, k)" "hScrollback h = hScrollback k"
    "clients (hRegistry h) = clients (hRegistry (lv n))"
    using handleResume_parts [OF other_resume(4)] by blast
  have "ring_holds (hScrollback k) (hist n @ resume_lines (lv n))"
    using snapshot_ring [OF k(1) _ other_resume(2) [unfolded room_def]] inv by (simp add: live_inv_def)
  then show ?thesis
    by (intro live_grow [OF inv, of _ "resume_lines (lv n)"]) (use k inv in \<open>auto simp: other_resume(1) live_inv_def\<close>)
qed

lemma live_start_inv: "live_start ws since n \<Longrightarrow> live_inv ws since n"
  by (auto simp: live_start_def live_inv_def flight_ok_def agrees_def covered_def)

interpretation live: step_system "live_start ws since" "live_step ws" "live_inv ws since" for ws since
  by unfold_locales (auto intro: live_start_inv live_step_inv)


text \<open>Socket 7 on a session with three committed lines, which is then closed.\<close>

definition demoAttached :: live where
  "demoAttached = \<lparr>lv = demoHandler\<lparr>hScrollback := demoRing, hRegistry := registry_Add 7 newClientRegistry\<rparr>,
     hist = [[], [], [demoRun]], inFlight = None, got = Map.empty, leftOut = {}\<rparr>"


end
