(* ===== verification/Scheduler.thy ===== *)
theory Scheduler
  imports Handler
begin

text \<open>
  The flush scheduler (\<open>src/terminal/terminal.go\<close>: \<^verbatim>\<open>flushLoop\<close>, \<^verbatim>\<open>flushBurst\<close> and its three waits) as a timed transition
  system.  The phase is the wait the goroutine is blocked in, or the pass it runs; a timer is its deadline;
  \<^verbatim>\<open>h.dirty\<close> is a channel that buffers one poke.  Where a \<^verbatim>\<open>select\<close> has several ready cases any may be taken.  Time
  advances only while the goroutine has nothing to do, and a pass lasts at most \<open>W\<close>.  What a pass returns (the end of a
  hold, if one suppressed it) is free.

  The lemmas show that a poke is served promptly, that passes are paced, and that the scheduler is never stuck.
\<close>

definition flushInterval :: int where "flushInterval = 50000000"

datatype sched_phase =
    WaitDirty
  | HoldRetry int
  | BatchWindow int bool
  | Passing int
  | Ended

record sched =
  ph :: sched_phase
  dirtyChan :: bool
  clock :: int
  lastEnd :: "(int \<times> bool) option"
  unserved :: "int option"

definition startPass :: "sched \<Rightarrow> sched" where
  "startPass s = s\<lparr>ph := Passing (clock s), dirtyChan := False, unserved := None\<rparr>"

text \<open>A timed pass is the same, but leaves a poke in the channel where it is.\<close>

definition startTimedPass :: "sched \<Rightarrow> sched" where
  "startTimedPass s = s\<lparr>ph := Passing (clock s), unserved := None\<rparr>"

text \<open>The first poke since the last pass began is remembered with its time.\<close>

definition poke :: "sched \<Rightarrow> sched" where
  "poke s = s\<lparr>dirtyChan := True, unserved := (case unserved s of None \<Rightarrow> Some (clock s) | Some p \<Rightarrow> Some p)\<rparr>"

definition waitForDirty :: "sched \<Rightarrow> sched option" where
  "waitForDirty s = (if ph s = WaitDirty \<and> dirtyChan s then Some (startPass s) else None)"

text \<open>After a pass: a hold arms a retry at its end, else a batch window opens.\<close>

definition flushBurst :: "int option \<Rightarrow> sched \<Rightarrow> sched option" where
  "flushBurst hold s = (case ph s of
     Passing t \<Rightarrow> Some (s\<lparr>lastEnd := Some (clock s, hold \<noteq> None),
       ph := (case hold of Some u \<Rightarrow> HoldRetry (max u (clock s)) | None \<Rightarrow> BatchWindow (clock s + flushInterval) False)\<rparr>)
   | _ \<Rightarrow> None)"

text \<open>Each wait by the case taken: the poke or the timer.\<close>

definition waitForHoldRetry :: "bool \<Rightarrow> sched \<Rightarrow> sched option" where
  "waitForHoldRetry timer s = (case ph s of
     HoldRetry u \<Rightarrow> if timer then (if clock s \<ge> u then Some (startTimedPass s) else None)
       else if dirtyChan s then Some (startPass s) else None
   | _ \<Rightarrow> None)"

definition waitForBatchWindow :: "bool \<Rightarrow> sched \<Rightarrow> sched option" where
  "waitForBatchWindow timer s = (case ph s of
     BatchWindow e gotMore \<Rightarrow>
       if timer then (if clock s < e then None else if gotMore then Some (startTimedPass s) else Some (s\<lparr>ph := WaitDirty\<rparr>))
       else if dirtyChan s \<and> \<not> gotMore then Some (s\<lparr>ph := BatchWindow e True, dirtyChan := False\<rparr>) else None
   | _ \<Rightarrow> None)"

text \<open>Whether \<open>d\<close> may pass: nothing is ready, and no timer or pass ends before.\<close>

definition may_advance :: "int \<Rightarrow> int \<Rightarrow> sched \<Rightarrow> bool" where
  "may_advance W d s \<longleftrightarrow> 0 < d \<and> (case ph s of
     WaitDirty \<Rightarrow> \<not> dirtyChan s
   | HoldRetry u \<Rightarrow> \<not> dirtyChan s \<and> clock s + d \<le> u
   | BatchWindow e gotMore \<Rightarrow> (gotMore \<or> \<not> dirtyChan s) \<and> clock s + d \<le> e
   | Passing t \<Rightarrow> clock s + d \<le> t + W
   | Ended \<Rightarrow> True)"

inductive sched_step :: "int \<Rightarrow> sched \<Rightarrow> sched \<Rightarrow> bool" for W where
  poked: "sched_step W s (poke s)"
| advance: "may_advance W d s \<Longrightarrow> sched_step W s (s\<lparr>clock := clock s + d\<rparr>)"
| dirty_seen: "waitForDirty s = Some s' \<Longrightarrow> sched_step W s s'"
| pass_end: "flushBurst hold s = Some s' \<Longrightarrow> sched_step W s s'"
| hold_retry: "waitForHoldRetry timer s = Some s' \<Longrightarrow> sched_step W s s'"
| batch_window: "waitForBatchWindow timer s = Some s' \<Longrightarrow> sched_step W s s'"
| cancelled: "sched_step W s (s\<lparr>ph := Ended\<rparr>)"

inductive_cases sched_stepE: "sched_step W s s'"

definition newSched :: "int \<Rightarrow> sched" where
  "newSched now = \<lparr>ph = WaitDirty, dirtyChan = False, clock = now, lastEnd = None, unserved = None\<rparr>"

section \<open>Invariant\<close>

text \<open>How old an unserved poke may be, phase by phase.\<close>

definition prompt :: "int \<Rightarrow> sched \<Rightarrow> bool" where
  "prompt W s \<longleftrightarrow> (case unserved s of None \<Rightarrow> True | Some p \<Rightarrow> p \<le> clock s \<and> (case ph s of
     WaitDirty \<Rightarrow> dirtyChan s \<and> clock s \<le> p + W + flushInterval
   | HoldRetry u \<Rightarrow> dirtyChan s \<and> clock s \<le> p + W
   | BatchWindow e gotMore \<Rightarrow> (dirtyChan s \<or> gotMore) \<and> e \<le> p + W + flushInterval
   | Passing t \<Rightarrow> t \<le> p \<and> dirtyChan s
   | Ended \<Rightarrow> True))"

text \<open>What the phase says about the clock and the pass before.\<close>

definition paced_phase :: "int \<Rightarrow> sched \<Rightarrow> bool" where
  "paced_phase W s \<longleftrightarrow> (case ph s of
     WaitDirty \<Rightarrow> (\<forall>u. lastEnd s = Some (u, False) \<longrightarrow> u + flushInterval \<le> clock s)
       \<and> (\<forall>u. lastEnd s \<noteq> Some (u, True))
   | HoldRetry u \<Rightarrow> (\<exists>v. lastEnd s = Some (v, True)) \<and> clock s \<le> u
   | BatchWindow e gotMore \<Rightarrow> lastEnd s = Some (e - flushInterval, False) \<and> clock s \<le> e \<and> e \<le> clock s + flushInterval
   | Passing t \<Rightarrow> (\<forall>u. lastEnd s = Some (u, False) \<longrightarrow> u + flushInterval \<le> t) \<and> t \<le> clock s \<and> clock s \<le> t + W
   | Ended \<Rightarrow> True)"

definition sched_inv :: "int \<Rightarrow> sched \<Rightarrow> bool" where
  "sched_inv W s \<longleftrightarrow> prompt W s \<and> paced_phase W s"

lemmas sched_defs = sched_inv_def prompt_def paced_phase_def flushInterval_def

lemma poke_inv: "0 \<le> W \<Longrightarrow> sched_inv W s \<Longrightarrow> sched_inv W (poke s)"
  by (cases "ph s") (auto simp: sched_defs poke_def split: option.splits)

lemma advance_inv: "may_advance W d s \<Longrightarrow> sched_inv W s \<Longrightarrow> sched_inv W (s\<lparr>clock := clock s + d\<rparr>)"
  by (cases "ph s") (auto simp: sched_defs may_advance_def split: option.splits)

lemma waitForDirty_inv: "0 \<le> W \<Longrightarrow> waitForDirty s = Some s' \<Longrightarrow> sched_inv W s \<Longrightarrow> sched_inv W s'"
  by (auto simp: sched_defs waitForDirty_def startPass_def split: if_splits)

lemma flushBurst_inv: "flushBurst hold s = Some s' \<Longrightarrow> sched_inv W s \<Longrightarrow> sched_inv W s'"
  by (cases "ph s") (auto simp: sched_defs flushBurst_def split: option.splits)

lemma holdRetry_inv: "0 \<le> W \<Longrightarrow> waitForHoldRetry timer s = Some s' \<Longrightarrow> sched_inv W s \<Longrightarrow> sched_inv W s'"
  by (cases "ph s") (auto simp: sched_defs waitForHoldRetry_def startPass_def startTimedPass_def split: option.splits if_splits)

lemma batchWindow_inv: "0 \<le> W \<Longrightarrow> waitForBatchWindow timer s = Some s' \<Longrightarrow> sched_inv W s \<Longrightarrow> sched_inv W s'"
  by (cases "ph s") (auto simp: sched_defs waitForBatchWindow_def startTimedPass_def split: option.splits if_splits)

lemma ended_inv: "sched_inv W s \<Longrightarrow> sched_inv W (s\<lparr>ph := Ended\<rparr>)"
  by (auto simp: sched_inv_def prompt_def paced_phase_def split: option.splits)

lemma sched_step_inv: "0 \<le> W \<Longrightarrow> sched_step W s s' \<Longrightarrow> sched_inv W s \<Longrightarrow> sched_inv W s'"
  by (erule sched_stepE)
    (blast intro: poke_inv advance_inv waitForDirty_inv flushBurst_inv holdRetry_inv batchWindow_inv ended_inv)+

lemma newSched_inv: "sched_inv W (newSched now)"
  by (simp add: sched_inv_def prompt_def paced_phase_def newSched_def)

interpretation sched: step_system "\<lambda>s. \<exists>now. s = newSched now" "sched_step (int W)" "sched_inv (int W)" for W
  by unfold_locales (auto intro: newSched_inv sched_step_inv)

text \<open>There is always a next step other than a poke or the end, except for a pass that has no time left but to end.\<close>

lemma sched_progress:
  assumes "sched_inv W s" "ph s \<noteq> Ended"
  shows "\<exists>s'. sched_step W s s' \<and> (clock s < clock s' \<or> ph s' \<noteq> ph s) \<and> ph s' \<noteq> Ended"
proof (cases "ph s")
  case WaitDirty
  show ?thesis
  proof (cases "dirtyChan s")
    case True
    then have "waitForDirty s = Some (startPass s)" using WaitDirty by (simp add: waitForDirty_def)
    then show ?thesis using dirty_seen WaitDirty by (intro exI [of _ "startPass s"]) (simp add: startPass_def)
  next
    case False
    then have "may_advance W 1 s" using WaitDirty by (simp add: may_advance_def)
    then show ?thesis using advance WaitDirty by (intro exI [of _ "s\<lparr>clock := clock s + 1\<rparr>"]) simp
  qed
next
  case (HoldRetry u)
  show ?thesis
  proof (cases "dirtyChan s \<or> clock s \<ge> u")
    case True
    then have "waitForHoldRetry (\<not> dirtyChan s) s = Some (if dirtyChan s then startPass s else startTimedPass s)"
      using HoldRetry by (auto simp: waitForHoldRetry_def)
    then obtain timer s' where "waitForHoldRetry timer s = Some s'" "ph s' = Passing (clock s)"
      by (cases "dirtyChan s") (auto simp: startPass_def startTimedPass_def)
    then show ?thesis using hold_retry HoldRetry by (intro exI [of _ s']) auto
  next
    case False
    then have "may_advance W (u - clock s) s" using HoldRetry by (simp add: may_advance_def)
    then show ?thesis using advance [of W "u - clock s" s] HoldRetry False
      by (intro exI [of _ "s\<lparr>clock := clock s + (u - clock s)\<rparr>"]) auto
  qed
next
  case (BatchWindow e gotMore)
  show ?thesis
  proof (cases "clock s \<ge> e")
    case True
    then obtain s' where "waitForBatchWindow True s = Some s'" "ph s' \<noteq> ph s" "ph s' \<noteq> Ended"
      using BatchWindow by (cases gotMore) (auto simp: waitForBatchWindow_def startTimedPass_def)
    then show ?thesis using batch_window by (intro exI [of _ s']) auto
  next
    case False
    show ?thesis
    proof (cases "dirtyChan s \<and> \<not> gotMore")
      case True
      then have "waitForBatchWindow False s = Some (s\<lparr>ph := BatchWindow e True, dirtyChan := False\<rparr>)"
        using BatchWindow by (simp add: waitForBatchWindow_def)
      then show ?thesis using batch_window BatchWindow True
        by (intro exI [of _ "s\<lparr>ph := BatchWindow e True, dirtyChan := False\<rparr>"]) auto
    next
      case quiet: False
      then have "may_advance W (e - clock s) s" using BatchWindow False by (auto simp: may_advance_def)
      then show ?thesis using advance [of W "e - clock s" s] BatchWindow False
        by (intro exI [of _ "s\<lparr>clock := clock s + (e - clock s)\<rparr>"]) auto
    qed
  qed
next
  case (Passing t)
  then obtain s' where "flushBurst None s = Some s'" "ph s' = BatchWindow (clock s + flushInterval) False"
    by (simp add: flushBurst_def)
  then show ?thesis using pass_end Passing by (intro exI [of _ s']) auto
qed (use assms(2) in simp)

text \<open>
  C31: the flush scheduler is prompt, paced and live.  When a pass lasts at most W: a poke is served by a pass that begins
  at most W and one flush interval (50 ms) after it, at once when the scheduler is idle; after a pass that was
  not held the next begins at least one flush interval later; a held pass is retried at the latest when
  its hold ends; and in every reachable state the scheduler can move or time can pass.
\<close>

theorem scheduler_prompt_and_paced:
  assumes "(sched_step (int W))\<^sup>*\<^sup>* (newSched now) s" "ph s \<noteq> Ended"
  shows "(\<forall>p. unserved s = Some p \<longrightarrow> clock s \<le> p + int W + flushInterval)
    \<and> (\<forall>t u. ph s = Passing t \<longrightarrow> lastEnd s = Some (u, False) \<longrightarrow> u + flushInterval \<le> t)
    \<and> (\<forall>u. ph s = HoldRetry u \<longrightarrow> clock s \<le> u)
    \<and> (ph s = WaitDirty \<and> dirtyChan s \<longrightarrow> (\<forall>d. \<not> may_advance (int W) d s))
    \<and> (\<exists>s'. sched_step (int W) s s' \<and> (clock s < clock s' \<or> ph s' \<noteq> ph s) \<and> ph s' \<noteq> Ended)"
proof -
  have inv: "sched_inv (int W) s"
    by (rule sched.reachable_inv [OF _ assms(1)]) blast
  have "clock s \<le> p + int W + flushInterval" if "unserved s = Some p" for p
    using inv that assms(2) by (cases "ph s") (auto simp: sched_inv_def prompt_def paced_phase_def flushInterval_def)
  moreover have "\<not> may_advance (int W) d s" if "ph s = WaitDirty" "dirtyChan s" for d
    using that by (simp add: may_advance_def)
  ultimately show ?thesis
    using inv sched_progress [OF inv assms(2)] by (auto simp: sched_inv_def paced_phase_def split: sched_phase.splits)
qed

lemma scheduler_prompt_and_paced_witness:
  "unserved (poke (newSched 0)) = Some 0 \<and> clock (poke (newSched 0)) \<le> 0 + int 5 + flushInterval"
proof -
  have "(sched_step (int 5))\<^sup>*\<^sup>* (newSched 0) (poke (newSched 0))"
    by (rule r_into_rtranclp) (rule sched_step.poked)
  moreover have "ph (poke (newSched 0)) \<noteq> Ended" "unserved (poke (newSched 0)) = Some 0"
    by (simp_all add: poke_def newSched_def)
  ultimately show ?thesis using scheduler_prompt_and_paced [of 5 0 "poke (newSched 0)"] by blast
qed

end
