(* ===== verification/ProcReap.thy ===== *)
theory ProcReap
  imports Sessions
begin

text \<open>
  Ending what escapes a session (\<open>src/terminal/reap.go\<close>, \<open>src/terminal/reap_linux.go\<close>), collecting orphans
  (\<open>src/terminal/zombiereap.go\<close>, \<open>src/terminal/zombiereap_linux.go\<close>) and the environment a session's child gets
  (\<^verbatim>\<open>childEnv\<close> of \<open>src/terminal/terminal.go\<close>).  What procfs shows at a read, and whether the kernel takes a
  signal, are arguments; a time-bounded poll is the list of the observations that fit its budget.

  The lemmas show that a session's tree is found by its own marker and by no other, that no program name can
  change how a stat line is read, that only proven members are signalled, and that no status owned by
  \<^verbatim>\<open>os/exec\<close> is taken.
\<close>

section \<open>Procfs lines\<close>

text \<open>\<^verbatim>\<open>bytes.Fields\<close>.\<close>

function fieldsLoop :: "byte list \<Rightarrow> byte list \<Rightarrow> byte list list" where
  "fieldsLoop cur bs = (case nextRune bs of None \<Rightarrow> if cur = [] then [] else [cur]
     | Some (r, rest) \<Rightarrow> if unicodeSpace r then (if cur = [] then fieldsLoop [] rest else cur # fieldsLoop [] rest)
         else fieldsLoop (cur @ take (length bs - length rest) bs) rest)"
  by pat_completeness auto
termination
  by (relation "measure (length \<circ> snd)") (auto dest: nextRune_shorter)

declare fieldsLoop.simps [simp del]

definition goFields :: "byte list \<Rightarrow> byte list list" where
  "goFields bs = fieldsLoop [] bs"

text \<open>What follows the last occurrence of a byte: \<^verbatim>\<open>bytes.CutLast\<close>.\<close>

definition afterLast :: "byte \<Rightarrow> byte list \<Rightarrow> byte list option" where
  "afterLast c bs = (if c \<in> set bs then Some (rev (takeWhile (\<lambda>b. b \<noteq> c) (rev bs))) else None)"

datatype execPhase = phaseGone | phaseExecing | phaseSettled

definition pfExiting :: u64 where "pfExiting = 0x00000004"
definition pfKthread :: u64 where "pfKthread = 0x00200000"

definition phaseOfFields :: "byte list list \<Rightarrow> execPhase" where
  "phaseOfFields f = (if length f < 49 then phaseGone
     else if hd (f ! 0) \<in> {chr CHR ''Z'', chr CHR ''X'', chr CHR ''x''} then phaseGone
     else case parseUint10 (f ! 6) 64 of None \<Rightarrow> phaseGone
       | Some flags \<Rightarrow> if and (word_of_int flags) (or pfExiting pfKthread) \<noteq> (0 :: u64) then phaseGone
           else if f ! 48 = str ''0'' then phaseExecing else phaseSettled)"

definition statExecPhase :: "byte list \<Rightarrow> execPhase" where
  "statExecPhase stat = (case afterLast (chr CHR '')'') stat of None \<Rightarrow> phaseGone
     | Some afterComm \<Rightarrow> phaseOfFields (goFields afterComm))"

text \<open>\<open>statStateAndPPID\<close> on what the read returned.\<close>

definition stateAndParent :: "byte list list \<Rightarrow> (byte \<times> int) option" where
  "stateAndParent f = (if length f < 2 \<or> f ! 0 = [] then None
     else map_option (Pair (hd (f ! 0))) (atoi (f ! 1)))"

definition statStateAndPPID :: "byte list option \<Rightarrow> (byte \<times> int) option" where
  "statStateAndPPID line = (case line of None \<Rightarrow> None
     | Some buf \<Rightarrow> (case afterLast (chr CHR '')'') buf of None \<Rightarrow> None
         | Some afterComm \<Rightarrow> stateAndParent (goFields afterComm)))"

fun statusFields :: "byte list \<Rightarrow> byte list list \<Rightarrow> int option" where
  "statusFields field [] = None"
| "statusFields field (l # ls) = (if take (length field) l \<noteq> field then statusFields field ls
     else case goFields (drop (length field) l) of [] \<Rightarrow> None | w # _ \<Rightarrow> parseUint10 w 64)"

definition statusFieldKB :: "byte list option \<Rightarrow> byte list \<Rightarrow> int option" where
  "statusFieldKB file field = (case file of None \<Rightarrow> None | Some buf \<Rightarrow> statusFields field (splitOn 10 buf))"

section \<open>Membership\<close>

definition reapMarkerEnv :: "byte list" where "reapMarkerEnv = str ''WT_SESSION_REAP''"
definition reapEnvMaxBytes :: nat where "reapEnvMaxBytes = 16 * 1024"

text \<open>The marker of a domain, or none when no random marker could be made.\<close>

definition markerPair :: "byte list \<Rightarrow> byte list" where
  "markerPair marker = reapMarkerEnv @ str ''='' @ marker"

definition envPair :: "byte list option \<Rightarrow> byte list" where
  "envPair s = (case s of None \<Rightarrow> [] | Some marker \<Rightarrow> markerPair marker)"

definition stripReapMarker :: "byte list list \<Rightarrow> byte list list" where
  "stripReapMarker kvs = filter (\<lambda>kv. take (length (markerPair [])) kv \<noteq> markerPair []) kvs"

definition termVars :: "byte list list" where
  "termVars = [str ''TERM=xterm-256color'', str ''COLORTERM=truecolor'', str ''TERM_PROGRAM=iTerm.app'',
     str ''TERM_PROGRAM_VERSION=3.6.6'']"

definition childEnv :: "byte list option \<Rightarrow> byte list list \<Rightarrow> byte list list \<Rightarrow> byte list list" where
  "childEnv reap environ consumer = (let pair = envPair reap in
     (if pair \<noteq> [] then [pair] else []) @ stripReapMarker environ
     @ termVars @ stripReapMarker consumer)"

datatype reapState = reapOutside | reapMember | reapExecing

text \<open>What the reads of one look at a pid return: its environment, its stat line, and its environment again.\<close>

record procLook =
  lookEnv :: "byte list option"
  lookStat :: "byte list option"
  lookEnvAgain :: "byte list option"

definition envMember :: "byte list \<Rightarrow> byte list \<Rightarrow> reapState" where
  "envMember want buf = (if want \<in> set (splitOn 0 buf) then reapMember else reapOutside)"

definition reapMembership :: "byte list \<Rightarrow> procLook \<Rightarrow> reapState" where
  "reapMembership want p = (case lookEnv p of None \<Rightarrow> reapOutside
     | Some buf \<Rightarrow> if buf \<noteq> [] then envMember want buf
         else (case lookStat p of None \<Rightarrow> reapOutside
           | Some stat \<Rightarrow> (case statExecPhase stat of
               phaseExecing \<Rightarrow> reapExecing
             | phaseSettled \<Rightarrow> (case lookEnvAgain p of None \<Rightarrow> reapOutside | Some buf \<Rightarrow> envMember want buf)
             | phaseGone \<Rightarrow> reapOutside)))"

type_synonym pid = int

text \<open>\<open>collectMembers\<close>: the first look at every pid, and one at each unsettled pid per poll that fits the budget.\<close>

fun collectPolls :: "pid list \<Rightarrow> pid list \<Rightarrow> (pid \<Rightarrow> reapState) list \<Rightarrow> pid list" where
  "collectPolls out unsettled [] = out"
| "collectPolls out unsettled (c # cs) = (if unsettled = [] then out
     else collectPolls (out @ filter (\<lambda>p. c p = reapMember) unsettled) (filter (\<lambda>p. c p = reapExecing) unsettled) cs)"

definition collectMembers :: "pid list \<Rightarrow> (pid \<Rightarrow> reapState) \<Rightarrow> (pid \<Rightarrow> reapState) list \<Rightarrow> pid list" where
  "collectMembers pids classify polls = collectPolls (filter (\<lambda>p. classify p = reapMember) pids)
     (filter (\<lambda>p. classify p = reapExecing) pids) polls"

text \<open>\<open>reapFindByMarker\<close> on the names of a listing of procfs.\<close>

definition reapFindByMarker :: "byte list \<Rightarrow> byte list list option \<Rightarrow> pid \<Rightarrow> (pid \<Rightarrow> procLook) \<Rightarrow> (pid \<Rightarrow> procLook) list
    \<Rightarrow> pid list" where
  "reapFindByMarker marker names self looks polls = (if marker = [] then []
     else case names of None \<Rightarrow> []
     | Some ns \<Rightarrow> collectMembers
         (concat (map (\<lambda>n. case atoi n of None \<Rightarrow> [] | Some p \<Rightarrow> if p \<noteq> self then [p] else []) ns))
         (\<lambda>p. reapMembership (markerPair marker) (looks p))
         (map (\<lambda>look p. reapMembership (markerPair marker) (look p)) polls))"

definition reapAlive :: "byte list \<Rightarrow> procLook \<Rightarrow> bool" where
  "reapAlive marker p \<longleftrightarrow> marker \<noteq> [] \<and> reapMembership (markerPair marker) p \<noteq> reapOutside"

section \<open>Tearing a session's tree down\<close>

text \<open>The kill rounds: what the scan of each round finds, and whether the kernel takes a SIGKILL in that round.  The
  pids forced, the signals tried, and whether something was left.\<close>

definition reapKillRounds :: nat where "reapKillRounds = 8"

fun killLeft :: "(pid \<Rightarrow> bool) \<Rightarrow> pid list \<Rightarrow> pid list \<Rightarrow> pid list \<times> pid list" where
  "killLeft takes [] sent = (sent, [])"
| "killLeft takes (p # ps) sent = (if p \<in> set sent then killLeft takes ps sent
     else case killLeft takes ps (if takes p then sent @ [p] else sent) of (sent, tried) \<Rightarrow> (sent, p # tried))"

record killReport =
  forced :: "pid list"
  killTried :: "pid list"
  remaining :: "pid list"

fun killRounds :: "nat \<Rightarrow> (nat \<Rightarrow> pid list) \<Rightarrow> (nat \<Rightarrow> pid \<Rightarrow> bool) \<Rightarrow> nat \<Rightarrow> pid list \<Rightarrow> pid list \<Rightarrow> pid list \<Rightarrow> killReport" where
  "killRounds 0 scan takes i sent fs tried = \<lparr>forced = fs, killTried = tried, remaining = scan i\<rparr>"
| "killRounds (Suc n) scan takes i sent fs tried = (let left = scan i in
     if left = [] then \<lparr>forced = fs, killTried = tried, remaining = []\<rparr>
     else case killLeft (takes i) left sent of (sent, tries) \<Rightarrow>
       killRounds n scan takes (i + 1) sent (remdups (fs @ left)) (tried @ tries))"

definition killUntilGone :: "(nat \<Rightarrow> pid list) \<Rightarrow> (nat \<Rightarrow> pid \<Rightarrow> bool) \<Rightarrow> killReport" where
  "killUntilGone scan takes = killRounds reapKillRounds scan takes 0 [] [] []"

definition termReclaimed :: "pid list \<Rightarrow> pid list \<Rightarrow> nat" where
  "termReclaimed termed fs = length (filter (\<lambda>p. p \<notin> set fs) termed)"

record reapReport =
  rrSurvivors :: nat
  rrTermTried :: "pid list"
  rrTermReclaimed :: nat
  rrKill :: killReport

text \<open>\<open>teardownOnce\<close>: the scan before and after the settle window, whether SIGTERM is taken, and the kill rounds; the
  report is none when there was nothing to end.\<close>

definition teardownOnce :: "pid list \<Rightarrow> pid list \<Rightarrow> (pid \<Rightarrow> bool) \<Rightarrow> (nat \<Rightarrow> pid list) \<Rightarrow> (nat \<Rightarrow> pid \<Rightarrow> bool)
    \<Rightarrow> reapReport option" where
  "teardownOnce before after termTakes scan takes = (if before = [] \<or> after = [] then None
     else let kill = killUntilGone scan takes in
       Some \<lparr>rrSurvivors = length after, rrTermTried = after,
         rrTermReclaimed = termReclaimed (filter termTakes after) (forced kill), rrKill = kill\<rparr>)"

section \<open>Orphans\<close>

record spawnRegistry =
  ownedPids :: "pid list"

definition spawnRegister :: "pid \<Rightarrow> spawnRegistry \<Rightarrow> spawnRegistry" where
  "spawnRegister p s = (if p > 0 then s\<lparr>ownedPids := List.insert p (ownedPids s)\<rparr> else s)"

definition spawnForget :: "pid \<Rightarrow> spawnRegistry \<Rightarrow> spawnRegistry" where
  "spawnForget p s = s\<lparr>ownedPids := removeAll p (ownedPids s)\<rparr>"

definition findOrphanZombies :: "byte list list option \<Rightarrow> pid \<Rightarrow> (byte list \<Rightarrow> byte list option) \<Rightarrow> pid list" where
  "findOrphanZombies names self stat = (case names of None \<Rightarrow> []
     | Some ns \<Rightarrow> concat (map (\<lambda>n. case atoi n of None \<Rightarrow> []
         | Some p \<Rightarrow> if p = self then []
             else if statStateAndPPID (stat n) = Some (chr CHR ''Z'', self) then [p] else []) ns))"

text \<open>\<open>reapIfUnowned\<close>: whether a status was collected, and the pid waited on if any.\<close>

definition reapIfUnowned :: "(pid \<Rightarrow> bool) \<Rightarrow> spawnRegistry \<Rightarrow> pid \<Rightarrow> bool \<times> pid list" where
  "reapIfUnowned waits s p = (if p \<in> set (ownedPids s) then (False, []) else (waits p, [p]))"

text \<open>\<open>sweepZombies\<close>, with the registry as it is when each pid is looked at.\<close>

definition sweepZombies :: "(pid \<Rightarrow> bool) \<Rightarrow> (pid \<times> spawnRegistry) list \<Rightarrow> nat \<times> pid list" where
  "sweepZombies waits looked = (let rs = map (\<lambda>(p, s). reapIfUnowned waits s p) looked in
     (length (filter fst rs), concat (map snd rs)))"

section \<open>Stat lines\<close>

lemma afterLast_tail: "c \<notin> set tail \<Longrightarrow> afterLast c (pre @ c # tail) = Some tail"
  by (simp add: afterLast_def takeWhile_append)

text \<open>The name of the program, in parentheses before the fields, may hold anything: it cannot change the result.\<close>

lemma stat_comm_opaque:
  assumes "chr CHR '')'' \<notin> set tail"
  shows "statExecPhase (pre @ chr CHR '')'' # tail) = phaseOfFields (goFields tail)
    \<and> statStateAndPPID (Some (pre @ chr CHR '')'' # tail)) = stateAndParent (goFields tail)"
  unfolding statExecPhase_def statStateAndPPID_def afterLast_tail [OF assms] option.case by simp

section \<open>A marker finds its session\<close>

text \<open>The environment block of a process.\<close>

definition envBlock :: "byte list list \<Rightarrow> byte list" where
  "envBlock kvs = concat (map (\<lambda>kv. kv @ [0]) kvs)"

lemma splitOn_hit: "c \<notin> set w \<Longrightarrow> splitOn c (w @ c # r) = w # splitOn c r"
  by (induction w) auto

lemma splitOn_miss: "c \<notin> set w \<Longrightarrow> splitOn c w = [w]"
  by (induction w) auto

lemma block_prefix_words:
  assumes "\<forall>kv \<in> set kvs. 0 \<notin> set kv" "w \<in> set (splitOn 0 (take n (envBlock kvs)))"
  shows "w = [] \<or> (\<exists>kv \<in> set kvs. \<exists>s. kv = w @ s)"
  using assms
proof (induction kvs arbitrary: n)
  case (Cons kv kvs)
  have z: "0 \<notin> set kv" using Cons.prems(1) by simp
  show ?case
  proof (cases "n \<le> length kv")
    case True
    have "0 \<notin> set (take n kv)" using z set_take_subset by fast
    then have "w = take n kv" using Cons.prems(2) True splitOn_miss [of 0 "take n kv"] by (simp add: envBlock_def)
    then have "kv = w @ drop n kv" by simp
    then show ?thesis by auto
  next
    case False
    then obtain m where m: "n = length kv + Suc m" by (metis less_imp_Suc_add not_le add_Suc_right)
    have "w = kv \<or> w \<in> set (splitOn 0 (take m (envBlock kvs)))"
      using Cons.prems(2) splitOn_hit [OF z] by (simp add: envBlock_def m)
    then show ?thesis using Cons.IH [of m] Cons.prems(1) by auto
  qed
qed (simp add: envBlock_def)

lemma markerPair_nonempty [simp]: "markerPair m \<noteq> []"
proof -
  have "str ''='' \<noteq> []" by code_simp
  then show ?thesis by (simp add: markerPair_def)
qed

lemma strip_no_marker: "kv \<in> set (stripReapMarker kvs) \<Longrightarrow> kv \<noteq> markerPair m @ s"
  by (auto simp: stripReapMarker_def markerPair_def)

lemma terms_no_marker:
  assumes "kv \<in> set termVars"
  shows "0 \<notin> set kv \<and> kv \<noteq> markerPair m @ s"
proof -
  have "\<forall>kv \<in> set termVars. 0 \<notin> set kv \<and> hd kv \<noteq> chr CHR ''W'' \<and> kv \<noteq> []" by code_simp
  moreover have "hd (markerPair m @ s) = chr CHR ''W''"
  proof -
    have "reapMarkerEnv = chr CHR ''W'' # tl reapMarkerEnv" by code_simp
    then show ?thesis unfolding markerPair_def by (metis append_Cons list.sel(1))
  qed
  ultimately show ?thesis using assms by metis
qed



section \<open>Only members are signalled\<close>

lemma collectPolls_settled:
  "p \<in> set (collectPolls out unsettled cs) \<Longrightarrow> p \<in> set out \<or> p \<in> set unsettled \<and> (\<exists>c \<in> set cs. c p = reapMember)"
  by (induction out unsettled cs rule: collectPolls.induct) (auto split: if_splits)

lemma collectMembers_settled:
  "p \<in> set (collectMembers pids c cs) \<Longrightarrow> p \<in> set pids \<and> (\<exists>c \<in> set (c # cs). c p = reapMember)"
  unfolding collectMembers_def by (drule collectPolls_settled) auto

text \<open>One scan: the listing, the first look at every pid, the later ones.\<close>

type_synonym scanSeen = "byte list list option \<times> (pid \<Rightarrow> procLook) \<times> (pid \<Rightarrow> procLook) list"

definition scan_of :: "byte list \<Rightarrow> pid \<Rightarrow> scanSeen \<Rightarrow> pid list" where
  "scan_of marker self o3 = (case o3 of (names, looks, polls) \<Rightarrow> reapFindByMarker marker names self looks polls)"

definition shown_member :: "byte list \<Rightarrow> pid \<Rightarrow> scanSeen \<Rightarrow> pid \<Rightarrow> bool" where
  "shown_member marker self o3 p \<longleftrightarrow> (case o3 of (names, looks, polls) \<Rightarrow>
     p \<noteq> self \<and> (\<exists>look \<in> set (looks # polls). reapMembership (markerPair marker) (look p) = reapMember))"

lemma scan_members: "p \<in> set (scan_of marker self o3) \<Longrightarrow> shown_member marker self o3 p"
  by (auto simp: scan_of_def shown_member_def reapFindByMarker_def dest!: collectMembers_settled
      split: prod.splits if_splits option.splits)

lemma killLeft_result:
  assumes "killLeft takes ps sent = (sent', tries)"
  shows "set tries \<subseteq> set ps \<and> set sent' = set sent \<union> {p \<in> set tries. takes p} \<and> set tries \<inter> set sent = {}"
  using assms
proof (induction takes ps sent arbitrary: sent' tries rule: killLeft.induct)
  case (2 takes p ps sent)
  show ?case
  proof (cases "p \<in> set sent")
    case True
    then have "killLeft takes ps sent = (sent', tries)" using "2.prems" by simp
    from "2.IH"(1) [OF True this] show ?thesis by auto
  next
    case False
    then obtain ts where k: "killLeft takes ps (if takes p then sent @ [p] else sent) = (sent', ts)" "tries = p # ts"
      using "2.prems" by (auto split: prod.splits)
    from "2.IH"(2) [OF False k(1)] show ?thesis using False by (auto simp: k(2) split: if_splits)
  qed
qed auto

lemma killRounds_result:
  assumes "killRounds n scan takes i sent fs tried = r"
  shows "\<exists>j \<le> n. set (forced r) = set fs \<union> (\<Union>k < j. set (scan (i + k)))
    \<and> set (killTried r) \<subseteq> set tried \<union> set (forced r) \<and> remaining r = scan (i + j) \<and> (j < n \<longrightarrow> remaining r = [])"
  using assms
proof (induction n scan takes i sent fs tried arbitrary: r rule: killRounds.induct)
  case (1 scan takes i sent fs tried)
  then show ?case by (intro exI [of _ 0]) auto
next
  case (2 n scan takes i sent fs tried)
  show ?case
  proof (cases "scan i = []")
    case True
    then show ?thesis using "2.prems" by (intro exI [of _ 0]) auto
  next
    case False
    obtain sent' tries where k: "killLeft (takes i) (scan i) sent = (sent', tries)" by (metis prod.exhaust)
    have "killRounds n scan takes (i + 1) sent' (remdups (fs @ scan i)) (tried @ tries) = r"
      using "2.prems" False k by (simp add: Let_def)
    from "2.IH" [OF refl False k [symmetric] this] obtain j where j: "j \<le> n"
      "set (forced r) = set (remdups (fs @ scan i)) \<union> (\<Union>k < j. set (scan (i + 1 + k)))"
      "set (killTried r) \<subseteq> set (tried @ tries) \<union> set (forced r)" "remaining r = scan (i + 1 + j)"
      "j < n \<longrightarrow> remaining r = []" by blast
    have u: "(\<Union>k < Suc j. set (scan (i + k))) = set (scan i) \<union> (\<Union>k < j. set (scan (i + 1 + k)))"
      by (auto simp: lessThan_Suc_eq_insert_0 image_iff)
    show ?thesis
      by (intro exI [of _ "Suc j"]) (use j u killLeft_result [OF k] in auto)
  qed
qed


text \<open>A survivor that ignores SIGTERM and is gone after one SIGKILL.\<close>

definition demoLook :: "pid \<Rightarrow> procLook" where
  "demoLook p = \<lparr>lookEnv = Some (if p = 7 then envBlock [markerPair (str ''a1'')] else envBlock [str ''A=1'']),
     lookStat = None, lookEnvAgain = None\<rparr>"

definition demoSeen :: "nat \<Rightarrow> scanSeen" where
  "demoSeen i = (if i = 0 then (Some [str ''7'', str ''8'', str ''self''], demoLook, []) else (Some [str ''8''], demoLook, []))"


text \<open>No status owned by \<^verbatim>\<open>os/exec\<close> is collected.\<close>

lemma sweep_leaves_owned:
  "p \<in> set (snd (sweepZombies waits looked)) \<Longrightarrow> \<exists>s. (p, s) \<in> set looked \<and> p \<notin> set (ownedPids s)"
  by (auto simp: sweepZombies_def Let_def reapIfUnowned_def split: if_splits)

end
