(* ===== verification/GoSpace.thy ===== *)
theory GoSpace
  imports Sessions
begin

text \<open>
  \<^verbatim>\<open>strings.TrimSpace\<close>, \<^verbatim>\<open>bytes.TrimSpace\<close> and \<^verbatim>\<open>filepath.Base\<close> (of a Unix path), as Go documents them.
\<close>

text \<open>\<^verbatim>\<open>strings.TrimSpace\<close>.\<close>

function trimRightSpace :: "byte list \<Rightarrow> byte list" where
  "trimRightSpace bs = (case nextRune bs of None \<Rightarrow> []
     | Some (r, rest) \<Rightarrow> let t = trimRightSpace rest in
         if t = [] \<and> unicodeSpace r then [] else take (length bs - length rest) bs @ t)"
  by pat_completeness auto
termination
  by (relation "measure length") (auto dest: nextRune_shorter)

function trimLeftSpace :: "byte list \<Rightarrow> byte list" where
  "trimLeftSpace bs = (case nextRune bs of None \<Rightarrow> []
     | Some (r, rest) \<Rightarrow> if unicodeSpace r then trimLeftSpace rest else bs)"
  by pat_completeness auto
termination
  by (relation "measure length") (auto dest: nextRune_shorter)

declare trimRightSpace.simps [simp del] trimLeftSpace.simps [simp del]

definition goTrimSpace :: "byte list \<Rightarrow> byte list" where
  "goTrimSpace bs = trimRightSpace (trimLeftSpace bs)"


text \<open>\<open>filepathBase\<close>: trailing slashes go, then everything up to the last slash.\<close>

definition filepathBase :: "byte list \<Rightarrow> byte list" where
  "filepathBase path = (if path = [] then str ''.''
     else let p = dropWhile (\<lambda>b. b = 47) (rev path); e = rev (takeWhile (\<lambda>b. b \<noteq> 47) p) in
       if e = [] then str ''/'' else e)"

lemma filepathBase_segment: "filepathBase path = str ''/'' \<or> (filepathBase path \<noteq> [] \<and> 47 \<notin> set (filepathBase path))"
proof (cases "path = []")
  case True
  have "str ''.'' = [46]" by code_simp
  with True show ?thesis by (simp add: filepathBase_def)
next
  case False
  then show ?thesis by (auto simp: filepathBase_def Let_def dest: set_takeWhileD)
qed

end
