(* ===== verification/Containment.thy ===== *)
theory Containment
  imports ProcReap GoSpace
begin

text \<open>
  The cgroups sessions run in (\<open>src/terminal/containment.go\<close>, \<open>src/terminal/containment_linux.go\<close>).  The delegated root is a
  tree of cgroups, each with its live processes and its children by name; a directory can be removed when it has
  neither (the kernel's rule for rmdir).  What the kernel answers to the other calls is an argument: the checks of
  the file system, the probe of clone3, whether a process could be moved, whether the controllers could be
  enabled, whether a wait saw the tree drained.

  The lemmas show that no removal touches a live process or a foreign cgroup, that a root which is not this
  process's own is refused before anything changes, and that a session's directory name is safe.
\<close>

section \<open>Names\<close>

definition containMaxIDLen :: nat where "containMaxIDLen = 64"
definition containServerLeaf :: "byte list" where "containServerLeaf = str ''server''"
definition containProbeLeaf :: "byte list" where "containProbeLeaf = str ''probe''"

definition cgroupRune :: "rune \<Rightarrow> bool" where
  "cgroupRune r \<longleftrightarrow> (97 \<le> r \<and> r \<le> 122) \<or> (65 \<le> r \<and> r \<le> 90) \<or> (48 \<le> r \<and> r \<le> 57) \<or> r = 95 \<or> r = 45"

fun sanitizeLoop :: "byte list \<Rightarrow> rune list \<Rightarrow> byte list" where
  "sanitizeLoop b [] = b"
| "sanitizeLoop b (r # rs) = (let b = (if cgroupRune r then b @ [word_of_int r] else b) in
     if length b \<ge> containMaxIDLen then b else sanitizeLoop b rs)"

definition sanitizeCgroupName :: "byte list \<Rightarrow> byte list" where
  "sanitizeCgroupName name = sanitizeLoop [] (runesOf name)"

section \<open>Small files\<close>

definition readTrim :: "byte list option \<Rightarrow> byte list" where
  "readTrim file = (case file of None \<Rightarrow> [] | Some b \<Rightarrow> goTrimSpace b)"

definition readUint :: "byte list option \<Rightarrow> int" where
  "readUint file = (case parseUint10 (readTrim file) 64 of None \<Rightarrow> 0 | Some n \<Rightarrow> n)"

definition readCount :: "byte list option \<Rightarrow> int" where
  "readCount file = (case atoi (readTrim file) of None \<Rightarrow> 0 | Some n \<Rightarrow> if n < 0 then 0 else n)"

definition readPids :: "byte list option \<Rightarrow> pid list" where
  "readPids file = concat (map (\<lambda>w. case atoi w of None \<Rightarrow> [] | Some p \<Rightarrow> if p > 0 then [p] else [])
     (goFields (readTrim file)))"

fun populatedLine :: "byte list list \<Rightarrow> bool" where
  "populatedLine [] = False"
| "populatedLine (l # ls) = (if take 10 l = str ''populated '' then goTrimSpace (drop 10 l) = str ''1'' else populatedLine ls)"

definition eventsPopulated :: "byte list \<Rightarrow> bool" where
  "eventsPopulated body = populatedLine (splitOn 10 body)"

definition cgroup_populated :: "byte list option \<Rightarrow> bool" where
  "cgroup_populated file = populatedLine (splitOn 10 (readTrim file))"

section \<open>The tree\<close>

datatype cgroup = Cgroup (cg_procs: "pid list") (cg_kids: "(byte list \<times> cgroup) list")

text \<open>\<open>liveProcs\<close>: the processes of a cgroup and of everything beneath it.\<close>

fun liveProcs :: "cgroup \<Rightarrow> pid list" and liveKids :: "(byte list \<times> cgroup) list \<Rightarrow> pid list" where
  "liveProcs (Cgroup ps ks) = ps @ liveKids ks"
| "liveKids [] = []"
| "liveKids ((n, c) # ks) = liveProcs c @ liveKids ks"

text \<open>\<open>removeCgroupTree\<close>: what is left, if anything; the error of an inner removal is dropped.\<close>

fun removeCgroupTree :: "cgroup \<Rightarrow> cgroup option" and removeKids :: "(byte list \<times> cgroup) list \<Rightarrow> (byte list \<times> cgroup) list" where
  "removeCgroupTree (Cgroup ps ks) = (let ks = removeKids ks in if ps = [] \<and> ks = [] then None else Some (Cgroup ps ks))"
| "removeKids [] = []"
| "removeKids ((n, c) # ks) = (case removeCgroupTree c of None \<Rightarrow> removeKids ks | Some c \<Rightarrow> (n, c) # removeKids ks)"

definition nameHasPrefix :: "byte list \<Rightarrow> byte list \<Rightarrow> bool" where
  "nameHasPrefix p n \<longleftrightarrow> take (length p) n = p"

definition verifyOwnRoot :: "byte list \<Rightarrow> cgroup \<Rightarrow> bool" where
  "verifyOwnRoot prefix root \<longleftrightarrow> (\<forall>(n, c) \<in> set (cg_kids root). nameHasPrefix prefix n)"

fun sweepKids :: "byte list \<Rightarrow> (byte list \<times> cgroup) list \<Rightarrow> (byte list \<times> cgroup) list" where
  "sweepKids prefix [] = []"
| "sweepKids prefix ((n, c) # ks) = (if \<not> nameHasPrefix prefix n \<or> n = prefix @ containServerLeaf then (n, c) # sweepKids prefix ks
     else case removeCgroupTree c of None \<Rightarrow> sweepKids prefix ks | Some c \<Rightarrow> (n, c) # sweepKids prefix ks)"

definition cgroup_sweep :: "byte list \<Rightarrow> cgroup \<Rightarrow> cgroup" where
  "cgroup_sweep prefix root = Cgroup (cg_procs root) (sweepKids prefix (cg_kids root))"

fun addProcs :: "byte list \<Rightarrow> pid list \<Rightarrow> (byte list \<times> cgroup) list \<Rightarrow> (byte list \<times> cgroup) list" where
  "addProcs name ps [] = [(name, Cgroup ps [])]"
| "addProcs name ps ((n, c) # ks) = (if n = name then (n, Cgroup (cg_procs c @ ps) (cg_kids c)) # ks
     else (n, c) # addProcs name ps ks)"

text \<open>\<open>vacateRoot\<close>; each process moves, is gone by then, or cannot be moved.\<close>

datatype move_answer = Moved | ProcGone | MoveFailed

definition vacateRoot :: "byte list \<Rightarrow> (pid \<Rightarrow> move_answer) \<Rightarrow> cgroup \<Rightarrow> bool \<times> cgroup" where
  "vacateRoot prefix ans root = (let ps = cg_procs root in
     (filter (\<lambda>p. ans p = MoveFailed) ps = [],
      Cgroup (filter (\<lambda>p. ans p = MoveFailed) ps)
        (addProcs (prefix @ containServerLeaf) (filter (\<lambda>p. ans p = Moved) ps) (cg_kids root))))"

record hostAnswers =
  isCgroup2 :: bool
  rootListed :: bool
  probeMade :: bool
  cloneAllowed :: bool
  serverMade :: bool
  moves :: "pid \<Rightarrow> move_answer"
  delegateTaken :: bool
  undelegateTaken :: bool
  filesPresent :: bool

datatype contain_error = badArguments | notCgroup2 | notOwnRoot | cannotSpawn | cannotVacate | cannotDelegate | filesMissing

text \<open>The probes make a throwaway cgroup and remove it.  \<open>NewContainment\<close>: the error if any, the tree, and whether the controllers are enabled.\<close>

definition NewContainment :: "byte list \<Rightarrow> byte list \<Rightarrow> hostAnswers \<Rightarrow> cgroup \<times> bool \<Rightarrow> contain_error option \<times> cgroup \<times> bool" where
  "NewContainment rootDir prefix a st = (case st of (root, enabled) \<Rightarrow>
     if rootDir = [] \<or> prefix = [] then (Some badArguments, root, enabled)
     else if sanitizeCgroupName prefix \<noteq> prefix then (Some badArguments, root, enabled)
     else if \<not> isCgroup2 a then (Some notCgroup2, root, enabled)
     else if \<not> rootListed a \<or> \<not> verifyOwnRoot prefix root then (Some notOwnRoot, root, enabled)
     else let root = cgroup_sweep prefix root in
       if \<not> probeMade a \<or> \<not> cloneAllowed a then (Some cannotSpawn, root, enabled)
       else if \<not> serverMade a then (Some cannotVacate, root, enabled)
       else case vacateRoot prefix (moves a) root of (ok, root) \<Rightarrow>
         if \<not> ok then (Some cannotVacate, root, enabled)
         else if \<not> delegateTaken a then (Some cannotDelegate, root, enabled)
         else if \<not> filesPresent a then (Some filesMissing, root, \<not> undelegateTaken a)
         else (None, root, True))"

section \<open>A session's cgroup\<close>

datatype cgroup_error = emptyLeaf | reservedLeaf | notMade | notRemovable | openFailed

text \<open>\<open>create\<close>, with the name of the directory; one of that name from before is emptied, removed and made anew.
  Whether the kernel makes a directory that is not there, and whether it can be opened, are arguments.\<close>

definition makeLeaf :: "byte list \<Rightarrow> bool \<Rightarrow> bool \<Rightarrow> (byte list \<times> cgroup) list
    \<Rightarrow> (cgroup_error + byte list) \<times> (byte list \<times> cgroup) list" where
  "makeLeaf name made opened ks = (if \<not> made then (Inl notMade, ks)
     else if \<not> opened then (Inl openFailed, ks) else (Inr name, (name, Cgroup [] []) # ks))"

definition cgroup_create :: "byte list \<Rightarrow> SessionID \<Rightarrow> bool \<Rightarrow> bool \<Rightarrow> (byte list \<times> cgroup) list
    \<Rightarrow> (cgroup_error + byte list) \<times> (byte list \<times> cgroup) list" where
  "cgroup_create prefix k made opened ks = (let leaf = sanitizeCgroupName k; name = prefix @ leaf in
     if leaf = [] then (Inl emptyLeaf, ks)
     else if leaf = containServerLeaf \<or> leaf = containProbeLeaf then (Inl reservedLeaf, ks)
     else case map_of ks name of
       None \<Rightarrow> makeLeaf name made opened ks
     | Some c \<Rightarrow> (case removeCgroupTree c of
         Some c' \<Rightarrow> (Inl notRemovable, map (\<lambda>(n, d). if n = name then (n, c') else (n, d)) ks)
       | None \<Rightarrow> makeLeaf name made opened (filter (\<lambda>(n, d). n \<noteq> name) ks)))"

text \<open>\<open>teardownOnce\<close> as the calls it makes: whether each of the two waits saw the tree drained, the live processes when it
  was signalled and when it was killed.\<close>

datatype teardown_call = SigTerm pid | KillAll | WaitDrained | RemoveTree

definition cgroup_teardown :: "bool \<Rightarrow> bool \<Rightarrow> pid list \<Rightarrow> pid list \<Rightarrow> teardown_call list \<times> pid list" where
  "cgroup_teardown drained1 drained2 live1 live2 = (if drained1 then ([WaitDrained, RemoveTree], [])
     else ([WaitDrained] @ map SigTerm live1 @ [WaitDrained, KillAll, WaitDrained, RemoveTree],
       if drained2 then [] else live2))"

section \<open>Removal keeps the living\<close>

lemma remove_result:
  "(removeCgroupTree c = None \<longleftrightarrow> liveProcs c = []) \<and> (\<forall>c'. removeCgroupTree c = Some c' \<longrightarrow> liveProcs c' = liveProcs c)"
  "liveKids (removeKids ks) = liveKids ks \<and> (removeKids ks = [] \<longleftrightarrow> liveKids ks = [])"
proof (induction c and ks rule: removeCgroupTree_removeKids.induct)
  case (1 ps ks)
  then show ?case by (auto simp: Let_def)
next
  case (3 n c ks)
  show ?case
  proof (cases "removeCgroupTree c")
    case None
    then show ?thesis using 3(1) 3(2) [OF None] by simp
  next
    case (Some d)
    then have "liveProcs d = liveProcs c" "liveProcs c \<noteq> []" using 3(1) by auto
    then show ?thesis using 3(3) [OF Some] Some by simp
  qed
qed simp_all

text \<open>A sweep keeps what is foreign, its own leaf and everything with a live process, and removes the rest.\<close>

lemma sweep_keeps_live: "liveKids (sweepKids prefix ks) = liveKids ks"
proof (induction ks)
  case (Cons k ks)
  obtain n c where k: "k = (n, c)" by (cases k)
  show ?case
  proof (cases "removeCgroupTree c")
    case None
    then have "liveProcs c = []" using remove_result(1) [of c] by simp
    then show ?thesis using Cons.IH None by (simp add: k)
  next
    case (Some d)
    then have "liveProcs d = liveProcs c" using remove_result(1) [of c] by simp
    then show ?thesis using Cons.IH Some by (simp add: k)
  qed
qed simp

lemma sweep_names: "(n, c) \<in> set (sweepKids prefix ks) \<Longrightarrow> \<exists>d. (n, d) \<in> set ks
    \<and> (if \<not> nameHasPrefix prefix n \<or> n = prefix @ containServerLeaf then c = d else liveProcs c \<noteq> [])"
proof (induction ks)
  case (Cons k ks)
  obtain m d where k: "k = (m, d)" by (cases k)
  show ?case
  proof (cases "(n, c) \<in> set (sweepKids prefix ks)")
    case True
    then show ?thesis using Cons.IH by auto
  next
    case False
    then consider "n = m" "c = d" "\<not> nameHasPrefix prefix m \<or> m = prefix @ containServerLeaf"
      | "n = m" "removeCgroupTree d = Some c" "\<not> (\<not> nameHasPrefix prefix m \<or> m = prefix @ containServerLeaf)"
      using Cons.prems by (auto simp: k split: if_splits option.splits)
    then show ?thesis
    proof cases
      case 1
      then show ?thesis by (auto simp: k)
    next
      case 2
      then have "liveProcs c \<noteq> []" using remove_result(1) [of d] by auto
      with 2 show ?thesis by (intro exI [of _ d]) (simp add: k)
    qed
  qed
qed simp

lemma sweep_foreign: "(n, c) \<in> set ks \<Longrightarrow> \<not> nameHasPrefix prefix n \<Longrightarrow> (n, c) \<in> set (sweepKids prefix ks)"
  by (induction ks rule: sweepKids.induct) (auto split: option.splits)

section \<open>Setting up\<close>

lemma addProcs_live: "mset (liveKids (addProcs name ps ks)) = mset (liveKids ks) + mset ps"
proof (induction name ps ks rule: addProcs.induct)
  case (2 name ps n c ks)
  then show ?case by (cases c) auto
qed simp

lemma addProcs_names: "(n, c) \<in> set (addProcs name ps ks) \<Longrightarrow> n = name \<or> (n, c) \<in> set ks"
  by (induction name ps ks rule: addProcs.induct) (auto split: if_splits)

lemma moved_or_stays: "mset (filter (\<lambda>p. ans p \<noteq> ProcGone) ps) = mset (filter (\<lambda>p. ans p = MoveFailed) ps) + mset (filter (\<lambda>p. ans p = Moved) ps)"
proof (induction ps)
  case (Cons p ps)
  then show ?case by (cases "ans p") simp_all
qed simp

lemma vacateRoot_result:
  assumes "vacateRoot prefix ans root = (ok, root')"
  shows "(ok \<longrightarrow> cg_procs root' = [])
    \<and> mset (liveProcs root') = mset (liveKids (cg_kids root)) + mset (filter (\<lambda>p. ans p \<noteq> ProcGone) (cg_procs root))"
  using assms moved_or_stays [of ans "cg_procs root"] by (auto simp: vacateRoot_def Let_def addProcs_live filter_empty_conv simp del: mset_filter)

lemma swept_names:
  assumes "verifyOwnRoot prefix root" "(n, c) \<in> set (sweepKids prefix (cg_kids root))"
  shows "nameHasPrefix prefix n \<and> (n = prefix @ containServerLeaf \<or> liveProcs c \<noteq> [])"
  using sweep_names [OF assms(2)] assms(1) by (auto simp: verifyOwnRoot_def split: if_splits)


definition demoHost :: hostAnswers where
  "demoHost = \<lparr>isCgroup2 = True, rootListed = True, probeMade = True, cloneAllowed = True, serverMade = True,
     moves = (\<lambda>_. Moved), delegateTaken = True, undelegateTaken = True, filesPresent = True\<rparr>"


section \<open>A session's directory\<close>

lemma sanitizeLoop_safe:
  assumes "\<forall>x \<in> set b. cgroupRune (uint x)" "length b < containMaxIDLen"
  shows "(\<forall>x \<in> set (sanitizeLoop b rs). cgroupRune (uint x)) \<and> length (sanitizeLoop b rs) \<le> containMaxIDLen"
  using assms
proof (induction b rs rule: sanitizeLoop.induct)
  case (2 b r rs)
  define b' where "b' = (if cgroupRune r then b @ [word_of_int r] else b)"
  have "cgroupRune r \<Longrightarrow> uint (word_of_int r :: byte) = r"
    by (rule uint_byte_of_int) (auto simp: cgroupRune_def)
  then have safe: "\<forall>x \<in> set b'. cgroupRune (uint x)" "length b' \<le> containMaxIDLen"
    using "2.prems" by (auto simp: b'_def)
  show ?case
  proof (cases "length b' \<ge> containMaxIDLen")
    case True
    then have "sanitizeLoop b (r # rs) = b'" by (simp add: b'_def [symmetric] Let_def)
    then show ?thesis using safe by simp
  next
    case False
    then have "sanitizeLoop b (r # rs) = sanitizeLoop b' rs" by (simp add: b'_def [symmetric] Let_def)
    then show ?thesis using "2.IH" [OF b'_def] safe False by simp
  qed
qed simp

lemma sanitize_safe:
  "(\<forall>x \<in> set (sanitizeCgroupName k). cgroupRune (uint x)) \<and> length (sanitizeCgroupName k) \<le> containMaxIDLen"
  unfolding sanitizeCgroupName_def by (rule sanitizeLoop_safe) (simp_all add: containMaxIDLen_def)

lemma makeLeaf_made:
  "makeLeaf name made opened ks = (Inr n, ks') \<Longrightarrow> n = name \<and> ks' = (name, Cgroup [] []) # ks"
  by (auto simp: makeLeaf_def split: if_splits)

text \<open>
  C40: a session gets a directory of its own.  Whatever bytes the session's identifier holds, the directory made for it is
  directly under the prefix, its name has 1 to 64 letters, digits, underscores or dashes (so no path can be
  escaped), it is neither the server's own cgroup nor the probe's, it starts empty, and no other cgroup is
  touched; a cgroup of that name from before is only replaced when no live process is in it.
\<close>

theorem session_cgroup_safe:
  assumes "cgroup_create prefix k made opened ks = (Inr name, ks')"
  shows "\<exists>leaf. name = prefix @ leaf \<and> leaf \<noteq> [] \<and> length leaf \<le> 64 \<and> (\<forall>x \<in> set leaf. cgroupRune (uint x))
    \<and> name \<noteq> prefix @ containServerLeaf \<and> name \<noteq> prefix @ containProbeLeaf
    \<and> map_of ks' name = Some (Cgroup [] []) \<and> (\<forall>n. n \<noteq> name \<longrightarrow> map_of ks' n = map_of ks n)
    \<and> (\<forall>c. map_of ks name = Some c \<longrightarrow> liveProcs c = [])"
proof -
  let ?leaf = "sanitizeCgroupName k" let ?name = "prefix @ ?leaf"
  have leaf: "?leaf \<noteq> []" "?leaf \<noteq> containServerLeaf" "?leaf \<noteq> containProbeLeaf"
    using assms by (auto simp: cgroup_create_def Let_def split: if_splits)
  have "\<exists>kept. name = ?name \<and> ks' = (?name, Cgroup [] []) # kept \<and> (\<forall>n. n \<noteq> ?name \<longrightarrow> map_of kept n = map_of ks n)
    \<and> (\<forall>c. map_of ks ?name = Some c \<longrightarrow> liveProcs c = [])"
  proof (cases "map_of ks ?name")
    case None
    then have "makeLeaf ?name made opened ks = (Inr name, ks')"
      using assms leaf by (simp add: cgroup_create_def Let_def)
    from makeLeaf_made [OF this] None show ?thesis by auto
  next
    case (Some c)
    then have c: "removeCgroupTree c = None" "makeLeaf ?name made opened (filter (\<lambda>(n, d). n \<noteq> ?name) ks) = (Inr name, ks')"
      using assms leaf by (auto simp: cgroup_create_def Let_def split: option.splits)
    have "map_of (filter (\<lambda>(n, d). n \<noteq> ?name) ks) n = map_of ks n" if "n \<noteq> ?name" for n
      using that by (induction ks) auto
    then show ?thesis using makeLeaf_made [OF c(2)] c(1) remove_result(1) [of c] Some by auto
  qed
  then show ?thesis using leaf sanitize_safe [of k] by (intro exI [of _ ?leaf]) (auto simp: containMaxIDLen_def)
qed

lemma session_cgroup_safe_witness:
  "\<exists>name ks'. cgroup_create (str ''wt-'') (str ''../a b'') True True [(str ''wt-ab'', Cgroup [] [])] = (Inr name, ks')
    \<and> name = str ''wt-ab'' \<and> map_of ks' name = Some (Cgroup [] [])"
proof -
  let ?r = "cgroup_create (str ''wt-'') (str ''../a b'') True True [(str ''wt-ab'', Cgroup [] [])]"
  have "fst ?r = Inr (str ''wt-ab'')" by code_simp
  then have r: "?r = (Inr (str ''wt-ab''), snd ?r)" by (simp add: prod_eq_iff)
  from session_cgroup_safe [OF r] show ?thesis using r by blast
qed

end
