(* ===== verification/Spec2Isabelle.thy ===== *)
theory Spec2Isabelle
  imports Behaviour Pong Status TextTail Attached Scheduler Containment
begin

text \<open>
  This development models the Go code of a server-side terminal: \<^verbatim>\<open>src/vt\<close>, the emulator that turns a
  program's output into a screen, and \<^verbatim>\<open>src/terminal\<close>, the server that keeps one such screen per session,
  shows it to any number of browsers over WebSockets and keeps the sessions in one shared list.

  \<^bold>\<open>How the code is modelled.\<close>  A Go struct is a record, an enum a datatype or its numbers, a slice a
  list, a map a partial map or an association list where the code ranges over it.  Integers that the
  code lets wrap are words (\<open>u64\<close> acks and line indices, bytes, 16-bit parameters); Go's \<^verbatim>\<open>int\<close> is \<open>int\<close>
  where no bound is near.  Strings are lists of bytes; runes are \<open>int\<close>.  A function that may panic (an index
  out of range, a slice bound) returns an option, and \<open>None\<close> is the panic, so that a theorem that the
  code returns says so.  The clock, the random source, the outcome of a write, the order in which a
  \<^verbatim>\<open>range\<close> visits a map and everything the operating system reports are arguments.  Loops are structural
  recursion or \<open>fold\<close>; the two that are not are \<open>mintFrom\<close> (\<open>partial_function\<close>: \<open>None\<close> is a loop that never ends,
  and its termination is proved) and the functions with a \<open>measure\<close>.  No fuel is used.

  \<^bold>\<open>The emulator\<close> (\<^verbatim>\<open>src/vt\<close>).  \<open>VtTypes\<close> has its data (\<^verbatim>\<open>types.go\<close>) and the \<open>screen\<close> record (\<^verbatim>\<open>screen.go\<close>);
  \<open>ParserTable\<close> the transition table (\<^verbatim>\<open>table.go\<close>), \<open>Params\<close> the parameter accumulator, \<open>Utf8\<close> the decoder and
  \<open>Engine\<close> the byte loop \<open>feed\<close> and \<open>Write\<close> (\<^verbatim>\<open>parse.go\<close>), with \<open>Dispatch\<close> for CSI sequences (\<^verbatim>\<open>csi.go\<close>).
  \<open>Width\<close>, \<open>Charset\<close>, \<open>Screen\<close>, \<open>Grid\<close>, \<open>Print\<close>, \<open>Cursor\<close>, \<open>AltScreen\<close>, \<open>Sgr\<close>, \<open>Modes\<close>, \<open>Reports\<close>, \<open>Osc\<close> and
  \<open>ProgramStatus\<close> hold the handlers of the files they are named after; \<open>Wire\<close> turns rows into styled runs
  (\<^verbatim>\<open>wire.go\<close>).  \<open>Contract\<close> states, as the named collection \<open>op_ok\<close>, that an operation keeps the screen invariant
  \<open>wf\<close>, \<open>Frame\<close> what it leaves alone, and \<open>Behaviour\<close> composes them: no byte string panics the engine, and
  whole escape sequences mean what their handler does.  \<open>GoText\<close> writes out the parts of \<^verbatim>\<open>strings\<close>,
  \<^verbatim>\<open>strconv\<close> and \<^verbatim>\<open>base64\<close> the code uses, \<open>GoPrelude\<close> slices, loops and the locale \<open>step_system\<close> of
  reachable states and their invariant.

  \<^bold>\<open>The server\<close> (\<^verbatim>\<open>src/terminal\<close>).  The screen's scrolled-off lines go to a ring (\<open>Scrollback\<close>,
  \<^verbatim>\<open>scrollback.go\<close>) addressed by absolute line numbers; \<open>Flush\<close> (\<^verbatim>\<open>flush_builder.go\<close>) builds the next frame as the
  difference to the rows last sent, and \<open>Frames\<close> (\<^verbatim>\<open>wire_binary.go\<close>) encodes it.  \<open>Registry\<close>
  (\<^verbatim>\<open>client_registry.go\<close>) holds the sockets and the input ledgers they resume, \<open>Pong\<close> (\<^verbatim>\<open>ping.go\<close>,
  \<^verbatim>\<open>pingstat.go\<close>) detects a dead socket.  \<^verbatim>\<open>terminal.go\<close> joins these into one session: \<open>Handler\<close> has its state, start,
  end, size and redraw hold and the focus report of \<^verbatim>\<open>focus.go\<close>; \<open>Passes\<close> what a read of the PTY does and how a pass
  builds and writes a frame; \<open>Resume\<close> the resume batch and the history page; \<open>Framing\<close> one connection with its
  controls and read loop (and \<^verbatim>\<open>ephemeral_input.go\<close>); \<open>Attached\<close> composes them all into the run of a session with an
  attached client; \<open>Scheduler\<close> decides when a pass runs (\<^verbatim>\<open>flushLoop\<close>, \<^verbatim>\<open>flushBurst\<close> and their waits); \<open>TextTail\<close> is \<^verbatim>\<open>text.go\<close>, the session as plain text.  \<open>Layout\<close> and \<open>Sessions\<close> (\<^verbatim>\<open>session_manager.go\<close>) are the session
  list with its display order, names and two-pane layout, \<open>SessionSet\<close> (\<^verbatim>\<open>session_set.go\<close>) saves and restores it,
  \<open>Status\<close> (\<^verbatim>\<open>events.go\<close>) derives each session's status and streams the changes.  \<open>ProcReap\<close> (\<^verbatim>\<open>reap.go\<close>, \<^verbatim>\<open>reap_linux.go\<close>,
  \<^verbatim>\<open>zombiereap.go\<close>, \<^verbatim>\<open>zombiereap_linux.go\<close>) finds and ends what a session leaves running by the marker in its environment;
  \<open>Containment\<close> (\<^verbatim>\<open>containment.go\<close>, \<^verbatim>\<open>containment_linux.go\<close>) is the tree of cgroups the sessions run in.

  \<^bold>\<open>Interfaces.\<close>  \<open>step_system\<close> (reachable states and their invariant) is interpreted on the registry,
  the status stream, the flush scheduler and the session of an attached client; \<open>contract\<close> (an operation keeps the screen's invariant and leaves the parser alone) on the
  screen; \<open>line_log\<close> (what a replaying client relies on) on the ring; \<open>interval_table\<close> (a sorted table searched
  by bisection) on the two width tables.

  \<^bold>\<open>Not modelled.\<close>  \<^verbatim>\<open>contrast.go\<close> (float64 luminance; its result is a parameter of the screen), \<^verbatim>\<open>origin.go\<close>
  (it decides on the result of net/url's parser), spawning a child and the title probes (system calls; what
  they report is an argument, as are the looks at /proc, the signals and the kernel's answers to cgroup calls), the
  descriptors, poll loops and cost line of containment, the HTTP plumbing (routing, JSON bodies, server-sent
  events) and the token buckets (float64 seconds; whether a token was granted is an argument).
\<close>

end
